(* ===== verification/Prelude.thy ===== *)
theory Prelude
  imports Complex_Main "HOL-Library.Word" "HOL-Library.Multiset"
begin

text \<open>
  Shared vocabulary of the development: the C integer types at the widths of the native
  LP64 build (\<open>int\<close> 32 bit, \<open>long\<close>, \<open>size_t\<close>, \<open>uint64\<close> and pointers 64 bit), C's truncating
  division, checked array access, and the generic lemmas on lists, multisets and words the
  component theories use.
\<close>

unbundle bit_operations_syntax

section \<open>Types\<close>

type_synonym u32 = "32 word"
type_synonym u64 = "64 word"
type_synonym i32 = "32 word"
  \<comment> \<open>a signed \<open>int\<close> is the same bit pattern, read with \<open>sint\<close>\<close>

section \<open>Collections of simplification rules\<close>

named_theorems dbl_simps \<open>evaluation rules of the C double operations\<close>
named_theorems tv_simps \<open>unfolding rules of the time arithmetic\<close>
named_theorems res_simps \<open>unfolding rules of the result arrays\<close>
named_theorems chain_simps \<open>unfolding rules of the pointer chains\<close>

section \<open>C integer division\<close>

definition c_div :: "int \<Rightarrow> int \<Rightarrow> int" where
  "c_div a b = sgn a * sgn b * (\<bar>a\<bar> div \<bar>b\<bar>)"

definition c_mod :: "int \<Rightarrow> int \<Rightarrow> int" where
  "c_mod a b = a - b * c_div a b"

lemma c_div_nonneg [simp]: "0 \<le> a \<Longrightarrow> 0 < b \<Longrightarrow> c_div a b = a div b"
  by (cases "a = 0") (simp_all add: c_div_def)

lemma c_mod_nonneg [simp]: "0 \<le> a \<Longrightarrow> 0 < b \<Longrightarrow> c_mod a b = a mod b"
  by (simp add: c_mod_def minus_mult_div_eq_mod)

section \<open>Arrays\<close>

text \<open>An array is a list of the length it was allocated with. A read or a write outside of
  it is undefined in C; the model makes it the value \<open>None\<close>.\<close>

definition arr_get :: "'a list \<Rightarrow> nat \<Rightarrow> 'a option" where
  "arr_get xs i = (if i < length xs then Some (xs ! i) else None)"

definition arr_set :: "'a list \<Rightarrow> nat \<Rightarrow> 'a \<Rightarrow> 'a list option" where
  "arr_set xs i x = (if i < length xs then Some (xs[i := x]) else None)"

lemma arr_get_Some [simp]: "i < length xs \<Longrightarrow> arr_get xs i = Some (xs ! i)"
  by (simp add: arr_get_def)

lemma arr_get_None [simp]: "length xs \<le> i \<Longrightarrow> arr_get xs i = None"
  by (simp add: arr_get_def)

lemma arr_set_Some [simp]: "i < length xs \<Longrightarrow> arr_set xs i x = Some (xs[i := x])"
  by (simp add: arr_set_def)

lemma arr_set_None [simp]: "length xs \<le> i \<Longrightarrow> arr_set xs i x = None"
  by (simp add: arr_set_def)

definition swap :: "'a list \<Rightarrow> nat \<Rightarrow> nat \<Rightarrow> 'a list" where
  "swap xs i j = xs[i := xs ! j, j := xs ! i]"

lemma length_swap [simp]: "length (swap xs i j) = length xs"
  by (simp add: swap_def)

lemma mset_swap [simp]:
  "i < length xs \<Longrightarrow> j < length xs \<Longrightarrow> mset (swap xs i j) = mset xs"
  by (simp add: swap_def Multiset.mset_swap)

lemma nth_swap:
  "k < length xs \<Longrightarrow> i < length xs \<Longrightarrow> j < length xs \<Longrightarrow>
   swap xs i j ! k = (if k = j then xs ! i else if k = i then xs ! j else xs ! k)"
  by (auto simp: swap_def nth_list_update)

lemma ball_update: "\<forall>x \<in> set xs. P x \<Longrightarrow> P y \<Longrightarrow> \<forall>x \<in> set (xs[i := y]). P x"
  using set_update_subset_insert by fastforce

lemma distinct_mset_eq: "mset xs = mset ys \<Longrightarrow> distinct xs = distinct ys"
  by (rule mset_eq_imp_distinct_iff)

lemma those_map_value: "(\<And>x. x \<in> set xs \<Longrightarrow> f x = Some (g x)) \<Longrightarrow> those (map f xs) = Some (map g xs)"
  by (induction xs) auto

section \<open>Words\<close>

lemma unat64_less [simp]: "unat (x :: u64) < 18446744073709551616"
  using unsigned_less [of x] by (simp flip: of_nat_less_iff [where ?'a = int])

lemma unat_of_nat64: "n < 2 ^ 64 \<Longrightarrow> unat (of_nat n :: u64) = n"
  by (simp add: unat_of_nat take_bit_nat_eq_self)

lemma uint64_less [simp]: "uint (x :: u64) < 18446744073709551616"
  using unsigned_less [of x] by simp

lemma uint_of_int64 [simp]: "0 \<le> x \<Longrightarrow> x < 2 ^ 64 \<Longrightarrow> uint (of_int x :: u64) = x"
  by (simp add: unsigned_of_int take_bit_int_eq_self)

lemma push_bit3_u64: "n \<le> 2 ^ 27 \<Longrightarrow> unat (push_bit 3 (n :: u64)) = 8 * unat n"
proof -
  assume "n \<le> 2 ^ 27"
  then have "unat n \<le> 2 ^ 27" by (simp add: word_le_nat_alt)
  then show ?thesis by (simp add: push_bit_eq_mult unat_word_ariths)
qed

text \<open>Signed 64-bit arithmetic (\<open>int64_t\<close>, \<open>long\<close>): the two's complement result.\<close>

definition wrap64 :: "int \<Rightarrow> int" where
  "wrap64 x = sint (of_int x :: u64)"

lemma wrap64_id [simp]: "- (2 ^ 63) \<le> x \<Longrightarrow> x < 2 ^ 63 \<Longrightarrow> wrap64 x = x"
  by (simp add: wrap64_def signed_of_int signed_take_bit_int_eq_self)

text \<open>Signed 32-bit arithmetic (\<open>int\<close>).\<close>

definition wrap32 :: "int \<Rightarrow> int" where
  "wrap32 x = sint (of_int x :: i32)"

lemma wrap32_id [simp]: "- (2 ^ 31) \<le> x \<Longrightarrow> x < 2 ^ 31 \<Longrightarrow> wrap32 x = x"
  by (simp add: wrap32_def signed_of_int signed_take_bit_int_eq_self)

end
