(* ===== verification/CDouble.thy ===== *)
theory CDouble
  imports Prelude
begin

text \<open>
  C's \<open>double\<close>: IEEE 754 binary64 values with round-to-nearest-even. A finite value is
  its real number, an operation computes the exact real result and rounds it to 53
  significant bits (or to a multiple of \<open>2^-1074\<close> for subnormal results), overflow gives an
  infinity, and invalid operations give NaN. The two zeros are one value: the sources never
  divide by a zero whose sign could be negative. \<open>rnd\<close> is the rounding function; the locale
  \<open>rounding\<close> states the laws the component proofs use of it.
\<close>

section \<open>Rounding\<close>

function expo :: "real \<Rightarrow> int" where
  "expo x = (if x \<le> 0 then 0
             else if 2 \<le> x then expo (x / 2) + 1
             else if x < 1 then expo (2 * x) - 1
             else 0)"
  by pat_completeness auto
termination
proof (relation "measure (\<lambda>x. nat \<bar>\<lfloor>log 2 x\<rfloor>\<bar>)", goal_cases)
  case 1
  then show ?case by simp
next
  case (2 x)
  then have "log 2 (x / 2) = log 2 x - 1" by (simp add: log_divide)
  moreover have "1 \<le> log 2 x" using 2 by (simp add: le_log_iff)
  ultimately show ?case by (simp add: le_floor_iff)
next
  case (3 x)
  then have "log 2 (2 * x) = log 2 x + 1" by (simp add: log_mult)
  then have "\<lfloor>log 2 (2 * x)\<rfloor> = \<lfloor>log 2 x\<rfloor> + 1" by simp
  moreover have "\<lfloor>log 2 x\<rfloor> < 0" using 3 by (simp add: floor_less_iff)
  ultimately have "nat \<bar>\<lfloor>log 2 (2 * x)\<rfloor>\<bar> < nat \<bar>\<lfloor>log 2 x\<rfloor>\<bar>" by linarith
  then show ?case by simp
qed

declare expo.simps [simp del]

lemma expo_bounds: "0 < x \<Longrightarrow> 2 powi expo x \<le> x \<and> x < 2 powi (expo x + 1)"
proof (induction x rule: expo.induct)
  case (1 x)
  consider "2 \<le> x" | "x < 1" | "1 \<le> x" "x < 2" by linarith
  then show ?case
  proof cases
    case 1
    with "1.prems" "1.IH"(1) have "2 powi expo (x / 2) \<le> x / 2 \<and> x / 2 < 2 powi (expo (x / 2) + 1)"
      by simp
    with 1 "1.prems" show ?thesis
      by (simp add: expo.simps [of x] power_int_add)
  next
    case 2
    with "1.prems" "1.IH"(2) have "2 powi expo (2 * x) \<le> 2 * x \<and> 2 * x < 2 powi (expo (2 * x) + 1)"
      by simp
    with 2 "1.prems" show ?thesis
      by (simp add: expo.simps [of x] power_int_add power_int_diff)
  next
    case 3
    with "1.prems" show ?thesis by (simp add: expo.simps [of x])
  qed
qed

lemma expo_mono: "0 < x \<Longrightarrow> x \<le> y \<Longrightarrow> expo x \<le> expo y"
proof (rule ccontr)
  assume a: "0 < x" "x \<le> y" and "\<not> expo x \<le> expo y"
  then have "expo y + 1 \<le> expo x" by simp
  then have "(2::real) powi (expo y + 1) \<le> 2 powi expo x"
    by (intro power_int_increasing) auto
  with expo_bounds [of x] expo_bounds [of y] a show False by linarith
qed

lemma expo_less_iff: "0 < x \<Longrightarrow> expo x < k \<longleftrightarrow> x < 2 powi k"
proof
  assume x: "0 < x" and "expo x < k"
  then have "(2::real) powi (expo x + 1) \<le> 2 powi k"
    by (intro power_int_increasing) auto
  with expo_bounds [OF x] show "x < 2 powi k" by linarith
next
  assume x: "0 < x" and "x < 2 powi k"
  show "expo x < k"
  proof (rule ccontr)
    assume "\<not> expo x < k"
    then have "(2::real) powi k \<le> 2 powi expo x"
      by (intro power_int_increasing) auto
    with expo_bounds [OF x] \<open>x < 2 powi k\<close> show False by linarith
  qed
qed

text \<open>Round to the nearest integer, ties to the even one.\<close>

definition rne :: "real \<Rightarrow> int" where
  "rne y = (let f = \<lfloor>y\<rfloor>; d = y - of_int f in
            if d < 1 / 2 then f else if 1 / 2 < d then f + 1
            else if even f then f else f + 1)"

lemma rne_of_int [simp]: "rne (of_int n) = n"
  by (simp add: rne_def)

lemma rne_mono: "x \<le> y \<Longrightarrow> rne x \<le> rne y"
proof -
  assume xy: "x \<le> y"
  then have f: "\<lfloor>x\<rfloor> \<le> \<lfloor>y\<rfloor>" by (rule floor_mono)
  show ?thesis
  proof (cases "\<lfloor>x\<rfloor> = \<lfloor>y\<rfloor>")
    case True
    with xy show ?thesis by (auto simp: rne_def Let_def)
  next
    case False
    with f have "\<lfloor>x\<rfloor> + 1 \<le> \<lfloor>y\<rfloor>" by simp
    then show ?thesis by (auto simp: rne_def Let_def)
  qed
qed

text \<open>The exponent of the unit in the last place at \<open>x\<close>, and rounding to it.\<close>

definition ulp_exp :: "real \<Rightarrow> int" where
  "ulp_exp x = max (expo \<bar>x\<bar>) (- 1022) - 52"

definition rnd_pos :: "real \<Rightarrow> real" where
  "rnd_pos x = of_int (rne (x / 2 powi ulp_exp x)) * 2 powi ulp_exp x"

definition rnd :: "real \<Rightarrow> real" where
  "rnd x = (if x < 0 then - rnd_pos (- x) else if x = 0 then 0 else rnd_pos x)"

lemma rnd_0 [simp]: "rnd 0 = 0"
  by (simp add: rnd_def)

lemma rnd_minus [simp]: "rnd (- x) = - rnd x"
  by (simp add: rnd_def)

lemma rnd_pos_multiple: "x = of_int m * 2 powi ulp_exp x \<Longrightarrow> rnd_pos x = x"
  by (simp add: rnd_pos_def) (metis nonzero_mult_div_cancel_right power_int_not_zero rne_of_int zero_neq_numeral)

lemma rnd_pos_nonneg: "0 \<le> x \<Longrightarrow> 0 \<le> rnd_pos x"
  using rne_mono [of 0 "x / 2 powi ulp_exp x"] rne_of_int [of 0] by (simp add: rnd_pos_def)

lemma ulp_exp_ge: "- 1074 \<le> ulp_exp x"
  by (simp add: ulp_exp_def)

text \<open>A bound \<open>2^k\<close> that lies on the rounding grid of the binade is never crossed.\<close>

lemma rnd_pos_le_pow:
  assumes "0 < x" "x \<le> 2 powi k" "ulp_exp x \<le> k"
  shows "rnd_pos x \<le> 2 powi k"
proof -
  let ?e = "ulp_exp x"
  have "x / 2 powi ?e \<le> 2 powi (k - ?e)"
    using assms by (simp add: power_int_diff divide_right_mono)
  also have "\<dots> = of_int (2 ^ nat (k - ?e))"
    using assms by (simp add: power_int_def)
  finally have "rne (x / 2 powi ?e) \<le> 2 ^ nat (k - ?e)"
    by (metis rne_mono rne_of_int)
  then have "real_of_int (rne (x / 2 powi ?e)) \<le> 2 powi (k - ?e)"
    using assms by (simp add: power_int_def flip: of_int_le_iff)
  then show ?thesis
    by (simp add: rnd_pos_def power_int_diff pos_le_divide_eq)
qed

lemma rnd_pos_ge_pow:
  assumes "0 < x" "2 powi k \<le> x" "ulp_exp x \<le> k"
  shows "2 powi k \<le> rnd_pos x"
proof -
  let ?e = "ulp_exp x"
  have "of_int (2 ^ nat (k - ?e)) = (2 powi (k - ?e) :: real)"
    using assms by (simp add: power_int_def)
  also have "\<dots> \<le> x / 2 powi ?e"
    using assms by (simp add: power_int_diff divide_right_mono)
  finally have "2 ^ nat (k - ?e) \<le> rne (x / 2 powi ?e)"
    by (metis rne_mono rne_of_int)
  then have "2 powi (k - ?e) \<le> real_of_int (rne (x / 2 powi ?e))"
    using assms by (simp add: power_int_def flip: of_int_le_iff)
  then show ?thesis
    by (simp add: rnd_pos_def power_int_diff pos_divide_le_eq)
qed

lemma rnd_pos_mono:
  assumes "0 < x" "x \<le> y"
  shows "rnd_pos x \<le> rnd_pos y"
proof (cases "ulp_exp x = ulp_exp y")
  case True
  have "x / 2 powi ulp_exp y \<le> y / 2 powi ulp_exp y"
    using assms by (simp add: divide_right_mono)
  then show ?thesis
    by (simp add: rnd_pos_def True rne_mono)
next
  case False
  with expo_mono [of x y] assms have e: "expo x < expo y" "- 1022 < expo y"
    by (auto simp: ulp_exp_def)
  have "rnd_pos x \<le> 2 powi expo y"
    using assms e expo_less_iff [of x "expo y"]
    by (intro rnd_pos_le_pow) (auto simp: ulp_exp_def)
  also have "\<dots> \<le> rnd_pos y"
    using assms e expo_bounds [of y]
    by (intro rnd_pos_ge_pow) (auto simp: ulp_exp_def)
  finally show ?thesis .
qed

lemma rnd_nonneg: "0 \<le> x \<Longrightarrow> 0 \<le> rnd x"
  by (simp add: rnd_def rnd_pos_nonneg)

lemma rnd_mono: "x \<le> y \<Longrightarrow> rnd x \<le> rnd y"
proof -
  assume xy: "x \<le> y"
  consider "y < 0" | "x \<le> 0" "0 \<le> y" | "0 < x" using xy by linarith
  then show ?thesis
  proof cases
    case 1
    with xy rnd_pos_mono [of "- y" "- x"] show ?thesis by (simp add: rnd_def)
  next
    case 2
    then have "0 \<le> rnd (- x)" "0 \<le> rnd y" by (simp_all only: rnd_nonneg neg_0_le_iff_le)
    then show ?thesis by simp
  next
    case 3
    with xy rnd_pos_mono [of x y] show ?thesis by (simp add: rnd_def)
  qed
qed

text \<open>Integers of at most 53 bits, and their halves, are exact.\<close>

lemma expo_nonneg: "1 \<le> x \<Longrightarrow> 0 \<le> expo x"
  using expo_less_iff [of x 0] by simp

lemma rnd_pos_of_int:
  assumes "0 < n" "n \<le> 2 ^ 53"
  shows "rnd_pos (of_int n) = of_int n"
proof -
  let ?k = "expo (of_int n)"
  have k: "0 \<le> ?k" using assms by (intro expo_nonneg) simp
  have e: "ulp_exp (of_int n) = ?k - 52" using assms k by (simp add: ulp_exp_def)
  show ?thesis
  proof (cases "n = 2 ^ 53")
    case True
    have "?k = 53"
      using True expo_less_iff [of "of_int n" 54] expo_less_iff [of "of_int n" 53] by simp
    then show ?thesis
      using e True by (intro rnd_pos_multiple [of _ "2 ^ 52"]) simp
  next
    case False
    with assms have "real_of_int n < real_of_int (2 ^ 53)"
      by (subst of_int_less_iff) simp
    then have "?k < 53" using assms by (subst expo_less_iff) simp_all
    then have "(2::real) powi (?k - 52) = inverse (2 ^ nat (52 - ?k))"
      using power_int_minus [of "2::real" "52 - ?k"] by (simp add: power_int_def [of _ "52 - ?k"])
    then have "real_of_int n = of_int (n * 2 ^ nat (52 - ?k)) * 2 powi (?k - 52)"
      by simp
    then show ?thesis using e by (metis rnd_pos_multiple)
  qed
qed

lemma rnd_of_int [simp]: "\<bar>n\<bar> \<le> 2 ^ 53 \<Longrightarrow> rnd (of_int n) = of_int n"
  using rnd_pos_of_int [of n] rnd_pos_of_int [of "- n"] by (auto simp: rnd_def)


text \<open>The laws of the rounding function the clients rest on.\<close>

locale rounding =
  fixes r :: "real \<Rightarrow> real"
  assumes r_mono: "x \<le> y \<Longrightarrow> r x \<le> r y"
    and r_exact: "\<bar>n\<bar> \<le> 2 ^ 53 \<Longrightarrow> r (of_int n) = of_int n"
begin

lemma r_zero: "r 0 = 0"
  using r_exact [of 0] by simp

lemma r_nonneg: "0 \<le> x \<Longrightarrow> 0 \<le> r x"
  using r_mono [of 0 x] r_zero by simp

lemma r_ge_int: "\<bar>n\<bar> \<le> 2 ^ 53 \<Longrightarrow> of_int n \<le> x \<Longrightarrow> of_int n \<le> r x"
  using r_mono [of "of_int n" x] r_exact [of n] by simp

lemma r_le_int: "\<bar>n\<bar> \<le> 2 ^ 53 \<Longrightarrow> x \<le> of_int n \<Longrightarrow> r x \<le> of_int n"
  using r_mono [of x "of_int n"] r_exact [of n] by simp

end

interpretation rnd: rounding rnd
  by unfold_locales (auto intro: rnd_mono)

section \<open>Values and operations\<close>

datatype dbl = Fin real | PInf | MInf | NaN

definition dbl_max :: real where
  "dbl_max = 2 ^ 1024"

definition to_dbl :: "real \<Rightarrow> dbl" where
  "to_dbl x = (let r = rnd x in if dbl_max \<le> r then PInf else if r \<le> - dbl_max then MInf else Fin r)"

fun d_add :: "dbl \<Rightarrow> dbl \<Rightarrow> dbl" where
  "d_add (Fin x) (Fin y) = to_dbl (x + y)"
| "d_add NaN _ = NaN"
| "d_add _ NaN = NaN"
| "d_add PInf MInf = NaN"
| "d_add MInf PInf = NaN"
| "d_add PInf _ = PInf"
| "d_add MInf _ = MInf"
| "d_add _ y = y"

fun d_neg :: "dbl \<Rightarrow> dbl" where
  "d_neg (Fin x) = Fin (- x)"
| "d_neg PInf = MInf"
| "d_neg MInf = PInf"
| "d_neg NaN = NaN"

definition d_sub :: "dbl \<Rightarrow> dbl \<Rightarrow> dbl" where
  "d_sub x y = d_add x (d_neg y)"

definition inf_sgn :: "real \<Rightarrow> dbl" where
  "inf_sgn s = (if s = 0 then NaN else if 0 < s then PInf else MInf)"

fun d_mul :: "dbl \<Rightarrow> dbl \<Rightarrow> dbl" where
  "d_mul (Fin x) (Fin y) = to_dbl (x * y)"
| "d_mul NaN _ = NaN"
| "d_mul _ NaN = NaN"
| "d_mul (Fin x) PInf = inf_sgn x"
| "d_mul (Fin x) MInf = inf_sgn (- x)"
| "d_mul PInf (Fin y) = inf_sgn y"
| "d_mul MInf (Fin y) = inf_sgn (- y)"
| "d_mul PInf PInf = PInf"
| "d_mul PInf MInf = MInf"
| "d_mul MInf PInf = MInf"
| "d_mul MInf MInf = PInf"

fun d_div :: "dbl \<Rightarrow> dbl \<Rightarrow> dbl" where
  "d_div (Fin x) (Fin y) = (if y = 0 then inf_sgn x else to_dbl (x / y))"
| "d_div NaN _ = NaN"
| "d_div _ NaN = NaN"
| "d_div (Fin x) _ = Fin 0"
| "d_div PInf (Fin y) = (if 0 \<le> y then PInf else MInf)"
| "d_div MInf (Fin y) = (if 0 \<le> y then MInf else PInf)"
| "d_div _ _ = NaN"

text \<open>Comparisons: every comparison with NaN is false (except \<open>!=\<close>).\<close>

fun d_lt :: "dbl \<Rightarrow> dbl \<Rightarrow> bool" where
  "d_lt (Fin x) (Fin y) = (x < y)"
| "d_lt NaN _ = False"
| "d_lt _ NaN = False"
| "d_lt MInf y = (y \<noteq> MInf)"
| "d_lt x PInf = (x \<noteq> PInf)"
| "d_lt _ _ = False"

definition d_eq :: "dbl \<Rightarrow> dbl \<Rightarrow> bool" where
  "d_eq x y = (x = y \<and> x \<noteq> NaN)"

definition d_le :: "dbl \<Rightarrow> dbl \<Rightarrow> bool" where
  "d_le x y = (d_lt x y \<or> d_eq x y)"

abbreviation d_gt :: "dbl \<Rightarrow> dbl \<Rightarrow> bool" where
  "d_gt x y \<equiv> d_lt y x"

abbreviation d_ge :: "dbl \<Rightarrow> dbl \<Rightarrow> bool" where
  "d_ge x y \<equiv> d_le y x"

text \<open>Conversions. A literal is the double nearest to its decimal value. Converting a
  double to an integer type truncates; outside the range of the type C leaves the result
  undefined, and the model has the integer-indefinite value x86-64 gives.\<close>

definition d_of_int :: "int \<Rightarrow> dbl" where
  "d_of_int n = to_dbl (of_int n)"

definition u2r :: "u64 \<Rightarrow> real" where
  "u2r w = of_int (uint w)"

definition d_of_u64 :: "u64 \<Rightarrow> dbl" where
  "d_of_u64 w = to_dbl (u2r w)"

definition d_trunc :: "real \<Rightarrow> int" where
  "d_trunc x = (if 0 \<le> x then \<lfloor>x\<rfloor> else \<lceil>x\<rceil>)"

fun u64_of_dbl :: "dbl \<Rightarrow> u64" where
  "u64_of_dbl (Fin x) =
     (if 0 \<le> d_trunc x \<and> d_trunc x < 2 ^ 64 then of_int (d_trunc x) else 2 ^ 63)"
| "u64_of_dbl _ = 2 ^ 63"

fun int_of_dbl :: "dbl \<Rightarrow> int" where
  "int_of_dbl (Fin x) =
     (if - (2 ^ 31) \<le> d_trunc x \<and> d_trunc x < 2 ^ 31 then d_trunc x else - (2 ^ 31))"
| "int_of_dbl _ = - (2 ^ 31)"

definition d_floor :: "dbl \<Rightarrow> dbl" where
  "d_floor x = (case x of Fin r \<Rightarrow> Fin (of_int \<lfloor>r\<rfloor>) | _ \<Rightarrow> x)"

definition d_sqrt :: "dbl \<Rightarrow> dbl" where
  "d_sqrt x = (case x of Fin r \<Rightarrow> if r < 0 then NaN else to_dbl (sqrt r)
                       | PInf \<Rightarrow> PInf | _ \<Rightarrow> NaN)"

lemma d_lt_irrefl [simp]: "\<not> d_lt x x"
  by (cases x) simp_all

lemma d_lt_trans: "d_lt x y \<Longrightarrow> d_lt y z \<Longrightarrow> d_lt x z"
  by (cases x; cases y; cases z) simp_all

lemma d_not_lt: "x \<noteq> NaN \<Longrightarrow> y \<noteq> NaN \<Longrightarrow> \<not> d_lt x y \<longleftrightarrow> d_le y x"
  by (cases x; cases y) (auto simp: d_le_def d_eq_def)

lemma d_le_trans: "d_le x y \<Longrightarrow> d_le y z \<Longrightarrow> d_le x z"
  by (auto simp: d_le_def d_eq_def dest: d_lt_trans)

lemma d_le_refl [simp]: "d_le x x \<longleftrightarrow> x \<noteq> NaN"
  by (simp add: d_le_def d_eq_def)

lemma d_le_antisym: "d_le x y \<Longrightarrow> d_le y x \<Longrightarrow> x = y"
  by (cases x; cases y) (auto simp: d_le_def d_eq_def)

lemma d_le_Fin [simp]: "d_le (Fin x) (Fin y) \<longleftrightarrow> x \<le> y"
  by (auto simp: d_le_def d_eq_def)

lemma d_lt_imp_le: "d_lt x y \<Longrightarrow> d_le x y"
  by (simp add: d_le_def)

lemma d_le_NaN: "d_le x y \<Longrightarrow> x \<noteq> NaN \<and> y \<noteq> NaN"
  by (cases x; cases y) (auto simp: d_le_def d_eq_def)

lemma d_lt_le_trans: "d_lt x y \<Longrightarrow> d_le y z \<Longrightarrow> d_lt x z"
  by (auto simp: d_le_def d_eq_def dest: d_lt_trans)

text \<open>A double in \<open>[2^-1022, 2^53]\<close> and an integer of 53 bits convert exactly.\<close>

lemma to_dbl_of_int [dbl_simps]: "\<bar>n\<bar> \<le> 2 ^ 53 \<Longrightarrow> to_dbl (of_int n) = Fin (of_int n)"
proof -
  assume n: "\<bar>n\<bar> \<le> 2 ^ 53"
  then have "real_of_int \<bar>n\<bar> \<le> real_of_int (2 ^ 53)" by (simp only: of_int_le_iff)
  also have "\<dots> < dbl_max" by (simp add: dbl_max_def)
  finally have "\<bar>real_of_int n\<bar> < dbl_max" by simp
  with rnd_of_int [OF n] show ?thesis by (simp add: to_dbl_def abs_less_iff)
qed

lemma d_of_int_exact [dbl_simps]: "\<bar>n\<bar> \<le> 2 ^ 53 \<Longrightarrow> d_of_int n = Fin (of_int n)"
  by (simp add: d_of_int_def to_dbl_of_int)

lemma to_dbl_not_NaN [simp]: "to_dbl x \<noteq> NaN"
  by (simp add: to_dbl_def Let_def)

lemma rnd_le_pow:
  assumes "x \<le> 2 ^ k" "k \<le> 1000"
  shows "rnd x \<le> 2 ^ k"
proof (cases "0 < x")
  case True
  then have "expo x \<le> int k"
    using assms expo_less_iff [of x "int k + 1"] by (simp add: power_int_add)
  then have "rnd_pos x \<le> 2 powi int k"
    using assms True by (intro rnd_pos_le_pow) (auto simp: ulp_exp_def)
  then show ?thesis using True by (simp add: rnd_def)
next
  case False
  then have "rnd x \<le> 0" using rnd_mono [of x 0] by simp
  also have "0 \<le> (2::real) ^ k" by simp
  finally show ?thesis .
qed

lemma to_dbl_finite:
  assumes "\<bar>x\<bar> \<le> 2 ^ k" "k \<le> 1000"
  shows "to_dbl x = Fin (rnd x)"
proof -
  have "x \<le> 2 ^ k" "- x \<le> 2 ^ k" using assms(1) by (simp_all add: abs_le_iff)
  then have "rnd x \<le> 2 ^ k" "rnd (- x) \<le> 2 ^ k" using assms(2) rnd_le_pow by blast+
  moreover have "(2::real) ^ k < dbl_max"
    unfolding dbl_max_def using assms(2) by (intro power_strict_increasing) simp_all
  ultimately show ?thesis by (simp add: to_dbl_def Let_def)
qed

lemma u2r_bounds: "0 \<le> u2r w" "u2r w < 2 ^ 64"
proof -
  show "0 \<le> u2r w" unfolding u2r_def by (subst of_int_0_le_iff) (rule unsigned_greater_eq)
  have "real_of_int (uint w) < real_of_int (2 ^ 64)"
    using uint64_less [of w] by (subst of_int_less_iff) simp
  then show "u2r w < 2 ^ 64" by (simp add: u2r_def)
qed

lemma d_of_u64_Fin [dbl_simps]: "d_of_u64 w = Fin (rnd (u2r w))"
  unfolding d_of_u64_def using u2r_bounds [of w] by (intro to_dbl_finite [of _ 64]) simp_all

lemma u2r_0 [simp]: "u2r 0 = 0"
  by (simp add: u2r_def)

lemma u2r_ge_1: "w \<noteq> 0 \<Longrightarrow> 1 \<le> u2r w"
proof -
  assume "w \<noteq> 0"
  then have "1 \<le> uint w"
    by (metis add_0 int_one_le_iff_zero_less order_le_less uint_0_iff unsigned_greater_eq)
  then have "real_of_int 1 \<le> real_of_int (uint w)" by (subst of_int_le_iff)
  then show ?thesis by (simp add: u2r_def)
qed

lemma rnd_u2r_ge_1: "w \<noteq> 0 \<Longrightarrow> 1 \<le> rnd (u2r w)"
  using rnd.r_ge_int [of 1 "u2r w"] u2r_ge_1 [of w] by simp

lemma rnd_u2r_nonneg: "0 \<le> rnd (u2r w)"
  using rnd_nonneg u2r_bounds(1) .

lemma rnd_u2r_exact: "uint w \<le> 2 ^ 53 \<Longrightarrow> rnd (u2r w) = u2r w"
  unfolding u2r_def using unsigned_greater_eq [of w] by (intro rnd_of_int) (simp add: abs_of_nonneg)

lemma to_dbl_mono: "x \<le> y \<Longrightarrow> d_le (to_dbl x) (to_dbl y)"
  using rnd_mono [of x y] by (auto simp: to_dbl_def Let_def d_le_def d_eq_def)

lemma dbl_max_pos: "0 < dbl_max"
  by (simp add: dbl_max_def)

lemma to_dbl_0 [simp]: "to_dbl 0 = Fin 0"
  using to_dbl_of_int [of 0] by simp

lemma to_dbl_nonneg: "0 \<le> x \<Longrightarrow> d_le (Fin 0) (to_dbl x)"
  using to_dbl_mono [of 0 x] by simp

lemma to_dbl_nonpos: "x \<le> 0 \<Longrightarrow> d_le (to_dbl x) (Fin 0)"
  using to_dbl_mono [of x 0] by simp

lemma d_add_nonneg: "d_le (Fin 0) a \<Longrightarrow> d_le (Fin 0) b \<Longrightarrow> d_le (Fin 0) (d_add a b)"
  by (cases a; cases b) (simp_all add: to_dbl_nonneg, simp_all add: d_le_def d_eq_def)

lemma d_mul_nonneg: "0 \<le> x \<Longrightarrow> 0 \<le> y \<Longrightarrow> d_le (Fin 0) (d_mul (Fin x) (Fin y))"
  by (simp add: to_dbl_nonneg)

lemma d_sub_0_nonpos: "d_le (Fin 0) y \<Longrightarrow> d_le (d_sub (Fin 0) y) (Fin 0)"
  by (cases y) (simp_all add: d_sub_def to_dbl_nonpos, simp_all add: d_le_def d_eq_def)

lemma d_le_lt_trans: "d_le x y \<Longrightarrow> d_lt y z \<Longrightarrow> d_lt x z"
  by (auto simp: d_le_def d_eq_def dest: d_lt_trans)

lemma d_lt_asym: "d_lt x y \<Longrightarrow> \<not> d_lt y x"
  using d_lt_trans d_lt_irrefl by blast

text \<open>A fraction of an integer number of microseconds, as the loops compute it.\<close>

lemma rnd_ge_half: "1 / 2 \<le> x \<Longrightarrow> x \<le> 2 \<Longrightarrow> 1 / 2 \<le> rnd x"
proof -
  assume x: "1 / 2 \<le> x" "x \<le> 2"
  then have "expo x < 2" using expo_less_iff [of x 2] by simp
  then have "2 powi (- 1) \<le> rnd_pos x"
    using x by (intro rnd_pos_ge_pow) (auto simp: ulp_exp_def)
  with x show ?thesis by (simp add: rnd_def)
qed

lemma fraction_pos:
  assumes "1 / 2 \<le> q" "q \<le> 2" "2 \<le> n" "n \<le> 2 ^ 31"
  shows "d_lt (Fin 0) (d_mul (to_dbl q) (d_of_int n))"
proof -
  have q: "to_dbl q = Fin (rnd q)" "1 / 2 \<le> rnd q" "rnd q \<le> 2"
    using assms to_dbl_finite [of q 1] rnd_ge_half [of q] rnd_le_pow [of q 1] by simp_all
  have n: "d_of_int n = Fin (of_int n)" using assms by (intro d_of_int_exact) simp
  have "2 \<le> real_of_int n" using assms(3) by (metis of_int_le_iff of_int_numeral)
  then have "(1 / 2) * 2 \<le> rnd q * real_of_int n" using q by (intro mult_mono) simp_all
  then have "1 \<le> rnd (rnd q * real_of_int n)"
    using rnd.r_ge_int [of 1 "rnd q * real_of_int n"] by simp
  then have "d_lt (Fin 0) (to_dbl (rnd q * real_of_int n))"
    using dbl_max_pos by (simp add: to_dbl_def Let_def)
  then show ?thesis by (simp only: q(1) n d_mul.simps)
qed

text \<open>Halving is exact in the normal range, so dyadic fractions of at most 53 bits are exact.\<close>

lemma expo_half: "0 < x \<Longrightarrow> expo (x / 2) = expo x - 1"
proof -
  assume x: "0 < x"
  have "expo (x / 2) < k \<longleftrightarrow> expo x - 1 < k" for k
    using x expo_less_iff [of "x / 2" k] expo_less_iff [of x "k + 1"] by (simp add: power_int_add) linarith
  from this [of "expo (x / 2)"] this [of "expo x - 1"] show ?thesis by simp
qed

lemma expo_div_pow: "0 < x \<Longrightarrow> expo (x / 2 ^ k) = expo x - int k"
proof (induction k)
  case (Suc k)
  have "x / 2 ^ Suc k = x / 2 ^ k / 2" by simp
  then have "expo (x / 2 ^ Suc k) = expo (x / 2 ^ k) - 1" using expo_half [of "x / 2 ^ k"] Suc.prems by (simp add: mult.commute)
  with Suc show ?case by simp
qed simp

lemma rnd_half:
  assumes "0 < x" "- 1000 \<le> expo x"
  shows "rnd (x / 2) = rnd x / 2"
proof -
  have u: "ulp_exp (x / 2) = ulp_exp x - 1" using assms expo_half [of x] by (simp add: ulp_exp_def)
  have "x / 2 / 2 powi (ulp_exp x - 1) = x / 2 powi ulp_exp x" by (simp add: power_int_diff)
  then show ?thesis using assms by (simp add: rnd_def rnd_pos_def u power_int_diff)
qed

lemma rnd_dyadic:
  assumes "0 < n" "n \<le> 2 ^ 53" "k \<le> 1000"
  shows "rnd (of_int n / 2 ^ k) = of_int n / 2 ^ k"
  using assms(3)
proof (induction k)
  case 0
  then show ?case using assms by simp
next
  case (Suc k)
  have n: "1 \<le> real_of_int n" using assms(1) by simp
  have "- 1000 \<le> expo (of_int n / 2 ^ k)"
    using expo_div_pow [of "of_int n" k] expo_nonneg [OF n] n Suc.prems by simp
  then have "rnd (of_int n / 2 ^ k / 2) = rnd (of_int n / 2 ^ k) / 2" using n by (intro rnd_half) simp_all
  moreover have "real_of_int n / 2 ^ Suc k = of_int n / 2 ^ k / 2" by simp
  ultimately show ?case using Suc by (simp add: mult.commute)
qed

lemma rnd_ge_dyadic: "0 < n \<Longrightarrow> n \<le> 2 ^ 53 \<Longrightarrow> k \<le> 1000 \<Longrightarrow> of_int n / 2 ^ k \<le> x \<Longrightarrow> of_int n / 2 ^ k \<le> rnd x"
  using rnd_mono [of "of_int n / 2 ^ k" x] rnd_dyadic [of n k] by simp

lemma rnd_le_dyadic: "0 < n \<Longrightarrow> n \<le> 2 ^ 53 \<Longrightarrow> k \<le> 1000 \<Longrightarrow> x \<le> of_int n / 2 ^ k \<Longrightarrow> rnd x \<le> of_int n / 2 ^ k"
  using rnd_mono [of x "of_int n / 2 ^ k"] rnd_dyadic [of n k] by simp

text \<open>A fraction of an integer, as \<open>0.95 * enough\<close>.\<close>

lemma fraction_value:
  assumes "0 \<le> q" "q \<le> 2" "0 \<le> n" "n \<le> 2 ^ 31"
  shows "d_mul (to_dbl q) (d_of_int n) = Fin (rnd (rnd q * of_int n))"
proof -
  have q: "to_dbl q = Fin (rnd q)" "0 \<le> rnd q" "rnd q \<le> 2"
    using assms to_dbl_finite [of q 1] rnd_le_pow [of q 1] rnd_nonneg [of q] by simp_all
  have n: "d_of_int n = Fin (of_int n)" using assms by (intro d_of_int_exact) simp
  have "real_of_int n \<le> real_of_int (2 ^ 31)" using assms(4) by (subst of_int_le_iff)
  then have "rnd q * of_int n \<le> 2 * 2 ^ 31" using q assms(3) by (intro mult_mono) simp_all
  moreover have "0 \<le> rnd q * of_int n" using q assms(3) by simp
  ultimately have "to_dbl (rnd q * of_int n) = Fin (rnd (rnd q * of_int n))"
    by (intro to_dbl_finite [of _ 32]) simp_all
  with q(1) n show ?thesis by (simp only: d_mul.simps)
qed

lemma fraction_mono:
  assumes "0 \<le> q" "q \<le> q'" "q' \<le> 2" "0 \<le> n" "n \<le> 2 ^ 31"
  shows "d_le (d_mul (to_dbl q) (d_of_int n)) (d_mul (to_dbl q') (d_of_int n))"
proof -
  have "rnd q * of_int n \<le> rnd q' * of_int n" using assms rnd_mono by (intro mult_right_mono) simp_all
  then show ?thesis using assms by (simp add: fraction_value rnd_mono)
qed

text \<open>A 64-bit integer of at most 53 bits survives the conversion to double and back.\<close>

lemma u64_of_d_of_u64: "uint u \<le> 2 ^ 53 \<Longrightarrow> u64_of_dbl (d_of_u64 u) = u"
proof -
  assume u: "uint u \<le> 2 ^ 53"
  have "d_trunc (u2r u) = uint u" unfolding d_trunc_def u2r_def
    by (metis floor_of_int of_int_0_le_iff unsigned_greater_eq)
  then show ?thesis using u rnd_u2r_exact [OF u] by (simp add: d_of_u64_Fin)
qed

end
