(* ===== verification/Timeval.thy ===== *)
theory Timeval
  imports CDouble
begin

text \<open>
  Time arithmetic. From \<open>src/lib_timing.c\<close>: \<open>tvsub\<close> and \<open>tvdelta\<close>. From \<open>src/TIMES.c\<close>: the
  differences \<open>diff_tv\<close>, \<open>diff_tp\<close>, \<open>diff_tp_ns\<close>, \<open>diff_tp_us\<close>, \<open>diff_tp_ms\<close>, and the QNX
  replacements of the clock functions on top of \<open>ClockCycles()\<close>, whose value and the
  \<open>cycles_per_sec\<close> entry of the system page are arguments.
  The fields of a \<open>timeval\<close> are signed \<open>long\<close>s holding clock readings, far from the ends of
  their range, so their differences are exact; products are taken at their width.
\<close>

section \<open>Data\<close>

record timeval =
  tv_sec :: int
  tv_usec :: int

record timespec =
  ts_sec :: int
  ts_nsec :: int

definition tv_zero :: timeval where
  "tv_zero = \<lparr>tv_sec = 0, tv_usec = 0\<rparr>"

section \<open>lib_timing.c: tvsub and tvdelta\<close>

text \<open>\<open>tvsub\<close>: the borrow is taken only when whole seconds remain; a negative
  difference is reported as zero.\<close>

definition tvsub :: "timeval \<Rightarrow> timeval \<Rightarrow> timeval" where
  "tvsub t1 t0 =
     (let sec = tv_sec t1 - tv_sec t0;
          usec = tv_usec t1 - tv_usec t0;
          (sec, usec) = (if usec < 0 \<and> 0 < sec then (sec - 1, usec + 1000000) else (sec, usec))
      in if usec < 0 \<or> tv_sec t1 < tv_sec t0 then \<lparr>tv_sec = 0, tv_usec = 0\<rparr>
         else \<lparr>tv_sec = sec, tv_usec = usec\<rparr>)"

definition tvdelta :: "timeval \<Rightarrow> timeval \<Rightarrow> u64" where
  "tvdelta start stop =
     (let td = tvsub stop start;
          usecs = (of_int (tv_sec td) :: u64);
          usecs = usecs * 1000000
      in usecs + of_int (tv_usec td))"

section \<open>TIMES.c: differences\<close>

definition diff_tv :: "timeval \<Rightarrow> timeval \<Rightarrow> timeval" where
  "diff_tv tv_start tv_end =
     (if tv_usec tv_end < tv_usec tv_start then
        \<lparr>tv_sec = tv_sec tv_end - tv_sec tv_start - 1,
         tv_usec = 1000000 - (tv_usec tv_start - tv_usec tv_end)\<rparr>
      else
        \<lparr>tv_sec = tv_sec tv_end - tv_sec tv_start,
         tv_usec = tv_usec tv_end - tv_usec tv_start\<rparr>)"

definition diff_tp :: "timespec \<Rightarrow> timespec \<Rightarrow> timespec" where
  "diff_tp tp_start tp_end =
     (if ts_nsec tp_end < ts_nsec tp_start then
        \<lparr>ts_sec = ts_sec tp_end - ts_sec tp_start - 1,
         ts_nsec = 1000000000 - (ts_nsec tp_start - ts_nsec tp_end)\<rparr>
      else
        \<lparr>ts_sec = ts_sec tp_end - ts_sec tp_start,
         ts_nsec = ts_nsec tp_end - ts_nsec tp_start\<rparr>)"

definition diff_tp_ns :: "timespec \<Rightarrow> timespec \<Rightarrow> int" where
  "diff_tp_ns tp_start tp_end =
     (let diff = diff_tp tp_start tp_end;
          ns = ts_sec diff;
          ns = wrap64 (ns * 1000000000)
      in wrap64 (ns + ts_nsec diff))"

definition diff_tp_us :: "timespec \<Rightarrow> timespec \<Rightarrow> int" where
  "diff_tp_us tp_start tp_end =
     (let diff = diff_tp tp_start tp_end;
          us = ts_sec diff;
          us = wrap64 (us * 1000000)
      in wrap64 (us + c_div (ts_nsec diff) 1000))"

definition diff_tp_ms :: "timespec \<Rightarrow> timespec \<Rightarrow> int" where
  "diff_tp_ms tp_start tp_end =
     (let diff = diff_tp tp_start tp_end;
          ms = ts_sec diff;
          ms = wrap64 (ms * 1000)
      in wrap64 (ms + c_div (ts_nsec diff) 1000000))"

section \<open>TIMES.c: the QNX clocks\<close>

text \<open>\<open>kHz\<close> is the file's static variable, read from the system page at the first call and
  kept. A division by a zero frequency traps: \<open>None\<close>.\<close>

definition load_kHz :: "u64 \<Rightarrow> u64 \<Rightarrow> u64" where
  "load_kHz cycles_per_sec kHz = (if kHz = 0 then cycles_per_sec div 1000 else kHz)"

definition clock_getres :: "u64 \<Rightarrow> timespec option" where
  "clock_getres cycles_per_sec =
     (if cycles_per_sec = 0 then None
      else Some \<lparr>ts_sec = 0, ts_nsec = uint (1000000000 div cycles_per_sec)\<rparr>)"

definition clock_gettime :: "u64 \<Rightarrow> u64 \<Rightarrow> u64 \<Rightarrow> (u64 \<times> timespec) option" where
  "clock_gettime cycles_per_sec cycles kHz0 =
     (let kHz = load_kHz cycles_per_sec kHz0 in
      if kHz = 0 then None
      else let ns = cycles * 1000000 div kHz;
               nss = ns div 1000000000;
               sec = nss;
               nss = nss * 1000000000
           in Some (kHz, \<lparr>ts_sec = uint sec, ts_nsec = uint (ns - nss)\<rparr>))"

definition qnx_gettimeofday :: "u64 \<Rightarrow> u64 \<Rightarrow> u64 \<Rightarrow> (u64 \<times> timeval) option" where
  "qnx_gettimeofday cycles_per_sec cycles kHz0 =
     (let kHz = load_kHz cycles_per_sec kHz0 in
      if kHz = 0 then None
      else let us = cycles * 1000 div kHz;
               uss = us div 1000000;
               sec = uss;
               uss = uss * 1000000
           in Some (kHz, \<lparr>tv_sec = uint sec, tv_usec = uint (us - uss)\<rparr>))"

definition qnx_clock :: "u64 \<Rightarrow> u64 \<Rightarrow> u64 \<Rightarrow> (u64 \<times> u64) option" where
  "qnx_clock cycles_per_sec cycles kHz0 =
     (let kHz = load_kHz cycles_per_sec kHz0 in
      if kHz = 0 then None else Some (kHz, cycles * 1000 div kHz))"

section \<open>Normal form and values\<close>

definition tv_norm :: "timeval \<Rightarrow> bool" where
  "tv_norm t = (0 \<le> tv_sec t \<and> 0 \<le> tv_usec t \<and> tv_usec t < 1000000)"

definition ts_norm :: "timespec \<Rightarrow> bool" where
  "ts_norm t = (0 \<le> ts_sec t \<and> 0 \<le> ts_nsec t \<and> ts_nsec t < 1000000000)"

definition tv_us :: "timeval \<Rightarrow> int" where
  "tv_us t = tv_sec t * 1000000 + tv_usec t"

definition ts_ns :: "timespec \<Rightarrow> int" where
  "ts_ns t = ts_sec t * 1000000000 + ts_nsec t"

lemmas tv_defs = tv_norm_def tv_us_def tvsub_def diff_tv_def tv_zero_def
lemmas ts_defs = ts_norm_def ts_ns_def diff_tp_def

lemma tvsub_norm: "tv_norm t1 \<Longrightarrow> tv_norm t0 \<Longrightarrow> tv_norm (tvsub t1 t0)"
  by (auto simp: tv_defs Let_def)

lemma tvsub_us: "tv_norm t1 \<Longrightarrow> tv_norm t0 \<Longrightarrow> tv_us (tvsub t1 t0) = max 0 (tv_us t1 - tv_us t0)"
  by (auto simp: tv_defs Let_def)

lemma tvdelta_of_int: "tvdelta s t = of_int (tv_us (tvsub t s))"
  by (simp add: tvdelta_def tv_us_def Let_def)

lemma tvdelta_value:
  assumes "tv_norm s" "tv_norm t" "tv_us t - tv_us s < 2 ^ 64"
  shows "uint (tvdelta s t) = max 0 (tv_us t - tv_us s)"
  using assms by (simp add: tvdelta_of_int tvsub_us)

lemma diff_tv_us: "tv_us (diff_tv s e) = tv_us e - tv_us s"
  by (simp add: tv_defs)

lemma diff_tv_norm: "tv_norm s \<Longrightarrow> tv_norm e \<Longrightarrow> tv_us s \<le> tv_us e \<Longrightarrow> tv_norm (diff_tv s e)"
  by (auto simp: tv_defs)

lemma diff_tp_ns_exact: "ts_ns (diff_tp s e) = ts_ns e - ts_ns s"
  by (simp add: ts_defs)

lemma diff_tp_norm: "ts_norm s \<Longrightarrow> ts_norm e \<Longrightarrow> ts_ns s \<le> ts_ns e \<Longrightarrow> ts_norm (diff_tp s e)"
  by (auto simp: ts_defs)

end
