(* ===== verification/Results.thy ===== *)
theory Results
  imports CDouble "HOL-Library.Monad_Syntax"
begin

text \<open>
  The result arrays of \<open>src/bench.h\<close> (\<open>value_t\<close>, \<open>result_t\<close>) and the operations of
  \<open>src/lib_timing.c\<close> on them: \<open>sizeof_result\<close>, \<open>insertinit\<close> and \<open>insertsort\<close>. A \<open>result_t\<close> is
  its counter and the array it was allocated with; every array access is checked, and an
  access outside of the allocation is \<open>None\<close>. The abstract specification is the list of the
  stored entries, kept from the largest time per iteration to the smallest; \<open>insertsort\<close> is
  shown to implement a sorted insertion on it.
\<close>

section \<open>Data\<close>

definition TRIES :: nat where
  "TRIES = 11"

record value_t =
  val_u :: u64
  val_n :: u64

record result_t =
  res_N :: nat
  res_v :: "value_t list"

text \<open>The size in bytes on LP64: a padded counter of 8 bytes and \<open>TRIES\<close> entries of 16, and
  16 more for each repetition beyond \<open>TRIES\<close>. The sum is a \<open>size_t\<close> that the result type \<open>int\<close> cuts
  down to 32 bits. \<open>capacity_of_size\<close> is the number of entries such an allocation holds.\<close>

definition sizeof_result :: "int \<Rightarrow> int" where
  "sizeof_result repetitions =
     (if repetitions \<le> int TRIES then 8 + int TRIES * 16
      else wrap32 ((8 + int TRIES * 16) + (repetitions - int TRIES) * 16))"

definition capacity_of_size :: "int \<Rightarrow> nat" where
  "capacity_of_size bytes = nat ((bytes - 8) div 16)"

definition insertinit :: "result_t \<Rightarrow> result_t" where
  "insertinit r = r\<lparr>res_N := 0\<rparr>"

section \<open>insertsort\<close>

text \<open>The sort key \<open>u/(double)n\<close>.\<close>

definition res_key :: "u64 \<Rightarrow> u64 \<Rightarrow> dbl" where
  "res_key u n = d_div (d_of_u64 u) (d_of_u64 n)"

abbreviation val_key :: "value_t \<Rightarrow> dbl" where
  "val_key x \<equiv> res_key (val_u x) (val_n x)"

text \<open>The outer loop: the first \<open>i < N\<close> whose entry is smaller than the new one, or \<open>N\<close>.\<close>

function find_slot :: "dbl \<Rightarrow> value_t list \<Rightarrow> nat \<Rightarrow> nat \<Rightarrow> nat option" where
  "find_slot k v N i =
     (if i < N then
        do { x \<leftarrow> arr_get v i;
             if d_gt k (val_key x) then Some i else find_slot k v N (Suc i) }
      else Some i)"
  by pat_completeness auto
termination
  by (relation "measure (\<lambda>(k, v, N, i). N - i)") auto

text \<open>The inner loop: \<open>for (j = r->N; j > i; --j) r->v[j] = r->v[j - 1];\<close>\<close>

fun shift_up :: "value_t list \<Rightarrow> nat \<Rightarrow> nat \<Rightarrow> value_t list option" where
  "shift_up v i j =
     (if i < j then
        do { x \<leftarrow> arr_get v (j - 1);
             v' \<leftarrow> arr_set v j x;
             shift_up v' i (j - 1) }
      else Some v)"

definition insertsort :: "u64 \<Rightarrow> u64 \<Rightarrow> result_t \<Rightarrow> result_t option" where
  "insertsort u n r =
     (if u = 0 then Some r
      else do { i \<leftarrow> find_slot (res_key u n) (res_v r) (res_N r) 0;
                v \<leftarrow> (if i < res_N r then shift_up (res_v r) i (res_N r) else Some (res_v r));
                v \<leftarrow> arr_set v i \<lparr>val_u = u, val_n = n\<rparr>;
                Some \<lparr>res_N = Suc (res_N r), res_v = v\<rparr> })"

declare find_slot.simps [simp del]
declare shift_up.simps [simp del]

section \<open>The abstract specification: a list in descending order of the keys\<close>

definition res_list :: "result_t \<Rightarrow> value_t list" where
  "res_list r = take (res_N r) (res_v r)"

fun insert_desc :: "value_t \<Rightarrow> value_t list \<Rightarrow> value_t list" where
  "insert_desc x [] = [x]"
| "insert_desc x (y # ys) =
     (if d_gt (val_key x) (val_key y) then x # y # ys else y # insert_desc x ys)"

definition desc_sorted :: "value_t list \<Rightarrow> bool" where
  "desc_sorted xs = sorted_wrt (\<lambda>x y. d_ge (val_key x) (val_key y)) xs"

text \<open>The representation invariant: the counter fits the allocation, no entry has time zero,
  and the entries are sorted.\<close>

definition res_inv :: "result_t \<Rightarrow> bool" where
  "res_inv r = (res_N r \<le> length (res_v r) \<and> (\<forall>x \<in> set (res_list r). val_u x \<noteq> 0)
               \<and> desc_sorted (res_list r))"

subsection \<open>The key is never NaN\<close>

lemma res_key_not_NaN: "u \<noteq> 0 \<Longrightarrow> res_key u n \<noteq> NaN"
  using rnd_u2r_ge_1 [of u] by (auto simp: res_key_def dbl_simps inf_sgn_def)

lemma res_key_total:
  "u \<noteq> 0 \<Longrightarrow> u' \<noteq> 0 \<Longrightarrow> \<not> d_gt (res_key u n) (res_key u' n') \<Longrightarrow> d_ge (res_key u' n') (res_key u n)"
  using d_not_lt res_key_not_NaN by blast

subsection \<open>The loops\<close>

lemma find_slot_spec:
  "i \<le> N \<Longrightarrow> N \<le> length v \<Longrightarrow>
   \<exists>m. find_slot k v N i = Some m \<and> i \<le> m \<and> m \<le> N
     \<and> (\<forall>j. i \<le> j \<and> j < m \<longrightarrow> \<not> d_gt k (val_key (v ! j)))
     \<and> (m < N \<longrightarrow> d_gt k (val_key (v ! m)))"
proof (induction k v N i rule: find_slot.induct)
  case (1 k v N i)
  show ?case
  proof (cases "i < N \<and> \<not> d_gt k (val_key (v ! i))")
    case True
    with "1.IH" [of "v ! i"] "1.prems" obtain m where m: "find_slot k v N (Suc i) = Some m"
        "Suc i \<le> m" "m \<le> N" "\<forall>j. Suc i \<le> j \<and> j < m \<longrightarrow> \<not> d_gt k (val_key (v ! j))"
        "m < N \<longrightarrow> d_gt k (val_key (v ! m))"
      by auto
    have "\<not> d_gt k (val_key (v ! j))" if "i \<le> j" "j < m" for j
      using m(4) that True by (cases "j = i") auto
    moreover have "find_slot k v N i = Some m"
      using True m(1) "1.prems" by (simp add: find_slot.simps [of k v N i])
    ultimately show ?thesis using m(2,3,5) by (meson Suc_leD)
  next
    case False
    with "1.prems" show ?thesis
      by (intro exI [of _ i]) (auto simp: find_slot.simps [of k v N i])
  qed
qed

lemma shift_up_spec:
  "i \<le> j \<Longrightarrow> j < length v \<Longrightarrow>
   shift_up v i j = Some (take i v @ (v ! i) # take (j - i) (drop i v) @ drop (Suc j) v)"
proof (induction v i j rule: shift_up.induct)
  case (1 v i j)
  show ?case
  proof (cases "i < j")
    case True
    let ?v = "v[j := v ! (j - 1)]"
    from True "1.prems" have "shift_up v i j = shift_up ?v i (j - 1)"
      by (simp add: shift_up.simps [of v i j])
    also have "\<dots> = Some (take i ?v @ (?v ! i) # take (j - 1 - i) (drop i ?v) @ drop (Suc (j - 1)) ?v)"
      using True "1.prems" by (intro "1.IH" [of "v ! (j - 1)"]) auto
    also have "drop (Suc (j - 1)) ?v = v ! (j - 1) # drop (Suc j) v"
      using True "1.prems" by (simp add: Cons_nth_drop_Suc [symmetric])
    also have "take (j - 1 - i) (drop i ?v) = take (j - 1 - i) (drop i v)"
      using True by (simp add: drop_update_swap)
    also have "take i ?v @ (?v ! i) # take (j - 1 - i) (drop i v) @ v ! (j - 1) # drop (Suc j) v
        = take i v @ (v ! i) # take (Suc (j - 1 - i)) (drop i v) @ drop (Suc j) v"
      using True "1.prems" by (simp add: take_Suc_conv_app_nth)
    finally show ?thesis
      using True by (simp add: Suc_diff_Suc)
  next
    case False
    with "1.prems" show ?thesis
      by (subst shift_up.simps) (simp add: id_take_nth_drop [of j v, symmetric])
  qed
qed

subsection \<open>insertsort implements the sorted insertion\<close>

lemma insert_desc_at:
  assumes "m \<le> length xs" "\<forall>j < m. \<not> d_gt (val_key x) (val_key (xs ! j))"
    "m < length xs \<longrightarrow> d_gt (val_key x) (val_key (xs ! m))"
  shows "insert_desc x xs = take m xs @ x # drop m xs"
  using assms
proof (induction xs arbitrary: m)
  case Nil
  then show ?case by simp
next
  case (Cons y ys)
  show ?case
  proof (cases m)
    case 0
    with Cons.prems show ?thesis by simp
  next
    case (Suc m')
    have "insert_desc x ys = take m' ys @ x # drop m' ys"
      using Cons.prems Suc by (intro Cons.IH) auto
    moreover have "\<not> d_gt (val_key x) (val_key y)"
      using Cons.prems(2) Suc by (metis nth_Cons_0 zero_less_Suc)
    ultimately show ?thesis using Suc by simp
  qed
qed

lemma insertsort_refines:
  assumes "u \<noteq> 0" "res_N r < length (res_v r)"
  shows "\<exists>r'. insertsort u n r = Some r' \<and> res_N r' = Suc (res_N r)
           \<and> length (res_v r') = length (res_v r)
           \<and> res_list r' = insert_desc \<lparr>val_u = u, val_n = n\<rparr> (res_list r)"
proof -
  let ?k = "res_key u n" and ?v = "res_v r" and ?N = "res_N r"
  let ?x = "\<lparr>val_u = u, val_n = n\<rparr>"
  obtain m where m: "find_slot ?k ?v ?N 0 = Some m" "m \<le> ?N"
      "\<forall>j. j < m \<longrightarrow> \<not> d_gt ?k (val_key (?v ! j))" "m < ?N \<longrightarrow> d_gt ?k (val_key (?v ! m))"
    using find_slot_spec [of 0 ?N ?v ?k] assms by auto
  define w where "w = (if m < ?N then take m ?v @ ?v ! m # take (?N - m) (drop m ?v) @ drop (Suc ?N) ?v else ?v)"
  have len: "length w = length ?v" using assms m(2) by (auto simp: w_def)
  have eq: "insertsort u n r = Some \<lparr>res_N = Suc ?N, res_v = w[m := ?x]\<rparr>"
    using assms m len shift_up_spec [of m ?N ?v] by (auto simp: insertsort_def w_def)
  have "insert_desc ?x (res_list r) = take m (res_list r) @ ?x # drop m (res_list r)"
    using m assms by (intro insert_desc_at) (auto simp: res_list_def)
  also have "\<dots> = take (Suc ?N) (w[m := ?x])"
  proof (cases "m < ?N")
    case True
    then show ?thesis
      using assms by (simp add: w_def res_list_def list_update_append drop_take Suc_diff_le)
  next
    case False
    with m(2) have "m = ?N" by simp
    with assms show ?thesis
      by (simp add: w_def res_list_def take_Suc_conv_app_nth)
  qed
  finally show ?thesis using eq len by (simp add: res_list_def)
qed

lemma mset_insert_desc: "mset (insert_desc x xs) = add_mset x (mset xs)"
  by (induction xs) auto

lemma set_insert_desc: "set (insert_desc x xs) = insert x (set xs)"
  using arg_cong [OF mset_insert_desc, of set_mset x xs] by simp

lemma desc_sorted_insert:
  assumes "desc_sorted xs" "val_u x \<noteq> 0" "\<forall>y \<in> set xs. val_u y \<noteq> 0"
  shows "desc_sorted (insert_desc x xs)"
  using assms
proof (induction xs)
  case Nil
  then show ?case by (simp add: desc_sorted_def)
next
  case (Cons y ys)
  show ?case
  proof (cases "d_gt (val_key x) (val_key y)")
    case True
    with Cons.prems show ?thesis
      by (auto simp: desc_sorted_def intro: d_lt_imp_le d_le_trans)
  next
    case False
    then have "d_ge (val_key y) (val_key x)"
      using Cons.prems by (intro res_key_total) auto
    with Cons False show ?thesis by (auto simp: desc_sorted_def set_insert_desc)
  qed
qed

lemma res_inv_insertinit: "res_inv (insertinit r)"
  by (simp add: res_inv_def insertinit_def res_list_def desc_sorted_def)

lemma insertsort_zero: "insertsort 0 n r = Some r"
  by (simp add: insertsort_def)

text \<open>The size is right for fewer than \<open>2 ^ 27\<close> repetitions, and from there on it is too small.\<close>

lemma sizeof_result_exact: "k < 2 ^ 27 \<Longrightarrow> sizeof_result k = 8 + 16 * max (int TRIES) k"
  by (auto simp: sizeof_result_def TRIES_def max_def)

lemma capacity_sizeof_result: "k < 2 ^ 27 \<Longrightarrow> capacity_of_size (sizeof_result k) = max TRIES (nat k)"
  by (auto simp: capacity_of_size_def sizeof_result_exact TRIES_def max_def)

lemma sizeof_result_cut: "capacity_of_size (sizeof_result (2 ^ 27)) = 0" "capacity_of_size (sizeof_result (2 ^ 28 + 11)) = 11"
  by code_simp+

lemma insertsort_inv:
  assumes "res_inv r" "res_N r < length (res_v r)"
  shows "\<exists>r'. insertsort u n r = Some r' \<and> res_inv r' \<and> length (res_v r') = length (res_v r)
           \<and> res_N r' = (if u = 0 then res_N r else Suc (res_N r))
           \<and> mset (res_list r') =
               (if u = 0 then mset (res_list r)
                else add_mset \<lparr>val_u = u, val_n = n\<rparr> (mset (res_list r)))"
proof (cases "u = 0")
  case True
  with assms show ?thesis by (simp add: insertsort_zero)
next
  case False
  let ?x = "\<lparr>val_u = u, val_n = n\<rparr>"
  obtain r' where r': "insertsort u n r = Some r'" "res_N r' = Suc (res_N r)"
      "length (res_v r') = length (res_v r)" "res_list r' = insert_desc ?x (res_list r)"
    using insertsort_refines [OF False assms(2)] by blast
  then have "res_inv r'"
    using assms False by (simp add: res_inv_def desc_sorted_insert set_insert_desc)
  with r' False show ?thesis by (simp add: mset_insert_desc)
qed

section \<open>Properties\<close>

text \<open>C10. \<open>insertsort\<close> is a correct sorted insertion. On an array with a free slot it
  succeeds, never touches memory outside of the allocation, keeps the representation
  invariant (entries from the largest to the smallest time per iteration, none with time
  zero), and the stored entries are the old ones and the new one; a measurement of time zero
  is dropped.\<close>

theorem insertsort_correct:
  assumes "res_inv r" "res_N r < length (res_v r)"
  shows "\<exists>r'. insertsort u n r = Some r' \<and> res_inv r' \<and> length (res_v r') = length (res_v r)
           \<and> mset (res_list r') =
               (if u = 0 then mset (res_list r)
                else add_mset \<lparr>val_u = u, val_n = n\<rparr> (mset (res_list r)))"
  using insertsort_inv [OF assms] by blast

theorem insertsort_correct_witness:
  "\<exists>r'. insertsort 7 2 \<lparr>res_N = 0, res_v = replicate 11 \<lparr>val_u = 0, val_n = 0\<rparr>\<rparr> = Some r'
      \<and> res_inv r' \<and> length (res_v r') = 11 \<and> mset (res_list r') = {#\<lparr>val_u = 7, val_n = 2\<rparr>#}"
proof -
  let ?r = "\<lparr>res_N = 0, res_v = replicate 11 \<lparr>val_u = 0, val_n = 0\<rparr>\<rparr>"
  have "res_inv ?r" "res_N ?r < length (res_v ?r)"
    by (simp_all add: res_inv_def res_list_def desc_sorted_def)
  from insertsort_correct [OF this, of 7 2] show ?thesis by (simp add: res_list_def)
qed

text \<open>\<open>insertsort\<close> has no bounds check of its own: on a full array a nonzero measurement
  is an access outside of the allocation, whatever the stored entries are. Its callers must
  never make more insertions than the allocation has entries.\<close>

theorem insertsort_overflow:
  assumes "res_N r = length (res_v r)" "u \<noteq> 0"
  shows "insertsort u n r = None"
proof -
  obtain m where m: "find_slot (res_key u n) (res_v r) (res_N r) 0 = Some m" "m \<le> res_N r"
    using find_slot_spec [of 0 "res_N r" "res_v r" "res_key u n"] assms by auto
  show ?thesis
  proof (cases "m < res_N r")
    case True
    then have "shift_up (res_v r) m (res_N r) = None"
      using assms by (subst shift_up.simps) (simp add: arr_get_def)
    with m True assms show ?thesis by (simp add: insertsort_def)
  next
    case False
    with m assms show ?thesis by (simp add: insertsort_def)
  qed
qed

theorem insertsort_overflow_witness:
  "insertsort 5 1 \<lparr>res_N = 1, res_v = [\<lparr>val_u = 3, val_n = 1\<rparr>]\<rparr> = None"
  using insertsort_overflow [of "\<lparr>res_N = 1, res_v = [\<lparr>val_u = 3, val_n = 1\<rparr>]\<rparr>" 5 1] by simp

end
