(* ===== verification/Timing.thy ===== *)
theory Timing
  imports Timeval Results
begin

text \<open>
  The measurement state of \<open>src/lib_timing.c\<close>: the interval \<open>start_tv\<close>/\<open>stop_tv\<close>, the
  iteration count, and the current result array, with the functions that read and write it
  and the report functions that print from it. The clock is a parameter of the state: the
  sequence of the values \<open>gettimeofday\<close> returns, read in order. The result arrays are
  addressed objects, because \<open>results\<close> is a pointer that is redirected to local arrays and
  back; address 0 is the file's own \<open>_results\<close>.
\<close>

section \<open>State\<close>

record timing =
  start_tv :: timeval
  stop_tv :: timeval
  iterations :: u64
  result_objs :: "nat \<Rightarrow> result_t"
  results :: nat
  delta_last :: timeval
  use_result_dummy :: u64
  clock_fn :: "nat \<Rightarrow> timeval"
  ticks :: nat

definition gettimeofday :: "timing \<Rightarrow> timeval \<times> timing" where
  "gettimeofday s = (clock_fn s (ticks s), s\<lparr>ticks := Suc (ticks s)\<rparr>)"

section \<open>Intervals\<close>

text \<open>\<open>start(0)\<close> and \<open>start(&tv)\<close>.\<close>

definition start :: "timing \<Rightarrow> timing" where
  "start s = (let (t, s) = gettimeofday s in s\<lparr>start_tv := t\<rparr>)"

definition start_at :: "timing \<Rightarrow> timeval \<times> timing" where
  "start_at s = gettimeofday s"

text \<open>\<open>stop(0, 0)\<close> and \<open>stop(&begin, &end)\<close>.\<close>

definition stop :: "timing \<Rightarrow> u64 \<times> timing" where
  "stop s = (let (t, s) = gettimeofday s; s = s\<lparr>stop_tv := t\<rparr>
             in (tvdelta (start_tv s) (stop_tv s), s))"

definition stop_at :: "timeval \<Rightarrow> timing \<Rightarrow> u64 \<times> timeval \<times> timing" where
  "stop_at begin_tv s = (let (t, s) = gettimeofday s in (tvdelta begin_tv t, t, s))"

definition now :: "timing \<Rightarrow> u64 \<times> timing" where
  "now s = (let (t, s) = gettimeofday s;
                m = (of_int (tv_sec t) :: u64);
                m = m * 1000000;
                m = m + of_int (tv_usec t)
            in (m, s))"

definition Now :: "timing \<Rightarrow> dbl \<times> timing" where
  "Now s = (let (t, s) = gettimeofday s
            in (d_add (d_mul (d_of_int (tv_sec t)) (Fin 1000000)) (d_of_int (tv_usec t)), s))"

definition delta :: "timing \<Rightarrow> u64 \<times> timing" where
  "delta s =
     (let (t, s) = gettimeofday s in
      if tv_usec (delta_last s) \<noteq> 0 then
        let diff = tvsub t (delta_last s);
            s = s\<lparr>delta_last := t\<rparr>;
            m = (of_int (tv_sec diff) :: u64);
            m = m * 1000000;
            m = m + of_int (tv_usec diff)
        in (m, s)
      else (0, s\<lparr>delta_last := t\<rparr>))"

text \<open>Seconds as a double, \<open>tv_sec + tv_usec / 1000000.0\<close>.\<close>

definition tv_secs :: "timeval \<Rightarrow> dbl" where
  "tv_secs td = d_add (d_of_int (tv_sec td)) (d_div (d_of_int (tv_usec td)) (Fin 1000000))"

definition Delta :: "timing \<Rightarrow> dbl \<times> timing" where
  "Delta s = (let (t, s) = gettimeofday s in (tv_secs (tvsub t (start_tv s)), s))"

definition save_n :: "u64 \<Rightarrow> timing \<Rightarrow> timing" where
  "save_n n s = s\<lparr>iterations := n\<rparr>"

definition get_n :: "timing \<Rightarrow> u64" where
  "get_n s = iterations s"

definition settime :: "u64 \<Rightarrow> timing \<Rightarrow> timing" where
  "settime usecs s =
     s\<lparr>start_tv := \<lparr>tv_sec = 0, tv_usec = 0\<rparr>,
       stop_tv := \<lparr>tv_sec = uint (usecs div 1000000), tv_usec = uint (usecs mod 1000000)\<rparr>\<rparr>"

text \<open>\<open>gettime\<close>, called \<open>usecs_spent\<close> by a macro of \<open>bench.h\<close>.\<close>

definition gettime :: "timing \<Rightarrow> u64" where
  "gettime s = tvdelta (start_tv s) (stop_tv s)"

definition timespent :: "timing \<Rightarrow> dbl" where
  "timespent s = tv_secs (tvsub (stop_tv s) (start_tv s))"

definition use_int :: "i32 \<Rightarrow> timing \<Rightarrow> timing" where
  "use_int result s = s\<lparr>use_result_dummy := use_result_dummy s + scast result\<rparr>"

definition use_pointer :: "u64 \<Rightarrow> timing \<Rightarrow> timing" where
  "use_pointer result s = s\<lparr>use_result_dummy := use_result_dummy s + result\<rparr>"

section \<open>The current results\<close>

definition get_results :: "timing \<Rightarrow> nat" where
  "get_results s = results s"

abbreviation cur_results :: "timing \<Rightarrow> result_t" where
  "cur_results s \<equiv> result_objs s (results s)"

definition save_minimum :: "timing \<Rightarrow> timing option" where
  "save_minimum s =
     (let r = cur_results s in
      if res_N r = 0 then Some (settime 0 (save_n 1 s))
      else do { x \<leftarrow> arr_get (res_v r) (res_N r - 1);
                Some (settime (val_u x) (save_n (val_n x) s)) })"

definition save_median :: "timing \<Rightarrow> timing option" where
  "save_median s =
     (let r = cur_results s; i = res_N r div 2 in
      do { (n, u) \<leftarrow>
             (if res_N r = 0 then Some (1, 0)
              else if res_N r mod 2 \<noteq> 0 then
                do { x \<leftarrow> arr_get (res_v r) i; Some (val_n x, val_u x) }
              else
                do { x \<leftarrow> arr_get (res_v r) i;
                     y \<leftarrow> arr_get (res_v r) (i - 1);
                     Some ((val_n x + val_n y) div 2, (val_u x + val_u y) div 2) });
           Some (settime u (save_n n s)) })"

definition set_results :: "nat \<Rightarrow> timing \<Rightarrow> timing option" where
  "set_results p s = save_median (s\<lparr>results := p\<rparr>)"

section \<open>Reports\<close>

text \<open>A report is the list of the fields it prints: text, a \<open>%.nf\<close> field with its number of
  decimals, or a \<open>%d\<close> field. \<open>MB\<close> and \<open>KB\<close> are powers of ten.\<close>

datatype out = OStr string | OFix nat dbl | OInt int

definition MB :: dbl where "MB = Fin 1000000"
definition KB :: dbl where "KB = Fin 1000"

definition nz :: "dbl \<Rightarrow> dbl" where
  "nz x = (if d_eq x (Fin 0) then Fin 1 else x)"

definition td_of :: "timing \<Rightarrow> timeval" where
  "td_of s = tvsub (stop_tv s) (start_tv s)"

definition bandwidth :: "u64 \<Rightarrow> u64 \<Rightarrow> bool \<Rightarrow> timing \<Rightarrow> out list" where
  "bandwidth bytes ntimes verbose s =
     (let tdiff = td_of s;
          secs = d_of_int (tv_sec tdiff);
          secs = d_mul secs (Fin 1000000);
          secs = d_add secs (d_of_int (tv_usec tdiff));
          secs = d_div secs (Fin 1000000);
          secs = d_div secs (d_of_u64 ntimes);
          mb = d_div (d_of_u64 bytes) MB
      in if verbose then
           [OFix 4 mb, OStr '' MB in '', OFix 4 secs, OStr '' secs, '', OFix 4 (d_div mb secs),
            OStr '' MB/sec'']
         else
           (if d_lt mb (Fin 1) then [OFix 6 mb] else [OFix 2 mb])
           @ (if d_lt (d_div mb secs) (Fin 1) then [OFix 6 (d_div mb secs)]
              else [OFix 2 (d_div mb secs)]))"

definition kb :: "u64 \<Rightarrow> timing \<Rightarrow> out list" where
  "kb bytes s =
     (let secs = tv_secs (td_of s); bs = d_div (d_of_u64 bytes) (nz secs)
      in if d_eq secs (Fin 0) then [] else [OFix 0 (d_div bs KB), OStr '' KB/sec''])"

definition mb :: "u64 \<Rightarrow> timing \<Rightarrow> out list" where
  "mb bytes s =
     (let secs = tv_secs (td_of s); bs = d_div (d_of_u64 bytes) (nz secs)
      in if d_eq secs (Fin 0) then [] else [OFix 2 (d_div bs MB), OStr '' MB/sec''])"

definition latency :: "u64 \<Rightarrow> u64 \<Rightarrow> timing \<Rightarrow> out list" where
  "latency xfers sz s =
     (let secs = tv_secs (td_of s);
          ms = d_div (d_mul secs (Fin 1000)) (d_of_u64 xfers);
          moved = d_of_u64 (xfers * sz);
          per = OStr (if 1 < xfers then '' millisec/xfer, '' else '' millisecs, '')
      in if d_eq secs (Fin 0) then []
         else
           (if 1 < xfers then
              [OInt (sint (ucast xfers :: i32)), OStr '' '',
               OInt (int_of_dbl (d_div (d_of_u64 sz) KB)), OStr ''KB xfers in '', OFix 2 secs,
               OStr '' secs, '']
            else [OFix 1 (d_div (d_of_u64 sz) KB), OStr ''KB in ''])
           @ (if d_gt ms (Fin 100) then [OFix 0 ms, per] else [OFix 4 ms, per])
           @ (if d_gt (d_div moved (d_mul MB secs)) (Fin 1) then
                [OFix 2 (d_div moved (d_mul MB secs)), OStr '' MB/sec'']
              else [OFix 2 (d_div moved (d_mul KB secs)), OStr '' KB/sec'']))"

definition context_report :: "u64 \<Rightarrow> timing \<Rightarrow> out list" where
  "context_report xfers s =
     (let secs = tv_secs (td_of s) in
      if d_eq secs (Fin 0) then []
      else [OInt (sint (ucast xfers :: i32)), OStr '' context switches in '', OFix 2 secs,
            OStr '' secs, '',
            OFix 0 (d_div (d_mul secs (Fin 1000000)) (d_of_u64 xfers)),
            OStr '' microsec/switch''])"

text \<open>The interval in whole microseconds, computed in \<open>long\<close> and converted to double.\<close>

definition td_micro :: "timing \<Rightarrow> dbl" where
  "td_micro s = d_of_int (wrap64 (wrap64 (tv_sec (td_of s) * 1000000) + tv_usec (td_of s)))"

definition nano :: "string \<Rightarrow> u64 \<Rightarrow> timing \<Rightarrow> out list" where
  "nano name n s =
     (let micro = td_micro s; micro = d_mul micro (Fin 1000)
      in if d_eq micro (Fin 0) then []
         else [OStr name, OStr '': '', OFix 2 (d_div micro (d_of_u64 n)), OStr '' nanoseconds''])"

definition micro :: "string \<Rightarrow> u64 \<Rightarrow> timing \<Rightarrow> out list" where
  "micro name n s =
     (let m = td_micro s; m = d_div m (d_of_u64 n)
      in if d_eq m (Fin 0) then []
         else [OStr name, OStr '': '', OFix 4 m, OStr '' microseconds''])"

definition micromb :: "u64 \<Rightarrow> u64 \<Rightarrow> timing \<Rightarrow> out list" where
  "micromb sz n s =
     (let m = td_micro s; m = d_div m (d_of_u64 n);
          mb = d_of_u64 sz; mb = d_div mb MB
      in if d_eq m (Fin 0) then []
         else if d_ge m (Fin 10) then [OFix 6 mb, OStr '' '', OFix 0 m]
         else [OFix 6 mb, OStr '' '', OFix 3 m])"

text \<open>\<open>milli\<close> divides integers: zero iterations trap.\<close>

definition milli :: "string \<Rightarrow> u64 \<Rightarrow> timing \<Rightarrow> out list option" where
  "milli name n s =
     (let td = td_of s;
          m = (of_int (wrap64 (tv_sec td * 1000) + c_div (tv_usec td) 1000) :: u64)
      in if n = 0 then None
         else let m = m div n in
              if m = 0 then Some []
              else Some [OStr name, OStr '': '', OInt (sint (ucast m :: i32)), OStr '' milliseconds''])"

definition ptime :: "u64 \<Rightarrow> timing \<Rightarrow> out list" where
  "ptime n s =
     (let secs = tv_secs (td_of s) in
      if d_eq secs (Fin 0) then []
      else [OInt (sint (ucast n :: i32)), OStr '' in '', OFix 2 secs, OStr '' secs, '',
            OFix 0 (d_div (d_mul secs (Fin 1000000)) (d_of_u64 n)),
            OStr '' microseconds each''])"

section \<open>Lemmas\<close>

lemma tvsub_zero: "tv_norm t \<Longrightarrow> tvsub t \<lparr>tv_sec = 0, tv_usec = 0\<rparr> = t"
  by (cases t) (auto simp: tvsub_def tv_norm_def)

lemma uint_div_mod64: "uint (u div (1000000 :: u64)) * 1000000 + uint (u mod (1000000 :: u64)) = uint u"
  by (simp add: uint_div_distrib uint_mod_distrib)

lemma settime_norm: "tv_norm (stop_tv (settime u s))" "tv_norm (start_tv (settime u s))"
  by (simp_all add: settime_def tv_norm_def uint_mod_distrib)

lemma gettime_settime [simp]: "gettime (settime u s) = u"
proof -
  have "tv_us (stop_tv (settime u s)) = uint u"
    using uint_div_mod64 [of u] by (simp add: settime_def tv_us_def)
  moreover have "tvsub (stop_tv (settime u s)) (start_tv (settime u s)) = stop_tv (settime u s)"
    using tvsub_zero [OF settime_norm(1)] by (simp add: settime_def)
  ultimately show ?thesis
    by (simp add: gettime_def tvdelta_of_int)
qed

lemma settime_frame [simp]:
  "iterations (settime u s) = iterations s" "results (settime u s) = results s"
  "result_objs (settime u s) = result_objs s" "ticks (settime u s) = ticks s"
  "clock_fn (settime u s) = clock_fn s"
  by (simp_all add: settime_def)

lemma save_n_frame [simp]:
  "get_n (save_n n s) = n" "results (save_n n s) = results s"
  "result_objs (save_n n s) = result_objs s" "gettime (save_n n s) = gettime s"
  "ticks (save_n n s) = ticks s" "clock_fn (save_n n s) = clock_fn s"
  by (simp_all add: save_n_def get_n_def gettime_def)

lemma get_n_settime [simp]: "get_n (settime u s) = get_n s"
  by (simp add: get_n_def)

lemma stop_start:
  assumes "tv_norm (clock_fn s (ticks s))" "tv_norm (clock_fn s' (ticks s'))"
    and "start_tv s' = clock_fn s (ticks s)"
    and "tv_us (clock_fn s' (ticks s')) - tv_us (clock_fn s (ticks s)) < 2 ^ 64"
  shows "uint (fst (stop s')) = max 0 (tv_us (clock_fn s' (ticks s')) - tv_us (clock_fn s (ticks s)))"
  using assms tvdelta_value [of "clock_fn s (ticks s)" "clock_fn s' (ticks s')"]
  by (simp add: stop_def gettimeofday_def)

lemma value_t_eta [simp]: "\<lparr>val_u = val_u x, val_n = val_n x\<rparr> = x"
  by simp

lemma res_list_nth: "res_inv r \<Longrightarrow> i < res_N r \<Longrightarrow> res_list r ! i = res_v r ! i"
  by (simp add: res_inv_def res_list_def)

lemma res_list_length: "res_inv r \<Longrightarrow> length (res_list r) = res_N r"
  by (simp add: res_inv_def res_list_def)

lemma res_v_index: "res_inv r \<Longrightarrow> i < res_N r \<Longrightarrow> i < length (res_v r)"
  by (simp add: res_inv_def)

lemma res_key_order:
  assumes "res_inv r" "i \<le> j" "j < res_N r"
  shows "d_ge (val_key (res_list r ! i)) (val_key (res_list r ! j))"
proof (cases "i = j")
  case True
  have "res_list r ! j \<in> set (res_list r)"
    using assms by (simp add: res_list_length)
  with True assms(1) show ?thesis by (simp add: res_key_not_NaN res_inv_def)
next
  case False
  with assms show ?thesis
    by (simp add: res_inv_def desc_sorted_def sorted_wrt_iff_nth_less res_list_def)
qed

lemma save_minimum_value:
  assumes "res_inv (cur_results s)" "0 < res_N (cur_results s)"
  shows "save_minimum s = Some (settime (val_u (last (res_list (cur_results s))))
                                (save_n (val_n (last (res_list (cur_results s)))) s))"
proof -
  let ?r = "cur_results s"
  have "res_list ?r \<noteq> []" using assms res_list_length [of ?r] by auto
  then have "last (res_list ?r) = res_v ?r ! (res_N ?r - 1)"
    using assms res_list_length [of ?r] by (simp add: last_conv_nth res_list_nth)
  with assms res_v_index [of ?r "res_N ?r - 1"] show ?thesis
    by (simp add: save_minimum_def Let_def)
qed

lemma save_median_total:
  "res_inv (cur_results s) \<Longrightarrow> \<exists>u n. save_median s = Some (settime u (save_n n s))"
  using res_v_index [of "cur_results s" "res_N (cur_results s) div 2"]
    res_v_index [of "cur_results s" "res_N (cur_results s) div 2 - 1"]
  by (auto simp: save_median_def Let_def)

section \<open>Properties\<close>

text \<open>\<open>settime\<close> and \<open>gettime\<close> are inverse: after \<open>settime(u)\<close> the time spent is \<open>u\<close>
  microseconds, for every 64-bit \<open>u\<close>; in particular the split into seconds and
  microseconds loses nothing.\<close>

theorem settime_gettime_roundtrip: "gettime (settime u s) = u \<and> get_n (settime u s) = get_n s"
  by simp

text \<open>An interval measured by \<open>start(0)\<close> and \<open>stop(0, 0)\<close> is the difference of the two
  clock readings in microseconds, and zero if the clock went backwards; \<open>gettime\<close> reports
  the same value afterwards.\<close>

theorem interval_is_elapsed_time:
  assumes "tv_norm (clock_fn s (ticks s))" "tv_norm (clock_fn s (Suc (ticks s)))"
    and "tv_us (clock_fn s (Suc (ticks s))) - tv_us (clock_fn s (ticks s)) < 2 ^ 64"
  shows "uint (fst (stop (start s)))
           = max 0 (tv_us (clock_fn s (Suc (ticks s))) - tv_us (clock_fn s (ticks s)))
         \<and> gettime (snd (stop (start s))) = fst (stop (start s))"
proof -
  have "uint (fst (stop (start s)))
      = max 0 (tv_us (clock_fn s (Suc (ticks s))) - tv_us (clock_fn s (ticks s)))"
    using assms stop_start [of s "start s"] by (simp add: start_def gettimeofday_def)
  then show ?thesis by (simp add: stop_def gettime_def gettimeofday_def)
qed

definition timing_init :: "(nat \<Rightarrow> timeval) \<Rightarrow> timing" where
  "timing_init clk =
     \<lparr>start_tv = tv_zero, stop_tv = tv_zero, iterations = 0,
      result_objs = (\<lambda>_. \<lparr>res_N = 0, res_v = replicate TRIES \<lparr>val_u = 0, val_n = 0\<rparr>\<rparr>),
      results = 0, delta_last = tv_zero, use_result_dummy = 0, clock_fn = clk, ticks = 0\<rparr>"

theorem interval_is_elapsed_time_witness:
  "uint (fst (stop (start (timing_init (\<lambda>k. \<lparr>tv_sec = int k, tv_usec = 999999 - 5 * int k\<rparr>)))))
     = 999995"
  using interval_is_elapsed_time
    [of "timing_init (\<lambda>k. \<lparr>tv_sec = int k, tv_usec = 999999 - 5 * int k\<rparr>)"]
  by (simp add: timing_init_def tv_norm_def tv_us_def)

text \<open>\<open>save_minimum\<close> saves the measurement with the smallest time per iteration: the
  saved pair is a stored entry and no entry has a smaller key; with no measurement it saves
  time 0 and count 1.\<close>

theorem save_minimum_is_least:
  assumes "res_inv (cur_results s)"
  shows "\<exists>s'. save_minimum s = Some s' \<and>
           (if res_N (cur_results s) = 0 then gettime s' = 0 \<and> get_n s' = 1
            else \<lparr>val_u = gettime s', val_n = get_n s'\<rparr> \<in> set (res_list (cur_results s)) \<and>
                 (\<forall>y \<in> set (res_list (cur_results s)). d_le (res_key (gettime s') (get_n s')) (val_key y)))"
proof (cases "res_N (cur_results s) = 0")
  case True
  then show ?thesis by (simp add: save_minimum_def)
next
  case False
  let ?r = "cur_results s" and ?x = "last (res_list (cur_results s))"
  have ne: "res_list ?r \<noteq> []" using False res_list_length [OF assms] by auto
  have "d_le (val_key ?x) (val_key y)" if y: "y \<in> set (res_list ?r)" for y
  proof -
    obtain i where "i < res_N ?r" "y = res_list ?r ! i"
      using y res_list_length [OF assms] by (metis in_set_conv_nth)
    with ne False show ?thesis
      using res_key_order [OF assms, of i "res_N ?r - 1"] res_list_length [OF assms]
      by (simp add: last_conv_nth)
  qed
  moreover have "save_minimum s = Some (settime (val_u ?x) (save_n (val_n ?x) s))"
    using save_minimum_value [OF assms] False by simp
  ultimately show ?thesis using ne False by simp
qed

definition example_results :: result_t where
  "example_results = \<lparr>res_N = 1, res_v = [\<lparr>val_u = 12, val_n = 3\<rparr>]\<rparr>"

lemma example_results_inv: "res_inv example_results"
  by (simp add: example_results_def res_inv_def res_list_def desc_sorted_def)

theorem save_minimum_is_least_witness:
  "\<exists>s'. save_minimum ((timing_init (\<lambda>k. tv_zero))\<lparr>result_objs := (\<lambda>_. example_results)\<rparr>) = Some s'
     \<and> gettime s' = 12 \<and> get_n s' = 3"
  using save_minimum_is_least
    [of "(timing_init (\<lambda>k. tv_zero))\<lparr>result_objs := (\<lambda>_. example_results)\<rparr>"] example_results_inv
  by (auto simp: example_results_def res_list_def)

text \<open>\<open>save_median\<close> on an odd number of measurements saves the one in the middle: the
  saved pair splits the stored entries into two halves of equal length, the first with keys
  not smaller and the second with keys not larger.\<close>

theorem save_median_odd:
  assumes "res_inv (cur_results s)" "odd (res_N (cur_results s))"
  shows "\<exists>s' xs ys. save_median s = Some s' \<and>
           res_list (cur_results s) = xs @ \<lparr>val_u = gettime s', val_n = get_n s'\<rparr> # ys \<and>
           length xs = length ys \<and>
           (\<forall>x \<in> set xs. d_ge (val_key x) (res_key (gettime s') (get_n s'))) \<and>
           (\<forall>y \<in> set ys. d_le (val_key y) (res_key (gettime s') (get_n s')))"
proof -
  let ?r = "cur_results s" and ?i = "res_N (cur_results s) div 2"
  let ?l = "res_list (cur_results s)" and ?x = "res_v (cur_results s) ! (res_N (cur_results s) div 2)"
  have i: "?i < res_N ?r" using assms(2) by (metis div_less_dividend one_less_numeral_iff odd_pos semiring_norm(76))
  have l: "length ?l = res_N ?r" by (rule res_list_length [OF assms(1)])
  have split: "?l = take ?i ?l @ ?x # drop (Suc ?i) ?l"
    using i l res_list_nth [OF assms(1) i] by (metis id_take_nth_drop)
  have "save_median s = Some (settime (val_u ?x) (save_n (val_n ?x) s))"
    using i assms res_v_index [OF assms(1) i] by (simp add: save_median_def mod2_eq_if Let_def)
  moreover have "length (take ?i ?l) = length (drop (Suc ?i) ?l)"
    using i l assms(2) by (auto elim: oddE)
  moreover have "\<forall>x \<in> set (take ?i ?l). d_ge (val_key x) (val_key ?x)"
  proof
    fix x assume "x \<in> set (take ?i ?l)"
    then obtain k where "k < ?i" "x = ?l ! k"
      by (auto simp: in_set_conv_nth)
    then show "d_ge (val_key x) (val_key ?x)"
      using res_key_order [OF assms(1), of k ?i] i res_list_nth [OF assms(1) i] by simp
  qed
  moreover have "\<forall>y \<in> set (drop (Suc ?i) ?l). d_le (val_key y) (val_key ?x)"
  proof
    fix y assume "y \<in> set (drop (Suc ?i) ?l)"
    then obtain k where "k < length (drop (Suc ?i) ?l)" "y = drop (Suc ?i) ?l ! k"
      by (metis in_set_conv_nth)
    then have "Suc ?i + k < res_N ?r" "y = ?l ! (Suc ?i + k)"
      using l i by auto
    then show "d_le (val_key y) (val_key ?x)"
      using res_key_order [OF assms(1), of ?i "Suc ?i + k"] i res_list_nth [OF assms(1) i] by simp
  qed
  ultimately show ?thesis
    using split by (intro exI [of _ "settime (val_u ?x) (save_n (val_n ?x) s)"]
        exI [of _ "take ?i ?l"] exI [of _ "drop (Suc ?i) ?l"]) simp
qed

theorem save_median_odd_witness:
  "\<exists>s'. save_median ((timing_init (\<lambda>k. tv_zero))\<lparr>result_objs := (\<lambda>_. example_results)\<rparr>) = Some s'
     \<and> gettime s' = 12 \<and> get_n s' = 3"
proof -
  let ?s = "(timing_init (\<lambda>k. tv_zero))\<lparr>result_objs := (\<lambda>_. example_results)\<rparr>"
  have "res_inv (cur_results ?s)" "odd (res_N (cur_results ?s))"
    using example_results_inv by (simp_all add: example_results_def)
  from save_median_odd [OF this] show ?thesis
    by (auto simp: example_results_def res_list_def Cons_eq_append_conv)
qed

end
