(* ===== verification/Interval.thy ===== *)
theory Interval
  imports Timing
begin

text \<open>
  The measurement loop of a benchmark child, \<open>benchmp_child\<close> and \<open>benchmp_interval\<close> of
  \<open>src/lib_timing.c\<close>: the phase machine \<open>warmup\<close>, \<open>timing_interval\<close>, \<open>cooldown\<close>, the
  measurements it stores and the bytes it exchanges with the parent. One call of
  \<open>benchmp_interval\<close> is one step; what the operating system answers in it (pipe readiness,
  the parent's pid, the two overheads) is its environment, and what it does to the outside
  is a list of events.
\<close>

section \<open>Data\<close>

datatype benchmp_state = warmup | timing_interval | cooldown

instantiation benchmp_state :: linorder
begin

fun phase_no :: "benchmp_state \<Rightarrow> nat" where
  "phase_no warmup = 0"
| "phase_no timing_interval = 1"
| "phase_no cooldown = 2"

definition less_eq_benchmp_state :: "benchmp_state \<Rightarrow> benchmp_state \<Rightarrow> bool" where
  "less_eq_benchmp_state a b = (phase_no a \<le> phase_no b)"

definition less_benchmp_state :: "benchmp_state \<Rightarrow> benchmp_state \<Rightarrow> bool" where
  "less_benchmp_state a b = (phase_no a < phase_no b)"

instance
proof
  fix x y z :: benchmp_state
  show "x < y \<longleftrightarrow> x \<le> y \<and> \<not> y \<le> x"
    by (auto simp: less_eq_benchmp_state_def less_benchmp_state_def)
  show "x \<le> x" by (simp add: less_eq_benchmp_state_def)
  show "x \<le> y \<Longrightarrow> y \<le> z \<Longrightarrow> x \<le> z" by (simp add: less_eq_benchmp_state_def)
  show "x \<le> y \<Longrightarrow> y \<le> x \<Longrightarrow> x = y"
    by (cases x; cases y) (simp_all add: less_eq_benchmp_state_def)
  show "x \<le> y \<or> y \<le> x" by (auto simp: less_eq_benchmp_state_def)
qed

end

text \<open>\<open>benchmp_child_state\<close>, without the descriptors and the cookie; \<open>initialize\<close> and
  \<open>cleanup\<close> are benchmark callbacks, of which only whether they are there matters here. The
  result array \<open>r\<close> is the object \<open>results\<close> of the timing state points to.\<close>

record child_state =
  cs_state :: benchmp_state
  cs_childid :: int
  cs_enough :: int
  cs_iterations :: u64
  cs_parallel :: int
  cs_repetitions :: int
  cs_iterations_batch :: u64
  cs_need_warmup :: bool
  cs_i :: int
  cs_r_size :: int
  cs_initialize :: bool
  cs_cleanup :: bool

record interval_env =
  start_ready :: bool
  result_ready :: bool
  ppid_is_1 :: bool
  t_ovh :: u64
  l_ovh :: dbl
  sigchld_dfl :: bool

datatype child_event =
    SigchldDefault
  | Cleanup u64
  | Initialize u64
  | ReadStart
  | WriteReady
  | WriteDone
  | ReadResult
  | WriteResults result_t int
  | ReadExit

datatype interval_ret = Continue u64 | Exited

section \<open>benchmp_interval\<close>

text \<open>The call of the \<open>cleanup\<close> callback, guarded as in the code.\<close>

definition call_cleanup :: "interval_env \<Rightarrow> child_state \<Rightarrow> u64 \<Rightarrow> child_event list" where
  "call_cleanup e c n =
     (if cs_cleanup c then (if sigchld_dfl e then [SigchldDefault] else []) @ [Cleanup n] else [])"

text \<open>The first part: stop the clock, subtract the overheads, and store the time and the
  count the interval was run with.\<close>

definition interval_result ::
  "interval_env \<Rightarrow> child_state \<Rightarrow> timing \<Rightarrow> dbl \<times> child_event list \<times> timing" where
  "interval_result e c tm =
     (if cs_need_warmup c then (d_of_int (cs_enough c), [], tm)
      else
        let iters = (if cs_state c = timing_interval then cs_iterations c
                          else cs_iterations_batch c);
            (u, tm) = stop tm;
            result = d_of_u64 u;
            ev = call_cleanup e c iters;
            tm = save_n (cs_iterations c) tm;
            result = d_sub result (d_add (d_of_u64 (t_ovh e)) (d_mul (d_of_u64 (get_n tm)) (l_ovh e)));
            tm = settime (u64_of_dbl (if d_ge result (Fin 0) then d_of_u64 (u64_of_dbl result)
                                      else Fin 0)) tm
        in (result, ev, tm))"

definition lit :: "real \<Rightarrow> dbl" where
  "lit x = to_dbl x"

text \<open>The recomputation of the iteration count in the \<open>timing_interval\<close> case, for a single
  child whose interval was too short or too long. The flag says that the count passed its
  limit and the child gives up.\<close>

definition adjust_iterations :: "int \<Rightarrow> dbl \<Rightarrow> u64 \<Rightarrow> u64 \<times> bool" where
  "adjust_iterations enough result iters =
     (if d_gt result (Fin 150) then
        let tmp = d_div (d_of_u64 iters) result;
            tmp = d_mul tmp (d_mul (lit (11 / 10)) (d_of_int enough))
        in (u64_of_dbl (d_add tmp (Fin 1)), False)
      else
        let iters = push_bit 3 iters
        in (iters, 2 ^ 27 < iters \<or> (d_lt result (Fin 0) \<and> 2 ^ 20 < iters)))"

definition interval_warmup ::
  "interval_env \<Rightarrow> child_state \<Rightarrow> u64 \<times> child_event list \<times> child_state" where
  "interval_warmup e c =
     (let iters = cs_iterations_batch c;
          (iters, ev, c) =
            (if start_ready e then (cs_iterations c, [ReadStart], c\<lparr>cs_state := timing_interval\<rparr>)
             else (iters, [], c));
          (ev, c) = (if cs_need_warmup c then (ev @ [WriteReady], c\<lparr>cs_need_warmup := False\<rparr>)
                     else (ev, c))
      in (iters, ev, c))"

text \<open>The \<open>timing_interval\<close> case: store the measurement, recompute the count, and tell the
  parent when the experiments are done.\<close>

definition store_result :: "dbl \<Rightarrow> child_state \<Rightarrow> timing \<Rightarrow> (child_state \<times> timing) option" where
  "store_result result c tm =
     (if 1 < cs_parallel c \<or> d_gt result (d_mul (lit (95 / 100)) (d_of_int (cs_enough c))) then
        do { r \<leftarrow> insertsort (gettime tm) (get_n tm) (result_objs tm (get_results tm));
             let tm = tm\<lparr>result_objs := (result_objs tm)(get_results tm := r)\<rparr>;
             let c = c\<lparr>cs_i := cs_i c + 1\<rparr>;
             Some (if cs_repetitions c \<le> cs_i c then c\<lparr>cs_state := cooldown\<rparr> else c, tm) }
      else Some (c, tm))"

definition next_iterations :: "dbl \<Rightarrow> child_state \<Rightarrow> child_state" where
  "next_iterations result c =
     (if cs_parallel c = 1
         \<and> (d_lt result (d_mul (lit (99 / 100)) (d_of_int (cs_enough c)))
            \<or> d_gt result (d_mul (lit (12 / 10)) (d_of_int (cs_enough c))))
      then let (iters, stop_it) = adjust_iterations (cs_enough c) result (cs_iterations c)
           in c\<lparr>cs_iterations := iters, cs_state := (if stop_it then cooldown else cs_state c)\<rparr>
      else c)"

definition interval_timing ::
  "dbl \<Rightarrow> child_state \<Rightarrow> timing \<Rightarrow> (u64 \<times> child_event list \<times> child_state \<times> timing) option" where
  "interval_timing result c tm =
     do { (c, tm) \<leftarrow> store_result result c tm;
          let c = next_iterations result c;
          Some (if cs_state c = cooldown then (cs_iterations_batch c, [WriteDone], c, tm)
                else (cs_iterations c, [], c, tm)) }"

definition interval_exit_events ::
  "interval_env \<Rightarrow> child_state \<Rightarrow> timing \<Rightarrow> child_event list" where
  "interval_exit_events e c tm =
     [ReadResult, WriteResults (result_objs tm (get_results tm)) (cs_r_size c)]
     @ call_cleanup e c 0 @ [ReadExit]"

definition benchmp_interval ::
  "interval_env \<Rightarrow> child_state \<Rightarrow> timing
     \<Rightarrow> (interval_ret \<times> child_event list \<times> child_state \<times> timing) option" where
  "benchmp_interval e c tm =
     (let (result, ev, tm) = interval_result e c tm in
      if ppid_is_1 e \<and> cs_cleanup c then Some (Exited, ev @ call_cleanup e c 0, c, tm)
      else if cs_state c = cooldown \<and> result_ready e then
        Some (Exited, ev @ interval_exit_events e c tm, c, tm)
      else
        do { (iters, ev', c, tm) \<leftarrow>
               (case cs_state c of
                  warmup \<Rightarrow> (let (n, ev', c) = interval_warmup e c in Some (n, ev', c, tm))
                | timing_interval \<Rightarrow> interval_timing result c tm
                | cooldown \<Rightarrow> Some (cs_iterations_batch c, [], c, tm));
             let ev'' = (if cs_initialize c then [Initialize iters] else []);
             Some (Continue iters, ev @ ev' @ ev'', c, start tm) })"

section \<open>benchmp_child\<close>

text \<open>The set-up of a child. \<open>malloc\<close> of the result array is the argument \<open>r\<close>, \<open>None\<close> when it
  fails, and \<open>addr\<close> is its address. The child then calls the benchmark with the count
  \<open>benchmp_interval\<close> returns, for ever; \<open>child_run\<close> is that loop over the environments of
  its calls, up to the call that exits.\<close>

definition benchmp_child ::
  "bool \<Rightarrow> bool \<Rightarrow> int \<Rightarrow> int \<Rightarrow> u64 \<Rightarrow> int \<Rightarrow> int \<Rightarrow> nat \<Rightarrow> result_t option \<Rightarrow> timing
     \<Rightarrow> (child_state \<times> timing) option" where
  "benchmp_child initialize cleanup childid enough iters parallel repetitions addr r tm =
     (let iterations_batch = (if 1 < parallel then get_n tm else 1);
          c = \<lparr>cs_state = warmup, cs_childid = childid, cs_enough = enough,
               cs_iterations = iters, cs_parallel = parallel,
               cs_repetitions = repetitions, cs_iterations_batch = iterations_batch,
               cs_need_warmup = True, cs_i = 0, cs_r_size = sizeof_result repetitions,
               cs_initialize = initialize, cs_cleanup = cleanup\<rparr>
      in do { r \<leftarrow> r;
              tm \<leftarrow> set_results addr (tm\<lparr>result_objs := (result_objs tm)(addr := insertinit r)\<rparr>);
              Some (c, tm\<lparr>result_objs := (result_objs tm)(addr := insertinit (result_objs tm addr))\<rparr>) })"

fun child_run ::
  "interval_env list \<Rightarrow> child_state \<Rightarrow> timing \<Rightarrow> (child_event list \<times> child_state \<times> timing) option" where
  "child_run [] c tm = Some ([], c, tm)"
| "child_run (e # es) c tm =
     (case benchmp_interval e c tm of
        None \<Rightarrow> None
      | Some (Exited, ev, c, tm) \<Rightarrow> Some (ev, c, tm)
      | Some (Continue n, ev, c, tm) \<Rightarrow>
          do { (ev', c, tm) \<leftarrow> child_run es c tm; Some (ev @ ev', c, tm) })"

section \<open>One step\<close>

lemma start_frame [simp]:
  "result_objs (start s) = result_objs s" "results (start s) = results s"
  "clock_fn (start s) = clock_fn s" "iterations (start s) = iterations s"
  by (simp_all add: start_def gettimeofday_def)

lemma stop_frame [simp]:
  "result_objs (snd (stop s)) = result_objs s" "results (snd (stop s)) = results s"
  "clock_fn (snd (stop s)) = clock_fn s" "iterations (snd (stop s)) = iterations s"
  by (simp_all add: stop_def gettimeofday_def)

lemma interval_result_frame:
  assumes "interval_result e c tm = (result, ev, tm')"
  shows "result_objs tm' = result_objs tm" "results tm' = results tm"
    and "\<not> cs_need_warmup c \<Longrightarrow> get_n tm' = cs_iterations c"
  using assms
  by (auto simp: interval_result_def Let_def case_prod_unfold simp del: u64_of_dbl.simps split: if_splits)

definition only_cleanup :: "child_event list \<Rightarrow> bool" where
  "only_cleanup ev = (set ev \<subseteq> {SigchldDefault} \<union> range Cleanup)"

lemma interval_result_events:
  "interval_result e c tm = (result, ev, tm') \<Longrightarrow> only_cleanup ev"
  by (auto simp: interval_result_def Let_def only_cleanup_def call_cleanup_def case_prod_unfold
      simp del: u64_of_dbl.simps split: if_splits)

text \<open>What stays of the child state in every step.\<close>

definition same_setup :: "child_state \<Rightarrow> child_state \<Rightarrow> bool" where
  "same_setup c c' = (cs_childid c' = cs_childid c \<and> cs_enough c' = cs_enough c
     \<and> cs_parallel c' = cs_parallel c \<and> cs_repetitions c' = cs_repetitions c
     \<and> cs_iterations_batch c' = cs_iterations_batch c \<and> cs_r_size c' = cs_r_size c
     \<and> cs_initialize c' = cs_initialize c \<and> cs_cleanup c' = cs_cleanup c)"

lemma interval_warmup_step:
  assumes "interval_warmup e c = (n, ev, c')"
  shows "same_setup c c'" "\<not> cs_need_warmup c'" "cs_i c' = cs_i c" "cs_iterations c' = cs_iterations c"
    "cs_state c' = (if start_ready e then timing_interval else cs_state c)"
    "ev = (if start_ready e then [ReadStart] else []) @ (if cs_need_warmup c then [WriteReady] else [])"
    "n = (if start_ready e then cs_iterations c else cs_iterations_batch c)"
  using assms by (auto simp: interval_warmup_def same_setup_def split: if_splits)

text \<open>Whether the \<open>timing_interval\<close> case stores the measurement.\<close>

definition stores :: "dbl \<Rightarrow> child_state \<Rightarrow> bool" where
  "stores result c =
     (1 < cs_parallel c \<or> d_gt result (d_mul (lit (95 / 100)) (d_of_int (cs_enough c))))"

definition gives_up :: "dbl \<Rightarrow> child_state \<Rightarrow> bool" where
  "gives_up result c =
     (cs_parallel c = 1
      \<and> (d_lt result (d_mul (lit (99 / 100)) (d_of_int (cs_enough c)))
         \<or> d_gt result (d_mul (lit (12 / 10)) (d_of_int (cs_enough c))))
      \<and> snd (adjust_iterations (cs_enough c) result (cs_iterations c)))"

lemma store_result_step:
  assumes "store_result result c tm = Some (c', tm')"
  shows "c' = (if stores result c
               then c\<lparr>cs_i := cs_i c + 1,
                      cs_state := (if cs_repetitions c \<le> cs_i c + 1 then cooldown else cs_state c)\<rparr>
               else c)"
    "results tm' = results tm"
    "(if stores result c then insertsort (gettime tm) (get_n tm) (cur_results tm) = Some (cur_results tm')
      else tm' = tm)"
  using assms
  by (auto simp: store_result_def stores_def get_results_def Let_def split: if_splits bind_splits)

lemma next_iterations_step:
  fixes result :: dbl and c :: child_state
  shows "same_setup c (next_iterations result c)"
  "cs_need_warmup (next_iterations result c) = cs_need_warmup c"
  "cs_i (next_iterations result c) = cs_i c"
  "cs_state (next_iterations result c) = (if gives_up result c then cooldown else cs_state c)"
  by (auto simp: next_iterations_def gives_up_def same_setup_def case_prod_unfold Let_def)

lemma interval_timing_step:
  assumes "interval_timing result c tm = Some (n, ev, c', tm')" "cs_state c = timing_interval"
  shows "same_setup c c'" "cs_need_warmup c' = cs_need_warmup c"
    "cs_i c' = (if stores result c then cs_i c + 1 else cs_i c)"
    "cs_state c' = (if (stores result c \<and> cs_repetitions c \<le> cs_i c + 1) \<or> gives_up result c
                    then cooldown else timing_interval)"
    "ev = (if cs_state c' = cooldown then [WriteDone] else [])"
    "n = (if cs_state c' = cooldown then cs_iterations_batch c else cs_iterations c')"
    "results tm' = results tm"
    "(if stores result c then insertsort (gettime tm) (get_n tm) (cur_results tm) = Some (cur_results tm')
      else tm' = tm)"
proof -
  obtain c1 where st: "store_result result c tm = Some (c1, tm')"
    and c': "c' = next_iterations result c1"
    and ret: "(n, ev) = (if cs_state c' = cooldown then (cs_iterations_batch c', [WriteDone])
                         else (cs_iterations c', []))"
    using assms(1) by (auto simp: interval_timing_def Let_def split: if_splits bind_splits)
  note c1 = store_result_step [OF st]
  have up: "gives_up result c1 = gives_up result c" using c1(1) by (simp add: gives_up_def)
  note ni = next_iterations_step [where c = c1 and result = result]
  show "same_setup c c'" using ni(1) c1(1) c' by (simp add: same_setup_def)
  then show "n = (if cs_state c' = cooldown then cs_iterations_batch c else cs_iterations c')"
    using ret by (auto simp: same_setup_def)
  show "ev = (if cs_state c' = cooldown then [WriteDone] else [])" using ret by auto
  show "cs_need_warmup c' = cs_need_warmup c" using ni(2) c1(1) c' by simp
  show "cs_i c' = (if stores result c then cs_i c + 1 else cs_i c)" using ni(3) c1(1) c' by simp
  show "cs_state c' = (if (stores result c \<and> cs_repetitions c \<le> cs_i c + 1) \<or> gives_up result c
                       then cooldown else timing_interval)"
    using ni(4) c1(1) c' up assms(2) by simp
  show "results tm' = results tm" by (rule c1(2))
  show "if stores result c then insertsort (gettime tm) (get_n tm) (cur_results tm) = Some (cur_results tm')
        else tm' = tm" by (rule c1(3))
qed

lemma interval_timing_total:
  "insertsort (gettime tm) (get_n tm) (cur_results tm) \<noteq> None \<Longrightarrow> interval_timing result c tm \<noteq> None"
  by (auto simp: interval_timing_def store_result_def get_results_def Let_def split: bind_splits if_splits)

section \<open>The invariant of a child\<close>

text \<open>The array of the child has room for every measurement it may still store: it stores
  at most one per increment of \<open>i\<close>, and none once \<open>i\<close> has reached the repetitions.\<close>

definition child_inv :: "child_state \<Rightarrow> timing \<Rightarrow> bool" where
  "child_inv c tm =
     (res_inv (cur_results tm)
      \<and> max 1 (cs_repetitions c) \<le> int (length (res_v (cur_results tm)))
      \<and> int (res_N (cur_results tm)) \<le> cs_i c
      \<and> cs_i c \<le> max 1 (cs_repetitions c)
      \<and> (cs_state c \<noteq> cooldown \<longrightarrow> cs_i c < max 1 (cs_repetitions c))
      \<and> (cs_need_warmup c \<longrightarrow> cs_state c = warmup))"

lemma child_inv_space:
  assumes "child_inv c tm" "cs_state c \<noteq> cooldown"
  shows "res_N (cur_results tm) < length (res_v (cur_results tm))"
proof -
  have "int (res_N (cur_results tm)) \<le> cs_i c" "cs_i c < max 1 (cs_repetitions c)"
    "max 1 (cs_repetitions c) \<le> int (length (res_v (cur_results tm)))"
    using assms by (simp_all add: child_inv_def)
  then show ?thesis by linarith
qed

lemma child_inv_insertsort:
  assumes "child_inv c tm" "cs_state c \<noteq> cooldown"
  shows "\<exists>r'. insertsort u n (cur_results tm) = Some r' \<and> res_inv r'
           \<and> length (res_v r') = length (res_v (cur_results tm))
           \<and> res_N r' \<le> Suc (res_N (cur_results tm))"
  using insertsort_inv [OF _ child_inv_space [OF assms], of u n] assms(1)
  by (auto simp: child_inv_def split: if_splits)

lemma child_inv_timing:
  assumes "child_inv c tm" "cs_state c = timing_interval"
    "interval_timing result c tm = Some (n, ev, c', tm')"
  shows "child_inv c' tm'"
proof -
  note st = interval_timing_step [OF assms(3,2)]
  obtain r' where r': "insertsort (gettime tm) (get_n tm) (cur_results tm) = Some r'" "res_inv r'"
      "length (res_v r') = length (res_v (cur_results tm))" "res_N r' \<le> Suc (res_N (cur_results tm))"
    using child_inv_insertsort [OF assms(1)] assms(2) by force
  show ?thesis
  proof (cases "stores result c")
    case True
    then have "cur_results tm' = r'" using st(8) r'(1) by simp
    with True st r' assms(1,2) show ?thesis
      by (auto simp: child_inv_def same_setup_def)
  next
    case False
    with st assms(1,2) show ?thesis by (auto simp: child_inv_def same_setup_def)
  qed
qed

lemma child_inv_cong:
  "child_inv c tm \<Longrightarrow> result_objs tm' = result_objs tm \<Longrightarrow> results tm' = results tm \<Longrightarrow> child_inv c tm'"
  by (simp add: child_inv_def)

lemma child_inv_warmup:
  assumes "child_inv c tm" "cs_state c = warmup" "interval_warmup e c = (n, ev, c')"
  shows "child_inv c' tm"
  using assms(1,2) interval_warmup_step [OF assms(3)] by (auto simp: child_inv_def same_setup_def)

text \<open>The outcomes of a call, one per branch of the code.\<close>

lemma benchmp_interval_cases:
  assumes "benchmp_interval e c tm = Some (ret, ev, c', tm')"
  obtains
    (orphan) evr result where "ret = Exited" "ppid_is_1 e" "cs_cleanup c" "c' = c"
      "interval_result e c tm = (result, evr, tm')" "ev = evr @ call_cleanup e c 0"
  | (report) evr result where "ret = Exited" "cs_state c = cooldown" "result_ready e" "c' = c"
      "interval_result e c tm = (result, evr, tm')" "ev = evr @ interval_exit_events e c tm'"
  | (warm) n evr result tm1 ev1 where "ret = Continue n" "cs_state c = warmup"
      "interval_result e c tm = (result, evr, tm1)" "interval_warmup e c = (n, ev1, c')"
      "tm' = start tm1" "ev = evr @ ev1 @ (if cs_initialize c' then [Initialize n] else [])"
  | (time) n evr result tm1 ev1 tm2 where "ret = Continue n" "cs_state c = timing_interval"
      "interval_result e c tm = (result, evr, tm1)"
      "interval_timing result c tm1 = Some (n, ev1, c', tm2)"
      "tm' = start tm2" "ev = evr @ ev1 @ (if cs_initialize c' then [Initialize n] else [])"
  | (cool) n evr result tm1 where "ret = Continue n" "cs_state c = cooldown" "\<not> result_ready e"
      "interval_result e c tm = (result, evr, tm1)" "c' = c"
      "tm' = start tm1" "ev = evr @ (if cs_initialize c' then [Initialize n] else [])"
  using assms
  by (cases "cs_state c")
     (auto simp: benchmp_interval_def Let_def split: if_splits prod.splits bind_splits)

lemma benchmp_interval_total:
  assumes "child_inv c tm"
  shows "\<exists>ret ev c' tm'. benchmp_interval e c tm = Some (ret, ev, c', tm')"
proof -
  obtain result evr tm1 where ir: "interval_result e c tm = (result, evr, tm1)"
    by (metis prod_cases3)
  have inv1: "child_inv c tm1"
    using child_inv_cong [OF assms] interval_result_frame(1,2) [OF ir] by simp
  have "interval_timing result c tm1 \<noteq> None" if "cs_state c = timing_interval"
    using child_inv_insertsort [OF inv1] that by (intro interval_timing_total) force
  with ir show ?thesis
    by (cases "cs_state c") (auto simp: benchmp_interval_def split: prod.splits)
qed

lemma benchmp_interval_inv:
  assumes "child_inv c tm" "benchmp_interval e c tm = Some (ret, ev, c', tm')"
  shows "child_inv c' tm' \<and> same_setup c c'"
  using assms(2)
proof (cases rule: benchmp_interval_cases)
  case (orphan evr result)
  with interval_result_frame(1,2) [OF orphan(5)] child_inv_cong [OF assms(1)] show ?thesis
    by (simp add: same_setup_def)
next
  case (report evr result)
  with interval_result_frame(1,2) [OF report(5)] child_inv_cong [OF assms(1)] show ?thesis
    by (simp add: same_setup_def)
next
  case (warm n evr result tm1 ev1)
  have "child_inv c tm1"
    using interval_result_frame(1,2) [OF warm(3)] child_inv_cong [OF assms(1)] by simp
  from child_inv_warmup [OF this warm(2,4)] have "child_inv c' tm1" .
  with warm(5) interval_warmup_step(1) [OF warm(4)] show ?thesis
    by (auto intro: child_inv_cong)
next
  case (time n evr result tm1 ev1 tm2)
  have "child_inv c tm1"
    using interval_result_frame(1,2) [OF time(3)] child_inv_cong [OF assms(1)] by simp
  from child_inv_timing [OF this time(2,4)] have "child_inv c' tm2" .
  with time(5) interval_timing_step(1) [OF time(4,2)] show ?thesis
    by (auto intro: child_inv_cong)
next
  case (cool n evr result tm1)
  with interval_result_frame(1,2) [OF cool(4)] child_inv_cong [OF assms(1)] show ?thesis
    by (simp add: same_setup_def)
qed

section \<open>The handshake with the parent\<close>

text \<open>The events the parent takes part in, in a run of a child.\<close>

definition is_handshake :: "child_event \<Rightarrow> bool" where
  "is_handshake ev = (case ev of SigchldDefault \<Rightarrow> False | Cleanup _ \<Rightarrow> False | Initialize _ \<Rightarrow> False | _ \<Rightarrow> True)"

definition handshake :: "child_event list \<Rightarrow> child_event list" where
  "handshake ev = filter is_handshake ev"

text \<open>The handshakes a child may still make. A child may vanish between two of them (its
  parent died), so every prefix is allowed.\<close>

definition cool_words :: "child_event list \<Rightarrow> bool" where
  "cool_words w = (w = [] \<or> (\<exists>r k. w = [ReadResult, WriteResults r k, ReadExit]))"

definition timing_words :: "child_event list \<Rightarrow> bool" where
  "timing_words w = (w = [] \<or> (\<exists>w'. w = WriteDone # w' \<and> cool_words w'))"

definition ready_words :: "child_event list \<Rightarrow> bool" where
  "ready_words w = (w = [] \<or> (\<exists>w'. w = ReadStart # w' \<and> timing_words w'))"

definition initial_words :: "child_event list \<Rightarrow> bool" where
  "initial_words w = (w = [] \<or> (\<exists>w'. w = WriteReady # w' \<and> ready_words w')
                      \<or> (\<exists>w'. w = ReadStart # WriteReady # w' \<and> timing_words w'))"

definition words_of :: "child_state \<Rightarrow> child_event list \<Rightarrow> bool" where
  "words_of c = (case cs_state c of
       warmup \<Rightarrow> if cs_need_warmup c then initial_words else ready_words
     | timing_interval \<Rightarrow> timing_words
     | cooldown \<Rightarrow> cool_words)"

lemmas words_defs = cool_words_def timing_words_def ready_words_def initial_words_def

lemma handshake_append [simp]: "handshake (a @ b) = handshake a @ handshake b"
  by (simp add: handshake_def)

lemma handshake_simps [simp]:
  "handshake [] = []"
  "handshake (SigchldDefault # ev) = handshake ev" "handshake (Cleanup n # ev) = handshake ev"
  "handshake (Initialize n # ev) = handshake ev"
  "handshake (ReadStart # ev) = ReadStart # handshake ev"
  "handshake (WriteReady # ev) = WriteReady # handshake ev"
  "handshake (WriteDone # ev) = WriteDone # handshake ev"
  "handshake (ReadResult # ev) = ReadResult # handshake ev"
  "handshake (WriteResults r k # ev) = WriteResults r k # handshake ev"
  "handshake (ReadExit # ev) = ReadExit # handshake ev"
  by (simp_all add: handshake_def is_handshake_def)

lemma handshake_cleanup [simp]: "handshake (call_cleanup e c n) = []"
  by (simp add: call_cleanup_def)

lemma handshake_only_cleanup: "only_cleanup ev \<Longrightarrow> handshake ev = []"
  by (auto simp: only_cleanup_def handshake_def is_handshake_def filter_empty_conv split: child_event.splits)

lemmas handshake_result = handshake_only_cleanup [OF interval_result_events]

text \<open>One call: its handshakes, and what they leave to do.\<close>

lemma benchmp_interval_handshake:
  assumes "benchmp_interval e c tm = Some (ret, ev, c', tm')"
  shows "if ret = Exited then words_of c (handshake ev)
         else \<forall>w. words_of c' w \<longrightarrow> words_of c (handshake ev @ w)"
  using assms
proof (cases rule: benchmp_interval_cases)
  case (orphan evr result)
  then show ?thesis
    by (auto simp: handshake_result words_of_def words_defs split: benchmp_state.splits)
next
  case (report evr result)
  then show ?thesis
    by (auto simp: handshake_result words_of_def cool_words_def interval_exit_events_def)
next
  case (warm n evr result tm1 ev1)
  note st = interval_warmup_step [OF warm(4)]
  show ?thesis
  proof (cases "cs_need_warmup c")
    case True
    with warm st(2,5,6) show ?thesis
      by (simp add: handshake_result [OF warm(3)] words_of_def)
         (auto simp: initial_words_def)
  next
    case False
    with warm st(2,5,6) show ?thesis
      by (simp add: handshake_result [OF warm(3)] words_of_def)
         (auto simp: ready_words_def)
  qed
next
  case (time n evr result tm1 ev1 tm2)
  note st = interval_timing_step [OF time(4,2)]
  show ?thesis
    using time st(4,5) by (auto simp: handshake_result [OF time(3)] words_of_def timing_words_def)
next
  case (cool n evr result tm1)
  then show ?thesis by (auto simp: handshake_result [OF cool(4)] words_of_def)
qed

lemma child_run_words:
  "child_run es c tm = Some (ev, c', tm') \<Longrightarrow> words_of c (handshake ev)"
proof (induction es arbitrary: c tm ev)
  case Nil
  then show ?case
    by (auto simp: words_of_def words_defs split: benchmp_state.splits)
next
  case (Cons e es)
  from Cons.prems obtain ret ev1 c1 tm1 where st: "benchmp_interval e c tm = Some (ret, ev1, c1, tm1)"
    by (cases "benchmp_interval e c tm") auto
  note hs = benchmp_interval_handshake [OF st]
  show ?case
  proof (cases ret)
    case Exited
    with Cons.prems st hs show ?thesis by simp
  next
    case (Continue n)
    with Cons.prems st obtain ev2 where ev2: "child_run es c1 tm1 = Some (ev2, c', tm')" "ev = ev1 @ ev2"
      by (auto split: bind_splits)
    have "words_of c1 (handshake ev2)"
      using ev2(1) by (rule Cons.IH)
    with hs Continue ev2(2) show ?thesis by simp
  qed
qed

lemma child_run_total:
  "child_inv c tm \<Longrightarrow> \<exists>ev c' tm'. child_run es c tm = Some (ev, c', tm') \<and> child_inv c' tm'"
proof (induction es arbitrary: c tm)
  case Nil
  then show ?case by simp
next
  case (Cons e es)
  obtain ret ev1 c1 tm1 where st: "benchmp_interval e c tm = Some (ret, ev1, c1, tm1)"
    using benchmp_interval_total [OF Cons.prems] by blast
  have inv: "child_inv c1 tm1" using benchmp_interval_inv [OF Cons.prems st] by simp
  show ?case
  proof (cases ret)
    case Exited
    with st inv show ?thesis by simp
  next
    case (Continue n)
    with st Cons.IH [OF inv] show ?thesis by auto
  qed
qed

lemma benchmp_child_inv:
  assumes "length (res_v r) = capacity_of_size (sizeof_result repetitions)" "repetitions < 2 ^ 27"
  shows "\<exists>c tm'. benchmp_child ini cln cid enough iters par repetitions addr (Some r) tm = Some (c, tm')
           \<and> child_inv c tm' \<and> cs_state c = warmup \<and> cs_need_warmup c"
proof -
  let ?tm = "(tm\<lparr>result_objs := (result_objs tm)(addr := insertinit r), results := addr\<rparr>)"
  have "res_inv (cur_results ?tm)" by (simp add: res_inv_insertinit)
  then obtain u n where "save_median ?tm = Some (settime u (save_n n ?tm))"
    using save_median_total by blast
  moreover have "int TRIES \<le> int (length (res_v r))" "repetitions \<le> int (length (res_v r))"
    using assms by (auto simp: capacity_sizeof_result)
  ultimately show ?thesis
    by (simp add: benchmp_child_def set_results_def child_inv_def insertinit_def res_inv_def
        res_list_def desc_sorted_def TRIES_def max_def)
qed

lemma benchmp_child_fresh:
  "benchmp_child ini cln cid enough iters par repetitions addr (Some r) tm = Some (c, tm') \<Longrightarrow> cs_state c = warmup \<and> cs_need_warmup c"
  by (auto simp: benchmp_child_def Let_def split: bind_splits)

lemma benchmp_child_startD:
  assumes "length (res_v r) = capacity_of_size (sizeof_result repetitions)" "repetitions < 2 ^ 27"
    and "benchmp_child ini cln cid enough iters par repetitions addr (Some r) tm = Some (c, tm')"
  shows "child_inv c tm'" "cs_state c = warmup" "cs_need_warmup c"
  using benchmp_child_inv [OF assms(1,2), of ini cln cid enough iters par addr tm] assms(3) by auto

section \<open>Liveness\<close>

text \<open>A call in the \<open>timing_interval\<close> phase of a child whose parent is alive.\<close>

lemma timing_call:
  assumes "child_inv c tm" "cs_state c = timing_interval" "\<not> ppid_is_1 e"
  obtains n ev c' tm' result evr tm1 tm2 where
    "benchmp_interval e c tm = Some (Continue n, ev, c', tm')"
    "interval_result e c tm = (result, evr, tm1)" "tm' = start tm2"
    "interval_timing result c tm1 = Some (n, if cs_state c' = cooldown then [WriteDone] else [], c', tm2)"
    "child_inv c' tm'" "same_setup c c'"
proof -
  obtain ret ev c' tm' where st: "benchmp_interval e c tm = Some (ret, ev, c', tm')"
    using benchmp_interval_total [OF assms(1)] by blast
  from st show thesis
  proof (cases rule: benchmp_interval_cases)
    case (time n evr result tm1 ev1 tm2)
    then show thesis
      using that [of n ev c' tm' result evr tm1 tm2] st interval_timing_step(5) [OF time(4,2)]
        benchmp_interval_inv [OF assms(1) st] by simp
  qed (use assms in auto)
qed

lemma cooldown_stays:
  "child_inv c tm \<Longrightarrow> cs_state c = cooldown \<Longrightarrow> child_run es c tm = Some (ev, c', tm') \<Longrightarrow>
   cs_state c' = cooldown"
proof (induction es arbitrary: c tm ev)
  case Nil
  then show ?case by simp
next
  case (Cons e es)
  obtain ret ev1 c1 tm1 where st: "benchmp_interval e c tm = Some (ret, ev1, c1, tm1)"
    using benchmp_interval_total [OF Cons.prems(1)] by blast
  have "cs_state c1 = cooldown"
    using st Cons.prems(2) by (cases rule: benchmp_interval_cases) auto
  with Cons st benchmp_interval_inv [OF Cons.prems(1) st] show ?case
    by (cases ret) (auto split: bind_splits)
qed

text \<open>On a clock that does not advance every interval has a result of at most zero, so a
  single child only ever multiplies its count by eight, and gives up.\<close>

lemma tvdelta_same [simp]: "tvdelta t t = 0"
  by (simp add: tvdelta_def tvsub_def)

lemma stopped_clock_result:
  assumes "interval_result e c tm = (result, evr, tm1)" "\<not> cs_need_warmup c"
    "start_tv tm = clock_fn tm (ticks tm)" "l_ovh e = Fin x" "0 \<le> x"
  shows "d_le result (Fin 0)"
proof -
  define y where "y = d_add (d_of_u64 (t_ovh e)) (d_mul (d_of_u64 (cs_iterations c)) (l_ovh e))"
  have "d_le (Fin 0) y"
    unfolding y_def assms(4) d_of_u64_Fin
    by (intro d_add_nonneg d_mul_nonneg) (simp_all add: rnd_u2r_nonneg assms(5))
  moreover have "result = d_sub (d_of_u64 0) y"
    using assms by (auto simp: interval_result_def stop_def gettimeofday_def y_def Let_def)
  ultimately show ?thesis
    by (simp add: d_of_u64_Fin d_sub_0_nonpos)
qed

lemma interval_result_clock:
  "interval_result e c tm = (result, evr, tm1) \<Longrightarrow> clock_fn tm1 = clock_fn tm"
  by (auto simp: interval_result_def Let_def case_prod_unfold simp del: u64_of_dbl.simps split: if_splits)

lemma interval_timing_clock:
  "interval_timing result c tm = Some (n, ev, c', tm') \<Longrightarrow> clock_fn tm' = clock_fn tm"
  by (auto simp: interval_timing_def store_result_def Let_def split: if_splits bind_splits)

lemma idle_timing_step:
  assumes "d_le result (Fin 0)" "cs_parallel c = 1" "2 \<le> cs_enough c" "cs_enough c \<le> 2 ^ 31"
    "cs_state c = timing_interval"
  shows "interval_timing result c tm
           = (let c' = c\<lparr>cs_iterations := push_bit 3 (cs_iterations c)\<rparr> in
              Some (if snd (adjust_iterations (cs_enough c) result (cs_iterations c))
                    then (cs_iterations_batch c, [WriteDone], c'\<lparr>cs_state := cooldown\<rparr>, tm)
                    else (push_bit 3 (cs_iterations c), [], c', tm)))"
proof -
  have pos: "d_lt (Fin 0) (d_mul (lit q) (d_of_int (cs_enough c)))" if "1 / 2 \<le> q" "q \<le> 2" for q
    using that assms fraction_pos [of q "cs_enough c"] by (simp add: lit_def)
  have "d_lt result (d_mul (lit (99 / 100)) (d_of_int (cs_enough c)))"
    using d_le_lt_trans [OF assms(1) pos] by simp
  moreover have "\<not> d_gt result (d_mul (lit (95 / 100)) (d_of_int (cs_enough c)))"
    using d_lt_asym [OF d_le_lt_trans [OF assms(1) pos]] by simp
  moreover have "\<not> d_gt result (Fin 150)"
    using d_lt_asym [OF d_le_lt_trans [OF assms(1)], of "Fin 150"] by simp
  ultimately show ?thesis
    using assms by (simp add: interval_timing_def store_result_def next_iterations_def adjust_iterations_def Let_def)
qed

section \<open>Properties\<close>

text \<open>C6. A child never writes outside of its result array: set up by \<open>benchmp_child\<close> with an
  array of \<open>sizeof_result(repetitions)\<close> bytes for fewer than \<open>2 ^ 27\<close> repetitions, it survives every
  sequence of calls, whatever the clock and the operating system answer, and keeps its invariant. From
  \<open>2 ^ 27\<close> repetitions on the \<open>int\<close> that \<open>sizeof_result\<close> returns is too small (\<open>sizeof_result_cut\<close>).\<close>

theorem child_memory_safe:
  assumes "length (res_v r) = capacity_of_size (sizeof_result repetitions)" "repetitions < 2 ^ 27"
    and "benchmp_child ini cln cid enough iters par repetitions addr (Some r) tm = Some (c, tm')"
  shows "\<exists>ev c' tm''. child_run es c tm' = Some (ev, c', tm'') \<and> child_inv c' tm''"
  using benchmp_child_startD(1) [OF assms] by (rule child_run_total)

definition fresh_result :: result_t where
  "fresh_result = \<lparr>res_N = 0, res_v = replicate TRIES \<lparr>val_u = 0, val_n = 0\<rparr>\<rparr>"

definition example_child :: "child_state \<times> timing" where
  "example_child = the (benchmp_child True True 0 10000 1 1 11 2 (Some fresh_result)
                          (timing_init (\<lambda>k. tv_zero)))"

lemma example_child_eq:
  "benchmp_child True True 0 10000 1 1 11 2 (Some fresh_result) (timing_init (\<lambda>k. tv_zero))
     = Some (fst example_child, snd example_child)"
  by (simp add: example_child_def fresh_result_def benchmp_child_def set_results_def save_median_def
      insertinit_def timing_init_def Let_def)

lemma fresh_result_size: "length (res_v fresh_result) = capacity_of_size (sizeof_result 11)"
  by (simp add: fresh_result_def capacity_sizeof_result TRIES_def)

definition env_idle :: interval_env where
  "env_idle = \<lparr>start_ready = False, result_ready = False, ppid_is_1 = False, t_ovh = 0,
               l_ovh = Fin 0, sigchld_dfl = True\<rparr>"

theorem child_memory_safe_witness:
  "\<exists>ev c' tm''. child_run (replicate 40 (env_idle\<lparr>start_ready := True\<rparr>))
                  (fst example_child) (snd example_child) = Some (ev, c', tm'') \<and> child_inv c' tm''"
  by (rule child_memory_safe [OF fresh_result_size _ example_child_eq]) simp

lemma child_memory_safe_run:
  "\<exists>ev c' tm''. child_run es (fst example_child) (snd example_child) = Some (ev, c', tm'')"
  using child_run_total [OF benchmp_child_startD(1) [OF fresh_result_size _ example_child_eq]] by fastforce

text \<open>C7. Whatever happens, a child follows the handshake protocol: it announces that it is
  ready exactly once, takes a start byte at most once, announces that it is done at most once
  and only after that, and sends its results only after all of these and once, followed by
  the wait for the exit byte. A child may only stop early, when its parent has died.\<close>

theorem child_handshake:
  assumes "benchmp_child ini cln cid enough iters par repetitions addr (Some r) tm = Some (c, tm')"
    and "child_run es c tm' = Some (ev, c', tm'')"
  shows "initial_words (handshake ev)"
  using benchmp_child_fresh [OF assms(1)] child_run_words [OF assms(2)]
  by (simp add: words_of_def)

theorem child_handshake_witness:
  "\<exists>ev c' tm''. child_run [env_idle, env_idle\<lparr>start_ready := True\<rparr>]
                  (fst example_child) (snd example_child) = Some (ev, c', tm'')
     \<and> initial_words (handshake ev)"
proof -
  obtain ev c' tm'' where run: "child_run [env_idle, env_idle\<lparr>start_ready := True\<rparr>]
      (fst example_child) (snd example_child) = Some (ev, c', tm'')"
    using child_memory_safe_run by blast
  moreover have "initial_words (handshake ev)" by (rule child_handshake [OF example_child_eq run])
  ultimately show ?thesis by blast
qed

text \<open>C8. The measurement a call stores is paired with the iteration count the benchmark was
  really run with: the count the previous call returned.\<close>

theorem stored_count_is_run_count:
  assumes "child_inv c tm" "benchmp_interval e c tm = Some (Continue n, ev, c1, tm1)"
    and "cs_state c1 = timing_interval"
    and "benchmp_interval e' c1 tm1 = Some (ret, ev', c2, tm2)" "cs_i c2 \<noteq> cs_i c1"
  shows "\<exists>u. mset (res_list (cur_results tm2)) = mset (res_list (cur_results tm1))
               + (if u = 0 then {#} else {#\<lparr>val_u = u, val_n = n\<rparr>#})"
proof -
  have inv1: "child_inv c1 tm1" using benchmp_interval_inv [OF assms(1,2)] by simp
  have n: "n = cs_iterations c1"
    using assms(2)
  proof (cases rule: benchmp_interval_cases)
    case (warm n' evr result tm3 ev1)
    with assms(3) interval_warmup_step [OF warm(4)] show ?thesis by (auto split: if_splits)
  next
    case (time n' evr result tm3 ev1 tm4)
    with assms(3) interval_timing_step [OF time(4,2)] show ?thesis by simp
  qed (use assms(3) in auto)
  from assms(4) show ?thesis
  proof (cases rule: benchmp_interval_cases)
    case (time n' evr result tm3 ev1 tm4)
    note st = interval_timing_step [OF time(4,2)] and fr = interval_result_frame [OF time(3)]
    have "\<not> cs_need_warmup c1" using inv1 time(2) by (simp add: child_inv_def)
    then have "get_n tm3 = n" using fr(3) n by simp
    moreover have "stores result c1" using st(3) assms(5) by (simp split: if_splits)
    ultimately have ins: "insertsort (gettime tm3) n (cur_results tm1) = Some (cur_results tm4)"
      using st(8) fr(1,2) by simp
    have "res_inv (cur_results tm1)" "res_N (cur_results tm1) < length (res_v (cur_results tm1))"
      using inv1 child_inv_space [OF inv1] assms(3) by (simp_all add: child_inv_def)
    from insertsort_inv [OF this, of "gettime tm3" n] ins
    have "mset (res_list (cur_results tm4)) = mset (res_list (cur_results tm1))
        + (if gettime tm3 = 0 then {#} else {#\<lparr>val_u = gettime tm3, val_n = n\<rparr>#})"
      by (auto split: if_splits)
    then show ?thesis using time(5) by auto
  qed (use assms(3,5) in auto)
qed

definition example_timing_child :: "int \<Rightarrow> child_state" where
  "example_timing_child par =
     (fst example_child)\<lparr>cs_state := timing_interval, cs_need_warmup := False, cs_parallel := par,
                         cs_repetitions := 3\<rparr>"

lemma example_child_fields:
  "cs_i (fst example_child) = 0" "cs_enough (fst example_child) = 10000"
  "cs_iterations (fst example_child) = 1" "clock_fn (snd example_child) = (\<lambda>k. tv_zero)"
  "cur_results (snd example_child) = fresh_result" "start_tv (snd example_child) = tv_zero"
  by (simp_all add: example_child_def fresh_result_def benchmp_child_def set_results_def save_median_def
      insertinit_def timing_init_def settime_def save_n_def tv_zero_def Let_def)

lemma fresh_result_inv: "res_inv fresh_result"
  by (simp add: fresh_result_def res_inv_def res_list_def desc_sorted_def)

lemma example_timing_child_inv: "child_inv (example_timing_child par) (snd example_child)"
  using fresh_result_inv
  by (simp add: child_inv_def example_timing_child_def example_child_fields)
     (simp add: fresh_result_def TRIES_def)

lemma example_timing_call:
  "\<exists>n ev c tm. benchmp_interval env_idle (example_timing_child 2) (snd example_child)
       = Some (Continue n, ev, c, tm) \<and> cs_state c = timing_interval \<and> cs_i c = 1 \<and> child_inv c tm
       \<and> cs_parallel c = 2 \<and> cs_repetitions c = 3"
proof -
  obtain n ev c' tm' result evr tm1 tm2 where
    st: "benchmp_interval env_idle (example_timing_child 2) (snd example_child) = Some (Continue n, ev, c', tm')"
    "interval_timing result (example_timing_child 2) tm1
       = Some (n, if cs_state c' = cooldown then [WriteDone] else [], c', tm2)"
    "child_inv c' tm'" "same_setup (example_timing_child 2) c'"
    by (rule timing_call [OF example_timing_child_inv, of 2 env_idle])
       (simp_all add: example_timing_child_def env_idle_def)
  have tc: "cs_state (example_timing_child 2) = timing_interval" by (simp add: example_timing_child_def)
  have "stores result (example_timing_child 2)" "\<not> gives_up result (example_timing_child 2)"
    by (simp_all add: stores_def gives_up_def example_timing_child_def)
  with interval_timing_step(3,4) [OF st(2) tc] st(1,3,4) show ?thesis
    by (simp add: example_timing_child_def example_child_fields same_setup_def)
qed

theorem stored_count_is_run_count_witness:
  "\<exists>n ev c1 tm1 ret ev' c2 tm2 u.
     benchmp_interval env_idle (example_timing_child 2) (snd example_child) = Some (Continue n, ev, c1, tm1)
     \<and> benchmp_interval env_idle c1 tm1 = Some (ret, ev', c2, tm2)
     \<and> mset (res_list (cur_results tm2)) = mset (res_list (cur_results tm1))
         + (if u = 0 then {#} else {#\<lparr>val_u = u, val_n = n\<rparr>#})"
proof -
  obtain n ev c1 tm1 where c1: "benchmp_interval env_idle (example_timing_child 2) (snd example_child)
        = Some (Continue n, ev, c1, tm1)" "cs_state c1 = timing_interval" "child_inv c1 tm1" "cs_parallel c1 = 2"
    using example_timing_call by blast
  obtain n' ev' c2 tm2 result evr tm3 tm4 where
    st: "benchmp_interval env_idle c1 tm1 = Some (Continue n', ev', c2, tm2)"
    "interval_timing result c1 tm3 = Some (n', if cs_state c2 = cooldown then [WriteDone] else [], c2, tm4)"
    by (rule timing_call [OF c1(3,2), of env_idle]) (simp_all add: env_idle_def)
  have "stores result c1" using c1(4) by (simp add: stores_def)
  then have "cs_i c2 \<noteq> cs_i c1" using interval_timing_step(3) [OF st(2) c1(2)] by simp
  from stored_count_is_run_count [OF example_timing_child_inv c1(1,2) st(1) this] c1(1) st(1)
  show ?thesis by blast
qed

text \<open>With several children the experiment ends: in the \<open>timing_interval\<close> phase every
  call counts, so after as many calls as repetitions are left the child is in \<open>cooldown\<close>,
  whatever the measured times are.\<close>

theorem parallel_run_finishes:
  assumes "child_inv c tm" "cs_state c = timing_interval" "1 < cs_parallel c"
    "\<forall>e \<in> set es. \<not> ppid_is_1 e" "cs_repetitions c \<le> cs_i c + int (length es)" "es \<noteq> []"
  shows "\<exists>ev c' tm'. child_run es c tm = Some (ev, c', tm') \<and> cs_state c' = cooldown"
  using assms
proof (induction es arbitrary: c tm)
  case Nil
  then show ?case by simp
next
  case (Cons e es)
  obtain n ev c' tm' result evr tm1 tm2 where
    st: "benchmp_interval e c tm = Some (Continue n, ev, c', tm')"
    "interval_timing result c tm1 = Some (n, if cs_state c' = cooldown then [WriteDone] else [], c', tm2)"
    and inv: "child_inv c' tm'" "same_setup c c'"
    by (rule timing_call [OF Cons.prems(1,2), of e]) (use Cons.prems(4) in auto)
  have "stores result c" using Cons.prems(3) by (simp add: stores_def)
  note ts = interval_timing_step [OF st(2) Cons.prems(2)]
  show ?case
  proof (cases "cs_state c' = cooldown")
    case True
    obtain ev2 c2 tm3 where run: "child_run es c' tm' = Some (ev2, c2, tm3)"
      using child_run_total [OF inv(1)] by blast
    with cooldown_stays [OF inv(1) True] have "cs_state c2 = cooldown" by blast
    with st(1) run show ?thesis by simp
  next
    case False
    with ts(3,4) \<open>stores result c\<close> have "cs_state c' = timing_interval" "cs_i c' = cs_i c + 1"
      "cs_i c + 1 < cs_repetitions c" by (auto split: if_splits)
    then have "\<exists>ev c2 tm2. child_run es c' tm' = Some (ev, c2, tm2) \<and> cs_state c2 = cooldown"
      using Cons.prems inv by (intro Cons.IH) (auto simp: same_setup_def)
    with st(1) show ?thesis by auto
  qed
qed

theorem parallel_run_finishes_witness:
  "\<exists>ev c' tm'. child_run (replicate 3 env_idle) (example_timing_child 2) (snd example_child)
     = Some (ev, c', tm') \<and> cs_state c' = cooldown"
  by (rule parallel_run_finishes [OF example_timing_child_inv])
     (simp_all add: example_timing_child_def example_child_fields env_idle_def)

text \<open>A single child does not run for ever on a clock that stands still: every interval
  has a result of at most zero, so the count is multiplied by eight until it passes its limit
  and the child goes to \<open>cooldown\<close>; starting from one iteration, ten calls are enough.\<close>

theorem stopped_clock_finishes:
  assumes "child_inv c tm" "cs_state c = timing_interval" "cs_parallel c = 1" "\<not> cs_need_warmup c"
    "2 \<le> cs_enough c" "cs_enough c \<le> 2 ^ 31"
    "\<forall>k. clock_fn tm k = t" "start_tv tm = t"
    "\<forall>e \<in> set es. \<not> ppid_is_1 e \<and> (\<exists>x. l_ovh e = Fin x \<and> 0 \<le> x)"
    "cs_iterations c \<le> 2 ^ 27" "2 ^ 27 < unat (cs_iterations c) * 8 ^ length es"
  shows "\<exists>ev c' tm'. child_run es c tm = Some (ev, c', tm') \<and> cs_state c' = cooldown"
  using assms
proof (induction es arbitrary: c tm)
  case Nil
  then show ?case by (simp add: word_le_nat_alt)
next
  case (Cons e es)
  obtain n ev c' tm' result evr tm1 tm2 where
    st: "benchmp_interval e c tm = Some (Continue n, ev, c', tm')"
    and ir: "interval_result e c tm = (result, evr, tm1)" and tm': "tm' = start tm2"
    and it: "interval_timing result c tm1 = Some (n, if cs_state c' = cooldown then [WriteDone] else [], c', tm2)"
    and inv: "child_inv c' tm'" "same_setup c c'"
    by (rule timing_call [OF Cons.prems(1,2), of e]) (use Cons.prems(9) in auto)
  have "d_le result (Fin 0)"
    using stopped_clock_result [OF ir Cons.prems(4)] Cons.prems(7-9) by auto
  note idle = idle_timing_step [OF this Cons.prems(3,5,6,2)]
  show ?case
  proof (cases "snd (adjust_iterations (cs_enough c) result (cs_iterations c))")
    case True
    with it idle have cool: "cs_state c' = cooldown" by (auto simp: Let_def)
    obtain ev2 c2 tm3 where run: "child_run es c' tm' = Some (ev2, c2, tm3)"
      using child_run_total [OF inv(1)] by blast
    with cooldown_stays [OF inv(1) cool] st show ?thesis by auto
  next
    case False
    with it idle have c': "c' = c\<lparr>cs_iterations := push_bit 3 (cs_iterations c)\<rparr>" "tm2 = tm1"
      by (auto simp: Let_def split: if_splits)
    have "\<not> d_gt result (Fin 150)"
      using d_lt_asym [OF d_le_lt_trans [OF \<open>d_le result (Fin 0)\<close>], of "Fin 150"] by simp
    with False have small: "push_bit 3 (cs_iterations c) \<le> 2 ^ 27"
      by (auto simp: adjust_iterations_def Let_def)
    have "\<forall>k. clock_fn tm' k = t" "start_tv tm' = t"
      using Cons.prems(7) interval_result_clock [OF ir] tm' c'(2)
      by (simp_all add: start_def gettimeofday_def)
    then have "\<exists>ev c2 tm2. child_run es c' tm' = Some (ev, c2, tm2) \<and> cs_state c2 = cooldown"
      using Cons.prems inv(1) c'(1) small push_bit3_u64 [OF Cons.prems(10)]
      by (intro Cons.IH) (auto simp: mult.assoc)
    with st show ?thesis by auto
  qed
qed

theorem stopped_clock_finishes_witness:
  "\<exists>ev c' tm'. child_run (replicate 10 env_idle) (example_timing_child 1) (snd example_child)
     = Some (ev, c', tm') \<and> cs_state c' = cooldown"
  by (rule stopped_clock_finishes [OF example_timing_child_inv, where t = tv_zero])
     (simp_all add: example_timing_child_def example_child_fields env_idle_def)

end
