(* ===== verification/Benchmp.thy ===== *)
theory Benchmp
  imports Interval
begin

text \<open>
  The parent side of a measurement, \<open>benchmp_parent\<close> and \<open>benchmp\<close> of \<open>src/lib_timing.c\<close>. The
  parent is a machine whose step is one pass through one of its \<open>select\<close> loops; what \<open>select\<close>
  and \<open>read\<close> answer is its environment. \<open>benchmp\<close> runs it with its children, after a run with
  one child that measures how many iterations the parallel run needs.
\<close>

section \<open>The parent\<close>

text \<open>The bytes of the response pipe: a ready or done byte (the receiver only counts them), or
  byte number \<open>j\<close> of the image of a result array.\<close>

datatype resp_byte = ReadyByte | DoneByte | ResByte result_t nat

record parent_env =
  pe_sigchld :: bool
  pe_sigterm :: bool
  pe_fd_error :: bool
  pe_readable :: bool
  pe_read :: "resp_byte list option"

text \<open>Where the parent is: in the loops that collect the ready and done bytes (with its index
  \<open>i\<close>), in the loop that collects the results of child number \<open>i\<close> (with the bytes read so
  far), past them, in the error exit, or returned because \<open>malloc\<close> failed.\<close>

datatype parent_pc =
    CollectReady nat
  | CollectDone nat
  | CollectResults nat "resp_byte list"
  | Collected
  | Failed
  | NoMemory

datatype parent_event =
    Delay int int
  | SendStart nat
  | SendResult
  | SendExit nat
  | SigchldIgnore
  | Kill nat
  | Waitpid nat
  | ClosePipes

record parent_state =
  pp_pc :: parent_pc
  pp_merged :: result_t
  pp_tm :: timing

text \<open>The error exit and the common clean-up.\<close>

definition error_exit :: "nat \<Rightarrow> parent_state \<Rightarrow> parent_event list \<times> parent_state" where
  "error_exit k p =
     (SigchldIgnore # concat (map (\<lambda>i. [Kill i, Waitpid i]) [0..<k]) @ [ClosePipes],
      p\<lparr>pp_pc := Failed\<rparr>)"

text \<open>\<open>for (j = 0; j < results->N; ++j) insertsort(...)\<close>\<close>

function merge_from :: "result_t \<Rightarrow> nat \<Rightarrow> result_t \<Rightarrow> result_t option" where
  "merge_from r j merged =
     (if j < res_N r then
        do { x \<leftarrow> arr_get (res_v r) j;
             merged \<leftarrow> insertsort (val_u x) (val_n x) merged;
             merge_from r (Suc j) merged }
      else Some merged)"
  by pat_completeness auto
termination
  by (relation "measure (\<lambda>(r, j, m). res_N r - j)") auto

declare merge_from.simps [simp del]

text \<open>The buffer \<open>results\<close> after a whole array was read into it: the array, if the bytes are
  the bytes of one array in order. Any other mixture is no value of the type.\<close>

fun decode :: "resp_byte list \<Rightarrow> result_t option" where
  "decode (ResByte r 0 # bs) =
     (if ResByte r 0 # bs = map (ResByte r) [0..<Suc (length bs)] then Some r else None)"
| "decode _ = None"

text \<open>The three loops; each definition is the entry to a loop with index \<open>i\<close>, followed by what
  comes after the loop.\<close>

definition collect_results ::
  "nat \<Rightarrow> nat \<Rightarrow> nat \<Rightarrow> parent_state \<Rightarrow> (parent_event list \<times> parent_state) option" where
  "collect_results k addr i p =
     (if i < k then Some ([SendResult], p\<lparr>pp_pc := CollectResults i []\<rparr>)
      else do { tm \<leftarrow> set_results addr
                       ((pp_tm p)\<lparr>result_objs := (result_objs (pp_tm p))(addr := pp_merged p)\<rparr>);
                Some ([SigchldIgnore, SendExit k, ClosePipes], p\<lparr>pp_pc := Collected, pp_tm := tm\<rparr>) })"

definition collect_done ::
  "nat \<Rightarrow> nat \<Rightarrow> nat \<Rightarrow> parent_state \<Rightarrow> (parent_event list \<times> parent_state) option" where
  "collect_done k addr i p =
     (if i < k then Some ([], p\<lparr>pp_pc := CollectDone i\<rparr>)
      else collect_results k addr 0 (p\<lparr>pp_merged := insertinit (pp_merged p)\<rparr>))"

definition collect_ready ::
  "nat \<Rightarrow> int \<Rightarrow> nat \<Rightarrow> nat \<Rightarrow> parent_state \<Rightarrow> (parent_event list \<times> parent_state) option" where
  "collect_ready k warmup_us addr i p =
     (if i < k then Some ([], p\<lparr>pp_pc := CollectReady i\<rparr>)
      else do { (ev, p) \<leftarrow> collect_done k addr 0 p;
                Some ((if 0 < warmup_us then [Delay (c_div warmup_us 1000000) (c_mod warmup_us 1000000)]
                       else []) @ [SendStart k] @ ev, p) })"

text \<open>The entry of \<open>benchmp_parent\<close>. \<open>mem\<close> is the array \<open>malloc\<close> gave for \<open>merged_results\<close>, and
  \<open>None\<close> when one of the three allocations failed.\<close>

definition parent_enter ::
  "nat \<Rightarrow> int \<Rightarrow> nat \<Rightarrow> bool \<Rightarrow> bool \<Rightarrow> result_t option \<Rightarrow> timing
     \<Rightarrow> (parent_event list \<times> parent_state) option" where
  "parent_enter k warmup_us addr sigchld sigterm mem tm =
     (let p = \<lparr>pp_pc = NoMemory, pp_merged = \<lparr>res_N = 0, res_v = []\<rparr>, pp_tm = tm\<rparr> in
      if sigchld \<or> sigterm then Some (error_exit k p)
      else case mem of None \<Rightarrow> Some ([], p)
           | Some m \<Rightarrow> collect_ready k warmup_us addr 0 (p\<lparr>pp_merged := m\<rparr>))"

text \<open>One pass through the loop the parent is in: \<open>select\<close>, the checks, and \<open>read\<close>.\<close>

definition parent_step ::
  "nat \<Rightarrow> int \<Rightarrow> int \<Rightarrow> nat \<Rightarrow> parent_env \<Rightarrow> parent_state
     \<Rightarrow> (parent_event list \<times> parent_state) option" where
  "parent_step k warmup_us repetitions addr e p =
     (case pp_pc p of
        Collected \<Rightarrow> Some ([], p) | Failed \<Rightarrow> Some ([], p) | NoMemory \<Rightarrow> Some ([], p)
      | _ \<Rightarrow>
        if pe_sigchld e \<or> pe_sigterm e \<or> pe_fd_error e then Some (error_exit k p)
        else if \<not> pe_readable e then Some ([], p)
        else case pe_read e of None \<Rightarrow> Some (error_exit k p)
          | Some bs \<Rightarrow>
             (case pp_pc p of
                CollectReady i \<Rightarrow> collect_ready k warmup_us addr (i + length bs) p
              | CollectDone i \<Rightarrow> collect_done k addr (i + length bs) p
              | CollectResults i buf \<Rightarrow>
                  if int (length (buf @ bs)) < sizeof_result repetitions
                  then Some ([], p\<lparr>pp_pc := CollectResults i (buf @ bs)\<rparr>)
                  else do { r \<leftarrow> decode (buf @ bs);
                            merged \<leftarrow> merge_from r 0 (pp_merged p);
                            collect_results k addr (Suc i) (p\<lparr>pp_merged := merged\<rparr>) }
              | _ \<Rightarrow> Some ([], p)))"

text \<open>How many bytes the \<open>read\<close> of the loop asks for.\<close>

fun parent_wants :: "nat \<Rightarrow> int \<Rightarrow> parent_pc \<Rightarrow> nat" where
  "parent_wants k repetitions (CollectReady i) = k - i"
| "parent_wants k repetitions (CollectDone i) = k - i"
| "parent_wants k repetitions (CollectResults i buf) = nat (sizeof_result repetitions) - length buf"
| "parent_wants k repetitions _ = 0"

section \<open>Merging\<close>

lemma merge_from_correct:
  assumes "res_inv r" "res_inv m" "res_N m + (res_N r - j) \<le> length (res_v m)" "j \<le> res_N r"
  shows "\<exists>m'. merge_from r j m = Some m' \<and> res_inv m' \<and> length (res_v m') = length (res_v m)
           \<and> res_N m' = res_N m + (res_N r - j)
           \<and> mset (res_list m') = mset (res_list m) + mset (drop j (res_list r))"
  using assms
proof (induction r j m rule: merge_from.induct)
  case (1 r j m)
  show ?case
  proof (cases "j < res_N r")
    case True
    let ?x = "res_v r ! j"
    have x: "arr_get (res_v r) j = Some ?x" "?x = res_list r ! j" "j < length (res_list r)"
      using True "1.prems" res_v_index [of r j] by (simp_all add: res_list_nth res_list_length)
    then have "?x \<in> set (res_list r)" by simp
    then have nz: "val_u ?x \<noteq> 0" using "1.prems"(1) by (simp add: res_inv_def)
    have "res_N m < length (res_v m)" using True "1.prems"(3) by simp
    from insertsort_inv [OF "1.prems"(2) this, of "val_u ?x" "val_n ?x"] nz obtain m1 where
      m1: "insertsort (val_u ?x) (val_n ?x) m = Some m1" "res_inv m1"
        "length (res_v m1) = length (res_v m)" "res_N m1 = Suc (res_N m)"
        "mset (res_list m1) = add_mset ?x (mset (res_list m))"
      by auto
    have room: "res_N m1 + (res_N r - Suc j) \<le> length (res_v m1)" "Suc j \<le> res_N r"
      using True "1.prems"(3) m1(3,4) by linarith+
    obtain m' where m': "merge_from r (Suc j) m1 = Some m'" "res_inv m'"
        "length (res_v m') = length (res_v m1)" "res_N m' = res_N m1 + (res_N r - Suc j)"
        "mset (res_list m') = mset (res_list m1) + mset (drop (Suc j) (res_list r))"
      using "1.IH" [OF True x(1) m1(1) "1.prems"(1) m1(2) room] by blast
    have "drop j (res_list r) = ?x # drop (Suc j) (res_list r)"
      using x(2,3) by (simp add: Cons_nth_drop_Suc)
    then show ?thesis
      using True x(1) m1 m' by (simp add: merge_from.simps [of r j m] Suc_diff_Suc)
  next
    case False
    with "1.prems" res_list_length [of r] show ?thesis by (simp add: merge_from.simps [of r "res_N r" m])
  qed
qed

lemma decode_bytes: "0 < j \<Longrightarrow> decode (map (ResByte r) [0..<j]) = Some r"
  by (cases j) (simp_all add: upt_conv_Cons del: upt_Suc)

section \<open>benchmp\<close>

text \<open>The parent's loops over the answers \<open>select\<close> and \<open>read\<close> give, up to its return.\<close>

fun parent_returned :: "parent_pc \<Rightarrow> bool" where
  "parent_returned Collected = True"
| "parent_returned Failed = True"
| "parent_returned NoMemory = True"
| "parent_returned _ = False"

fun parent_run ::
  "nat \<Rightarrow> int \<Rightarrow> int \<Rightarrow> nat \<Rightarrow> parent_env list \<Rightarrow> parent_state \<Rightarrow> (parent_event list \<times> parent_state) option" where
  "parent_run k warmup_us repetitions addr [] p = Some ([], p)"
| "parent_run k warmup_us repetitions addr (e # es) p =
     (if parent_returned (pp_pc p) then Some ([], p)
      else do { (ev, p) \<leftarrow> parent_step k warmup_us repetitions addr e p;
                (ev', p) \<leftarrow> parent_run k warmup_us repetitions addr es p;
                Some (ev @ ev', p) })"

text \<open>What the operating system answers in one run: whether the pipes and the table of pids
  could be made, for every child whether \<open>SIGTERM\<close> had arrived before its \<open>fork\<close> and whether
  the \<open>fork\<close> succeeded, the signals and the memory at the entry of the parent, its answers
  there, and which children do not die in time.\<close>

record run_env =
  re_pipes_ok :: bool
  re_pids_ok :: bool
  re_sigterm :: "nat \<Rightarrow> bool"
  re_fork_ok :: "nat \<Rightarrow> bool"
  re_entry_sigchld :: bool
  re_entry_sigterm :: bool
  re_mem :: "result_t option"
  re_parent :: "parent_env list"
  re_hung :: "nat \<Rightarrow> bool"

text \<open>A \<open>Fork\<close> has the child, its iteration count and its batch size (\<open>get_n()\<close> with several
  children, else 1).\<close>

datatype bench_event =
    Fork nat u64 u64
  | Parent parent_event
  | Alarm int
  | KillChild nat
  | WaitChild nat

datatype 'a outcome = Fault | Unfinished | Done 'a

fun fork_children :: "run_env \<Rightarrow> u64 \<Rightarrow> u64 \<Rightarrow> nat \<Rightarrow> nat \<Rightarrow> bench_event list \<times> nat \<times> bool" where
  "fork_children e iters batch i 0 = ([], i, True)"
| "fork_children e iters batch i (Suc left) =
     (if re_sigterm e i then ([], i, False)
      else if \<not> re_fork_ok e i then ([], i, False)
      else let (ev, j, ok) = fork_children e iters batch (Suc i) left in (Fork i iters batch # ev, j, ok))"

text \<open>\<open>error_exit\<close>: \<open>while (--i >= 0)\<close>, and \<open>cleanup_exit\<close>: \<open>while (i-- > 0)\<close> with the timeout that
  a hung child shortens to a second.\<close>

fun kill_children :: "nat \<Rightarrow> bench_event list" where
  "kill_children 0 = []"
| "kill_children (Suc i) = KillChild i # WaitChild i # kill_children i"

fun reap_children :: "(nat \<Rightarrow> bool) \<Rightarrow> int \<Rightarrow> nat \<Rightarrow> bench_event list" where
  "reap_children hung timeout 0 = []"
| "reap_children hung timeout (Suc i) =
     Alarm timeout # (if hung i then [KillChild i] else []) @ WaitChild i #
     reap_children hung (if hung i then 1 else timeout) i"

definition sigalrm_timeout :: "int \<Rightarrow> int" where
  "sigalrm_timeout enough =
     (let t = c_div (wrap32 (2 * enough)) 1000000 + 2 in if t < 5 then 5 else t)"

text \<open>One run with \<open>k\<close> children. The loops over the children do nothing for a negative number, as for 0.\<close>

definition benchmp_run ::
  "run_env \<Rightarrow> int \<Rightarrow> nat \<Rightarrow> int \<Rightarrow> int \<Rightarrow> u64 \<Rightarrow> nat \<Rightarrow> timing \<Rightarrow> (bench_event list \<times> timing) outcome" where
  "benchmp_run e enough k warmup_us repetitions iters addr tm =
     (if \<not> re_pipes_ok e \<or> \<not> re_pids_ok e then Done ([], tm)
      else
        let batch = (if 1 < k then get_n tm else 1);
            (evf, i, ok) = fork_children e iters batch 0 k in
        if \<not> ok then Done (evf @ kill_children i, tm)
        else case do { (ev, p) \<leftarrow> parent_enter k warmup_us addr (re_entry_sigchld e) (re_entry_sigterm e) (re_mem e) tm;
                       (ev', p) \<leftarrow> parent_run k warmup_us repetitions addr (re_parent e) p;
                       Some (ev @ ev', p) } of
               None \<Rightarrow> Fault
             | Some (ev, p) \<Rightarrow>
                 if \<not> parent_returned (pp_pc p) then Unfinished
                 else Done (evf @ map Parent ev @ reap_children (re_hung e) (sigalrm_timeout enough) k, pp_tm p))"

definition SHORT :: int where
  "SHORT = 1000000"

text \<open>The iteration count of the parallel run, from the result of the run with one child.\<close>

definition parallel_iterations :: "int \<Rightarrow> timing \<Rightarrow> u64" where
  "parallel_iterations enough tm =
     (if enough < SHORT then
        let tmp = d_mul (d_of_int SHORT) (d_of_u64 (get_n tm));
            tmp = d_div tmp (d_of_u64 (gettime tm))
        in u64_of_dbl tmp + 1
      else get_n tm)"

text \<open>\<open>long_enough\<close> is what \<open>get_enough\<close> compares its argument with; \<open>envs True\<close> is the
  environment of the run with one child and \<open>envs False\<close> that of the parallel run.\<close>

function benchmp ::
  "int \<Rightarrow> (bool \<Rightarrow> run_env) \<Rightarrow> int \<Rightarrow> int \<Rightarrow> int \<Rightarrow> int \<Rightarrow> nat \<Rightarrow> timing \<Rightarrow> (bench_event list \<times> timing) outcome" where
  "benchmp long_enough envs enough parallel warmup_us repetitions addr tm =
     (let enough = (if enough < long_enough then long_enough else enough);
          repetitions = (if repetitions < 0 then (if 1 < parallel \<or> 1000000 \<le> enough then 1 else int TRIES)
                         else repetitions);
          tm = save_n 1 (settime 0 tm)
      in if 1 < parallel then
           (case benchmp long_enough envs enough 1 warmup_us repetitions addr tm of
              Done (ev, tm) \<Rightarrow>
                if gettime tm = 0 then Done (ev, tm)
                else let iters = parallel_iterations enough tm;
                         tm = save_n 1 (settime 0 tm)
                     in (case benchmp_run (envs False) enough (nat parallel) warmup_us repetitions iters addr tm of
                           Done (ev', tm) \<Rightarrow> Done (ev @ ev', tm)
                         | r \<Rightarrow> r)
            | r \<Rightarrow> r)
         else benchmp_run (envs True) enough (nat parallel) warmup_us repetitions 1 addr tm)"
  by pat_completeness auto
termination
  by (relation "measure (\<lambda>(_, _, _, parallel, _). nat parallel)") auto

declare benchmp.simps [simp del]

section \<open>Lemmas on benchmp\<close>

lemma fork_children_spec:
  "fork_children e iters batch i left = (ev, j, ok) \<Longrightarrow>
   j \<le> i + left \<and> (ok \<longrightarrow> j = i + left) \<and> ev = map (\<lambda>c. Fork c iters batch) [i..<j] \<and> i \<le> j"
  by (induction e iters batch i left arbitrary: ev rule: fork_children.induct)
     (auto simp: upt_conv_Cons split: if_splits prod.splits)

lemma kill_children_waits: "c < i \<Longrightarrow> WaitChild c \<in> set (kill_children i)"
  by (induction i) (auto simp: less_Suc_eq)

lemma reap_children_waits: "c < i \<Longrightarrow> WaitChild c \<in> set (reap_children hung t i)"
  by (induction i arbitrary: t) (auto simp: less_Suc_eq)

lemma kill_children_no_fork: "Fork c a b \<notin> set (kill_children i)"
  by (induction i) auto

lemma reap_children_no_fork: "Fork c a b \<notin> set (reap_children hung t i)"
  by (induction i arbitrary: t) auto

lemma benchmp_run_cases:
  assumes "benchmp_run e enough k w n iters addr tm = Done (ev, tm')"
  obtains (nothing) "ev = []" "tm' = tm"
  | (no_fork) j where "ev = map (\<lambda>c. Fork c iters (if 1 < k then get_n tm else 1)) [0..<j] @ kill_children j" "tm' = tm"
  | (run) evp evr p0 p where "parent_enter k w addr (re_entry_sigchld e) (re_entry_sigterm e) (re_mem e) tm = Some (evp, p0)"
      "parent_run k w n addr (re_parent e) p0 = Some (evr, p)" "parent_returned (pp_pc p)" "tm' = pp_tm p"
      "ev = map (\<lambda>c. Fork c iters (if 1 < k then get_n tm else 1)) [0..<k] @ map Parent (evp @ evr)
            @ reap_children (re_hung e) (sigalrm_timeout enough) k"
proof -
  obtain evf i ok where f: "fork_children e iters (if 1 < k then get_n tm else 1) 0 k = (evf, i, ok)"
    by (metis prod_cases3)
  note fs = fork_children_spec [OF f]
  show thesis
  proof (cases "re_pipes_ok e \<and> re_pids_ok e")
    case False
    with assms show thesis by (intro that(1)) (auto simp: benchmp_run_def)
  next
    case True
    show thesis
    proof (cases ok)
      case False
      with True assms f fs show thesis by (intro that(2) [of i]) (auto simp: benchmp_run_def Let_def)
    next
      case ok: True
      with True assms f fs obtain evp p0 evr p where
        "parent_enter k w addr (re_entry_sigchld e) (re_entry_sigterm e) (re_mem e) tm = Some (evp, p0)"
        "parent_run k w n addr (re_parent e) p0 = Some (evr, p)" "parent_returned (pp_pc p)" "tm' = pp_tm p"
        "ev = evf @ map Parent (evp @ evr) @ reap_children (re_hung e) (sigalrm_timeout enough) k"
        by (auto simp: benchmp_run_def Let_def split: option.splits bind_splits if_splits)
      with fs ok show thesis by (intro that(3) [of evp p0 evr p]) simp_all
    qed
  qed
qed

definition all_waited :: "bench_event list \<Rightarrow> bool" where
  "all_waited ev = (\<forall>ev1 c a b ev2. ev = ev1 @ Fork c a b # ev2 \<longrightarrow> WaitChild c \<in> set ev2)"

lemma all_waited_forks:
  assumes "\<forall>c < j. WaitChild c \<in> set evs" "\<forall>c a b. Fork c a b \<notin> set evs"
  shows "all_waited (map (\<lambda>c. Fork c x y) [0..<j] @ evs)"
  unfolding all_waited_def
proof (intro allI impI)
  fix ev1 c a b ev2 assume eq: "map (\<lambda>c. Fork c x y) [0..<j] @ evs = ev1 @ Fork c a b # ev2"
  have "Fork c a b \<in> set (map (\<lambda>c. Fork c x y) [0..<j] @ evs)" unfolding eq by simp
  then have c: "c < j" using assms(2) by auto
  have "length ev1 < length (map (\<lambda>c. Fork c x y) [0..<j])"
  proof (rule ccontr)
    assume "\<not> ?thesis"
    then have "(map (\<lambda>c. Fork c x y) [0..<j] @ evs) ! length ev1 \<in> set evs"
      using arg_cong [OF eq, of length] by (auto simp: nth_append intro: nth_mem)
    then show False using assms(2) by (simp add: eq)
  qed
  then have "set evs \<subseteq> set ev2"
    using arg_cong [OF eq, of "drop (Suc (length ev1))"] by (auto dest: arg_cong [where f = set])
  with assms(1) c show "WaitChild c \<in> set ev2" by blast
qed

lemma all_waited_append: "all_waited a \<Longrightarrow> all_waited b \<Longrightarrow> all_waited (a @ b)"
  unfolding all_waited_def by (auto simp: append_eq_append_conv2 append_eq_Cons_conv Cons_eq_append_conv) blast+

lemma benchmp_run_waited:
  assumes "benchmp_run e enough k w n iters addr tm = Done (ev, tm')"
  shows "all_waited ev"
  using assms
proof (cases rule: benchmp_run_cases)
  case nothing
  then show ?thesis by (simp add: all_waited_def)
next
  case (no_fork j)
  then show ?thesis using kill_children_waits kill_children_no_fork by (auto intro!: all_waited_forks)
next
  case (run evp evr p0 p)
  then show ?thesis using reap_children_waits reap_children_no_fork by (auto intro!: all_waited_forks)
qed

text \<open>Without the exit signals, the last thing the parent does with its results, the timing
  state is as it was.\<close>

lemma collect_tm:
  "collect_results k addr i p = Some (ev, p') \<Longrightarrow> \<forall>j. SendExit j \<notin> set ev \<Longrightarrow> pp_tm p' = pp_tm p"
  "collect_done k addr i p = Some (ev, p') \<Longrightarrow> \<forall>j. SendExit j \<notin> set ev \<Longrightarrow> pp_tm p' = pp_tm p"
  "collect_ready k w addr i p = Some (ev, p') \<Longrightarrow> \<forall>j. SendExit j \<notin> set ev \<Longrightarrow> pp_tm p' = pp_tm p"
  by (auto simp: collect_results_def collect_done_def collect_ready_def split: if_splits bind_splits)

lemma parent_step_tm:
  "parent_step k w n addr e p = Some (ev, p') \<Longrightarrow> \<forall>j. SendExit j \<notin> set ev \<Longrightarrow> pp_tm p' = pp_tm p"
  by (auto simp: parent_step_def error_exit_def dest: collect_tm
      split: parent_pc.splits if_splits option.splits bind_splits)

lemma parent_run_tm:
  "parent_run k w n addr es p = Some (ev, p') \<Longrightarrow> \<forall>j. SendExit j \<notin> set ev \<Longrightarrow> pp_tm p' = pp_tm p"
proof (induction es arbitrary: p ev)
  case (Cons e es)
  then show ?case by (fastforce dest: parent_step_tm split: if_splits bind_splits)
qed simp

lemma parent_enter_tm:
  "parent_enter k w addr c t mem tm = Some (ev, p) \<Longrightarrow> \<forall>j. SendExit j \<notin> set ev \<Longrightarrow> pp_tm p = tm"
  by (auto simp: parent_enter_def error_exit_def Let_def dest: collect_tm(3) split: if_splits option.splits)

lemma benchmp_run_tm:
  assumes "benchmp_run e enough k w n iters addr tm = Done (ev, tm')" "\<forall>j. Parent (SendExit j) \<notin> set ev"
  shows "tm' = tm"
  using assms(1)
proof (cases rule: benchmp_run_cases)
  case (run evp evr p0 p)
  with assms(2) parent_run_tm [OF run(2)] parent_enter_tm [OF run(1)] show ?thesis by auto
qed auto

lemma benchmp_run_batch:
  assumes "benchmp_run e enough k w n iters addr tm = Done (ev, tm')" "Fork c a b \<in> set ev"
  shows "b = (if 1 < k then get_n tm else 1)"
  using assms(1)
proof (cases rule: benchmp_run_cases)
  case (no_fork j)
  with assms(2) kill_children_no_fork show ?thesis by auto
next
  case (run evp evr p0 p)
  with assms(2) reap_children_no_fork show ?thesis by auto
qed (use assms(2) in simp)

text \<open>A run sends exit signals to all its children or to none, so that a run without the signal for its
  number of children leaves the timing state as it was.\<close>

lemma collect_exits:
  "collect_results k addr i p = Some (ev, p') \<Longrightarrow> SendExit j \<in> set ev \<Longrightarrow> j = k"
  "collect_done k addr i p = Some (ev, p') \<Longrightarrow> SendExit j \<in> set ev \<Longrightarrow> j = k"
  "collect_ready k w addr i p = Some (ev, p') \<Longrightarrow> SendExit j \<in> set ev \<Longrightarrow> j = k"
  by (auto simp: collect_results_def collect_done_def collect_ready_def split: if_splits bind_splits)

lemma parent_step_exits: "parent_step k w n addr e p = Some (ev, p') \<Longrightarrow> SendExit j \<in> set ev \<Longrightarrow> j = k"
  by (auto simp: parent_step_def error_exit_def dest: collect_exits
      split: parent_pc.splits if_splits option.splits bind_splits)

lemma parent_run_exits: "parent_run k w n addr es p = Some (ev, p') \<Longrightarrow> SendExit j \<in> set ev \<Longrightarrow> j = k"
proof (induction es arbitrary: p ev)
  case (Cons e es)
  then show ?case by (fastforce dest: parent_step_exits split: if_splits bind_splits)
qed simp

lemma parent_enter_exits: "parent_enter k w addr c t mem tm = Some (ev, p) \<Longrightarrow> SendExit j \<in> set ev \<Longrightarrow> j = k"
  by (auto simp: parent_enter_def error_exit_def Let_def dest: collect_exits(3) split: if_splits option.splits)

lemma no_exit_forks: "Parent x \<notin> set (kill_children i)" "Parent x \<notin> set (reap_children hung t i)"
  by (induction i arbitrary: t) auto

lemma benchmp_run_failed:
  assumes "benchmp_run e enough k w n iters addr tm = Done (ev, tm')" "Parent (SendExit k) \<notin> set ev"
  shows "tm' = tm"
proof (rule benchmp_run_tm [OF assms(1)], rule allI)
  fix j
  show "Parent (SendExit j) \<notin> set ev"
    using assms(1)
  proof (cases rule: benchmp_run_cases)
    case (run evp evr p0 p)
    then have "j = k" if "SendExit j \<in> set (evp @ evr)" using that parent_run_exits [OF run(2)] parent_enter_exits [OF run(1)] by auto
    with run(5) assms(2) show ?thesis by (auto simp: no_exit_forks)
  qed (auto simp: no_exit_forks)
qed

text \<open>The two ways \<open>benchmp\<close> goes through its runs.\<close>

lemma benchmp_cases:
  assumes "benchmp long_enough envs enough parallel w n addr tm = Done (ev, tm')"
  obtains (single) enough' n' tm1 where "parallel \<le> 1" "tm1 = save_n 1 (settime 0 tm)"
      "benchmp_run (envs True) enough' (nat parallel) w n' 1 addr tm1 = Done (ev, tm')"
  | (gave_up) enough' n' where "1 < parallel" "gettime tm' = 0"
      "benchmp long_enough envs enough' 1 w n' addr (save_n 1 (settime 0 tm)) = Done (ev, tm')"
  | (parallel) enough' n' ev1 ev2 tm1 tm2 where "1 < parallel" "ev = ev1 @ ev2" "gettime tm1 \<noteq> 0"
      "benchmp long_enough envs enough' 1 w n' addr (save_n 1 (settime 0 tm)) = Done (ev1, tm1)"
      "tm2 = save_n 1 (settime 0 tm1)"
      "benchmp_run (envs False) enough' (nat parallel) w n' (parallel_iterations enough' tm1) addr tm2
         = Done (ev2, tm')"
proof (cases "1 < parallel")
  case False
  with assms show thesis
    by (subst (asm) benchmp.simps) (auto simp: Let_def intro: that(1))
next
  case True
  define enough' where "enough' = (if enough < long_enough then long_enough else enough)"
  define n' where "n' = (if n < 0 then 1 else n)"
  define tm0 where "tm0 = save_n 1 (settime 0 tm)"
  define cont where "cont ev1 tm1 = (if gettime tm1 = 0 then Done (ev1, tm1)
       else case benchmp_run (envs False) enough' (nat parallel) w n' (parallel_iterations enough' tm1) addr
                   (save_n 1 (settime 0 tm1)) of
              Done (ev', tm) \<Rightarrow> Done (ev1 @ ev', tm) | r \<Rightarrow> r)" for ev1 tm1
  have "benchmp long_enough envs enough parallel w n addr tm
      = (case benchmp long_enough envs enough' 1 w n' addr tm0 of
           Done (ev1, tm1) \<Rightarrow> cont ev1 tm1 | r \<Rightarrow> r)"
    using True
    by (subst benchmp.simps) (simp add: Let_def enough'_def n'_def tm0_def cont_def split: outcome.splits)
  with assms obtain ev1 tm1 where base: "benchmp long_enough envs enough' 1 w n' addr tm0 = Done (ev1, tm1)"
    and rest: "cont ev1 tm1 = Done (ev, tm')"
    by (auto split: outcome.splits)
  show thesis
  proof (cases "gettime tm1 = 0")
    case True
    with base rest \<open>1 < parallel\<close> show thesis unfolding tm0_def by (intro that(2)) (simp_all add: cont_def)
  next
    case False
    with base rest \<open>1 < parallel\<close> show thesis
      unfolding tm0_def by (auto simp: cont_def split: outcome.splits intro: that(3))
  qed
qed

lemma benchmp_single:
  assumes "benchmp long_enough envs enough 1 w n addr tm = Done (ev, tm')"
  obtains enough' n' where
    "benchmp_run (envs True) enough' 1 w n' 1 addr (save_n 1 (settime 0 tm)) = Done (ev, tm')"
  using assms by (cases rule: benchmp_cases) simp_all

section \<open>Properties\<close>

text \<open>C32. \<open>benchmp\<close> leaves no zombie and no running child: on every path, errors included,
  every child it forked is waited for afterwards.\<close>

theorem benchmp_reaps_children:
  assumes "benchmp long_enough envs enough parallel w n addr tm = Done (ev, tm')"
    "ev = ev1 @ Fork c a b # ev2"
  shows "WaitChild c \<in> set ev2"
proof -
  from assms(1) have "all_waited ev"
  proof (cases rule: benchmp_cases)
    case (single enough' n' tm1)
    then show ?thesis using benchmp_run_waited by blast
  next
    case (gave_up enough' n')
    then show ?thesis using benchmp_run_waited by (metis benchmp_single)
  next
    case (parallel enough' n' eva evb tm1 tm2)
    then have "all_waited eva" "all_waited evb" using benchmp_run_waited by (metis benchmp_single)+
    with parallel(2) all_waited_append show ?thesis by simp
  qed
  with assms(2) show ?thesis by (auto simp: all_waited_def)
qed

definition failing_env :: "bool \<Rightarrow> run_env" where
  "failing_env b = \<lparr>re_pipes_ok = True, re_pids_ok = True, re_sigterm = (\<lambda>i. False),
     re_fork_ok = (\<lambda>i. True), re_entry_sigchld = True, re_entry_sigterm = False, re_mem = None,
     re_parent = [], re_hung = (\<lambda>i. True)\<rparr>"

definition failing_events :: "bench_event list" where
  "failing_events = [Fork 0 1 1, Parent SigchldIgnore, Parent (Kill 0), Parent (Waitpid 0),
     Parent ClosePipes, Alarm 5, KillChild 0, WaitChild 0]"

lemma failing_run:
  "benchmp 10000 failing_env 0 1 0 3 2 (timing_init (\<lambda>k. tv_zero))
     = Done (failing_events, save_n 1 (settime 0 (timing_init (\<lambda>k. tv_zero))))"
  by (simp add: benchmp.simps benchmp_run_def failing_env_def failing_events_def parent_enter_def
      error_exit_def sigalrm_timeout_def Let_def)

theorem benchmp_reaps_children_witness: "WaitChild 0 \<in> set (tl failing_events)"
  using benchmp_reaps_children [OF failing_run, of "[]" 0 1 1] by (simp add: failing_events_def)

text \<open>C33. \<open>benchmp\<close> never reports a stale measurement. The exit signals of a run, one write with a byte for each child, are the first thing the parent does after it has
  set the results. When they are not sent for the run asked for, because that run fails at whatever point or is not even tried, the time is 0; in particular a parallel run that
  fails reports nothing of the run with one child that succeeded before it. The count is 1, unless the run with one child was the last, ended with its exit signals and measured a
  time of 0, when the count is the one it measured.\<close>

theorem benchmp_failure_reports_nothing:
  assumes "benchmp long_enough envs enough parallel w n addr tm = Done (ev, tm')"
    "Parent (SendExit (nat parallel)) \<notin> set ev"
  shows "gettime tm' = 0 \<and> (get_n tm' = 1 \<or> 1 < parallel \<and> Parent (SendExit 1) \<in> set ev
    \<and> (\<exists>enough' n'. benchmp long_enough envs enough' 1 w n' addr (save_n 1 (settime 0 tm)) = Done (ev, tm')))"
  using assms(1)
proof (cases rule: benchmp_cases)
  case (single enough' n' tm1)
  with benchmp_run_failed [OF single(3) assms(2)] show ?thesis by simp
next
  case (gave_up enough' n')
  then obtain enough'' n'' where "benchmp_run (envs True) enough'' 1 w n'' 1 addr (save_n 1 (settime 0 (save_n 1 (settime 0 tm)))) = Done (ev, tm')"
    by (blast elim: benchmp_single)
  then have "Parent (SendExit 1) \<in> set ev \<or> get_n tm' = 1" using benchmp_run_failed by fastforce
  with gave_up show ?thesis by blast
next
  case (parallel enough' n' eva evb tm1 tm2)
  then have "Parent (SendExit (nat parallel)) \<notin> set evb" using assms(2) by simp
  with benchmp_run_failed [OF parallel(6)] parallel(5) show ?thesis by simp
qed

text \<open>A run with one child that measures 500 microseconds, and a parallel run whose pipes cannot be made.\<close>

definition stale_results :: result_t where
  "stale_results = \<lparr>res_N = 1, res_v = \<lparr>val_u = 500, val_n = 1\<rparr> # replicate (TRIES - 1) \<lparr>val_u = 0, val_n = 0\<rparr>\<rparr>"

definition reads :: "resp_byte list \<Rightarrow> parent_env" where
  "reads bs = \<lparr>pe_sigchld = False, pe_sigterm = False, pe_fd_error = False, pe_readable = True, pe_read = Some bs\<rparr>"

definition stale_env :: "bool \<Rightarrow> run_env" where
  "stale_env single = \<lparr>re_pipes_ok = single, re_pids_ok = True, re_sigterm = (\<lambda>i. False),
     re_fork_ok = (\<lambda>i. True), re_entry_sigchld = False, re_entry_sigterm = False, re_mem = Some stale_results,
     re_parent = [reads [ReadyByte], reads [DoneByte], reads (map (ResByte stale_results) [0..<184])], re_hung = (\<lambda>i. False)\<rparr>"

definition stale_events :: "bench_event list" where
  "stale_events = [Fork 0 1 1, Parent (SendStart 1), Parent SendResult, Parent SigchldIgnore, Parent (SendExit 1), Parent ClosePipes,
     Alarm 5, WaitChild 0]"

lemma stale_baseline:
  "benchmp_run (stale_env True) 10000 1 0 1 1 2 tm
     = Done (stale_events, settime 500 (save_n 1 (tm\<lparr>result_objs := (result_objs tm)(2 := stale_results), results := 2\<rparr>)))"
proof -
  have s: "sizeof_result 1 = 184" by (simp add: sizeof_result_def TRIES_def)
  have d: "decode (map (ResByte stale_results) [0..<184]) = Some stale_results" by (rule decode_bytes) simp
  have m: "merge_from stale_results 0 (insertinit stale_results) = Some stale_results"
    by (simp add: merge_from.simps stale_results_def insertinit_def insertsort_def find_slot.simps arr_get_def arr_set_def)
  have r: "set_results 2 (tm\<lparr>result_objs := (result_objs tm)(2 := stale_results)\<rparr>)
      = Some (settime 500 (save_n 1 (tm\<lparr>result_objs := (result_objs tm)(2 := stale_results), results := 2\<rparr>)))"
    by (simp add: set_results_def save_median_def stale_results_def arr_get_def)
  show ?thesis
    using s d m r by (simp add: benchmp_run_def stale_env_def stale_events_def parent_enter_def collect_ready_def collect_done_def
        collect_results_def parent_step_def reads_def sigalrm_timeout_def Let_def del: upt_rec_numeral)
qed

lemma stale_run:
  "\<exists>tm'. benchmp 10000 stale_env 0 2 0 1 2 tm = Done (stale_events, tm')"
proof -
  have "\<not> re_pipes_ok (stale_env False)" by (simp add: stale_env_def)
  then have "benchmp_run (stale_env False) e k w n i a t = Done ([], t)" for e k w n i a t by (simp add: benchmp_run_def)
  then show ?thesis
    by (simp add: benchmp.simps [of _ _ _ 2] benchmp.simps [of _ _ _ 1] Let_def stale_baseline [unfolded One_nat_def])
qed

theorem benchmp_failure_reports_nothing_witness:
  "\<exists>tm'. benchmp 10000 stale_env 0 2 0 1 2 (timing_init (\<lambda>k. tv_zero)) = Done (stale_events, tm')
    \<and> Parent (SendExit 1) \<in> set stale_events \<and> gettime tm' = 0"
proof -
  obtain tm' where r: "benchmp 10000 stale_env 0 2 0 1 2 (timing_init (\<lambda>k. tv_zero)) = Done (stale_events, tm')"
    using stale_run by blast
  from benchmp_failure_reports_nothing [OF r] r show ?thesis by (simp add: stale_events_def)
qed

text \<open>The batch a child runs in its warm-up and cool-down is always one iteration: the
  count \<open>benchmp_child\<close> reads with \<open>get_n()\<close> was reset by \<open>save_n(1)\<close> before the \<open>fork\<close>, so the
  count of the run with one child never reaches it.\<close>

theorem benchmp_batch_is_one:
  assumes "benchmp long_enough envs enough parallel w n addr tm = Done (ev, tm')" "Fork c a b \<in> set ev"
  shows "b = 1"
  using assms(1)
proof (cases rule: benchmp_cases)
  case (single enough' n' tm1)
  with benchmp_run_batch assms(2) show ?thesis by fastforce
next
  case (gave_up enough' n')
  then show ?thesis using benchmp_run_batch [OF _ assms(2)] by (metis benchmp_single save_n_frame(1))
next
  case (parallel enough' n' eva evb tm1 tm2)
  then have "Fork c a b \<in> set eva \<Longrightarrow> b = 1" "Fork c a b \<in> set evb \<Longrightarrow> b = 1"
    using benchmp_run_batch by (metis benchmp_single save_n_frame(1))+
  with parallel(2) assms(2) show ?thesis by auto
qed

theorem benchmp_batch_is_one_witness: "Fork 0 1 1 \<in> set failing_events \<and> (1::u64) = 1"
  using benchmp_batch_is_one [OF failing_run, of 0 1 1] by (simp add: failing_events_def)
end
