(* ===== verification/System.thy ===== *)
theory System
  imports Benchmp
begin

text \<open>
  The whole system of a parent and its children: \<open>k\<close> children, each running
  \<open>benchmp_interval\<close>, and the parent, together over the four pipes and interleaved
  arbitrarily down to single bytes. The children are abstracted to the stages of a protocol;
  every step of a child is a move of the protocol, and the invariant of the system is an
  invariant of parent, stages and pipes.
\<close>

section \<open>The system\<close>

text \<open>The control pipes hold anonymous bytes, so each is its number of bytes.\<close>

record pipes =
  pi_start :: nat
  pi_result :: nat
  pi_exit :: nat
  pi_resp :: "resp_byte list"

text \<open>A child process: its state, whether \<open>benchmp_interval\<close> is on its way to \<open>exit\<close>, and
  what it has still to do to the pipes before the benchmark runs again. Only accesses to
  pipes are kept, and a write of several bytes is that many actions.\<close>

datatype action = GetStart | GetResult | GetExit | Put resp_byte

record proc =
  pr_c :: child_state
  pr_tm :: timing
  pr_exiting :: bool
  pr_todo :: "action list"

fun actions_of :: "child_event \<Rightarrow> action list" where
  "actions_of ReadStart = [GetStart]"
| "actions_of WriteReady = [Put ReadyByte]"
| "actions_of WriteDone = [Put DoneByte]"
| "actions_of ReadResult = [GetResult]"
| "actions_of (WriteResults r bytes) = map (\<lambda>j. Put (ResByte r j)) [0..<nat bytes]"
| "actions_of ReadExit = [GetExit]"
| "actions_of _ = []"

definition actions :: "child_event list \<Rightarrow> action list" where
  "actions ev = concat (map actions_of ev)"

text \<open>A read of an empty pipe blocks: no result.\<close>

fun do_action :: "action \<Rightarrow> pipes \<Rightarrow> pipes option" where
  "do_action GetStart q = (if pi_start q = 0 then None else Some (q\<lparr>pi_start := pi_start q - 1\<rparr>))"
| "do_action GetResult q = (if pi_result q = 0 then None else Some (q\<lparr>pi_result := pi_result q - 1\<rparr>))"
| "do_action GetExit q = (if pi_exit q = 0 then None else Some (q\<lparr>pi_exit := pi_exit q - 1\<rparr>))"
| "do_action (Put b) q = Some (q\<lparr>pi_resp := pi_resp q @ [b]\<rparr>)"

fun send :: "parent_event \<Rightarrow> pipes \<Rightarrow> pipes" where
  "send (SendStart n) q = q\<lparr>pi_start := pi_start q + n\<rparr>"
| "send SendResult q = q\<lparr>pi_result := pi_result q + 1\<rparr>"
| "send (SendExit n) q = q\<lparr>pi_exit := pi_exit q + n\<rparr>"
| "send _ q = q"

record sys =
  sy_parent :: parent_state
  sy_procs :: "proc list"
  sy_pipes :: pipes

definition proc_gone :: "proc \<Rightarrow> bool" where
  "proc_gone p = (pr_exiting p \<and> pr_todo p = [])"

text \<open>The steps: a child calls \<open>benchmp_interval\<close> (its non-blocking \<open>select\<close> sees what is in
  the pipe at that time); a child does its next pipe action; the parent passes once through
  its loop. \<open>SIGCHLD\<close> arrives only when a child is gone, and \<open>read\<close> returns some of the bytes
  of the pipe, at most as many as it asked for.\<close>

inductive sys_step :: "int \<Rightarrow> int \<Rightarrow> nat \<Rightarrow> sys \<Rightarrow> sys \<Rightarrow> bool"
  for warmup_us :: int and repetitions :: int and addr :: nat where
  child_call:
    "\<lbrakk>i < length (sy_procs s); p = sy_procs s ! i; \<not> pr_exiting p; pr_todo p = [];
      start_ready e = (0 < pi_start (sy_pipes s)); result_ready e = (0 < pi_result (sy_pipes s));
      \<not> ppid_is_1 e;
      benchmp_interval e (pr_c p) (pr_tm p) = Some (ret, ev, c', tm')\<rbrakk>
     \<Longrightarrow> sys_step warmup_us repetitions addr s
           (s\<lparr>sy_procs := (sy_procs s)[i := \<lparr>pr_c = c', pr_tm = tm', pr_exiting = (ret = Exited),
                                            pr_todo = actions ev\<rparr>]\<rparr>)"
| child_act:
    "\<lbrakk>i < length (sy_procs s); p = sy_procs s ! i; pr_todo p = a # as; do_action a (sy_pipes s) = Some q\<rbrakk>
     \<Longrightarrow> sys_step warmup_us repetitions addr s
           (s\<lparr>sy_procs := (sy_procs s)[i := p\<lparr>pr_todo := as\<rparr>], sy_pipes := q\<rparr>)"
| parent:
    "\<lbrakk>pe_sigchld e \<longrightarrow> (\<exists>p \<in> set (sy_procs s). proc_gone p); \<not> pe_sigterm e; \<not> pe_fd_error e;
      pe_readable e \<longrightarrow> 0 < m \<and> m \<le> length (pi_resp (sy_pipes s))
        \<and> m \<le> parent_wants (length (sy_procs s)) repetitions (pp_pc (sy_parent s));
      pe_read e = Some (take m (pi_resp (sy_pipes s)));
      parent_step (length (sy_procs s)) warmup_us repetitions addr e (sy_parent s) = Some (ev, p')\<rbrakk>
     \<Longrightarrow> sys_step warmup_us repetitions addr s
           (s\<lparr>sy_parent := p',
              sy_pipes := fold send ev
                (if pe_readable e then (sy_pipes s)\<lparr>pi_resp := drop m (pi_resp (sy_pipes s))\<rparr>
                 else sy_pipes s)\<rparr>)"

inductive reachable :: "int \<Rightarrow> int \<Rightarrow> nat \<Rightarrow> sys \<Rightarrow> sys \<Rightarrow> bool"
  for warmup_us :: int and repetitions :: int and addr :: nat and s0 :: sys where
  start_state: "reachable warmup_us repetitions addr s0 s0"
| next_state: "reachable warmup_us repetitions addr s0 s \<Longrightarrow> sys_step warmup_us repetitions addr s s'
     \<Longrightarrow> reachable warmup_us repetitions addr s0 s'"

section \<open>The protocol of a child\<close>

text \<open>The stages a child goes through, as the parent can see them.\<close>

datatype stage =
    Fresh | SendReady | Waiting | TakeStart | Measuring | SendDone | Cooling
  | Asked result_t | Reporting result_t nat | WaitExit result_t | Gone result_t

text \<open>A result array a child may report.\<close>

definition good_res :: "int \<Rightarrow> result_t \<Rightarrow> bool" where
  "good_res repetitions r = (res_inv r \<and> int (res_N r) \<le> max 1 repetitions)"

abbreviation res_bytes :: "int \<Rightarrow> nat" where
  "res_bytes repetitions \<equiv> nat (sizeof_result repetitions)"

lemma res_bytes_pos [simp]: "repetitions < 2 ^ 27 \<Longrightarrow> 0 < res_bytes repetitions" "repetitions < 2 ^ 27 \<Longrightarrow> 0 < sizeof_result repetitions"
  by (auto simp: sizeof_result_exact TRIES_def)

text \<open>The moves of a child between its stages, and what they do to the pipes.\<close>

inductive child_move :: "int \<Rightarrow> pipes \<Rightarrow> stage \<Rightarrow> pipes \<Rightarrow> stage \<Rightarrow> bool" for repetitions :: int where
  stutter: "child_move repetitions q s q s"
| warm: "child_move repetitions q Fresh q SendReady"
| ready: "child_move repetitions q SendReady (q\<lparr>pi_resp := pi_resp q @ [ReadyByte]\<rparr>) Waiting"
| sees_start: "0 < pi_start q \<Longrightarrow> child_move repetitions q Waiting q TakeStart"
| take_start: "0 < pi_start q \<Longrightarrow>
    child_move repetitions q TakeStart (q\<lparr>pi_start := pi_start q - 1\<rparr>) Measuring"
| finish: "child_move repetitions q Measuring q SendDone"
| send_done: "child_move repetitions q SendDone (q\<lparr>pi_resp := pi_resp q @ [DoneByte]\<rparr>) Cooling"
| sees_result: "0 < pi_result q \<Longrightarrow> good_res repetitions r \<Longrightarrow> child_move repetitions q Cooling q (Asked r)"
| take_result: "0 < pi_result q \<Longrightarrow>
    child_move repetitions q (Asked r) (q\<lparr>pi_result := pi_result q - 1\<rparr>) (Reporting r 0)"
| send_byte: "Suc j < res_bytes repetitions \<Longrightarrow>
    child_move repetitions q (Reporting r j) (q\<lparr>pi_resp := pi_resp q @ [ResByte r j]\<rparr>) (Reporting r (Suc j))"
| send_last: "Suc j = res_bytes repetitions \<Longrightarrow>
    child_move repetitions q (Reporting r j) (q\<lparr>pi_resp := pi_resp q @ [ResByte r j]\<rparr>) (WaitExit r)"
| leave: "0 < pi_exit q \<Longrightarrow>
    child_move repetitions q (WaitExit r) (q\<lparr>pi_exit := pi_exit q - 1\<rparr>) (Gone r)"

text \<open>When a process is at a stage.\<close>

definition res_puts :: "int \<Rightarrow> result_t \<Rightarrow> nat \<Rightarrow> action list" where
  "res_puts repetitions r j = map (\<lambda>j. Put (ResByte r j)) [j..<res_bytes repetitions]"

lemma res_puts_Cons: "j < res_bytes repetitions \<Longrightarrow>
  res_puts repetitions r j = Put (ResByte r j) # res_puts repetitions r (Suc j)"
  by (simp add: res_puts_def upt_conv_Cons)

definition proc_ok :: "int \<Rightarrow> proc \<Rightarrow> bool" where
  "proc_ok repetitions p = (child_inv (pr_c p) (pr_tm p) \<and> cs_repetitions (pr_c p) = repetitions \<and> repetitions < 2 ^ 27
     \<and> cs_r_size (pr_c p) = sizeof_result repetitions)"

definition proc_in :: "proc \<Rightarrow> benchmp_state \<Rightarrow> bool \<Rightarrow> action list \<Rightarrow> bool" where
  "proc_in p st need todo = (\<not> pr_exiting p \<and> cs_state (pr_c p) = st \<and> cs_need_warmup (pr_c p) = need
     \<and> pr_todo p = todo)"

definition proc_out :: "int \<Rightarrow> proc \<Rightarrow> result_t \<Rightarrow> action list \<Rightarrow> bool" where
  "proc_out repetitions p r todo = (pr_exiting p \<and> cs_state (pr_c p) = cooldown
     \<and> r = cur_results (pr_tm p) \<and> good_res repetitions r \<and> pr_todo p = todo)"

fun at_stage :: "int \<Rightarrow> proc \<Rightarrow> stage \<Rightarrow> bool" where
  "at_stage n p Fresh = proc_in p warmup True []"
| "at_stage n p SendReady = proc_in p warmup False [Put ReadyByte]"
| "at_stage n p Waiting = proc_in p warmup False []"
| "at_stage n p TakeStart = proc_in p timing_interval False [GetStart]"
| "at_stage n p Measuring = proc_in p timing_interval False []"
| "at_stage n p SendDone = proc_in p cooldown False [Put DoneByte]"
| "at_stage n p Cooling = proc_in p cooldown False []"
| "at_stage n p (Asked r) = proc_out n p r (GetResult # res_puts n r 0 @ [GetExit])"
| "at_stage n p (Reporting r j) =
     (j < res_bytes n \<and> proc_out n p r (res_puts n r j @ [GetExit]))"
| "at_stage n p (WaitExit r) = proc_out n p r [GetExit]"
| "at_stage n p (Gone r) = proc_out n p r []"

lemma actions_append [simp]: "actions (a @ b) = actions a @ actions b"
  by (simp add: actions_def)

lemma actions_Nil [simp]: "actions [] = []"
  by (simp add: actions_def)

lemma actions_Cons [simp]: "actions (e # ev) = actions_of e @ actions ev"
  by (simp add: actions_def)

lemma actions_only_cleanup: "only_cleanup ev \<Longrightarrow> actions ev = []"
  by (auto simp: actions_def only_cleanup_def)

lemmas actions_result = actions_only_cleanup [OF interval_result_events]

lemma actions_cleanup [simp]: "actions (call_cleanup e c n) = []"
  by (simp add: call_cleanup_def)

lemma interval_result_cur:
  "interval_result e c tm = (result, ev, tm') \<Longrightarrow> cur_results tm' = cur_results tm"
  using interval_result_frame(1,2) by metis

lemma child_inv_good: "child_inv c tm \<Longrightarrow> good_res (cs_repetitions c) (cur_results tm)"
  by (auto simp: child_inv_def good_res_def)

text \<open>A call of \<open>benchmp_interval\<close> by a child at a stage with nothing left to do is a move. It
  changes the stage, unless the byte the child waits for is not there or the child has more
  repetitions to make.\<close>

fun waits_for :: "stage \<Rightarrow> pipes \<Rightarrow> bool" where
  "waits_for Waiting q = (pi_start q = 0)"
| "waits_for TakeStart q = (pi_start q = 0)"
| "waits_for Cooling q = (pi_result q = 0)"
| "waits_for (Asked r) q = (pi_result q = 0)"
| "waits_for (WaitExit r) q = (pi_exit q = 0)"
| "waits_for (Gone r) q = True"
| "waits_for _ q = False"

lemma call_is_move:
  assumes ok: "proc_ok n p" and st: "at_stage n p s" "\<not> pr_exiting p" "pr_todo p = []"
    and env: "start_ready e = (0 < pi_start q)" "result_ready e = (0 < pi_result q)" "\<not> ppid_is_1 e"
    and fresh: "s = Fresh \<longrightarrow> pi_start q = 0"
    and call: "benchmp_interval e (pr_c p) (pr_tm p) = Some (ret, ev, c', tm')"
    and p': "p' = \<lparr>pr_c = c', pr_tm = tm', pr_exiting = (ret = Exited), pr_todo = actions ev\<rparr>"
  shows "proc_ok n p' \<and> (\<exists>s'. at_stage n p' s' \<and> child_move n q s q s'
           \<and> (s' \<noteq> s \<or> waits_for s q \<or> s = Measuring \<and> (1 < cs_parallel (pr_c p) \<longrightarrow> cs_i (pr_c p) < cs_i c')))"
proof
  have inv: "child_inv (pr_c p) (pr_tm p)" using ok by (simp add: proc_ok_def)
  note inv' = benchmp_interval_inv [OF inv call]
  then show "proc_ok n p'" using ok by (simp add: proc_ok_def p' same_setup_def)
  have stage: "s \<in> {Fresh, Waiting, Measuring, Cooling}"
    using st by (cases s) (auto simp: proc_in_def proc_out_def)
  from call show "\<exists>s'. at_stage n p' s' \<and> child_move n q s q s'
      \<and> (s' \<noteq> s \<or> waits_for s q \<or> s = Measuring \<and> (1 < cs_parallel (pr_c p) \<longrightarrow> cs_i (pr_c p) < cs_i c'))"
  proof (cases rule: benchmp_interval_cases)
    case (orphan evr result)
    with env show ?thesis by simp
  next
    case (report evr result)
    with stage st have "s = Cooling" by (auto simp: proc_in_def)
    moreover have "good_res n (cur_results tm')"
      using child_inv_good [of c' tm'] inv' ok by (simp add: proc_ok_def same_setup_def)
    moreover have "0 < pi_result q" using report env by simp
    moreover have "at_stage n p' (Asked (cur_results tm'))"
      using report ok \<open>good_res n _\<close> actions_result [OF report(5)]
      by (simp add: p' proc_out_def interval_exit_events_def get_results_def res_puts_def proc_ok_def)
    ultimately show ?thesis by (blast intro: child_move.sees_result stage.distinct)
  next
    case (warm m evr result tm1 ev1)
    note sw = interval_warmup_step [OF warm(4)]
    have acts: "actions ev = (if start_ready e then [GetStart] else [])
        @ (if cs_need_warmup (pr_c p) then [Put ReadyByte] else [])"
      using warm actions_result [OF warm(3)] sw(6) by simp
    from stage st warm consider "s = Fresh" | "s = Waiting" by (auto simp: proc_in_def)
    then show ?thesis
    proof cases
      case 1
      with fresh env st have "\<not> start_ready e" "cs_need_warmup (pr_c p)" by (auto simp: proc_in_def)
      with warm sw(2,5) acts have "at_stage n p' SendReady" by (simp add: p' proc_in_def)
      with 1 show ?thesis by (metis child_move.warm stage.distinct(1))
    next
      case 2
      with st have nw: "\<not> cs_need_warmup (pr_c p)" by (simp add: proc_in_def)
      show ?thesis
      proof (cases "start_ready e")
        case True
        with nw warm sw(2,5) acts have "at_stage n p' TakeStart" by (simp add: p' proc_in_def)
        with 2 True env show ?thesis by (metis child_move.sees_start stage.simps)
      next
        case False
        with nw warm sw(2,5) acts have "at_stage n p' Waiting" by (simp add: p' proc_in_def)
        with 2 False env show ?thesis by (metis child_move.stutter waits_for.simps(1) gr0I)
      qed
    qed
  next
    case (time m evr result tm1 ev1 tm2)
    note sw = interval_timing_step [OF time(4,2)]
    from stage st time have s: "s = Measuring" by (auto simp: proc_in_def)
    with st have nw: "\<not> cs_need_warmup (pr_c p)" by (simp add: proc_in_def)
    have acts: "actions ev = (if cs_state c' = cooldown then [Put DoneByte] else [])"
      using time actions_result [OF time(3)] sw(5) by simp
    have "at_stage n p' (if cs_state c' = cooldown then SendDone else Measuring)"
      using time sw(2,4) acts nw by (auto simp: p' proc_in_def)
    moreover have "1 < cs_parallel (pr_c p) \<longrightarrow> cs_i (pr_c p) < cs_i c'"
      using sw(3) by (simp add: stores_def)
    ultimately show ?thesis using s by (metis child_move.finish child_move.stutter)
  next
    case (cool m evr result tm1)
    from stage st cool have s: "s = Cooling" by (auto simp: proc_in_def)
    with cool st actions_result [OF cool(4)] have "at_stage n p' Cooling" by (auto simp: p' proc_in_def)
    with s cool env show ?thesis by (metis child_move.stutter waits_for.simps(3) gr0I)
  qed
qed

lemma act_is_move:
  assumes "proc_ok n p" "at_stage n p s" "pr_todo p = a # as" "do_action a q = Some q'"
  shows "proc_ok n (p\<lparr>pr_todo := as\<rparr>) \<and> (\<exists>s'. at_stage n (p\<lparr>pr_todo := as\<rparr>) s' \<and> child_move n q s q' s')"
proof
  show "proc_ok n (p\<lparr>pr_todo := as\<rparr>)" using assms(1) by (simp add: proc_ok_def)
  let ?p = "p\<lparr>pr_todo := as\<rparr>"
  show "\<exists>s'. at_stage n ?p s' \<and> child_move n q s q' s'"
  proof (cases s)
    case SendReady
    with assms have "at_stage n ?p Waiting" "q' = q\<lparr>pi_resp := pi_resp q @ [ReadyByte]\<rparr>"
      by (auto simp: proc_in_def)
    with SendReady show ?thesis by (blast intro: child_move.ready)
  next
    case TakeStart
    with assms have "at_stage n ?p Measuring" "q' = q\<lparr>pi_start := pi_start q - 1\<rparr>" "0 < pi_start q"
      by (auto simp: proc_in_def split: if_splits)
    with TakeStart show ?thesis by (blast intro: child_move.take_start)
  next
    case SendDone
    with assms have "at_stage n ?p Cooling" "q' = q\<lparr>pi_resp := pi_resp q @ [DoneByte]\<rparr>"
      by (auto simp: proc_in_def)
    with SendDone show ?thesis by (blast intro: child_move.send_done)
  next
    case (Asked r)
    with assms have "at_stage n ?p (Reporting r 0)" "q' = q\<lparr>pi_result := pi_result q - 1\<rparr>" "0 < pi_result q"
      by (auto simp: proc_out_def proc_ok_def split: if_splits)
    with Asked show ?thesis by (blast intro: child_move.take_result)
  next
    case (Reporting r j)
    with assms have j: "j < res_bytes n" by simp
    from Reporting assms res_puts_Cons [OF j, of r]
    have q': "q' = q\<lparr>pi_resp := pi_resp q @ [ResByte r j]\<rparr>" and out: "proc_out n ?p r (res_puts n r (Suc j) @ [GetExit])"
      by (auto simp: proc_out_def)
    show ?thesis
    proof (cases "Suc j < res_bytes n")
      case True
      with out have "at_stage n ?p (Reporting r (Suc j))" by simp
      with q' Reporting True show ?thesis by (blast intro: child_move.send_byte)
    next
      case False
      with j have e: "Suc j = res_bytes n" by simp
      with out have "at_stage n ?p (WaitExit r)" by (simp add: res_puts_def)
      with q' Reporting e show ?thesis by (blast intro: child_move.send_last)
    qed
  next
    case (WaitExit r)
    with assms have "at_stage n ?p (Gone r)" "q' = q\<lparr>pi_exit := pi_exit q - 1\<rparr>" "0 < pi_exit q"
      by (auto simp: proc_out_def split: if_splits)
    with WaitExit show ?thesis by (blast intro: child_move.leave)
  qed (use assms in \<open>auto simp: proc_in_def proc_out_def\<close>)
qed

section \<open>The invariant of the system\<close>

abbreviation cnt :: "('a \<Rightarrow> bool) \<Rightarrow> 'a list \<Rightarrow> nat" where
  "cnt P ss \<equiv> length (filter P ss)"

fun is_reporting :: "stage \<Rightarrow> bool" where
  "is_reporting (Reporting r j) = True"
| "is_reporting _ = False"

fun is_waitexit :: "stage \<Rightarrow> bool" where
  "is_waitexit (WaitExit r) = True"
| "is_waitexit _ = False"

fun is_gone :: "stage \<Rightarrow> bool" where
  "is_gone (Gone r) = True"
| "is_gone _ = False"

fun unready :: "stage \<Rightarrow> bool" where
  "unready Fresh = True" | "unready SendReady = True" | "unready _ = False"

fun unstarted :: "stage \<Rightarrow> bool" where
  "unstarted Waiting = True" | "unstarted TakeStart = True" | "unstarted _ = False"

fun in_warmup :: "stage \<Rightarrow> bool" where
  "in_warmup Fresh = True" | "in_warmup SendReady = True" | "in_warmup Waiting = True" | "in_warmup _ = False"

fun in_measurement :: "stage \<Rightarrow> bool" where
  "in_measurement Waiting = True" | "in_measurement TakeStart = True" | "in_measurement Measuring = True"
| "in_measurement SendDone = True" | "in_measurement Cooling = True" | "in_measurement _ = False"

fun in_report :: "int \<Rightarrow> stage \<Rightarrow> bool" where
  "in_report n Cooling = True" | "in_report n (Asked r) = good_res n r"
| "in_report n (Reporting r j) = (good_res n r \<and> j < res_bytes n)" | "in_report n (WaitExit r) = good_res n r"
| "in_report n _ = False"

text \<open>The measurements the children have handed over.\<close>

fun reported :: "stage \<Rightarrow> value_t multiset" where
  "reported (WaitExit r) = mset (res_list r)"
| "reported (Gone r) = mset (res_list r)"
| "reported _ = {#}"

definition reported_all :: "stage list \<Rightarrow> value_t multiset" where
  "reported_all ss = sum_list (map reported ss)"

text \<open>The merged array has room for what the children that are still to come may report.\<close>

definition merged_ok :: "int \<Rightarrow> nat \<Rightarrow> nat \<Rightarrow> result_t \<Rightarrow> bool" where
  "merged_ok n k i m = (res_inv m \<and> n < 2 ^ 27 \<and> int k * max 1 n \<le> int (length (res_v m))
     \<and> int (res_N m) \<le> int i * max 1 n)"

definition inv_ready :: "nat \<Rightarrow> int \<Rightarrow> nat \<Rightarrow> result_t \<Rightarrow> stage list \<Rightarrow> pipes \<Rightarrow> bool" where
  "inv_ready k n i m ss q =
     (i < k \<and> pi_start q = 0 \<and> pi_result q = 0 \<and> pi_exit q = 0 \<and> (\<forall>s \<in> set ss. in_warmup s)
      \<and> set (pi_resp q) \<subseteq> {ReadyByte}
      \<and> length (pi_resp q) + i + cnt unready ss = k
      \<and> n < 2 ^ 27 \<and> int k * max 1 n \<le> int (length (res_v m)))"

definition inv_done :: "nat \<Rightarrow> int \<Rightarrow> nat \<Rightarrow> result_t \<Rightarrow> stage list \<Rightarrow> pipes \<Rightarrow> bool" where
  "inv_done k n i m ss q =
     (i < k \<and> pi_start q = cnt unstarted ss \<and> pi_result q = 0 \<and> pi_exit q = 0
      \<and> (\<forall>s \<in> set ss. in_measurement s)
      \<and> set (pi_resp q) \<subseteq> {DoneByte}
      \<and> length (pi_resp q) + i + cnt (\<lambda>s. s \<noteq> Cooling) ss = k
      \<and> n < 2 ^ 27 \<and> int k * max 1 n \<le> int (length (res_v m)))"

definition inv_results ::
  "nat \<Rightarrow> int \<Rightarrow> nat \<Rightarrow> resp_byte list \<Rightarrow> result_t \<Rightarrow> stage list \<Rightarrow> pipes \<Rightarrow> bool" where
  "inv_results k n i buf m ss q =
     (i < k \<and> pi_start q = 0 \<and> pi_exit q = 0 \<and> (\<forall>s \<in> set ss. in_report n s)
      \<and> length buf < res_bytes n \<and> merged_ok n k i m
      \<and> (pi_result q = 1 \<and> filter is_reporting ss = [] \<and> pi_resp q = [] \<and> buf = []
           \<and> cnt is_waitexit ss = i \<and> mset (res_list m) = reported_all ss
         \<or> pi_result q = 0 \<and> (\<exists>r j. filter is_reporting ss = [Reporting r j]
             \<and> buf @ pi_resp q = map (ResByte r) [0..<j])
           \<and> cnt is_waitexit ss = i \<and> mset (res_list m) = reported_all ss
         \<or> pi_result q = 0 \<and> filter is_reporting ss = [] \<and> cnt is_waitexit ss = Suc i
           \<and> (\<exists>r. buf @ pi_resp q = map (ResByte r) [0..<res_bytes n] \<and> good_res n r
                 \<and> reported_all ss = mset (res_list m) + mset (res_list r))))"

definition inv_collected :: "nat \<Rightarrow> int \<Rightarrow> parent_state \<Rightarrow> stage list \<Rightarrow> pipes \<Rightarrow> bool" where
  "inv_collected k n p ss q =
     (pi_start q = 0 \<and> pi_result q = 0 \<and> pi_exit q = cnt is_waitexit ss
      \<and> (\<forall>s \<in> set ss. is_waitexit s \<or> is_gone s) \<and> pi_resp q = []
      \<and> merged_ok n k k (pp_merged p) \<and> mset (res_list (pp_merged p)) = reported_all ss
      \<and> cur_results (pp_tm p) = pp_merged p)"

definition proto_inv :: "nat \<Rightarrow> int \<Rightarrow> parent_state \<Rightarrow> stage list \<Rightarrow> pipes \<Rightarrow> bool" where
  "proto_inv k n p ss q =
     (length ss = k \<and>
      (case pp_pc p of
         CollectReady i \<Rightarrow> inv_ready k n i (pp_merged p) ss q
       | CollectDone i \<Rightarrow> inv_done k n i (pp_merged p) ss q
       | CollectResults i buf \<Rightarrow> inv_results k n i buf (pp_merged p) ss q
       | Collected \<Rightarrow> inv_collected k n p ss q
       | Failed \<Rightarrow> False
       | NoMemory \<Rightarrow> False))"

subsection \<open>Moves of the children\<close>

lemma append_Cons_eq_single: "(a @ x # b = [y]) = (a = [] \<and> x = y \<and> b = [])"
  by (auto simp: append_eq_Cons_conv)

lemma reported_all_append [simp]: "reported_all (xs @ ys) = reported_all xs + reported_all ys"
  by (simp add: reported_all_def)

lemma reported_all_Cons [simp]: "reported_all (x # xs) = reported x + reported_all xs"
  by (simp add: reported_all_def)

lemma move_ready:
  "inv_ready k n i m (xs @ s # ys) q \<Longrightarrow> child_move n q s q' s' \<Longrightarrow> inv_ready k n i m (xs @ s' # ys) q'"
  by (erule child_move.cases) (auto simp: inv_ready_def)

lemma move_done:
  "inv_done k n i m (xs @ s # ys) q \<Longrightarrow> child_move n q s q' s' \<Longrightarrow> inv_done k n i m (xs @ s' # ys) q'"
  by (erule child_move.cases) (auto simp: inv_done_def)

lemma bytes_snoc:
  "buf @ resp = map (ResByte r) [0..<j] \<Longrightarrow> buf @ resp @ [ResByte r j] = map (ResByte r) [0..<Suc j]"
  by (simp flip: append_assoc)

lemma move_results:
  "inv_results k n i buf m (xs @ s # ys) q \<Longrightarrow> child_move n q s q' s' \<Longrightarrow>
   inv_results k n i buf m (xs @ s' # ys) q'"
  by (erule child_move.cases) (auto simp: inv_results_def append_Cons_eq_single ac_simps, metis bytes_snoc)

lemma move_collected:
  "inv_collected k n p (xs @ s # ys) q \<Longrightarrow> child_move n q s q' s' \<Longrightarrow>
   inv_collected k n p (xs @ s' # ys) q'"
  by (erule child_move.cases) (auto simp: inv_collected_def)

lemma move_inv:
  assumes "proto_inv k n p ss q" "i < length ss" "child_move n q (ss ! i) q' s'"
  shows "proto_inv k n p (ss[i := s']) q'"
proof -
  have ss: "ss = take i ss @ ss ! i # drop (Suc i) ss" using assms(2) by (rule id_take_nth_drop)
  have ss': "ss[i := s'] = take i ss @ s' # drop (Suc i) ss" using assms(2) by (rule upd_conv_take_nth_drop)
  note moves = move_ready move_done move_results move_collected
  show ?thesis
    using assms(1) moves [OF _ assms(3), where xs = "take i ss" and ys = "drop (Suc i) ss"]
    unfolding proto_inv_def ss' using ss assms(2)
    by (auto split: parent_pc.splits)
qed

subsection \<open>Merging\<close>

lemma merge_ok:
  assumes "merged_ok n k i m" "good_res n r" "i < k"
  shows "\<exists>m'. merge_from r 0 m = Some m' \<and> merged_ok n k (Suc i) m'
           \<and> mset (res_list m') = mset (res_list m) + mset (res_list r)"
proof -
  have "int (res_N m) + int (res_N r) \<le> int (Suc i) * max 1 n"
    using assms by (simp add: merged_ok_def good_res_def algebra_simps)
  moreover have "int (Suc i) * max 1 n \<le> int k * max 1 n"
    using assms(3) by (intro mult_right_mono) simp_all
  ultimately have "int (res_N m) + int (res_N r) \<le> int (length (res_v m))"
    using assms(1) by (simp add: merged_ok_def)
  then have sz: "res_N m + (res_N r - 0) \<le> length (res_v m)" by simp
  have inv: "res_inv r" "res_inv m" using assms by (simp_all add: good_res_def merged_ok_def)
  obtain m' where m': "merge_from r 0 m = Some m'" "res_inv m'" "length (res_v m') = length (res_v m)"
      "res_N m' = res_N m + res_N r" "mset (res_list m') = mset (res_list m) + mset (res_list r)"
    using merge_from_correct [OF inv sz] by auto
  have "merged_ok n k (Suc i) m'"
    using assms m' \<open>int (res_N m) + int (res_N r) \<le> int (Suc i) * max 1 n\<close> by (simp add: merged_ok_def)
  with m' show ?thesis by blast
qed

subsection \<open>Steps of the parent\<close>

lemma cnt_0: "cnt P ss = 0 \<longleftrightarrow> (\<forall>s \<in> set ss. \<not> P s)"
  by (auto simp: filter_empty_conv)

lemma cnt_pos: "t \<in> set ss \<Longrightarrow> P t \<Longrightarrow> 0 < cnt P ss"
  by (auto simp: filter_empty_conv)

lemma cnt_all: "cnt P ss = length ss \<longleftrightarrow> (\<forall>s \<in> set ss. P s)"
  by (metis filter_True length_filter_less linorder_neq_iff)

lemma parent_ready_inv:
  assumes inv: "inv_ready k n i (pp_merged p) ss q" "length ss = k" "0 < k"
    and m: "0 < m" "m \<le> length (pi_resp q)" "m \<le> k - i"
  shows "\<exists>ev p'. collect_ready k w addr (i + m) p = Some (ev, p')
           \<and> proto_inv k n p' ss (fold send ev (q\<lparr>pi_resp := drop m (pi_resp q)\<rparr>))"
proof (cases "i + m < k")
  case True
  have "set (drop m (pi_resp q)) \<subseteq> set (pi_resp q)" by (rule set_drop_subset)
  with True inv m show ?thesis
    by (auto simp: collect_ready_def proto_inv_def inv_ready_def)
next
  case False
  have "length (pi_resp q) + i + cnt unready ss = k" using inv(1) by (simp add: inv_ready_def)
  with m False have eq: "cnt unready ss = 0" "length (pi_resp q) = m" by linarith+
  then have W: "\<forall>s \<in> set ss. s = Waiting"
    using inv(1) unfolding cnt_0 inv_ready_def by (metis in_warmup.elims(2) unready.simps(1,2))
  then have "cnt unstarted ss = length ss" "cnt (\<lambda>s. s \<noteq> Cooling) ss = length ss"
    unfolding cnt_all by auto
  with False W inv eq show ?thesis
    by (auto simp: collect_ready_def collect_done_def proto_inv_def inv_ready_def inv_done_def)
qed

lemma parent_done_inv:
  assumes inv: "inv_done k n i (pp_merged p) ss q" "length ss = k" "0 < k"
    and m: "0 < m" "m \<le> length (pi_resp q)" "m \<le> k - i"
  shows "\<exists>ev p'. collect_done k addr (i + m) p = Some (ev, p')
           \<and> proto_inv k n p' ss (fold send ev (q\<lparr>pi_resp := drop m (pi_resp q)\<rparr>))"
proof (cases "i + m < k")
  case True
  have "set (drop m (pi_resp q)) \<subseteq> set (pi_resp q)" by (rule set_drop_subset)
  with True inv m show ?thesis
    by (auto simp: collect_done_def proto_inv_def inv_done_def)
next
  case False
  have "length (pi_resp q) + i + cnt (\<lambda>s. s \<noteq> Cooling) ss = k" using inv(1) by (simp add: inv_done_def)
  with m False have eq: "cnt (\<lambda>s. s \<noteq> Cooling) ss = 0" "length (pi_resp q) = m" by linarith+
  then have C: "\<forall>s \<in> set ss. s = Cooling" unfolding cnt_0 by simp
  then have 0: "cnt unstarted ss = 0" "filter is_reporting ss = []" "cnt is_waitexit ss = 0"
    unfolding cnt_0 by (auto simp: filter_empty_conv)
  have "reported_all ss = {#}" using C by (induction ss) (auto simp: reported_all_def)
  with False C inv eq 0 show ?thesis
    by (auto simp: collect_done_def collect_results_def proto_inv_def inv_done_def inv_results_def
        merged_ok_def res_inv_insertinit)
       (auto simp: insertinit_def res_list_def)
qed

lemma set_results_merged:
  "res_inv m \<Longrightarrow> \<exists>tm'. set_results addr (tm\<lparr>result_objs := (result_objs tm)(addr := m)\<rparr>) = Some tm'
     \<and> cur_results tm' = m"
  using save_median_total [of "tm\<lparr>result_objs := (result_objs tm)(addr := m), results := addr\<rparr>"]
  by (auto simp: set_results_def)

lemma collect_next:
  assumes "merged_ok n k i m" "pp_merged p = m" "i \<le> k" "length ss = k" "\<forall>s \<in> set ss. in_report n s"
    "filter is_reporting ss = []" "cnt is_waitexit ss = i" "mset (res_list m) = reported_all ss"
    "pi_start q = 0" "pi_result q = 0" "pi_exit q = 0" "pi_resp q = []"
  shows "\<exists>ev p'. collect_results k addr i p = Some (ev, p') \<and> proto_inv k n p' ss (fold send ev q)"
proof (cases "i < k")
  case True
  moreover have "n < 2 ^ 27" using assms(1) by (simp add: merged_ok_def)
  ultimately show ?thesis using assms by (simp add: collect_results_def proto_inv_def inv_results_def)
next
  case False
  with assms have k: "i = k" by simp
  then have W: "\<forall>s \<in> set ss. is_waitexit s" using assms(4,7) cnt_all [of is_waitexit ss] by simp
  obtain tm' where tm': "set_results addr ((pp_tm p)\<lparr>result_objs := (result_objs (pp_tm p))(addr := m)\<rparr>) = Some tm'"
      "cur_results tm' = m"
    using set_results_merged assms(1) by (metis merged_ok_def)
  with False assms W k show ?thesis
    by (simp add: collect_results_def proto_inv_def inv_collected_def)
qed

lemma parent_results_inv:
  assumes inv: "inv_results k n i buf (pp_merged p) ss q" "length ss = k"
    and m: "0 < m" "m \<le> length (pi_resp q)" "m \<le> res_bytes n - length buf"
    and bs: "bs = take m (pi_resp q)" and pc: "pp_pc p = CollectResults i buf"
    and e: "pe_read e = Some bs" "pe_readable e" "\<not> pe_sigchld e" "\<not> pe_sigterm e" "\<not> pe_fd_error e"
  shows "\<exists>ev p'. parent_step k w n addr e p = Some (ev, p')
           \<and> proto_inv k n p' ss (fold send ev (q\<lparr>pi_resp := drop m (pi_resp q)\<rparr>))"
proof -
  let ?q = "q\<lparr>pi_resp := drop m (pi_resp q)\<rparr>"
  have split: "(buf @ bs) @ drop m (pi_resp q) = buf @ pi_resp q" by (simp add: bs)
  show ?thesis
  proof (cases "length (buf @ bs) < res_bytes n")
    case True
    then have "int (length (buf @ bs)) < sizeof_result n" by linarith
    then have "parent_step k w n addr e p = Some ([], p\<lparr>pp_pc := CollectResults i (buf @ bs)\<rparr>)"
      using e pc by (simp add: parent_step_def)
    moreover have "inv_results k n i (buf @ bs) (pp_merged p) ss ?q"
      using inv(1) m True split by (auto simp: inv_results_def bs)
    ultimately show ?thesis using inv(2) by (simp add: proto_inv_def)
  next
    case False
    have len: "length (buf @ bs) = res_bytes n" using False m bs by simp
    have "length (buf @ pi_resp q) \<ge> res_bytes n" using len split by (metis le_add1 length_append)
    then have three: "pi_result q = 0" "filter is_reporting ss = []" "cnt is_waitexit ss = Suc i"
      "\<exists>r. buf @ pi_resp q = map (ResByte r) [0..<res_bytes n] \<and> good_res n r
          \<and> reported_all ss = mset (res_list (pp_merged p)) + mset (res_list r)"
      using inv(1) m(1,2) unfolding inv_results_def
      by (auto simp: filter_eq_Cons_iff dest: arg_cong [where f = length])
    then obtain r where r: "buf @ pi_resp q = map (ResByte r) [0..<res_bytes n]" "good_res n r"
      "reported_all ss = mset (res_list (pp_merged p)) + mset (res_list r)" by blast
    have "length (buf @ pi_resp q) = res_bytes n" using r(1) by simp
    with len split have d: "drop m (pi_resp q) = []" "buf @ bs = buf @ pi_resp q"
      by (metis add_cancel_right_right length_0_conv length_append append_Nil2)+
    have "i < k" "merged_ok n k i (pp_merged p)" using inv(1) by (simp_all add: inv_results_def)
    from merge_ok [OF this(2) r(2) this(1)] obtain m' where m': "merge_from r 0 (pp_merged p) = Some m'"
      "merged_ok n k (Suc i) m'" "mset (res_list m') = reported_all ss" using r(3) by auto
    have "n < 2 ^ 27" using inv(1) by (simp add: inv_results_def merged_ok_def)
    then have "decode (buf @ bs) = Some r" using d(2) r(1) decode_bytes by simp
    then have "parent_step k w n addr e p = collect_results k addr (Suc i) (p\<lparr>pp_merged := m'\<rparr>)"
      using e pc m'(1) False by (simp add: parent_step_def) linarith
    moreover have "\<exists>ev p'. collect_results k addr (Suc i) (p\<lparr>pp_merged := m'\<rparr>) = Some (ev, p')
        \<and> proto_inv k n p' ss (fold send ev ?q)"
      using m' \<open>i < k\<close> inv three d(1) by (intro collect_next [of n k "Suc i" m']) (auto simp: inv_results_def)
    ultimately show ?thesis by simp
  qed
qed

lemma parent_inv:
  assumes inv: "proto_inv k n p ss q" "0 < k"
    and env: "pe_sigchld e \<longrightarrow> (\<exists>s \<in> set ss. is_gone s)" "\<not> pe_sigterm e" "\<not> pe_fd_error e"
      "pe_readable e \<longrightarrow> 0 < m \<and> m \<le> length (pi_resp q) \<and> m \<le> parent_wants k n (pp_pc p)"
      "pe_read e = Some (take m (pi_resp q))"
  shows "\<exists>ev p'. parent_step k w n addr e p = Some (ev, p')
           \<and> proto_inv k n p' ss
               (fold send ev (if pe_readable e then q\<lparr>pi_resp := drop m (pi_resp q)\<rparr> else q))"
proof -
  have len: "length ss = k" using inv by (simp add: proto_inv_def)
  have chld: "\<not> pe_sigchld e" if "pp_pc p \<noteq> Collected"
    using inv(1) env(1) that
    by (fastforce simp: proto_inv_def inv_ready_def inv_done_def inv_results_def
        split: parent_pc.splits elim: is_gone.elims)
  show ?thesis
  proof (cases "pe_readable e")
    case False
    with inv chld env have "parent_step k w n addr e p = Some ([], p)"
      by (auto simp: parent_step_def split: parent_pc.splits)
    with False inv show ?thesis by simp
  next
    case True
    have rd: "0 < m" "m \<le> length (pi_resp q)" "m \<le> parent_wants k n (pp_pc p)"
      "length (take m (pi_resp q)) = m"
      using env(4) True by auto
    show ?thesis
    proof (cases "pp_pc p")
      case (CollectReady i)
      with True chld env rd len inv show ?thesis
        using parent_ready_inv [of k n i p ss q m w addr] by (simp add: parent_step_def proto_inv_def del: length_take)
    next
      case (CollectDone i)
      with True chld env rd len inv show ?thesis
        using parent_done_inv [of k n i p ss q m addr] by (simp add: parent_step_def proto_inv_def del: length_take)
    next
      case (CollectResults i buf)
      with True chld env rd len inv show ?thesis
        using parent_results_inv [of k n i buf p ss q m _ e w addr] by (simp add: proto_inv_def)
    qed (use inv rd in \<open>auto simp: proto_inv_def\<close>)
  qed
qed

subsection \<open>Reachable states\<close>

definition sys_inv :: "int \<Rightarrow> sys \<Rightarrow> bool" where
  "sys_inv n s =
     (sy_procs s \<noteq> [] \<and> (\<forall>p \<in> set (sy_procs s). proc_ok n p)
      \<and> (\<exists>ss. list_all2 (at_stage n) (sy_procs s) ss
             \<and> proto_inv (length (sy_procs s)) n (sy_parent s) ss (sy_pipes s)))"

lemma proto_fresh: "proto_inv k n p ss q \<Longrightarrow> Fresh \<in> set ss \<Longrightarrow> pi_start q = 0"
  by (fastforce simp: proto_inv_def inv_ready_def inv_done_def inv_results_def inv_collected_def
      split: parent_pc.splits)

lemma gone_stage: "at_stage n p s \<Longrightarrow> proc_gone p \<Longrightarrow> is_gone s"
  by (cases s) (auto simp: proc_gone_def proc_in_def proc_out_def)

lemma sys_inv_move:
  assumes "sys_inv n s" "i < length (sy_procs s)"
    and move: "\<And>ss. proc_ok n (sy_procs s ! i) \<Longrightarrow> at_stage n (sy_procs s ! i) (ss ! i)
      \<Longrightarrow> proto_inv (length (sy_procs s)) n (sy_parent s) ss (sy_pipes s) \<Longrightarrow> i < length ss
      \<Longrightarrow> proc_ok n p' \<and> (\<exists>s'. at_stage n p' s' \<and> child_move n (sy_pipes s) (ss ! i) q' s')"
  shows "sys_inv n (s\<lparr>sy_procs := (sy_procs s)[i := p'], sy_pipes := q'\<rparr>)"
proof -
  obtain ss where ss: "list_all2 (at_stage n) (sy_procs s) ss"
    "proto_inv (length (sy_procs s)) n (sy_parent s) ss (sy_pipes s)"
    and ok: "\<forall>p \<in> set (sy_procs s). proc_ok n p"
    using assms(1) by (auto simp: sys_inv_def)
  have i: "i < length ss" "at_stage n (sy_procs s ! i) (ss ! i)"
    using ss(1) assms(2) by (auto simp: list_all2_conv_all_nth)
  obtain s' where s': "proc_ok n p'" "at_stage n p' s'" "child_move n (sy_pipes s) (ss ! i) q' s'"
    using move [OF _ i(2) ss(2) i(1)] ok assms(2) by auto
  have "list_all2 (at_stage n) ((sy_procs s)[i := p']) (ss[i := s'])"
    using ss(1) s'(2) by (rule list_all2_update_cong)
  moreover have "proto_inv (length (sy_procs s)) n (sy_parent s) (ss[i := s']) q'"
    using ss(2) i(1) s'(3) by (rule move_inv)
  ultimately show ?thesis
    using assms(1) ball_update [OF ok s'(1)] by (auto simp: sys_inv_def)
qed

lemma sys_step_inv: "sys_step w n addr s s' \<Longrightarrow> sys_inv n s \<Longrightarrow> sys_inv n s'"
proof (induction rule: sys_step.induct)
  case (child_call i s p e ret ev c' tm')
  let ?p = "\<lparr>pr_c = c', pr_tm = tm', pr_exiting = (ret = Exited), pr_todo = actions ev\<rparr>"
  have "sys_inv n (s\<lparr>sy_procs := (sy_procs s)[i := ?p], sy_pipes := sy_pipes s\<rparr>)"
  proof (rule sys_inv_move)
    fix ss assume ss: "proc_ok n (sy_procs s ! i)" "at_stage n (sy_procs s ! i) (ss ! i)"
      "proto_inv (length (sy_procs s)) n (sy_parent s) ss (sy_pipes s)" "i < length ss"
    have "ss ! i = Fresh \<longrightarrow> pi_start (sy_pipes s) = 0"
      using proto_fresh [OF ss(3)] ss(4) by (metis nth_mem)
    from call_is_move [OF ss(1,2) _ _ _ _ _ this] child_call
    show "proc_ok n ?p \<and> (\<exists>s'. at_stage n ?p s' \<and> child_move n (sy_pipes s) (ss ! i) (sy_pipes s) s')"
      by metis
  qed (use child_call in auto)
  then show ?case by simp
next
  case (child_act i s p a as q)
  then show ?case by (intro sys_inv_move) (use act_is_move in auto)
next
  case (parent e s m ev p')
  then obtain ss where ss: "list_all2 (at_stage n) (sy_procs s) ss"
    "proto_inv (length (sy_procs s)) n (sy_parent s) ss (sy_pipes s)" "sy_procs s \<noteq> []"
    by (auto simp: sys_inv_def)
  have "pe_sigchld e \<longrightarrow> (\<exists>s \<in> set ss. is_gone s)"
    using parent(1) ss(1) gone_stage by (metis in_set_conv_nth list_all2_conv_all_nth)
  from parent_inv [OF ss(2) _ this parent(2-5), of w addr] parent(6) ss(3)
  have "proto_inv (length (sy_procs s)) n p' ss
      (fold send ev (if pe_readable e then (sy_pipes s)\<lparr>pi_resp := drop m (pi_resp (sy_pipes s))\<rparr> else sy_pipes s))"
    by auto
  with ss(1) parent show ?case by (auto simp: sys_inv_def)
qed

lemma reachable_inv: "reachable w n addr s0 s \<Longrightarrow> sys_inv n s0 \<Longrightarrow> sys_inv n s"
  by (induction rule: reachable.induct) (auto intro: sys_step_inv)

text \<open>The initial state: \<open>benchmp\<close> has forked \<open>k\<close> children, each set up by \<open>benchmp_child\<close> with
  its own array \<open>rs i\<close>, and enters \<open>benchmp_parent\<close>.\<close>

definition sys_init ::
  "bool \<Rightarrow> bool \<Rightarrow> int \<Rightarrow> u64 \<Rightarrow> int \<Rightarrow> int \<Rightarrow> nat \<Rightarrow> nat \<Rightarrow> result_t \<Rightarrow> (nat \<Rightarrow> result_t) \<Rightarrow> timing
     \<Rightarrow> sys option" where
  "sys_init ini cln enough iters warmup_us repetitions k addr mem rs tm =
     do { (ev, p) \<leftarrow> parent_enter k warmup_us addr False False (Some mem) tm;
          cs \<leftarrow> those (map (\<lambda>i. benchmp_child ini cln (int i) enough iters (int k) repetitions addr
                                 (Some (rs i)) tm) [0..<k]);
          Some \<lparr>sy_parent = p,
                sy_procs = map (\<lambda>(c, t). \<lparr>pr_c = c, pr_tm = t, pr_exiting = False, pr_todo = []\<rparr>) cs,
                sy_pipes = fold send ev \<lparr>pi_start = 0, pi_result = 0, pi_exit = 0, pi_resp = []\<rparr>\<rparr> }"

text \<open>The sizes \<open>benchmp_parent\<close> and \<open>benchmp_child\<close> pass to \<open>malloc\<close>; \<open>parallel * repetitions\<close> is an \<open>int\<close>.
  There are few enough measurements for the results of \<open>sizeof_result\<close> to fit into an \<open>int\<close>.\<close>

definition allocated :: "int \<Rightarrow> nat \<Rightarrow> result_t \<Rightarrow> (nat \<Rightarrow> result_t) \<Rightarrow> bool" where
  "allocated repetitions k mem rs =
     (repetitions < 2 ^ 27 \<and> int k * repetitions < 2 ^ 27
      \<and> length (res_v mem) = capacity_of_size (sizeof_result (wrap32 (int k * repetitions)))
      \<and> (\<forall>i < k. length (res_v (rs i)) = capacity_of_size (sizeof_result repetitions)))"

lemma those_map_Some: "those (map f xs) = Some ys \<longleftrightarrow> map f xs = map Some ys"
  by (induction xs arbitrary: ys) (auto split: option.splits simp: map_eq_Cons_conv Cons_eq_map_conv)

lemma benchmp_child_setup:
  "benchmp_child ini cln cid enough iters par repetitions addr r tm = Some (c, tm') \<Longrightarrow>
   cs_repetitions c = repetitions \<and> cs_r_size c = sizeof_result repetitions"
  by (auto simp: benchmp_child_def Let_def split: bind_splits)

lemma wrap32_small: "0 \<le> x \<Longrightarrow> x < 2 ^ 27 \<Longrightarrow> wrap32 x = x"
  by simp

lemma sys_init_inv:
  assumes "sys_init ini cln enough iters w n k addr mem rs tm = Some s0" "allocated n k mem rs"
    "1 \<le> n" "0 < k"
  shows "sys_inv n s0"
proof -
  let ?f = "\<lambda>i. benchmp_child ini cln (int i) enough iters (int k) n addr (Some (rs i)) tm"
  define p where "p = \<lparr>pp_pc = CollectReady 0, pp_merged = mem, pp_tm = tm\<rparr>"
  have "parent_enter k w addr False False (Some mem) tm = Some ([], p)"
    using assms(4) by (simp add: parent_enter_def collect_ready_def p_def)
  with assms(1) obtain cs where cs: "those (map ?f [0..<k]) = Some cs"
    and s0: "s0 = \<lparr>sy_parent = p,
        sy_procs = map (\<lambda>(c, t). \<lparr>pr_c = c, pr_tm = t, pr_exiting = False, pr_todo = []\<rparr>) cs,
        sy_pipes = \<lparr>pi_start = 0, pi_result = 0, pi_exit = 0, pi_resp = []\<rparr>\<rparr>"
    by (cases "those (map ?f [0..<k])") (simp_all add: sys_init_def)
  have cs': "map ?f [0..<k] = map Some cs" using cs by (simp add: those_map_Some)
  have len: "length cs = k" using arg_cong [OF cs', of length] by simp
  have child: "proc_ok n q \<and> at_stage n q Fresh" if "q \<in> set (sy_procs s0)" for q
  proof -
    obtain i c t where i: "i < k" "cs ! i = (c, t)" "q = \<lparr>pr_c = c, pr_tm = t, pr_exiting = False, pr_todo = []\<rparr>"
      using \<open>q \<in> _\<close> len by (auto simp: s0 in_set_conv_nth)
    have "?f i = Some (c, t)" using arg_cong [OF cs', of "\<lambda>l. l ! i"] i len by simp
    with benchmp_child_startD [OF _ _ this] benchmp_child_setup [OF this] assms(2) i show ?thesis
      by (simp add: proc_ok_def proc_in_def allocated_def)
  qed
  have cap: "n < 2 ^ 27" "int k * max 1 n \<le> int (length (res_v mem))"
  proof -
    have "0 \<le> int k * n" "int k * n < 2 ^ 27" using assms(2,3) by (simp_all add: allocated_def)
    then have "wrap32 (int k * n) = int k * n" by (rule wrap32_small)
    then have "length (res_v mem) = max TRIES (nat (int k * n))" using assms(2) by (simp add: allocated_def capacity_sizeof_result)
    then have "int k * n \<le> int (length (res_v mem))" by linarith
    then show "n < 2 ^ 27" "int k * max 1 n \<le> int (length (res_v mem))" using assms(2,3) by (simp_all add: allocated_def)
  qed
  have "proto_inv k n p (replicate k Fresh) (sy_pipes s0)"
    using cap assms(4) by (simp add: proto_inv_def inv_ready_def p_def s0)
  moreover have "list_all2 (at_stage n) (sy_procs s0) (replicate k Fresh)"
    using child len by (simp add: list_all2_conv_all_nth s0)
  ultimately show ?thesis
    using child len assms(4) by (auto simp: sys_inv_def s0)
qed

lemmas init_reachable_inv = reachable_inv [OF _ sys_init_inv]

text \<open>What a reachable state looks like, from the point of view of two of its children.\<close>

lemma reachable_stages:
  assumes "sys_init ini cln enough iters w n k addr mem rs tm = Some s0" "allocated n k mem rs"
    "1 \<le> n" "0 < k" "reachable w n addr s0 s"
  obtains ss where "list_all2 (at_stage n) (sy_procs s) ss"
    "proto_inv (length (sy_procs s)) n (sy_parent s) ss (sy_pipes s)"
    "\<forall>p \<in> set (sy_procs s). proc_ok n p \<and> (\<exists>t \<in> set ss. at_stage n p t)"
proof -
  have inv: "sys_inv n s" using init_reachable_inv assms by blast
  then obtain ss where ss: "list_all2 (at_stage n) (sy_procs s) ss"
    "proto_inv (length (sy_procs s)) n (sy_parent s) ss (sy_pipes s)" by (auto simp: sys_inv_def)
  moreover have "\<exists>t \<in> set ss. at_stage n p t" if "p \<in> set (sy_procs s)" for p
    using ss(1) that by (metis in_set_conv_nth list_all2_conv_all_nth)
  ultimately show thesis using that inv by (auto simp: sys_inv_def)
qed

lemmas inv_defs = inv_ready_def inv_done_def inv_results_def inv_collected_def

section \<open>Progress\<close>

text \<open>A measure of the work that is left: every move of a child and every byte the parent reads
  makes it smaller. With several children every call in the \<open>timing_interval\<close> phase counts as
  a repetition, so the measure bounds the measuring as well.\<close>

definition reps_left :: "int \<Rightarrow> proc \<Rightarrow> nat" where
  "reps_left n p = nat (max 1 n - cs_i (pr_c p))"

fun child_work :: "int \<Rightarrow> proc \<Rightarrow> stage \<Rightarrow> nat" where
  "child_work n p Fresh = res_bytes n + reps_left n p + 8"
| "child_work n p SendReady = res_bytes n + reps_left n p + 7"
| "child_work n p Waiting = res_bytes n + reps_left n p + 6"
| "child_work n p TakeStart = res_bytes n + reps_left n p + 5"
| "child_work n p Measuring = res_bytes n + reps_left n p + 4"
| "child_work n p SendDone = res_bytes n + 4"
| "child_work n p Cooling = res_bytes n + 3"
| "child_work n p (Asked r) = res_bytes n + 2"
| "child_work n p (Reporting r j) = (res_bytes n - j) + 1"
| "child_work n p (WaitExit r) = 1"
| "child_work n p (Gone r) = 0"

fun parent_work :: "nat \<Rightarrow> int \<Rightarrow> parent_pc \<Rightarrow> nat" where
  "parent_work k n (CollectReady i) = (k - i) + k + k * res_bytes n"
| "parent_work k n (CollectDone i) = (k - i) + k * res_bytes n"
| "parent_work k n (CollectResults i buf) = (k - i) * res_bytes n - length buf"
| "parent_work k n _ = 0"

definition sys_work :: "int \<Rightarrow> sys \<Rightarrow> stage list \<Rightarrow> nat" where
  "sys_work n s ss = parent_work (length (sy_procs s)) n (pp_pc (sy_parent s))
     + sum_list (map2 (child_work n) (sy_procs s) ss)"

lemma at_stage_todo: "at_stage n p t \<Longrightarrow> at_stage n p' t \<Longrightarrow> pr_todo p = pr_todo p'"
  by (cases t) (auto simp: proc_in_def proc_out_def)

lemma child_inv_reps_left:
  "child_inv (pr_c p) (pr_tm p) \<Longrightarrow> cs_repetitions (pr_c p) = n \<Longrightarrow> cs_state (pr_c p) \<noteq> cooldown \<Longrightarrow>
   0 < reps_left n p"
  by (simp add: child_inv_def reps_left_def)

lemma move_work:
  assumes "child_move n q t q' t'" "t \<noteq> t'" "at_stage n p t" "proc_ok n p" "reps_left n p' \<le> reps_left n p"
  shows "child_work n p' t' < child_work n p t"
  using assms child_inv_reps_left [of p n]
  by (cases rule: child_move.cases) (auto simp: proc_ok_def proc_in_def)

lemma benchmp_interval_i:
  "benchmp_interval e c tm = Some (ret, ev, c', tm') \<Longrightarrow> cs_i c \<le> cs_i c'"
  by (erule benchmp_interval_cases) (auto dest: interval_warmup_step(3) interval_timing_step(3))

text \<open>A child that waits for nothing can make a step that leaves less work.\<close>

lemma child_progress:
  assumes ok: "proc_ok n p" and st: "at_stage n p t" "\<not> waits_for t q" "1 < cs_parallel (pr_c p)"
    and q: "t = Fresh \<longrightarrow> pi_start q = 0" and s: "i < length (sy_procs s)" "p = sy_procs s ! i" "q = sy_pipes s"
  shows "\<exists>p' q' t'. sys_step w n addr s (s\<lparr>sy_procs := (sy_procs s)[i := p'], sy_pipes := q'\<rparr>)
           \<and> proc_ok n p' \<and> at_stage n p' t' \<and> child_move n q t q' t' \<and> cs_parallel (pr_c p') = cs_parallel (pr_c p)
           \<and> child_work n p' t' < child_work n p t"
proof (cases "pr_todo p")
  case (Cons a as)
  have "do_action a q \<noteq> None"
    using Cons st(1,2) by (cases t) (auto simp: proc_in_def proc_out_def res_puts_Cons)
  then obtain q' where q': "do_action a q = Some q'" by blast
  let ?p = "p\<lparr>pr_todo := as\<rparr>"
  obtain t' where t': "proc_ok n ?p" "at_stage n ?p t'" "child_move n q t q' t'"
    using act_is_move [OF ok st(1) Cons q'] by blast
  have "t \<noteq> t'" using at_stage_todo [of n p t ?p] st(1) t'(2) Cons by auto
  then have "child_work n ?p t' < child_work n p t"
    using move_work [OF t'(3) _ st(1) ok, of ?p] by (simp add: reps_left_def)
  with sys_step.child_act [OF s(1,2) Cons q' [unfolded s(3)]] t' show ?thesis by fastforce
next
  case Nil
  have ex: "\<not> pr_exiting p" using Nil st(1,2) by (cases t) (auto simp: proc_in_def proc_out_def)
  define e where "e = \<lparr>start_ready = (0 < pi_start q), result_ready = (0 < pi_result q), ppid_is_1 = False,
                       t_ovh = 0, l_ovh = Fin 0, sigchld_dfl = True\<rparr>"
  have env: "start_ready e = (0 < pi_start q)" "result_ready e = (0 < pi_result q)" "\<not> ppid_is_1 e"
    by (simp_all add: e_def)
  have inv: "child_inv (pr_c p) (pr_tm p)" using ok by (simp add: proc_ok_def)
  obtain ret ev c' tm' where call: "benchmp_interval e (pr_c p) (pr_tm p) = Some (ret, ev, c', tm')"
    using benchmp_interval_total [OF inv] by blast
  let ?p = "\<lparr>pr_c = c', pr_tm = tm', pr_exiting = (ret = Exited), pr_todo = actions ev\<rparr>"
  obtain t' where t': "proc_ok n ?p" "at_stage n ?p t'" "child_move n q t q t'"
    "t' \<noteq> t \<or> t = Measuring \<and> cs_i (pr_c p) < cs_i c'"
    using call_is_move [OF ok st(1) ex Nil env q call refl] st(2,3) by blast
  have "reps_left n ?p \<le> reps_left n p" using benchmp_interval_i [OF call] by (simp add: reps_left_def)
  moreover have "child_work n ?p t' < child_work n p t" if "t' = t"
  proof -
    have "0 < reps_left n p"
      using child_inv_reps_left [OF inv] ok st(1) t'(4) that by (simp add: proc_ok_def proc_in_def)
    with t'(4) that show ?thesis by (auto simp: reps_left_def)
  qed
  ultimately have "child_work n ?p t' < child_work n p t" using move_work [OF t'(3) _ st(1) ok] by metis
  moreover have "cs_parallel c' = cs_parallel (pr_c p)"
    using benchmp_interval_inv [OF inv call] by (simp add: same_setup_def)
  moreover have "sys_step w n addr s (s\<lparr>sy_procs := (sy_procs s)[i := ?p], sy_pipes := q\<rparr>)"
    using sys_step.child_call [OF s(1,2) ex Nil env [unfolded s(3)] call] by (simp add: s(3))
  ultimately show ?thesis using t' by fastforce
qed

lemma parent_step_work:
  assumes "parent_step k w n addr e p = Some (ev, p')" "pe_readable e" "pe_read e = Some [b]"
    "\<not> pe_sigchld e" "\<not> pe_sigterm e" "\<not> pe_fd_error e" "proto_inv k n p ss q" "pp_pc p \<noteq> Collected"
  shows "parent_work k n (pp_pc p') < parent_work k n (pp_pc p)"
proof (cases "pp_pc p")
  case (CollectReady i)
  with assms show ?thesis
    by (auto simp: parent_step_def collect_ready_def collect_done_def collect_results_def proto_inv_def
        inv_ready_def split: if_splits bind_splits)
next
  case (CollectDone i)
  with assms show ?thesis
    by (auto simp: parent_step_def collect_done_def collect_results_def proto_inv_def inv_done_def
        split: if_splits bind_splits)
next
  case (CollectResults i buf)
  with assms have i: "i < k" "length buf < res_bytes n" by (simp_all add: proto_inv_def inv_results_def)
  then have split: "(k - i) * res_bytes n = res_bytes n + (k - Suc i) * res_bytes n"
    by (metis Suc_diff_Suc mult_Suc)
  from CollectResults assms i split show ?thesis
    by (auto simp: parent_step_def collect_results_def Let_def split: if_splits bind_splits; linarith)
qed (use assms in \<open>auto simp: proto_inv_def\<close>)

text \<open>The states of a run with several children.\<close>

definition sys_at :: "int \<Rightarrow> sys \<Rightarrow> stage list \<Rightarrow> bool" where
  "sys_at n s ss = (sy_procs s \<noteq> [] \<and> (\<forall>p \<in> set (sy_procs s). proc_ok n p \<and> 1 < cs_parallel (pr_c p))
     \<and> list_all2 (at_stage n) (sy_procs s) ss
     \<and> proto_inv (length (sy_procs s)) n (sy_parent s) ss (sy_pipes s))"

lemma child_step_progress:
  assumes at: "sys_at n s ss" and t: "t \<in> set ss" "\<not> waits_for t (sy_pipes s)"
  shows "\<exists>s' ss'. sys_step w n addr s s' \<and> sys_at n s' ss' \<and> sys_work n s' ss' < sys_work n s ss"
proof -
  let ?ps = "sy_procs s"
  obtain i where i: "i < length ss" "ss ! i = t" using t(1) by (auto simp: in_set_conv_nth)
  have len: "length ?ps = length ss" and st: "at_stage n (?ps ! i) t"
    using at i by (auto simp: sys_at_def list_all2_conv_all_nth)
  then have p: "proc_ok n (?ps ! i)" "1 < cs_parallel (pr_c (?ps ! i))" "i < length ?ps"
    using at i(1) by (auto simp: sys_at_def)
  have "t = Fresh \<longrightarrow> pi_start (sy_pipes s) = 0"
    using at t(1) proto_fresh by (auto simp: sys_at_def)
  from child_progress [OF p(1) st t(2) p(2) this p(3) refl refl, of w addr] obtain p' q' t' where
    step: "sys_step w n addr s (s\<lparr>sy_procs := ?ps[i := p'], sy_pipes := q'\<rparr>)"
    and p': "proc_ok n p'" "at_stage n p' t'" "child_move n (sy_pipes s) t q' t'"
      "cs_parallel (pr_c p') = cs_parallel (pr_c (?ps ! i))" "child_work n p' t' < child_work n (?ps ! i) t"
    by blast
  let ?s = "s\<lparr>sy_procs := ?ps[i := p'], sy_pipes := q'\<rparr>"
  have "proto_inv (length ?ps) n (sy_parent s) (ss[i := t']) q'"
    using at i p'(3) by (intro move_inv) (auto simp: sys_at_def)
  moreover have "\<forall>x \<in> set (?ps[i := p']). proc_ok n x \<and> 1 < cs_parallel (pr_c x)"
    using at p'(1,4) p(2) set_update_subset_insert [of ?ps i p'] by (auto simp: sys_at_def)
  moreover have "list_all2 (at_stage n) (?ps[i := p']) (ss[i := t'])"
    using at p'(2) by (auto simp: sys_at_def intro: list_all2_update_cong)
  ultimately have "sys_at n ?s (ss[i := t'])" using at by (simp add: sys_at_def)
  moreover have "sys_work n ?s (ss[i := t']) < sys_work n s ss"
  proof -
    let ?ws = "map2 (child_work n) ?ps ss"
    have "map2 (child_work n) (?ps[i := p']) (ss[i := t']) = ?ws[i := child_work n p' t']"
      by (simp add: zip_update map_update)
    moreover have "?ws ! i = child_work n (?ps ! i) t" "i < length ?ws" using i len by simp_all
    moreover have "?ws ! i \<le> sum_list ?ws"
      using \<open>i < length ?ws\<close> by (intro elem_le_sum_list)
    ultimately show ?thesis using p'(5) by (simp add: sys_work_def sum_list_update)
  qed
  ultimately show ?thesis using step by blast
qed

lemma parent_step_progress:
  assumes at: "sys_at n s ss" and "pi_resp (sy_pipes s) \<noteq> []" "pp_pc (sy_parent s) \<noteq> Collected"
  shows "\<exists>s' ss'. sys_step w n addr s s' \<and> sys_at n s' ss' \<and> sys_work n s' ss' < sys_work n s ss"
proof -
  let ?k = "length (sy_procs s)" and ?q = "sy_pipes s" and ?p = "sy_parent s"
  obtain b bs where b: "pi_resp ?q = b # bs" using assms(2) by (cases "pi_resp ?q") auto
  define e where "e = \<lparr>pe_sigchld = False, pe_sigterm = False, pe_fd_error = False, pe_readable = True,
                       pe_read = Some [b]\<rparr>"
  have inv: "proto_inv ?k n ?p ss ?q" "0 < ?k" using at by (auto simp: sys_at_def)
  have "0 < parent_wants ?k n (pp_pc ?p)"
    using inv(1) assms(3) by (auto simp: proto_inv_def inv_defs split: parent_pc.splits)
  then have env: "\<not> pe_sigchld e" "\<not> pe_sigterm e" "\<not> pe_fd_error e"
    "pe_readable e \<longrightarrow> 0 < (1::nat) \<and> 1 \<le> length (pi_resp ?q) \<and> 1 \<le> parent_wants ?k n (pp_pc ?p)"
    "pe_read e = Some (take 1 (pi_resp ?q))"
    by (simp_all add: e_def b)
  obtain ev p' where st: "parent_step ?k w n addr e ?p = Some (ev, p')"
    "proto_inv ?k n p' ss (fold send ev (?q\<lparr>pi_resp := drop 1 (pi_resp ?q)\<rparr>))"
    using parent_inv [OF inv _ env(2-5), of w addr] env(1) by (auto simp: e_def)
  let ?s = "s\<lparr>sy_parent := p', sy_pipes := fold send ev (?q\<lparr>pi_resp := drop 1 (pi_resp ?q)\<rparr>)\<rparr>"
  have "sys_step w n addr s ?s"
    using sys_step.parent [OF _ env(2-5) st(1)] env(1) by (simp add: e_def)
  moreover have "sys_at n ?s ss" using at st(2) by (simp add: sys_at_def)
  moreover have "sys_work n ?s ss < sys_work n s ss"
    using parent_step_work [OF st(1) _ _ env(1-3) inv(1) assms(3), of b] by (simp add: sys_work_def e_def)
  ultimately show ?thesis by blast
qed

lemma sys_progress:
  assumes at: "sys_at n s ss" and pc: "pp_pc (sy_parent s) \<noteq> Collected"
  shows "\<exists>s' ss'. sys_step w n addr s s' \<and> sys_at n s' ss' \<and> sys_work n s' ss' < sys_work n s ss"
proof (cases "pi_resp (sy_pipes s) = []")
  case False
  with at pc show ?thesis by (intro parent_step_progress)
next
  case True
  let ?k = "length (sy_procs s)" and ?q = "sy_pipes s" and ?p = "sy_parent s"
  have inv: "proto_inv ?k n ?p ss ?q" and len: "length ss = ?k"
    using at by (auto simp: sys_at_def proto_inv_def)
  have "\<exists>t \<in> set ss. \<not> waits_for t ?q"
  proof (cases "pp_pc ?p")
    case (CollectReady i)
    with inv True have "i + cnt unready ss = ?k" "i < ?k" by (simp_all add: proto_inv_def inv_ready_def)
    then have "0 < cnt unready ss" by linarith
    then obtain t where "t \<in> set ss" "unready t" by (auto simp: filter_empty_conv)
    then show ?thesis by (auto elim!: unready.elims intro!: bexI [of _ t])
  next
    case (CollectDone i)
    with inv True have d: "i + cnt (\<lambda>s. s \<noteq> Cooling) ss = ?k" "i < ?k"
      "pi_start ?q = cnt unstarted ss" "\<forall>t \<in> set ss. in_measurement t"
      by (simp_all add: proto_inv_def inv_done_def)
    then have "0 < cnt (\<lambda>s. s \<noteq> Cooling) ss" by linarith
    with d(3,4) obtain t where t: "t \<in> set ss" "t \<noteq> Cooling" "in_measurement t" "unstarted t \<longrightarrow> 0 < pi_start ?q"
      using cnt_pos [of _ ss unstarted] by (metis (mono_tags, lifting) cnt_0 not_gr0)
    then have "\<not> waits_for t ?q" using t(2-4) by (auto elim!: in_measurement.elims)
    with t(1) show ?thesis ..
  next
    case (CollectResults i buf)
    with inv have r: "inv_results ?k n i buf (pp_merged ?p) ss ?q" by (simp add: proto_inv_def)
    then consider (one) "pi_result ?q = 1" "filter is_reporting ss = []" "cnt is_waitexit ss = i"
      | (two) r j where "filter is_reporting ss = [Reporting r j]"
      using True by (auto simp: inv_results_def)
    then show ?thesis
    proof cases
      case one
      have "cnt is_waitexit ss \<noteq> length ss" using r one(3) len by (simp add: inv_results_def)
      then obtain t where t: "t \<in> set ss" "\<not> is_waitexit t" "\<not> is_reporting t" "in_report n t"
        using r one(2) unfolding cnt_all by (auto simp: inv_results_def filter_empty_conv)
      then have "\<not> waits_for t ?q" using one(1) by (auto elim!: in_report.elims)
      with t(1) show ?thesis ..
    next
      case two
      then have "Reporting r j \<in> set (filter is_reporting ss)" by simp
      then have "Reporting r j \<in> set ss" by simp
      then show ?thesis by (auto intro!: bexI [of _ "Reporting r j"])
    qed
  qed (use inv pc in \<open>auto simp: proto_inv_def\<close>)
  with at show ?thesis using child_step_progress by blast
qed

lemma can_collect:
  assumes "sys_at n s ss"
  shows "\<exists>s' ss'. reachable w n addr s s' \<and> sys_at n s' ss' \<and> pp_pc (sy_parent s') = Collected"
  using assms
proof (induction "sys_work n s ss" arbitrary: s ss rule: less_induct)
  case less
  show ?case
  proof (cases "pp_pc (sy_parent s) = Collected")
    case True
    with less.prems show ?thesis by (blast intro: reachable.start_state)
  next
    case False
    obtain s1 ss1 where s1: "sys_step w n addr s s1" "sys_at n s1 ss1" "sys_work n s1 ss1 < sys_work n s ss"
      using sys_progress [OF less.prems False] by blast
    from less.hyps [OF s1(3,2)] obtain s' ss' where s': "reachable w n addr s1 s'" "sys_at n s' ss'"
      "pp_pc (sy_parent s') = Collected" by blast
    from s'(1) have "reachable w n addr s s'"
      by (induction rule: reachable.induct) (use s1(1) in \<open>auto intro: reachable.intros\<close>)
    with s' show ?thesis by blast
  qed
qed

lemma sys_step_parallel:
  "sys_step w n addr s s' \<Longrightarrow> sys_inv n s \<Longrightarrow> \<forall>p \<in> set (sy_procs s). cs_parallel (pr_c p) = x \<Longrightarrow>
   \<forall>p \<in> set (sy_procs s'). cs_parallel (pr_c p) = x"
proof (induction rule: sys_step.induct)
  case (child_call i s p e ret ev c' tm')
  then have "child_inv (pr_c p) (pr_tm p)" by (simp add: sys_inv_def proc_ok_def)
  from benchmp_interval_inv [OF this child_call(8)] child_call
  have "cs_parallel c' = x" by (simp add: same_setup_def)
  then show ?case using ball_update [OF child_call.prems(2), of "\<lparr>pr_c = c', pr_tm = tm', pr_exiting = (ret = Exited), pr_todo = actions ev\<rparr>" i]
    by simp
next
  case (child_act i s p a as q)
  then have "cs_parallel (pr_c (p\<lparr>pr_todo := as\<rparr>)) = x" by simp
  then show ?case using ball_update [OF child_act.prems(2), of "p\<lparr>pr_todo := as\<rparr>" i] by simp
qed simp

lemma reachable_parallel:
  "reachable w n addr s0 s \<Longrightarrow> sys_inv n s0 \<Longrightarrow> \<forall>p \<in> set (sy_procs s0). cs_parallel (pr_c p) = x \<Longrightarrow>
   \<forall>p \<in> set (sy_procs s). cs_parallel (pr_c p) = x"
proof (induction rule: reachable.induct)
  case (next_state s s')
  then show ?case using sys_step_parallel reachable_inv by blast
qed

lemma benchmp_child_parallel:
  "benchmp_child ini cln cid enough iters par repetitions addr r tm = Some (c, tm') \<Longrightarrow> cs_parallel c = par"
  by (auto simp: benchmp_child_def Let_def split: bind_splits)

lemma sys_init_parallel:
  assumes "sys_init ini cln enough iters w n k addr mem rs tm = Some s0"
  shows "\<forall>p \<in> set (sy_procs s0). cs_parallel (pr_c p) = int k"
proof -
  let ?f = "\<lambda>i. benchmp_child ini cln (int i) enough iters (int k) n addr (Some (rs i)) tm"
  obtain cs where cs: "those (map ?f [0..<k]) = Some cs"
    and s0: "sy_procs s0 = map (\<lambda>(c, t). \<lparr>pr_c = c, pr_tm = t, pr_exiting = False, pr_todo = []\<rparr>) cs"
    using assms by (cases "parent_enter k w addr False False (Some mem) tm"; cases "those (map ?f [0..<k])")
      (auto simp: sys_init_def)
  have "cs_parallel c = int k" if "(c, t) \<in> set cs" for c t
  proof -
    have "Some (c, t) \<in> set (map ?f [0..<k])" using that cs by (auto simp: those_map_Some)
    then obtain i where "?f i = Some (c, t)" by auto
    then show ?thesis by (rule benchmp_child_parallel)
  qed
  with s0 show ?thesis by auto
qed

lemma collect_reachable:
  assumes "sys_init ini cln enough iters w n k addr mem rs tm = Some s0" "allocated n k mem rs"
    "1 \<le> n" "1 < k" "reachable w n addr s0 s"
  shows "\<exists>s'. reachable w n addr s s' \<and> pp_pc (sy_parent s') = Collected"
proof -
  have k: "0 < k" using assms(4) by simp
  note inv0 = sys_init_inv [OF assms(1-3) k]
  have "\<forall>p \<in> set (sy_procs s). cs_parallel (pr_c p) = int k"
    using reachable_parallel [OF assms(5) inv0 sys_init_parallel [OF assms(1)]] .
  moreover have "sys_inv n s" using reachable_inv [OF assms(5) inv0] .
  ultimately obtain ss where "sys_at n s ss" using assms(4) by (auto simp: sys_inv_def sys_at_def)
  from can_collect [OF this] show ?thesis by blast
qed

lemma sys_init_total:
  assumes "allocated n k mem rs" "0 < k"
  shows "\<exists>s0. sys_init ini cln enough iters w n k addr mem rs tm = Some s0"
proof -
  let ?f = "\<lambda>i. benchmp_child ini cln (int i) enough iters (int k) n addr (Some (rs i)) tm"
  have "\<forall>i \<in> set [0..<k]. ?f i \<noteq> None"
    using benchmp_child_inv assms(1) by (fastforce simp: allocated_def)
  then have "map ?f [0..<k] = map Some (map (\<lambda>i. the (?f i)) [0..<k])" by simp
  then have "those (map ?f [0..<k]) = Some (map (\<lambda>i. the (?f i)) [0..<k])"
    unfolding those_map_Some .
  with assms(2) show ?thesis
    by (simp add: sys_init_def parent_enter_def collect_ready_def)
qed

text \<open>An example: two children with one repetition each, on a clock that stands still.\<close>

definition example_sys :: sys where
  "example_sys = the (sys_init True True 10000 1 0 1 2 2 fresh_result (\<lambda>_. fresh_result)
                        (timing_init (\<lambda>k. tv_zero)))"

lemma example_allocated: "allocated 1 2 fresh_result (\<lambda>_. fresh_result)"
  by (simp add: allocated_def capacity_sizeof_result fresh_result_def TRIES_def)

lemma example_sys_init:
  "sys_init True True 10000 1 0 1 2 2 fresh_result (\<lambda>_. fresh_result) (timing_init (\<lambda>k. tv_zero))
     = Some example_sys"
  unfolding example_sys_def using sys_init_total [OF example_allocated] by (metis option.sel zero_less_numeral)

lemma example_run:
  obtains s p where "reachable 0 1 2 example_sys s" "pp_pc (sy_parent s) = Collected"
    "p \<in> set (sy_procs s)" "pr_exiting p" "cs_state (pr_c p) \<noteq> warmup"
proof -
  obtain s where s: "reachable 0 1 2 example_sys s" "pp_pc (sy_parent s) = Collected"
    using collect_reachable [OF example_sys_init example_allocated _ _ reachable.start_state] by auto
  have "sys_inv 1 s"
    using init_reachable_inv [OF s(1) example_sys_init example_allocated] by simp
  then obtain ss where ss: "list_all2 (at_stage 1) (sy_procs s) ss" "sy_procs s \<noteq> []"
    "proto_inv (length (sy_procs s)) 1 (sy_parent s) ss (sy_pipes s)" by (auto simp: sys_inv_def)
  then obtain p ps t ts where p: "sy_procs s = p # ps" "ss = t # ts" "at_stage 1 p t"
    by (cases "sy_procs s"; cases ss) auto
  have "is_waitexit t \<or> is_gone t" using ss(3) s(2) p(2) by (auto simp: proto_inv_def inv_collected_def)
  with p(3) have "pr_exiting p" "cs_state (pr_c p) \<noteq> warmup"
    by (auto simp: proc_out_def elim!: is_waitexit.elims is_gone.elims)
  with s p(1) show thesis by (intro that [of s p]) simp_all
qed

lemmas example_hyps = example_sys_init example_allocated

section \<open>Properties\<close>

text \<open>C2. The start barrier: a child that has left its warm-up, and so measures or has
  measured, can only exist when every child is warmed up and has announced it. No child is
  measured while another one is still setting up.\<close>

theorem start_barrier:
  assumes "sys_init ini cln enough iters w n k addr mem rs tm = Some s0" "allocated n k mem rs"
    "1 \<le> n" "0 < k" "reachable w n addr s0 s"
    "p \<in> set (sy_procs s)" "cs_state (pr_c p) \<noteq> warmup" "p' \<in> set (sy_procs s)"
  shows "\<not> cs_need_warmup (pr_c p') \<and> Put ReadyByte \<notin> set (pr_todo p')"
proof (rule reachable_stages [OF assms(1-5)])
  fix ss assume ss: "proto_inv (length (sy_procs s)) n (sy_parent s) ss (sy_pipes s)"
    "\<forall>p \<in> set (sy_procs s). proc_ok n p \<and> (\<exists>t \<in> set ss. at_stage n p t)"
  obtain t t' where t: "t \<in> set ss" "at_stage n p t" "t' \<in> set ss" "at_stage n p' t'"
    using ss(2) assms(6,8) by blast
  have "\<not> in_warmup t" using t(2) assms(7) by (cases t) (auto simp: proc_in_def proc_out_def)
  with ss(1) t(1,3) have "\<not> unready t'"
    by (auto simp: proto_inv_def inv_defs split: parent_pc.splits elim!: unready.elims)
  moreover have "child_inv (pr_c p') (pr_tm p')" using ss(2) assms(8) by (simp add: proc_ok_def)
  ultimately show ?thesis
    using t(4) by (cases t') (auto simp: proc_in_def proc_out_def child_inv_def res_puts_def)
qed

theorem start_barrier_witness:
  "\<exists>s p. reachable 0 1 2 example_sys s \<and> p \<in> set (sy_procs s) \<and> cs_state (pr_c p) \<noteq> warmup
     \<and> \<not> cs_need_warmup (pr_c p) \<and> Put ReadyByte \<notin> set (pr_todo p)"
proof -
  obtain s p where s: "reachable 0 1 2 example_sys s" "p \<in> set (sy_procs s)" "cs_state (pr_c p) \<noteq> warmup"
    using example_run by metis
  from start_barrier [OF example_hyps _ _ s s(2)] s show ?thesis by auto
qed

text \<open>C3. Results are collected only when all measuring is over: when a child is told to
  report, every child is in its cool-down and has announced it, so reporting never disturbs
  a measurement.\<close>

theorem report_after_all_done:
  assumes "sys_init ini cln enough iters w n k addr mem rs tm = Some s0" "allocated n k mem rs"
    "1 \<le> n" "0 < k" "reachable w n addr s0 s"
    "p \<in> set (sy_procs s)" "pr_exiting p" "p' \<in> set (sy_procs s)"
  shows "cs_state (pr_c p') = cooldown \<and> Put DoneByte \<notin> set (pr_todo p')"
proof (rule reachable_stages [OF assms(1-5)])
  fix ss assume ss: "proto_inv (length (sy_procs s)) n (sy_parent s) ss (sy_pipes s)"
    "\<forall>p \<in> set (sy_procs s). proc_ok n p \<and> (\<exists>t \<in> set ss. at_stage n p t)"
  obtain t t' where t: "t \<in> set ss" "at_stage n p t" "t' \<in> set ss" "at_stage n p' t'"
    using ss(2) assms(6,8) by blast
  have "\<not> in_warmup t" "\<not> in_measurement t"
    using t(2) assms(7) by (cases t; auto simp: proc_in_def proc_out_def)+
  with ss(1) t(1,3) have "t' = Cooling \<or> in_report n t' \<or> is_waitexit t' \<or> is_gone t'"
    by (auto simp: proto_inv_def inv_defs split: parent_pc.splits)
  then show ?thesis
    using t(4) by (cases t') (auto simp: proc_in_def proc_out_def res_puts_def)
qed

theorem report_after_all_done_witness:
  "\<exists>s p. reachable 0 1 2 example_sys s \<and> p \<in> set (sy_procs s) \<and> pr_exiting p
     \<and> cs_state (pr_c p) = cooldown \<and> Put DoneByte \<notin> set (pr_todo p)"
proof -
  obtain s p where s: "reachable 0 1 2 example_sys s" "p \<in> set (sy_procs s)" "pr_exiting p"
    using example_run by metis
  from report_after_all_done [OF example_hyps _ _ s s(2)] s show ?thesis by auto
qed

text \<open>C1. The result of a parallel run is exact: when the parent has collected everything, its
  current result array is sorted and holds the measurements of all children, each exactly
  once. No report was torn, mixed with another or lost, however the bytes were interleaved.\<close>

theorem merged_is_union:
  assumes "sys_init ini cln enough iters w n k addr mem rs tm = Some s0" "allocated n k mem rs"
    "1 \<le> n" "0 < k" "reachable w n addr s0 s" "pp_pc (sy_parent s) = Collected"
  shows "res_inv (cur_results (pp_tm (sy_parent s)))
         \<and> mset (res_list (cur_results (pp_tm (sy_parent s))))
             = sum_list (map (\<lambda>p. mset (res_list (cur_results (pr_tm p)))) (sy_procs s))"
proof (rule reachable_stages [OF assms(1-5)])
  fix ss assume ss: "list_all2 (at_stage n) (sy_procs s) ss"
    "proto_inv (length (sy_procs s)) n (sy_parent s) ss (sy_pipes s)"
  have "\<forall>t \<in> set ss. is_waitexit t \<or> is_gone t" using ss(2) assms(6) by (simp add: proto_inv_def inv_defs)
  with ss(1) have "reported_all ss
      = sum_list (map (\<lambda>p. mset (res_list (cur_results (pr_tm p)))) (sy_procs s))"
    by (induction rule: list_all2_induct)
       (auto simp: reported_all_def proc_out_def elim!: is_waitexit.elims is_gone.elims)
  then show ?thesis using ss(2) assms(6) by (simp add: proto_inv_def inv_defs merged_ok_def)
qed

theorem merged_is_union_witness:
  "\<exists>s. reachable 0 1 2 example_sys s \<and> mset (res_list (cur_results (pp_tm (sy_parent s))))
     = sum_list (map (\<lambda>p. mset (res_list (cur_results (pr_tm p)))) (sy_procs s))"
proof -
  obtain s where s: "reachable 0 1 2 example_sys s" "pp_pc (sy_parent s) = Collected"
    using example_run by metis
  from merged_is_union [OF example_hyps _ _ s] s(1) show ?thesis by auto
qed

text \<open>C4. The system is safe, as long as no signal comes and no read fails (the steps of \<open>sys_step\<close> have
  neither): the parent never takes its error exit, no call of \<open>benchmp_interval\<close> by a child faults, a child that reads
  its start byte never blocks, and a child that reads its exit byte does not block once the parent has collected
  (before that it waits there for the children whose results are still to come).\<close>

theorem system_safe:
  assumes "sys_init ini cln enough iters w n k addr mem rs tm = Some s0" "allocated n k mem rs"
    "1 \<le> n" "0 < k" "reachable w n addr s0 s" "p \<in> set (sy_procs s)"
  shows "pp_pc (sy_parent s) \<noteq> Failed \<and> benchmp_interval e (pr_c p) (pr_tm p) \<noteq> None
         \<and> (pr_todo p = GetStart # as \<longrightarrow> do_action GetStart (sy_pipes s) \<noteq> None)
         \<and> (pr_todo p = GetExit # as \<and> pp_pc (sy_parent s) = Collected \<longrightarrow> do_action GetExit (sy_pipes s) \<noteq> None)"
proof (rule reachable_stages [OF assms(1-5)])
  fix ss assume ss: "list_all2 (at_stage n) (sy_procs s) ss"
    "proto_inv (length (sy_procs s)) n (sy_parent s) ss (sy_pipes s)"
    "\<forall>p \<in> set (sy_procs s). proc_ok n p \<and> (\<exists>t \<in> set ss. at_stage n p t)"
  obtain t where t: "t \<in> set ss" "at_stage n p t" using ss(3) assms(6) by blast
  have "t = TakeStart" if "pr_todo p = GetStart # as"
    using t(2) that by (cases t) (auto simp: proc_in_def proc_out_def res_puts_Cons)
  moreover have "0 < pi_start (sy_pipes s)" if "t = TakeStart"
    using ss(2) t(1) that cnt_pos [of t ss unstarted]
    by (auto simp: proto_inv_def inv_defs split: parent_pc.splits)
  moreover have "is_waitexit t" if "pr_todo p = GetExit # as"
    using t(2) that by (cases t) (auto simp: proc_in_def proc_out_def res_puts_Cons)
  moreover have "0 < pi_exit (sy_pipes s)" if "is_waitexit t" "pp_pc (sy_parent s) = Collected"
    using ss(2) t(1) that by (auto simp: proto_inv_def inv_defs filter_empty_conv)
  moreover have "pp_pc (sy_parent s) \<noteq> Failed" using ss(2) by (auto simp: proto_inv_def)
  moreover have "benchmp_interval e (pr_c p) (pr_tm p) \<noteq> None"
    using ss(3) assms(6) benchmp_interval_total [of "pr_c p" "pr_tm p" e] by (auto simp: proc_ok_def)
  ultimately show ?thesis by auto
qed

theorem system_safe_witness:
  "\<exists>s p. reachable 0 1 2 example_sys s \<and> p \<in> set (sy_procs s) \<and> pp_pc (sy_parent s) \<noteq> Failed
     \<and> benchmp_interval env_idle (pr_c p) (pr_tm p) \<noteq> None"
proof -
  obtain s p where s: "reachable 0 1 2 example_sys s" "p \<in> set (sy_procs s)"
    using example_run by metis
  have "(1::int) \<le> 1" "(0::nat) < 2" by simp_all
  from system_safe [OF example_hyps this s, of env_idle] s show ?thesis by blast
qed

text \<open>C5. A parallel run cannot get stuck: from every state it may ever reach, some continuation
  takes the parent to the end of the collection. No interleaving leads to a deadlock or to a
  state that can only loop.\<close>

theorem run_can_finish:
  assumes "sys_init ini cln enough iters w n k addr mem rs tm = Some s0" "allocated n k mem rs"
    "1 \<le> n" "1 < k" "reachable w n addr s0 s"
  shows "\<exists>s'. reachable w n addr s s' \<and> pp_pc (sy_parent s') = Collected"
  using assms by (rule collect_reachable)

theorem run_can_finish_witness:
  "\<exists>s'. reachable 0 1 2 example_sys s' \<and> pp_pc (sy_parent s') = Collected"
  using run_can_finish [OF example_hyps _ _ reachable.start_state] by simp

end
