(* ===== verification/Overhead.thy ===== *)
theory Overhead
  imports Timing
begin

text \<open>
  The calibration of the timing harness. From \<open>src/bench.h\<close>: the macros \<open>BENCH_INNER\<close>, \<open>BENCH1\<close>,
  \<open>BENCH\<close> and \<open>BENCHO\<close>. From \<open>src/lib_timing.c\<close>: \<open>t_overhead\<close>, \<open>l_overhead\<close>, \<open>get_enough\<close>,
  \<open>init_timing\<close>, \<open>enough_duration\<close>, \<open>duration\<close>, \<open>time_N\<close>, \<open>find_N\<close>, \<open>test_time\<close> and \<open>compute_enough\<close>.
  A loop body is its effect on the timing state (it may read the clock, as the body
  \<open>gettimeofday\<close> of \<open>t_overhead\<close> does). \<open>BENCH_INNER\<close> loops until an interval is long enough, so
  it is a partial function: \<open>None\<close> when it never ends.
\<close>

section \<open>BENCH_INNER\<close>

definition dlit :: "real \<Rightarrow> dbl" where
  "dlit x = to_dbl x"

abbreviation frac_of :: "real \<Rightarrow> int \<Rightarrow> dbl" where
  "frac_of q enough \<equiv> d_mul (dlit q) (d_of_int enough)"

text \<open>\<open>tmp = iterations / result; tmp *= 1.1 * enough; (iter_t)(tmp + 1)\<close>\<close>

definition scale_iterations :: "int \<Rightarrow> dbl \<Rightarrow> u64 \<Rightarrow> u64" where
  "scale_iterations enough result iters =
     u64_of_dbl (d_add (d_mul (d_div (d_of_u64 iters) result) (frac_of (11 / 10) enough)) (Fin 1))"

definition timed_pass :: "(u64 \<Rightarrow> timing \<Rightarrow> timing) \<Rightarrow> u64 \<Rightarrow> timing \<Rightarrow> u64 \<times> timing" where
  "timed_pass body iters tm = stop (body iters (start tm))"

text \<open>The arguments are the loop variables: \<open>__result\<close> and the static \<open>__iterations\<close>.\<close>

partial_function (option) bench_inner ::
  "(u64 \<Rightarrow> timing \<Rightarrow> timing) \<Rightarrow> int \<Rightarrow> dbl \<Rightarrow> u64 \<Rightarrow> timing \<Rightarrow> (u64 \<times> timing) option" where
  "bench_inner body enough result iters tm =
     (if d_lt result (frac_of (95 / 100) enough) then
        if d_lt (d_of_u64 (fst (timed_pass body iters tm))) (frac_of (99 / 100) enough)
           \<or> d_gt (d_of_u64 (fst (timed_pass body iters tm))) (frac_of (12 / 10) enough)
        then
          if d_gt (d_of_u64 (fst (timed_pass body iters tm))) (Fin 150) then
            bench_inner body enough (d_of_u64 (fst (timed_pass body iters tm)))
              (scale_iterations enough (d_of_u64 (fst (timed_pass body iters tm))) iters)
              (snd (timed_pass body iters tm))
          else if 2 ^ 27 < iters then Some (iters, settime 0 (save_n iters (snd (timed_pass body iters tm))))
          else bench_inner body enough (d_of_u64 (fst (timed_pass body iters tm))) (push_bit 3 iters)
                 (snd (timed_pass body iters tm))
        else bench_inner body enough (d_of_u64 (fst (timed_pass body iters tm))) iters
               (snd (timed_pass body iters tm))
      else Some (iters, settime (u64_of_dbl result) (save_n iters tm)))"

section \<open>BENCH1, BENCH and BENCHO\<close>

text \<open>The two overheads are arguments here; \<open>it\<close> is the static count of the macro's site.\<close>

definition bench1 ::
  "u64 \<Rightarrow> dbl \<Rightarrow> (u64 \<Rightarrow> timing \<Rightarrow> timing) \<Rightarrow> int \<Rightarrow> u64 \<Rightarrow> timing \<Rightarrow> (u64 \<times> timing) option" where
  "bench1 t_ov l_ov body enough it tm =
     do { (it, tm) \<leftarrow> bench_inner body enough (Fin 0) it tm;
          let usecs = d_sub (d_of_u64 (gettime tm))
                        (d_add (d_of_u64 t_ov) (d_mul (d_of_u64 (get_n tm)) l_ov));
          Some (it, settime (if d_ge usecs (Fin 0) then u64_of_dbl usecs else 0) tm) }"

definition insert_positive :: "timing \<Rightarrow> result_t \<Rightarrow> result_t option" where
  "insert_positive tm r = (if 0 < gettime tm then insertsort (gettime tm) (get_n tm) r else Some r)"

definition LONGER :: int where "LONGER = 7500000"

text \<open>The number of tries, and the body run once before to warm the cache.\<close>

definition bench_tries :: "int \<Rightarrow> int \<Rightarrow> nat" where
  "bench_tries enough long_enough = (if enough = 0 \<or> max long_enough enough \<le> 100000 then TRIES else 1)"

definition warm_cache :: "(u64 \<Rightarrow> timing \<Rightarrow> timing) \<Rightarrow> int \<Rightarrow> timing \<Rightarrow> timing" where
  "warm_cache body enough tm = (if enough < LONGER then body 1 tm else tm)"

fun bench_loop ::
  "u64 \<Rightarrow> dbl \<Rightarrow> (u64 \<Rightarrow> timing \<Rightarrow> timing) \<Rightarrow> int \<Rightarrow> nat \<Rightarrow> u64 \<Rightarrow> result_t \<Rightarrow> timing
     \<Rightarrow> (u64 \<times> result_t \<times> timing) option" where
  "bench_loop t_ov l_ov body enough 0 it r tm = Some (it, r, tm)"
| "bench_loop t_ov l_ov body enough (Suc tries) it r tm =
     do { (it, tm) \<leftarrow> bench1 t_ov l_ov body enough it tm;
          r \<leftarrow> insert_positive tm r;
          bench_loop t_ov l_ov body enough tries it r tm }"

definition store_results :: "result_t \<Rightarrow> timing \<Rightarrow> timing" where
  "store_results r tm = tm\<lparr>result_objs := (result_objs tm)(get_results tm := r)\<rparr>"

definition bench ::
  "u64 \<Rightarrow> dbl \<Rightarrow> int \<Rightarrow> (u64 \<Rightarrow> timing \<Rightarrow> timing) \<Rightarrow> int \<Rightarrow> u64 \<Rightarrow> result_t \<Rightarrow> timing \<Rightarrow> (u64 \<times> timing) option" where
  "bench t_ov l_ov long_enough body enough it r tm =
     do { (it, r, tm) \<leftarrow> bench_loop t_ov l_ov body (max long_enough enough) (bench_tries enough long_enough) it
                           (insertinit r) (warm_cache body enough tm);
          Some (it, store_results r tm) }"

text \<open>\<open>BENCHO\<close>: the overhead body and the loop body in turns, then the subtraction.\<close>

fun bencho_loop ::
  "u64 \<Rightarrow> dbl \<Rightarrow> (u64 \<Rightarrow> timing \<Rightarrow> timing) \<Rightarrow> (u64 \<Rightarrow> timing \<Rightarrow> timing) \<Rightarrow> int \<Rightarrow> nat \<Rightarrow> u64 \<Rightarrow> u64
     \<Rightarrow> result_t \<Rightarrow> result_t \<Rightarrow> timing \<Rightarrow> (result_t \<times> result_t \<times> timing) option" where
  "bencho_loop t_ov l_ov ovh body enough 0 ito itb ro r tm = Some (ro, r, tm)"
| "bencho_loop t_ov l_ov ovh body enough (Suc tries) ito itb ro r tm =
     do { (ito, tm) \<leftarrow> bench1 t_ov l_ov ovh enough ito tm;
          ro \<leftarrow> insert_positive tm ro;
          (itb, tm) \<leftarrow> bench1 t_ov l_ov body enough itb tm;
          r \<leftarrow> insert_positive tm r;
          bencho_loop t_ov l_ov ovh body enough tries ito itb ro r tm }"

definition subtract_overhead :: "value_t \<Rightarrow> value_t \<Rightarrow> value_t" where
  "subtract_overhead ov x =
     (let oh = d_div (d_of_u64 (val_u ov)) (d_of_u64 (val_n ov));
          part = u64_of_dbl (d_mul (d_of_u64 (val_n x)) oh)
      in if part < val_u x then x\<lparr>val_u := val_u x - part\<rparr> else x\<lparr>val_u := 0\<rparr>)"

fun subtract_from :: "result_t \<Rightarrow> nat \<Rightarrow> nat \<Rightarrow> result_t \<Rightarrow> result_t option" where
  "subtract_from ro i 0 r = Some r"
| "subtract_from ro i (Suc left) r =
     do { ov \<leftarrow> arr_get (res_v ro) i;
          x \<leftarrow> arr_get (res_v r) i;
          v \<leftarrow> arr_set (res_v r) i (subtract_overhead ov x);
          subtract_from ro (Suc i) left (r\<lparr>res_v := v\<rparr>) }"

definition bencho ::
  "u64 \<Rightarrow> dbl \<Rightarrow> int \<Rightarrow> (u64 \<Rightarrow> timing \<Rightarrow> timing) \<Rightarrow> (u64 \<Rightarrow> timing \<Rightarrow> timing) \<Rightarrow> int \<Rightarrow> u64 \<Rightarrow> u64
     \<Rightarrow> result_t \<Rightarrow> result_t \<Rightarrow> timing \<Rightarrow> timing option" where
  "bencho t_ov l_ov long_enough body ovh enough ito itb ro r tm =
     do { (ro, r, tm) \<leftarrow> bencho_loop t_ov l_ov ovh body (max long_enough enough) (bench_tries enough long_enough)
                           ito itb (insertinit ro) (insertinit r) (warm_cache body enough tm);
          r \<leftarrow> subtract_from ro 0 (res_N r) r;
          Some (store_results r tm) }"

section \<open>The overheads\<close>

text \<open>The file's static variables. The three \<open>__iterations\<close> belong to the \<open>BENCH_INNER\<close> of
  \<open>one_op\<close>, \<open>two_op\<close> and \<open>t_overhead\<close>; \<open>find_N_N\<close> and \<open>find_N_usecs\<close> to \<open>find_N\<close>.\<close>

record lib =
  lb_tm :: timing
  long_enough :: int
  init_done :: bool
  t_initialized :: bool
  t_ovh_val :: u64
  l_initialized :: bool
  l_ovh_val :: dbl
  it_one :: u64
  it_two :: u64
  it_t :: u64
  find_N_N :: u64
  find_N_usecs :: u64

text \<open>The environment variables \<open>ENOUGH\<close> (by \<open>atoi\<close>), \<open>TIMING_O\<close> and \<open>LOOP_O\<close> (by \<open>atof\<close>).\<close>

record osenv =
  env_ENOUGH :: "int option"
  env_TIMING_O :: "dbl option"
  env_LOOP_O :: "dbl option"

text \<open>The body \<open>gettimeofday(&tv, 0)\<close>, and the pointer chases, which do not touch the clock.\<close>

definition gettimeofday_body :: "u64 \<Rightarrow> timing \<Rightarrow> timing" where
  "gettimeofday_body n tm = tm\<lparr>ticks := ticks tm + unat n\<rparr>"

definition chase_body :: "u64 \<Rightarrow> timing \<Rightarrow> timing" where
  "chase_body n tm = tm"

text \<open>\<open>t_overhead_body\<close> and \<open>l_overhead_body\<close> are the two functions after their call of
  \<open>init_timing\<close>. \<open>addr\<close> is the address of the local array \<open>r\<close>, with its bytes before \<open>insertinit\<close> in \<open>r0\<close>.\<close>

fun t_overhead_loop ::
  "int \<Rightarrow> nat \<Rightarrow> u64 \<Rightarrow> result_t \<Rightarrow> timing \<Rightarrow> (u64 \<times> result_t \<times> timing) option" where
  "t_overhead_loop enough 0 it r tm = Some (it, r, tm)"
| "t_overhead_loop enough (Suc tries) it r tm =
     do { (it, tm) \<leftarrow> bench_inner gettimeofday_body enough (Fin 0) it tm;
          r \<leftarrow> insertsort (gettime tm) (get_n tm) r;
          t_overhead_loop enough tries it r tm }"

definition with_local :: "nat \<Rightarrow> result_t \<Rightarrow> timing \<Rightarrow> timing option" where
  "with_local addr r tm =
     do { tm \<leftarrow> set_results addr (tm\<lparr>result_objs := (result_objs tm)(addr := r)\<rparr>); save_minimum tm }"

definition restore :: "nat \<Rightarrow> u64 \<Rightarrow> u64 \<Rightarrow> timing \<Rightarrow> timing option" where
  "restore r_save N_save u_save tm =
     do { tm \<leftarrow> set_results r_save tm; Some (settime u_save (save_n N_save tm)) }"

definition t_overhead_body :: "osenv \<Rightarrow> nat \<Rightarrow> result_t \<Rightarrow> lib \<Rightarrow> (u64 \<times> lib) option" where
  "t_overhead_body os addr r0 s =
     (if t_initialized s then Some (t_ovh_val s, s)
      else let s = s\<lparr>t_initialized := True\<rparr> in
        case env_TIMING_O os of
          Some v \<Rightarrow> Some (u64_of_dbl v, s\<lparr>t_ovh_val := u64_of_dbl v\<rparr>)
        | None \<Rightarrow>
            if max (long_enough s) 0 \<le> 50000 then
              let r_save = get_results (lb_tm s); N_save = get_n (lb_tm s); u_save = gettime (lb_tm s) in
              do { (it, r, tm) \<leftarrow> t_overhead_loop (max (long_enough s) 0) TRIES (it_t s) (insertinit r0) (lb_tm s);
                   tm \<leftarrow> with_local addr r tm;
                   let u = gettime tm; let n = get_n tm;
                   if n = 0 then None
                   else do { tm \<leftarrow> restore r_save N_save u_save tm;
                             Some (u div n, s\<lparr>t_ovh_val := u div n, it_t := it, lb_tm := tm\<rparr>) } }
            else Some (t_ovh_val s, s))"

fun l_overhead_loop ::
  "int \<Rightarrow> u64 \<Rightarrow> nat \<Rightarrow> u64 \<Rightarrow> u64 \<Rightarrow> result_t \<Rightarrow> result_t \<Rightarrow> timing
     \<Rightarrow> (u64 \<times> u64 \<times> result_t \<times> result_t \<times> timing) option" where
  "l_overhead_loop enough t_ov 0 i1 i2 one two tm = Some (i1, i2, one, two, tm)"
| "l_overhead_loop enough t_ov (Suc tries) i1 i2 one two tm =
     do { (i1, tm) \<leftarrow> bench_inner chase_body enough (Fin 0) i1 tm;
          one \<leftarrow> (if t_ov < gettime tm then insertsort (gettime tm - t_ov) (get_n tm) one else Some one);
          (i2, tm) \<leftarrow> bench_inner chase_body enough (Fin 0) i2 tm;
          two \<leftarrow> (if t_ov < gettime tm then insertsort (gettime tm - t_ov) (get_n tm) two else Some two);
          l_overhead_loop enough t_ov tries i1 i2 one two tm }"

text \<open>\<open>overhead = 2. * u1 / n1 - u2 / n2\<close>, and not less than zero.\<close>

definition loop_overhead :: "u64 \<Rightarrow> u64 \<Rightarrow> u64 \<Rightarrow> u64 \<Rightarrow> dbl" where
  "loop_overhead u1 n1 u2 n2 =
     (let ov = d_sub (d_div (d_mul (Fin 2) (d_of_u64 u1)) (d_of_u64 n1)) (d_div (d_of_u64 u2) (d_of_u64 n2))
      in if d_lt ov (Fin 0) then Fin 0 else ov)"

definition l_overhead_body ::
  "osenv \<Rightarrow> nat \<Rightarrow> nat \<Rightarrow> result_t \<Rightarrow> result_t \<Rightarrow> lib \<Rightarrow> (dbl \<times> lib) option" where
  "l_overhead_body os addr1 addr2 one0 two0 s =
     (if l_initialized s then Some (l_ovh_val s, s)
      else let s = s\<lparr>l_initialized := True\<rparr> in
        case env_LOOP_O os of
          Some v \<Rightarrow> Some (v, s\<lparr>l_ovh_val := v\<rparr>)
        | None \<Rightarrow>
            let r_save = get_results (lb_tm s); N_save = get_n (lb_tm s); u_save = gettime (lb_tm s) in
            do { (i1, i2, one, two, tm) \<leftarrow> l_overhead_loop (max (long_enough s) 0) (t_ovh_val s) TRIES
                    (it_one s) (it_two s) (insertinit one0) (insertinit two0) (lb_tm s);
                 tm \<leftarrow> with_local addr1 one tm;
                 let u1 = gettime tm; let n1 = get_n tm;
                 tm \<leftarrow> with_local addr2 two tm;
                 let ov = loop_overhead u1 n1 (gettime tm) (get_n tm);
                 tm \<leftarrow> restore r_save N_save u_save tm;
                 Some (ov, s\<lparr>l_ovh_val := ov, it_one := i1, it_two := i2, lb_tm := tm\<rparr>) })"

section \<open>How long is long enough\<close>

text \<open>\<open>enough_duration\<close> follows a pointer ten times per round; the cell it is called with points to
  itself.\<close>

fun follow :: "(u64 \<Rightarrow> u64) \<Rightarrow> nat \<Rightarrow> u64 \<Rightarrow> u64" where
  "follow mem 0 p = p"
| "follow mem (Suc k) p = follow mem k (mem p)"

fun enough_duration :: "(u64 \<Rightarrow> u64) \<Rightarrow> nat \<Rightarrow> u64 \<Rightarrow> u64" where
  "enough_duration mem 0 p = p"
| "enough_duration mem (Suc N) p = enough_duration mem N (follow mem 10 p)"

text \<open>\<open>N\<close> is a signed \<open>long\<close>: a negative count runs no round. \<open>x\<close> is the address of the local cell.\<close>

definition duration :: "u64 \<Rightarrow> u64 \<Rightarrow> timing \<Rightarrow> u64 \<times> timing" where
  "duration x N tm =
     (let tm = start tm;
          p = enough_duration (\<lambda>a. if a = x then x else 0) (nat (sint N)) x;
          (usecs, tm) = stop tm
      in (usecs, use_pointer p tm))"

fun time_N_loop :: "u64 \<Rightarrow> u64 \<Rightarrow> nat \<Rightarrow> result_t \<Rightarrow> timing \<Rightarrow> (result_t \<times> timing) option" where
  "time_N_loop x N 0 r tm = Some (r, tm)"
| "time_N_loop x N (Suc left) r tm =
     (let (usecs, tm) = duration x N tm in
      do { r \<leftarrow> insertsort usecs N r; time_N_loop x N left r tm })"

text \<open>\<open>for (i = 1; i < TRIES; ++i)\<close>; \<open>addr\<close> and \<open>r0\<close> are the address and the bytes of the local \<open>r\<close>.\<close>

definition time_N :: "u64 \<Rightarrow> nat \<Rightarrow> result_t \<Rightarrow> u64 \<Rightarrow> timing \<Rightarrow> (u64 \<times> timing) option" where
  "time_N x addr r0 N tm =
     (let r_save = get_results tm in
      do { (r, tm) \<leftarrow> time_N_loop x N (TRIES - 1) (insertinit r0) tm;
           tm \<leftarrow> with_local addr r tm;
           let usecs = gettime tm;
           tm \<leftarrow> set_results r_save tm;
           Some (usecs, tm) })"

definition near_enough :: "int \<Rightarrow> u64 \<Rightarrow> bool" where
  "near_enough enough usecs =
     (d_lt (frac_of (98 / 100) enough) (d_of_u64 usecs) \<and> d_lt (d_of_u64 usecs) (frac_of (102 / 100) enough))"

definition next_N :: "int \<Rightarrow> u64 \<Rightarrow> u64 \<Rightarrow> u64" where
  "next_N enough usecs N =
     (if usecs < 1000 then N * 10
      else u64_of_dbl (d_add (d_mul (d_div (d_of_u64 N) (d_of_u64 usecs)) (d_of_int enough)) (Fin 1)))"

text \<open>The loop of \<open>find_N\<close> over its static \<open>N\<close> and \<open>usecs\<close>; the first component is the result, 0
  when ten tries were not enough.\<close>

fun find_N_loop ::
  "u64 \<Rightarrow> nat \<Rightarrow> result_t \<Rightarrow> int \<Rightarrow> nat \<Rightarrow> u64 \<Rightarrow> u64 \<Rightarrow> timing \<Rightarrow> (u64 \<times> u64 \<times> u64 \<times> timing) option" where
  "find_N_loop x addr r0 enough 0 N usecs tm = Some (0, N, usecs, tm)"
| "find_N_loop x addr r0 enough (Suc tries) N usecs tm =
     (if near_enough enough usecs then Some (N, N, usecs, tm)
      else do { (usecs', tm) \<leftarrow> time_N x addr r0 (next_N enough usecs N) tm;
                find_N_loop x addr r0 enough tries (next_N enough usecs N) usecs' tm })"

definition find_N :: "u64 \<Rightarrow> nat \<Rightarrow> result_t \<Rightarrow> int \<Rightarrow> lib \<Rightarrow> (u64 \<times> lib) option" where
  "find_N x addr r0 enough s =
     do { (usecs, tm) \<leftarrow> (if find_N_usecs s = 0 then time_N x addr r0 (find_N_N s) (lb_tm s)
                          else Some (find_N_usecs s, lb_tm s));
          (res, N, usecs, tm) \<leftarrow> find_N_loop x addr r0 enough 10 (find_N_N s) usecs tm;
          Some (res, s\<lparr>find_N_N := N, find_N_usecs := usecs, lb_tm := tm\<rparr>) }"

definition test_points :: "real list" where
  "test_points = [1015 / 1000, 102 / 100, 1035 / 1000]"

text \<open>The check at one point: the time of \<open>N * point\<close> must be within a quarter of a percent of
  \<open>baseline * point\<close>. The count passes through an \<open>int\<close>.\<close>

definition point_ok :: "u64 \<Rightarrow> real \<Rightarrow> u64 \<Rightarrow> bool" where
  "point_ok baseline pt usecs =
     (let expected = u64_of_dbl (d_mul (d_of_u64 baseline) (dlit pt));
          diff = (if usecs < expected then expected - usecs else usecs - expected)
      in \<not> d_gt (d_div (d_of_u64 diff) (d_of_u64 expected)) (dlit (25 / 10000)))"

fun test_points_loop ::
  "u64 \<Rightarrow> nat \<Rightarrow> result_t \<Rightarrow> u64 \<Rightarrow> u64 \<Rightarrow> real list \<Rightarrow> timing \<Rightarrow> (bool \<times> timing) option" where
  "test_points_loop x addr r0 N baseline [] tm = Some (True, tm)"
| "test_points_loop x addr r0 N baseline (pt # pts) tm =
     do { (usecs, tm) \<leftarrow> time_N x addr r0 (of_int (int_of_dbl (d_mul (d_of_u64 N) (dlit pt)))) tm;
          if point_ok baseline pt usecs then test_points_loop x addr r0 N baseline pts tm
          else Some (False, tm) }"

definition test_time :: "u64 \<Rightarrow> nat \<Rightarrow> result_t \<Rightarrow> int \<Rightarrow> lib \<Rightarrow> (bool \<times> lib) option" where
  "test_time x addr r0 enough s =
     do { (N, s) \<leftarrow> find_N x addr r0 enough s;
          if N = 0 then Some (False, s)
          else do { (baseline, tm) \<leftarrow> time_N x addr r0 N (lb_tm s);
                    (ok, tm) \<leftarrow> test_points_loop x addr r0 N baseline test_points tm;
                    Some (ok, s\<lparr>lb_tm := tm\<rparr>) } }"

definition possibilities :: "int list" where
  "possibilities = [5000, 10000, 50000, 100000]"

fun try_possibilities :: "u64 \<Rightarrow> nat \<Rightarrow> result_t \<Rightarrow> int list \<Rightarrow> lib \<Rightarrow> (int \<times> lib) option" where
  "try_possibilities x addr r0 [] s = Some (1000000, s)"
| "try_possibilities x addr r0 (e # es) s =
     do { (ok, s) \<leftarrow> test_time x addr r0 e s;
          if ok then Some (e, s) else try_possibilities x addr r0 es s }"

definition compute_enough :: "osenv \<Rightarrow> u64 \<Rightarrow> nat \<Rightarrow> result_t \<Rightarrow> lib \<Rightarrow> (int \<times> lib) option" where
  "compute_enough os x addr r0 s =
     (case env_ENOUGH os of Some e \<Rightarrow> Some (e, s) | None \<Rightarrow> try_possibilities x addr r0 possibilities s)"

text \<open>\<open>init_timing\<close> sets its flag first, so the calls it makes do not come back to it. All local
  arrays have the bytes \<open>r0\<close>; \<open>addr1\<close> and \<open>addr2\<close> are the addresses of \<open>one\<close> and \<open>two\<close>.\<close>

definition init_timing :: "osenv \<Rightarrow> u64 \<Rightarrow> nat \<Rightarrow> nat \<Rightarrow> result_t \<Rightarrow> lib \<Rightarrow> lib option" where
  "init_timing os x addr1 addr2 r0 s =
     (if init_done s then Some s
      else do { (e, s) \<leftarrow> compute_enough os x addr1 r0 (s\<lparr>init_done := True\<rparr>);
                (_, s) \<leftarrow> t_overhead_body os addr1 r0 (s\<lparr>long_enough := e\<rparr>);
                (_, s) \<leftarrow> l_overhead_body os addr1 addr2 r0 r0 s;
                Some s })"

definition get_enough :: "osenv \<Rightarrow> u64 \<Rightarrow> nat \<Rightarrow> nat \<Rightarrow> result_t \<Rightarrow> int \<Rightarrow> lib \<Rightarrow> (int \<times> lib) option" where
  "get_enough os x addr1 addr2 r0 e s =
     do { s \<leftarrow> init_timing os x addr1 addr2 r0 s;
          Some (if e < long_enough s then long_enough s else e, s) }"

definition t_overhead :: "osenv \<Rightarrow> u64 \<Rightarrow> nat \<Rightarrow> nat \<Rightarrow> result_t \<Rightarrow> lib \<Rightarrow> (u64 \<times> lib) option" where
  "t_overhead os x addr1 addr2 r0 s =
     do { s \<leftarrow> init_timing os x addr1 addr2 r0 s; t_overhead_body os addr1 r0 s }"

definition l_overhead :: "osenv \<Rightarrow> u64 \<Rightarrow> nat \<Rightarrow> nat \<Rightarrow> result_t \<Rightarrow> lib \<Rightarrow> (dbl \<times> lib) option" where
  "l_overhead os x addr1 addr2 r0 s =
     do { s \<leftarrow> init_timing os x addr1 addr2 r0 s; l_overhead_body os addr1 addr2 r0 r0 s }"

section \<open>Frames\<close>

text \<open>What a loop body may not do: touch the result arrays or the clock function.\<close>

definition body_frame :: "(u64 \<Rightarrow> timing \<Rightarrow> timing) \<Rightarrow> bool" where
  "body_frame body = (\<forall>n tm. result_objs (body n tm) = result_objs tm \<and> results (body n tm) = results tm
     \<and> clock_fn (body n tm) = clock_fn tm \<and> start_tv (body n tm) = start_tv tm)"

lemma body_frames [simp]: "body_frame gettimeofday_body" "body_frame chase_body"
  by (simp_all add: body_frame_def gettimeofday_body_def chase_body_def)

lemma timed_pass_frame:
  assumes "body_frame body"
  shows "result_objs (snd (timed_pass body n tm)) = result_objs tm"
    "results (snd (timed_pass body n tm)) = results tm"
    "clock_fn (snd (timed_pass body n tm)) = clock_fn tm"
  using assms by (simp_all add: timed_pass_def stop_def start_def gettimeofday_def body_frame_def)

lemma bench_inner_frame:
  assumes "bench_inner body enough result iters tm = Some y" "body_frame body"
  shows "result_objs (snd y) = result_objs tm \<and> results (snd y) = results tm"
proof -
  let ?P = "\<lambda>body enough result iters tm y. body_frame body \<longrightarrow>
    result_objs (snd y) = result_objs tm \<and> results (snd y) = results tm"
  have "?P body enough result iters tm y"
  proof (rule bench_inner.raw_induct [where P = ?P, OF _ assms(1)])
    fix f body enough result iters tm y
    assume IH: "\<And>body enough result iters tm y. f body enough result iters tm = Some y
        \<Longrightarrow> ?P body enough result iters tm y"
      and eq: "(if d_lt result (frac_of (95 / 100) enough) then
        if d_lt (d_of_u64 (fst (timed_pass body iters tm))) (frac_of (99 / 100) enough)
           \<or> d_gt (d_of_u64 (fst (timed_pass body iters tm))) (frac_of (12 / 10) enough)
        then
          if d_gt (d_of_u64 (fst (timed_pass body iters tm))) (Fin 150) then
            f body enough (d_of_u64 (fst (timed_pass body iters tm)))
              (scale_iterations enough (d_of_u64 (fst (timed_pass body iters tm))) iters)
              (snd (timed_pass body iters tm))
          else if 2 ^ 27 < iters then Some (iters, settime 0 (save_n iters (snd (timed_pass body iters tm))))
          else f body enough (d_of_u64 (fst (timed_pass body iters tm))) (push_bit 3 iters)
                 (snd (timed_pass body iters tm))
        else f body enough (d_of_u64 (fst (timed_pass body iters tm))) iters
               (snd (timed_pass body iters tm))
      else Some (iters, settime (u64_of_dbl result) (save_n iters tm))) = Some y"
    show "?P body enough result iters tm y"
    proof
      assume fr: "body_frame body"
      from eq show "result_objs (snd y) = result_objs tm \<and> results (snd y) = results tm"
        using IH fr timed_pass_frame [OF fr, of iters tm]
        by (auto simp del: u64_of_dbl.simps split: if_splits)
    qed
  qed
  with assms(2) show ?thesis by blast
qed

section \<open>Lemmas\<close>

lemma insertsort_room:
  "res_inv r \<Longrightarrow> res_N r + Suc k \<le> length (res_v r) \<Longrightarrow>
   \<exists>r'. insertsort u n r = Some r' \<and> res_inv r' \<and> res_N r' + k \<le> length (res_v r')"
  using insertsort_inv [of r u n] by (auto split: if_splits)

lemma with_local_total:
  assumes "res_inv r"
  shows "\<exists>tm'. with_local addr r tm = Some tm' \<and> result_objs tm' = (result_objs tm)(addr := r) \<and> results tm' = addr"
proof -
  let ?tm = "tm\<lparr>result_objs := (result_objs tm)(addr := r), results := addr\<rparr>"
  obtain u n where "save_median ?tm = Some (settime u (save_n n ?tm))"
    using save_median_total [of ?tm] assms by auto
  moreover obtain u' n' where "save_minimum (settime u (save_n n ?tm)) = Some (settime u' (save_n n' (settime u (save_n n ?tm))))"
    using save_minimum_value [of "settime u (save_n n ?tm)"] assms
    by (cases "res_N r = 0") (auto simp: save_minimum_def)
  ultimately show ?thesis by (simp add: with_local_def set_results_def)
qed

lemma set_results_total:
  assumes "res_inv (result_objs tm p)"
  shows "\<exists>tm'. set_results p tm = Some tm' \<and> result_objs tm' = result_objs tm \<and> results tm' = p"
  using save_median_total [of "tm\<lparr>results := p\<rparr>"] assms by (auto simp: set_results_def)

subsection \<open>time_N and what is built on it\<close>

lemma duration_frame:
  "result_objs (snd (duration x N tm)) = result_objs tm" "results (snd (duration x N tm)) = results tm"
  by (simp_all add: duration_def start_def stop_def gettimeofday_def use_pointer_def)

lemma time_N_loop_total:
  "res_inv r \<Longrightarrow> res_N r + left \<le> length (res_v r) \<Longrightarrow>
   \<exists>r' tm'. time_N_loop x N left r tm = Some (r', tm') \<and> res_inv r'
     \<and> result_objs tm' = result_objs tm \<and> results tm' = results tm"
proof (induction left arbitrary: r tm)
  case (Suc left)
  obtain u tm1 where d: "duration x N tm = (u, tm1)" by fastforce
  obtain r1 where r1: "insertsort u N r = Some r1" "res_inv r1" "res_N r1 + left \<le> length (res_v r1)"
    using insertsort_room [OF Suc.prems] by blast
  have "result_objs tm1 = result_objs tm" "results tm1 = results tm"
    using duration_frame [of x N tm] d by simp_all
  with Suc.IH [OF r1(2,3), of tm1] d r1(1) show ?case by auto
qed simp

text \<open>The state a calibration step needs and keeps: the current array is well formed and is not
  the local array.\<close>

definition tm_ready :: "nat \<Rightarrow> timing \<Rightarrow> bool" where
  "tm_ready addr tm = (res_inv (cur_results tm) \<and> addr \<noteq> results tm)"

definition kept :: "timing \<Rightarrow> timing \<Rightarrow> bool" where
  "kept tm tm' = (results tm' = results tm \<and> result_objs tm' (results tm) = cur_results tm)"

lemma kept_ready: "tm_ready addr tm \<Longrightarrow> kept tm tm' \<Longrightarrow> tm_ready addr tm'"
  by (simp add: tm_ready_def kept_def)

lemma kept_trans: "kept a b \<Longrightarrow> kept b c \<Longrightarrow> kept a c"
  by (simp add: kept_def)

lemma kept_refl [simp]: "kept a a"
  by (simp add: kept_def)

lemma time_N_total:
  assumes "tm_ready addr tm" "length (res_v r0) = TRIES"
  shows "\<exists>u tm'. time_N x addr r0 N tm = Some (u, tm') \<and> kept tm tm'"
proof -
  have "res_N (insertinit r0) + (TRIES - 1) \<le> length (res_v (insertinit r0))"
    using assms(2) by (simp add: insertinit_def TRIES_def)
  from time_N_loop_total [OF res_inv_insertinit this] obtain r tm1 where
    r: "time_N_loop x N (TRIES - 1) (insertinit r0) tm = Some (r, tm1)" "res_inv r"
      "result_objs tm1 = result_objs tm" "results tm1 = results tm" by blast
  obtain tm2 where tm2: "with_local addr r tm1 = Some tm2" "result_objs tm2 = (result_objs tm1)(addr := r)"
    using with_local_total [OF r(2)] by blast
  have "result_objs tm2 (results tm) = cur_results tm"
    using assms(1) r(3) tm2(2) by (simp add: tm_ready_def)
  with set_results_total [of tm2 "results tm"] assms(1) obtain tm3 where
    "set_results (results tm) tm2 = Some tm3" "kept tm tm3" by (auto simp: tm_ready_def kept_def)
  with r(1) tm2(1) show ?thesis by (simp add: time_N_def get_results_def Let_def)
qed

lemma find_N_loop_total:
  "tm_ready addr tm \<Longrightarrow> length (res_v r0) = TRIES \<Longrightarrow>
   \<exists>r N' u' tm'. find_N_loop x addr r0 enough tries N u tm = Some (r, N', u', tm') \<and> kept tm tm'"
proof (induction tries arbitrary: N u tm)
  case (Suc tries)
  show ?case
  proof (cases "near_enough enough u")
    case False
    obtain u1 tm1 where t: "time_N x addr r0 (next_N enough u N) tm = Some (u1, tm1)" "kept tm tm1"
      using time_N_total [OF Suc.prems] by blast
    obtain r N' u' tm' where
      "find_N_loop x addr r0 enough tries (next_N enough u N) u1 tm1 = Some (r, N', u', tm')" "kept tm1 tm'"
      using Suc.IH [OF kept_ready [OF Suc.prems(1) t(2)] Suc.prems(2)] by blast
    with False t show ?thesis using kept_trans by auto
  qed simp
qed simp

lemma find_N_total:
  assumes "tm_ready addr (lb_tm s)" "length (res_v r0) = TRIES"
  shows "\<exists>N s'. find_N x addr r0 enough s = Some (N, s') \<and> kept (lb_tm s) (lb_tm s')"
proof -
  obtain u tm where u: "(if find_N_usecs s = 0 then time_N x addr r0 (find_N_N s) (lb_tm s)
      else Some (find_N_usecs s, lb_tm s)) = Some (u, tm)" "kept (lb_tm s) tm"
    using time_N_total [OF assms, of x "find_N_N s"] by (cases "find_N_usecs s = 0") auto
  obtain r N' u' tm' where "find_N_loop x addr r0 enough 10 (find_N_N s) u tm = Some (r, N', u', tm')" "kept tm tm'"
    using find_N_loop_total [OF kept_ready [OF assms(1) u(2)] assms(2)] by blast
  with u show ?thesis using kept_trans by (auto simp: find_N_def)
qed

lemma test_points_loop_total:
  "tm_ready addr tm \<Longrightarrow> length (res_v r0) = TRIES \<Longrightarrow>
   \<exists>ok tm'. test_points_loop x addr r0 N b pts tm = Some (ok, tm') \<and> kept tm tm'"
proof (induction pts arbitrary: tm)
  case (Cons pt pts)
  obtain u tm1 where t: "time_N x addr r0 (of_int (int_of_dbl (d_mul (d_of_u64 N) (dlit pt)))) tm = Some (u, tm1)"
      "kept tm tm1"
    using time_N_total [OF Cons.prems] by blast
  from Cons.IH [OF kept_ready [OF Cons.prems(1) t(2)] Cons.prems(2)] t show ?case
    using kept_trans by (cases "point_ok b pt u") auto
qed auto

lemma test_time_total:
  assumes "tm_ready addr (lb_tm s)" "length (res_v r0) = TRIES"
  shows "\<exists>ok s'. test_time x addr r0 enough s = Some (ok, s') \<and> kept (lb_tm s) (lb_tm s')"
proof -
  obtain N s1 where N: "find_N x addr r0 enough s = Some (N, s1)" "kept (lb_tm s) (lb_tm s1)"
    using find_N_total [OF assms] by blast
  note ready = kept_ready [OF assms(1) N(2)]
  show ?thesis
  proof (cases "N = 0")
    case False
    obtain b tm where b: "time_N x addr r0 N (lb_tm s1) = Some (b, tm)" "kept (lb_tm s1) tm"
      using time_N_total [OF ready assms(2)] by blast
    obtain ok tm' where t: "test_points_loop x addr r0 N b test_points tm = Some (ok, tm')" "kept tm tm'"
      using test_points_loop_total [OF kept_ready [OF ready b(2)] assms(2)] by blast
    with False N(1) b(1) have "test_time x addr r0 enough s = Some (ok, s1\<lparr>lb_tm := tm'\<rparr>)"
      by (simp add: test_time_def)
    moreover have "kept (lb_tm s) tm'" using N(2) b(2) t(2) kept_trans by blast
    ultimately show ?thesis by simp
  qed (use N in \<open>auto simp: test_time_def\<close>)
qed

lemma try_possibilities_total:
  "tm_ready addr (lb_tm s) \<Longrightarrow> length (res_v r0) = TRIES \<Longrightarrow>
   \<exists>e s'. try_possibilities x addr r0 es s = Some (e, s') \<and> e \<in> set es \<union> {1000000} \<and> kept (lb_tm s) (lb_tm s')"
proof (induction es arbitrary: s)
  case (Cons e es)
  obtain ok s1 where t: "test_time x addr r0 e s = Some (ok, s1)" "kept (lb_tm s) (lb_tm s1)"
    using test_time_total [OF Cons.prems] by blast
  from Cons.IH [OF kept_ready [OF Cons.prems(1) t(2)] Cons.prems(2)] t show ?case
    using kept_trans by (cases ok) fastforce+
qed simp

subsection \<open>BENCH_INNER\<close>

text \<open>The bounds of an interval that is long enough and not too long.\<close>

definition in_range :: "int \<Rightarrow> u64 \<Rightarrow> bool" where
  "in_range enough u = (d_ge (d_of_u64 u) (frac_of (99 / 100) enough) \<and> d_le (d_of_u64 u) (frac_of (12 / 10) enough))"

lemma d_le_not_lt: "d_le x y \<Longrightarrow> \<not> d_lt y x"
  using d_lt_irrefl d_le_lt_trans by blast

lemma frac_pos: "1 / 2 \<le> q \<Longrightarrow> q \<le> 2 \<Longrightarrow> 2 \<le> enough \<Longrightarrow> enough \<le> 2 ^ 31 \<Longrightarrow> d_lt (Fin 0) (frac_of q enough)"
  unfolding dlit_def by (rule fraction_pos)

lemma bench_inner_in_range:
  assumes "timed_pass body iters tm = (u, tm1)" "in_range enough u" "2 \<le> enough" "enough \<le> 2 ^ 31"
  shows "bench_inner body enough (Fin 0) iters tm
           = Some (iters, settime (u64_of_dbl (d_of_u64 u)) (save_n iters tm1))"
proof -
  have "\<not> d_lt (d_of_u64 u) (frac_of (99 / 100) enough)" "\<not> d_gt (d_of_u64 u) (frac_of (12 / 10) enough)"
    using assms(2) d_le_not_lt by (auto simp: in_range_def)
  moreover have "d_le (frac_of (95 / 100) enough) (frac_of (99 / 100) enough)"
    unfolding dlit_def using assms(3,4) by (intro fraction_mono) simp_all
  then have "\<not> d_lt (d_of_u64 u) (frac_of (95 / 100) enough)"
    using assms(2) d_le_trans d_le_not_lt by (auto simp: in_range_def)
  moreover have "d_lt (Fin 0) (frac_of (95 / 100) enough)" using assms(3,4) by (intro frac_pos) simp_all
  ultimately show ?thesis
    using assms(1) by (subst bench_inner.simps) (simp add: bench_inner.simps [of _ _ "d_of_u64 u"] del: u64_of_dbl.simps)
qed

text \<open>On a clock that stands still every pass has time zero.\<close>

lemma timed_pass_stopped:
  "body_frame body \<Longrightarrow> \<forall>k. clock_fn tm k = t \<Longrightarrow> fst (timed_pass body n tm) = 0"
  by (simp add: timed_pass_def stop_def start_def gettimeofday_def body_frame_def tvdelta_def tvsub_def)

lemma d_of_u64_0 [simp]: "d_of_u64 0 = Fin 0"
  by (simp add: d_of_u64_Fin)

lemma bench_inner_stopped_step:
  assumes "body_frame body" "\<forall>k. clock_fn tm k = t" "2 \<le> enough" "enough \<le> 2 ^ 31"
  shows "bench_inner body enough (Fin 0) iters tm =
     (if 2 ^ 27 < iters then Some (iters, settime 0 (save_n iters (snd (timed_pass body iters tm))))
      else bench_inner body enough (Fin 0) (push_bit 3 iters) (snd (timed_pass body iters tm)))"
proof -
  have "d_lt (Fin 0) (frac_of (95 / 100) enough)" "d_lt (Fin 0) (frac_of (99 / 100) enough)"
    using assms(3,4) by (intro frac_pos; simp)+
  then show ?thesis
    using timed_pass_stopped [OF assms(1,2)] by (subst bench_inner.simps) simp
qed

lemma bench_inner_stopped:
  assumes "body_frame body" "\<forall>k. clock_fn tm k = t" "2 \<le> enough" "enough \<le> 2 ^ 31" "0 < iters"
  shows "\<exists>it tm'. bench_inner body enough (Fin 0) iters tm = Some (it, tm') \<and> gettime tm' = 0 \<and> get_n tm' = it
           \<and> 2 ^ 27 < it \<and> clock_fn tm' = clock_fn tm"
  using assms(2,5)
proof (induction "2 ^ 28 - unat iters" arbitrary: iters tm rule: less_induct)
  case less
  note step = bench_inner_stopped_step [OF assms(1) less.prems(1) assms(3,4), of iters]
    and fr = timed_pass_frame(3) [OF assms(1), of iters tm]
  show ?case
  proof (cases "2 ^ 27 < iters")
    case True
    with step fr show ?thesis by simp
  next
    case False
    then have le: "iters \<le> 2 ^ 27" by (simp add: not_less)
    have small: "unat (push_bit 3 iters) = 8 * unat iters" "unat iters \<le> 2 ^ 27"
      using push_bit3_u64 [OF le] le by (simp_all add: word_le_nat_alt)
    moreover have "0 < unat iters" using less.prems(2) by (simp add: word_less_nat_alt)
    ultimately have "2 ^ 28 - unat (push_bit 3 iters) < 2 ^ 28 - unat iters" "0 < push_bit 3 iters"
      by (simp_all add: word_less_nat_alt)
    from less.hyps [OF this(1) _ this(2), of "snd (timed_pass body iters tm)"] less.prems(1) False fr step
    show ?thesis by simp
  qed
qed

subsection \<open>The overheads\<close>

lemma t_overhead_loop_frame:
  "t_overhead_loop enough k it r tm = Some (it', r', tm') \<Longrightarrow>
   result_objs tm' = result_objs tm \<and> results tm' = results tm"
  by (induction k arbitrary: it r tm) (fastforce split: bind_splits dest: bench_inner_frame)+

lemma l_overhead_loop_frame:
  "l_overhead_loop enough t_ov k i1 i2 one two tm = Some (i1', i2', one', two', tm') \<Longrightarrow>
   result_objs tm' = result_objs tm \<and> results tm' = results tm"
  by (induction k arbitrary: i1 i2 one two tm) (fastforce split: bind_splits dest: bench_inner_frame)+

lemma set_results_frame:
  "set_results p tm = Some tm' \<Longrightarrow> result_objs tm' = result_objs tm \<and> results tm' = p \<and> clock_fn tm' = clock_fn tm"
  by (auto simp: set_results_def save_median_def Let_def split: bind_splits if_splits)

lemma save_minimum_frame:
  "save_minimum tm = Some tm' \<Longrightarrow> result_objs tm' = result_objs tm \<and> results tm' = results tm"
  by (auto simp: save_minimum_def Let_def split: bind_splits if_splits)

lemma with_local_frame:
  "with_local addr r tm = Some tm' \<Longrightarrow> result_objs tm' = (result_objs tm)(addr := r) \<and> results tm' = addr"
  by (auto simp: with_local_def split: bind_splits dest!: set_results_frame save_minimum_frame)

lemma restore_spec:
  "restore p n u tm = Some tm' \<Longrightarrow>
   result_objs tm' = result_objs tm \<and> results tm' = p \<and> get_n tm' = n \<and> gettime tm' = u"
  by (auto simp: restore_def split: bind_splits dest!: set_results_frame)

text \<open>What a caller sees of the timing state: the measured time, the count and the results.\<close>

definition same_view :: "timing \<Rightarrow> timing \<Rightarrow> bool" where
  "same_view tm tm' = (gettime tm' = gettime tm \<and> get_n tm' = get_n tm \<and> kept tm tm')"

lemma same_view_refl [simp]: "same_view tm tm"
  by (simp add: same_view_def)

lemma t_overhead_body_view:
  assumes "t_overhead_body os addr r0 s = Some (v, s')" "addr \<noteq> results (lb_tm s)"
  shows "same_view (lb_tm s) (lb_tm s')"
  using assms
  by (auto simp: t_overhead_body_def Let_def same_view_def kept_def get_results_def
      split: if_splits option.splits bind_splits
      dest!: t_overhead_loop_frame with_local_frame restore_spec)

lemma l_overhead_body_view:
  assumes "l_overhead_body os addr1 addr2 one0 two0 s = Some (v, s')"
    "addr1 \<noteq> results (lb_tm s)" "addr2 \<noteq> results (lb_tm s)"
  shows "same_view (lb_tm s) (lb_tm s')"
  using assms
  by (auto simp: l_overhead_body_def Let_def same_view_def kept_def get_results_def
      split: if_splits option.splits bind_splits
      dest!: l_overhead_loop_frame with_local_frame restore_spec)

section \<open>Properties\<close>

text \<open>\<open>BENCH_INNER\<close> pairs the time with the count that was run: when the first pass takes
  between 0.99 and 1.2 times the wanted time, the macro returns after it with exactly the
  measured time and the count of that pass.\<close>

theorem bench_inner_pairs:
  assumes "timed_pass body iters tm = (u, tm1)" "in_range enough u" "2 \<le> enough" "enough \<le> 2 ^ 31"
    "uint u \<le> 2 ^ 53"
  shows "\<exists>tm'. bench_inner body enough (Fin 0) iters tm = Some (iters, tm') \<and> gettime tm' = u \<and> get_n tm' = iters"
  using bench_inner_in_range [OF assms(1-4)] u64_of_d_of_u64 [OF assms(5)] by simp

definition steady_clock :: "int \<Rightarrow> timing" where
  "steady_clock us = timing_init (\<lambda>k. \<lparr>tv_sec = 0, tv_usec = us * int k\<rparr>)"

lemma steady_pass:
  assumes "0 \<le> us" "us < 1000000"
  shows "\<exists>tm1. timed_pass chase_body n (steady_clock us) = (of_int us, tm1)"
  using assms
  by (auto simp: timed_pass_def chase_body_def steady_clock_def timing_init_def start_def stop_def
      gettimeofday_def tvdelta_def tvsub_def tv_zero_def Let_def)

lemma frac_of_10000: "0 \<le> q \<Longrightarrow> q \<le> 2 \<Longrightarrow> frac_of q 10000 = Fin (rnd (rnd q * 10000))"
  unfolding dlit_def using fraction_value [of q 10000] by simp

lemma frac_ge:
  assumes "0 < m" "m \<le> 2 ^ 53" "k \<le> 1000" "q \<le> 2" "real_of_int m / 2 ^ k \<le> q"
    "real_of_int x \<le> real_of_int m / 2 ^ k * 10000" "\<bar>x\<bar> \<le> 2 ^ 53"
  shows "\<exists>f. frac_of q 10000 = Fin f \<and> real_of_int x \<le> f"
proof -
  have "0 \<le> real_of_int m / 2 ^ k" using assms(1) by simp
  moreover have "real_of_int x \<le> rnd q * 10000" 
    using mult_right_mono [OF rnd_ge_dyadic [OF assms(1-3,5)] zero_le_numeral] assms(6) order_trans by blast
  ultimately show ?thesis using frac_of_10000 [of q] assms(4,5) rnd.r_ge_int [OF assms(7)] by simp
qed

lemma frac_le:
  assumes "0 < m" "m \<le> 2 ^ 53" "k \<le> 1000" "0 \<le> q" "q \<le> 2" "q \<le> real_of_int m / 2 ^ k"
    "real_of_int m / 2 ^ k * 10000 \<le> real_of_int x" "\<bar>x\<bar> \<le> 2 ^ 53"
  shows "\<exists>f. frac_of q 10000 = Fin f \<and> f \<le> real_of_int x"
proof -
  have "rnd q * 10000 \<le> real_of_int x" 
    using mult_right_mono [OF rnd_le_dyadic [OF assms(1-3,6)] zero_le_numeral] assms(7) order_trans by blast
  then show ?thesis using frac_of_10000 [of q] assms(4,5) rnd.r_le_int [OF assms(8)] by simp
qed

lemma d_of_u64_small: "0 \<le> n \<Longrightarrow> n \<le> 2 ^ 53 \<Longrightarrow> d_of_u64 (of_int n) = Fin (of_int n)"
proof -
  assume n: "0 \<le> n" "n \<le> 2 ^ 53"
  then have "uint (of_int n :: u64) = n" by simp
  then show ?thesis using n rnd_of_int [of n] by (simp add: d_of_u64_Fin u2r_def del: uint_of_int64)
qed

theorem bench_inner_pairs_witness:
  "\<exists>tm'. bench_inner chase_body 10000 (Fin 0) 7 (steady_clock 10000) = Some (7, tm')
     \<and> gettime tm' = 10000 \<and> get_n tm' = 7"
proof -
  obtain tm1 where p: "timed_pass chase_body 7 (steady_clock 10000) = (10000, tm1)"
    using steady_pass [of 10000 7] by auto
  have "in_range 10000 10000"
    using frac_le [of 1 0 "99 / 100" 10000] frac_ge [of 1 0 "12 / 10" 10000]
      d_of_u64_small [of 10000] by (auto simp: in_range_def)
  from bench_inner_pairs [OF p this] show ?thesis by simp
qed

text \<open>\<open>BENCH_INNER\<close> does not always do so: it recomputes the count after every pass that is
  not within 0.99 and 1.2 times the wanted time, but leaves the loop from 0.95 times on. A
  pass of 9600 iterations in 9600 microseconds, with 10000 wanted, is reported as at least
  10001 iterations in 9600 microseconds.\<close>

theorem bench_inner_wrong_count:
  "\<exists>it tm'. bench_inner chase_body 10000 (Fin 0) 9600 (steady_clock 9600) = Some (it, tm')
     \<and> gettime tm' = 9600 \<and> get_n tm' = it \<and> 10001 \<le> uint it"
proof -
  obtain tm1 where p: "timed_pass chase_body 9600 (steady_clock 9600) = (9600, tm1)"
    using steady_pass [of 9600 9600] by auto
  have u: "d_of_u64 9600 = Fin 9600" using d_of_u64_small [of 9600] by simp
  obtain f95 f99 f11 where f: "frac_of (95 / 100) 10000 = Fin f95" "f95 \<le> 9600" "0 < f95"
      "frac_of (99 / 100) 10000 = Fin f99" "9843 \<le> f99"
      "frac_of (11 / 10) 10000 = Fin f11" "10000 \<le> f11" "f11 \<le> 20000"
    using frac_le [of 61 6 "95 / 100" 9600] frac_ge [of 1 1 "95 / 100" 1]
      frac_ge [of 63 6 "99 / 100" 9843] frac_ge [of 1 0 "11 / 10" 10000]
      frac_le [of 2 0 "11 / 10" 20000] by auto
  have d: "d_div (Fin 9600) (Fin 9600) = Fin 1" using to_dbl_of_int [of 1] by simp
  have g: "10000 \<le> rnd f11" "rnd f11 \<le> 20000"
    using f(7,8) rnd.r_ge_int [of 10000 f11] rnd.r_le_int [of 20000 f11] by simp_all
  have "to_dbl f11 = Fin (rnd f11)" using f(7,8) by (intro to_dbl_finite [of _ 15]) simp_all
  moreover have "to_dbl (rnd f11 + 1) = Fin (rnd (rnd f11 + 1))" using g by (intro to_dbl_finite [of _ 15]) simp_all
  moreover define h where "h = rnd (rnd f11 + 1)"
  moreover have h: "10001 \<le> h" "h \<le> 20001"
    using g rnd.r_ge_int [of 10001 "rnd f11 + 1"] rnd.r_le_int [of 20001 "rnd f11 + 1"] by (simp_all add: h_def)
  ultimately have sc: "scale_iterations 10000 (Fin 9600) 9600 = u64_of_dbl (Fin h)"
    unfolding scale_iterations_def u d f(6) by simp
  have tr: "10001 \<le> \<lfloor>h\<rfloor>" "\<lfloor>h\<rfloor> \<le> 20001" using h by (simp_all add: le_floor_iff floor_le_iff)
  then have it: "10001 \<le> uint (u64_of_dbl (Fin h))" using h by (simp add: d_trunc_def)
  have "bench_inner chase_body 10000 (Fin 0) 9600 (steady_clock 9600)
      = bench_inner chase_body 10000 (Fin 9600) (u64_of_dbl (Fin h)) tm1"
    using p f u sc by (subst bench_inner.simps) (simp del: u64_of_dbl.simps)
  also have "\<dots> = Some (u64_of_dbl (Fin h), settime (u64_of_dbl (Fin 9600)) (save_n (u64_of_dbl (Fin h)) tm1))"
    using f(1,2) by (subst bench_inner.simps) (simp del: u64_of_dbl.simps)
  finally show ?thesis using it by (simp add: d_trunc_def del: u64_of_dbl.simps) (simp add: d_trunc_def)
qed

text \<open>\<open>BENCH_INNER\<close> ends on a clock that stands still, with time zero: it gives up when the
  count has passed \<open>2^27\<close>.\<close>

theorem bench_inner_stopped_clock:
  assumes "body_frame body" "\<forall>k. clock_fn tm k = t" "2 \<le> enough" "enough \<le> 2 ^ 31" "0 < iters"
  shows "\<exists>it tm'. bench_inner body enough (Fin 0) iters tm = Some (it, tm') \<and> gettime tm' = 0 \<and> 2 ^ 27 < it"
  using bench_inner_stopped [OF assms] by blast

theorem bench_inner_stopped_clock_witness:
  "\<exists>it tm'. bench_inner gettimeofday_body 5000 (Fin 0) 1 (timing_init (\<lambda>k. tv_zero)) = Some (it, tm')
     \<and> gettime tm' = 0 \<and> 2 ^ 27 < it"
  by (rule bench_inner_stopped_clock [where t = tv_zero]) (simp_all add: timing_init_def)

text \<open>C35. The search for a sufficient interval always returns, whatever the clock does, and
  returns one of its candidates or \<open>SHORT\<close>; it never overruns the array of \<open>time_N\<close> and leaves
  the caller's result array alone.\<close>

theorem compute_enough_total:
  assumes "tm_ready addr (lb_tm s)" "length (res_v r0) = TRIES" "env_ENOUGH os = None"
  shows "\<exists>e s'. compute_enough os x addr r0 s = Some (e, s') \<and> e \<in> {5000, 10000, 50000, 100000, 1000000}
           \<and> kept (lb_tm s) (lb_tm s')"
  using try_possibilities_total [OF assms(1,2), of x possibilities] assms(3)
  by (auto simp: compute_enough_def possibilities_def)

definition lib_init :: "(nat \<Rightarrow> timeval) \<Rightarrow> lib" where
  "lib_init clk = \<lparr>lb_tm = timing_init clk, long_enough = 0, init_done = False, t_initialized = False,
     t_ovh_val = 0, l_initialized = False, l_ovh_val = Fin 0, it_one = 1, it_two = 1, it_t = 1,
     find_N_N = 10000, find_N_usecs = 0\<rparr>"

definition no_env :: osenv where
  "no_env = \<lparr>env_ENOUGH = None, env_TIMING_O = None, env_LOOP_O = None\<rparr>"

lemma lib_init_ready: "tm_ready 1 (lb_tm (lib_init clk))"
  by (simp add: tm_ready_def lib_init_def timing_init_def res_inv_def res_list_def desc_sorted_def)

definition local_array :: result_t where
  "local_array = \<lparr>res_N = 0, res_v = replicate TRIES \<lparr>val_u = 0, val_n = 0\<rparr>\<rparr>"

theorem compute_enough_total_witness:
  "\<exists>e s'. compute_enough no_env 8 1 local_array (lib_init (\<lambda>k. tv_zero)) = Some (e, s')
     \<and> e \<in> {5000, 10000, 50000, 100000, 1000000}"
  using compute_enough_total [OF lib_init_ready, of local_array no_env 8 "\<lambda>k. tv_zero"]
  by (auto simp: local_array_def no_env_def)

text \<open>The calibration on a clock that stands still, as an example.\<close>

lemma t_overhead_loop_stopped:
  "\<forall>k. clock_fn tm k = t \<Longrightarrow> 0 < it \<Longrightarrow> 2 \<le> enough \<Longrightarrow> enough \<le> 2 ^ 31 \<Longrightarrow>
   \<exists>it' tm'. t_overhead_loop enough tries it r tm = Some (it', r, tm') \<and> clock_fn tm' = clock_fn tm"
proof (induction tries arbitrary: it tm)
  case (Suc tries)
  obtain it1 tm1 where b: "bench_inner gettimeofday_body enough (Fin 0) it tm = Some (it1, tm1)"
    "gettime tm1 = 0" "2 ^ 27 < it1" "clock_fn tm1 = clock_fn tm"
    using bench_inner_stopped [OF body_frames(1) Suc.prems(1,3,4,2)] by blast
  have "0 < it1" using b(3) by (meson order_le_less_trans word_zero_le)
  with Suc.IH [of tm1 it1] Suc.prems b show ?case by (simp add: insertsort_zero)
qed simp

lemma l_overhead_loop_stopped:
  "\<forall>k. clock_fn tm k = t \<Longrightarrow> 0 < i1 \<Longrightarrow> 0 < i2 \<Longrightarrow> 2 \<le> enough \<Longrightarrow> enough \<le> 2 ^ 31 \<Longrightarrow>
   \<exists>i1' i2' tm'. l_overhead_loop enough t_ov tries i1 i2 one two tm = Some (i1', i2', one, two, tm')"
proof (induction tries arbitrary: i1 i2 tm)
  case (Suc tries)
  obtain j1 tm1 where b1: "bench_inner chase_body enough (Fin 0) i1 tm = Some (j1, tm1)"
    "gettime tm1 = 0" "2 ^ 27 < j1" "clock_fn tm1 = clock_fn tm"
    using bench_inner_stopped [OF body_frames(2) Suc.prems(1,4,5,2)] by blast
  then have c: "\<forall>k. clock_fn tm1 k = t" using Suc.prems(1) by simp
  obtain j2 tm2 where b2: "bench_inner chase_body enough (Fin 0) i2 tm1 = Some (j2, tm2)"
    "gettime tm2 = 0" "2 ^ 27 < j2" "clock_fn tm2 = clock_fn tm1"
    using bench_inner_stopped [OF body_frames(2) c Suc.prems(4,5,3)] by blast
  have "0 < j1" "0 < j2" using b1(3) b2(3) by (meson order_le_less_trans word_zero_le)+
  with Suc.IH [of tm2 j1 j2] Suc.prems b1 b2 show ?case by simp
qed simp

definition calib_lib :: lib where
  "calib_lib = (lib_init (\<lambda>k. tv_zero))\<lparr>long_enough := 5000, init_done := True\<rparr>"

lemma with_local_empty:
  "res_N r = 0 \<Longrightarrow> \<exists>tm'. with_local addr r tm = Some tm' \<and> result_objs tm' = (result_objs tm)(addr := r)
     \<and> clock_fn tm' = clock_fn tm \<and> get_n tm' = 1"
  by (simp add: with_local_def set_results_def save_median_def save_minimum_def)

lemma restore_total:
  "res_inv (result_objs tm p) \<Longrightarrow>
   \<exists>tm'. restore p n u tm = Some tm' \<and> clock_fn tm' = clock_fn tm \<and> result_objs tm' = result_objs tm \<and> results tm' = p"
  using set_results_total [of tm p] by (auto simp: restore_def dest: set_results_frame)

lemma t_overhead_body_stopped:
  assumes "\<not> t_initialized s" "env_TIMING_O os = None" "2 \<le> long_enough s" "long_enough s \<le> 50000"
    "\<forall>k. clock_fn (lb_tm s) k = t" "0 < it_t s" "tm_ready addr (lb_tm s)"
  shows "\<exists>v it tm. t_overhead_body os addr r0 s
           = Some (v, s\<lparr>t_initialized := True, t_ovh_val := v, it_t := it, lb_tm := tm\<rparr>)
           \<and> clock_fn tm = clock_fn (lb_tm s) \<and> kept (lb_tm s) tm"
proof -
  let ?tm = "lb_tm s"
  obtain it tm1 where l: "t_overhead_loop (long_enough s) TRIES (it_t s) (insertinit r0) ?tm = Some (it, insertinit r0, tm1)"
    "clock_fn tm1 = clock_fn ?tm"
    using t_overhead_loop_stopped [OF assms(5,6,3), of TRIES "insertinit r0"] assms(4) by auto
  note fr = t_overhead_loop_frame [OF l(1)]
  obtain tm2 where w: "with_local addr (insertinit r0) tm1 = Some tm2" "clock_fn tm2 = clock_fn tm1"
    "result_objs tm2 = (result_objs tm1)(addr := insertinit r0)" "get_n tm2 = 1"
    using with_local_empty [of "insertinit r0"] by (auto simp: insertinit_def)
  have "result_objs tm2 (results ?tm) = cur_results ?tm" using w(3) fr assms(7) by (simp add: tm_ready_def)
  with restore_total [of tm2 "results ?tm" "get_n ?tm" "gettime ?tm"] assms(7) obtain tm3 where
    "restore (results ?tm) (get_n ?tm) (gettime ?tm) tm2 = Some tm3" "clock_fn tm3 = clock_fn tm2" "kept ?tm tm3"
    by (auto simp: tm_ready_def kept_def)
  with assms l w show ?thesis
    by (simp add: t_overhead_body_def get_results_def Let_def max_def) blast
qed

lemma l_overhead_body_stopped:
  assumes "\<not> l_initialized s" "env_LOOP_O os = None" "2 \<le> long_enough s" "long_enough s \<le> 2 ^ 31"
    "\<forall>k. clock_fn (lb_tm s) k = t" "0 < it_one s" "0 < it_two s"
    "tm_ready addr1 (lb_tm s)" "tm_ready addr2 (lb_tm s)"
  shows "\<exists>v s'. l_overhead_body os addr1 addr2 r0 r0 s = Some (v, s')"
proof -
  let ?tm = "lb_tm s"
  obtain i1 i2 tm1 where l: "l_overhead_loop (long_enough s) (t_ovh_val s) TRIES (it_one s) (it_two s)
      (insertinit r0) (insertinit r0) ?tm = Some (i1, i2, insertinit r0, insertinit r0, tm1)"
    using l_overhead_loop_stopped [OF assms(5-7,3,4), of "t_ovh_val s" TRIES "insertinit r0" "insertinit r0"] by blast
  note fr = l_overhead_loop_frame [OF l]
  obtain tm2 where w2: "with_local addr1 (insertinit r0) tm1 = Some tm2"
    "result_objs tm2 = (result_objs tm1)(addr1 := insertinit r0)"
    using with_local_empty [of "insertinit r0"] by (auto simp: insertinit_def)
  obtain tm3 where w3: "with_local addr2 (insertinit r0) tm2 = Some tm3"
    "result_objs tm3 = (result_objs tm2)(addr2 := insertinit r0)"
    using with_local_empty [of "insertinit r0"] by (auto simp: insertinit_def)
  have "result_objs tm3 (results ?tm) = cur_results ?tm"
    using w2(2) w3(2) fr assms(8,9) by (simp add: tm_ready_def)
  with restore_total [of tm3 "results ?tm" "get_n ?tm" "gettime ?tm"] assms(8) obtain tm4 where
    "restore (results ?tm) (get_n ?tm) (gettime ?tm) tm3 = Some tm4" by (auto simp: tm_ready_def)
  with assms l w2(1) w3(1) show ?thesis
    by (simp add: l_overhead_body_def get_results_def Let_def max_def)
qed

lemma calib_runs:
  "\<exists>t s1 l s2. t_overhead_body no_env 1 local_array calib_lib = Some (t, s1)
     \<and> l_overhead_body no_env 1 2 local_array local_array s1 = Some (l, s2)"
proof -
  have ready: "tm_ready 1 (lb_tm calib_lib)" "tm_ready 2 (lb_tm calib_lib)"
    using lib_init_ready [of "\<lambda>k. tv_zero"] by (simp_all add: calib_lib_def lib_init_def tm_ready_def timing_init_def)
  have clk: "\<forall>k. clock_fn (lb_tm calib_lib) k = tv_zero"
    by (simp add: calib_lib_def lib_init_def timing_init_def)
  define s1 where "s1 v it tm = calib_lib\<lparr>t_initialized := True, t_ovh_val := v, it_t := it, lb_tm := tm\<rparr>" for v it tm
  obtain v it tm where t: "t_overhead_body no_env 1 local_array calib_lib = Some (v, s1 v it tm)"
    "clock_fn tm = clock_fn (lb_tm calib_lib)" "kept (lb_tm calib_lib) tm"
    using t_overhead_body_stopped [OF _ _ _ _ clk _ ready(1), of no_env local_array]
    by (auto simp: s1_def calib_lib_def lib_init_def no_env_def)
  have "tm_ready 1 tm" "tm_ready 2 tm" using kept_ready ready t(3) by blast+
  then have "\<exists>l s2. l_overhead_body no_env 1 2 local_array local_array (s1 v it tm) = Some (l, s2)"
    using t(2) clk
    by (intro l_overhead_body_stopped [where t = tv_zero])
       (simp_all add: s1_def calib_lib_def lib_init_def no_env_def)
  with t(1) show ?thesis by blast
qed

text \<open>C34. Measuring the overheads is transparent to the caller: after \<open>t_overhead\<close> and
  \<open>l_overhead\<close> the measured time, the iteration count and the current result array are what
  they were before, although both run benchmarks of their own on the same global state.\<close>

theorem calibration_transparent:
  assumes "t_overhead_body os addr1 r0 s = Some (t, s1)" "l_overhead_body os addr1 addr2 r0 r0 s1 = Some (l, s2)"
    "addr1 \<noteq> results (lb_tm s)" "addr2 \<noteq> results (lb_tm s)"
  shows "gettime (lb_tm s2) = gettime (lb_tm s) \<and> get_n (lb_tm s2) = get_n (lb_tm s)
         \<and> get_results (lb_tm s2) = get_results (lb_tm s) \<and> cur_results (lb_tm s2) = cur_results (lb_tm s)"
proof -
  have v1: "same_view (lb_tm s) (lb_tm s1)" using t_overhead_body_view assms(1,3) by blast
  then have "same_view (lb_tm s1) (lb_tm s2)"
    using l_overhead_body_view [OF assms(2)] assms(3,4) by (simp add: same_view_def kept_def)
  with v1 show ?thesis by (simp add: same_view_def kept_def get_results_def)
qed

theorem calibration_transparent_witness:
  "\<exists>t s1 l s2. t_overhead_body no_env 1 local_array calib_lib = Some (t, s1)
     \<and> l_overhead_body no_env 1 2 local_array local_array s1 = Some (l, s2)
     \<and> gettime (lb_tm s2) = gettime (lb_tm calib_lib) \<and> get_n (lb_tm s2) = get_n (lb_tm calib_lib)"
proof -
  obtain t s1 l s2 where "t_overhead_body no_env 1 local_array calib_lib = Some (t, s1)"
    "l_overhead_body no_env 1 2 local_array local_array s1 = Some (l, s2)"
    using calib_runs by blast
  from calibration_transparent [OF this] this show ?thesis
    by (simp add: calib_lib_def lib_init_def timing_init_def)
qed
end
