(* ===== verification/Stats.thy ===== *)
theory Stats
  imports CDouble "HOL-Library.Monad_Syntax"
begin

text \<open>
  The statistics of \<open>src/lib_stats.c\<close>, for arrays of \<open>int\<close>, \<open>uint64\<close> and \<open>double\<close>. An array of \<open>size\<close>
  elements is a list; \<open>int\<close> values are integers with 32-bit wrap-around, \<open>uint64\<close> values words. A
  division of integers by zero, and a read of the first element of an empty array, is \<open>None\<close>.
  The locale \<open>comparison\<close> is the interface between \<open>qsort\<close> and the three comparison functions:
  it has what \<open>qsort\<close> needs of them and what the medians need of \<open>qsort\<close>.
\<close>

section \<open>Comparisons and qsort\<close>

definition int_compare :: "int \<Rightarrow> int \<Rightarrow> int" where
  "int_compare a b = (if a < b then - 1 else if a > b then 1 else 0)"

definition uint64_compare :: "u64 \<Rightarrow> u64 \<Rightarrow> int" where
  "uint64_compare a b = (if a < b then - 1 else if a > b then 1 else 0)"

definition double_compare :: "dbl \<Rightarrow> dbl \<Rightarrow> int" where
  "double_compare a b = (if d_lt a b then - 1 else if d_gt a b then 1 else 0)"

text \<open>\<open>qsort\<close> sorts by the comparison; elements that compare equal may come in any order, here
  in that of an insertion sort.\<close>

fun insert_by :: "('a \<Rightarrow> 'a \<Rightarrow> int) \<Rightarrow> 'a \<Rightarrow> 'a list \<Rightarrow> 'a list" where
  "insert_by cmp x [] = [x]"
| "insert_by cmp x (y # ys) = (if cmp x y \<le> 0 then x # y # ys else y # insert_by cmp x ys)"

definition qsort :: "('a \<Rightarrow> 'a \<Rightarrow> int) \<Rightarrow> 'a list \<Rightarrow> 'a list" where
  "qsort cmp xs = foldr (insert_by cmp) xs []"

section \<open>Median, mean, minimum and maximum\<close>

text \<open>The medians sort the caller's array in place; the first component is the result and the
  second the array afterwards.\<close>

definition int_median :: "int list \<Rightarrow> int \<times> int list" where
  "int_median values =
     (let vs = qsort int_compare values; n = length values in
      (if n = 0 then 0
       else if n mod 2 \<noteq> 0 then vs ! (n div 2)
       else c_div (wrap32 (vs ! (n div 2 - 1) + vs ! (n div 2))) 2, vs))"

definition uint64_median :: "u64 list \<Rightarrow> u64 \<times> u64 list" where
  "uint64_median values =
     (let vs = qsort uint64_compare values; n = length values in
      (if n = 0 then 0
       else if n mod 2 \<noteq> 0 then vs ! (n div 2)
       else (vs ! (n div 2 - 1) + vs ! (n div 2)) div 2, vs))"

definition double_median :: "dbl list \<Rightarrow> dbl \<times> dbl list" where
  "double_median values =
     (let vs = qsort double_compare values; n = length values in
      (if n = 0 then Fin 0
       else if n mod 2 \<noteq> 0 then vs ! (n div 2)
       else d_div (d_add (vs ! (n div 2 - 1)) (vs ! (n div 2))) (Fin 2), vs))"

definition int_sum :: "int list \<Rightarrow> int" where
  "int_sum values = foldl (\<lambda>s v. wrap32 (s + v)) 0 values"

definition int_mean :: "int list \<Rightarrow> int option" where
  "int_mean values = (if values = [] then None else Some (c_div (int_sum values) (int (length values))))"

definition uint64_mean :: "u64 list \<Rightarrow> u64 option" where
  "uint64_mean values =
     (if values = [] then None else Some (foldl (+) 0 values div of_nat (length values)))"

definition double_mean :: "dbl list \<Rightarrow> dbl" where
  "double_mean values = d_div (foldl d_add (Fin 0) values) (d_of_int (int (length values)))"

text \<open>The loops of the minima and maxima keep the first of the best elements.\<close>

fun best :: "('a \<Rightarrow> 'a \<Rightarrow> bool) \<Rightarrow> 'a \<Rightarrow> 'a list \<Rightarrow> 'a" where
  "best better m [] = m"
| "best better m (v # vs) = best better (if better v m then v else m) vs"

definition best_of :: "('a \<Rightarrow> 'a \<Rightarrow> bool) \<Rightarrow> 'a list \<Rightarrow> 'a option" where
  "best_of better values = (case values of [] \<Rightarrow> None | v # vs \<Rightarrow> Some (best better v vs))"

definition int_min :: "int list \<Rightarrow> int option" where "int_min = best_of (<)"
definition uint64_min :: "u64 list \<Rightarrow> u64 option" where "uint64_min = best_of (<)"
definition double_min :: "dbl list \<Rightarrow> dbl option" where "double_min = best_of d_lt"
definition int_max :: "int list \<Rightarrow> int option" where "int_max = best_of (>)"
definition uint64_max :: "u64 list \<Rightarrow> u64 option" where "uint64_max = best_of (>)"
definition double_max :: "dbl list \<Rightarrow> dbl option" where "double_max = best_of (\<lambda>a b. d_gt a b)"

section \<open>Variance, moments and what is built on them\<close>

definition d_sum :: "dbl list \<Rightarrow> dbl" where
  "d_sum xs = foldl d_add (Fin 0) xs"

abbreviation d_size :: "'a list \<Rightarrow> dbl" where
  "d_size xs \<equiv> d_of_int (int (length xs))"

abbreviation d_size1 :: "'a list \<Rightarrow> dbl" where
  "d_size1 xs \<equiv> d_of_int (int (length xs) - 1)"

definition int_variance :: "int list \<Rightarrow> dbl option" where
  "int_variance values =
     do { mean \<leftarrow> int_mean values;
          Some (d_div (d_sum (map (\<lambda>v. d_of_int (wrap32 (wrap32 (v - mean) * wrap32 (v - mean)))) values))
                      (d_size1 values)) }"

definition uint64_variance :: "u64 list \<Rightarrow> dbl option" where
  "uint64_variance values =
     do { mean \<leftarrow> uint64_mean values;
          Some (d_div (d_sum (map (\<lambda>v. d_of_u64 ((v - mean) * (v - mean))) values)) (d_size1 values)) }"

definition double_variance :: "dbl list \<Rightarrow> dbl" where
  "double_variance values =
     (let mean = double_mean values in
      d_div (d_sum (map (\<lambda>v. d_mul (d_sub v mean) (d_sub v mean)) values)) (d_size1 values))"

text \<open>\<open>m = diff; for (j = 1; j < moment; ++j) m *= diff;\<close>\<close>

fun d_power :: "dbl \<Rightarrow> nat \<Rightarrow> dbl \<Rightarrow> dbl" where
  "d_power diff 0 m = m"
| "d_power diff (Suc k) m = d_power diff k (d_mul m diff)"

definition power_of :: "int \<Rightarrow> dbl \<Rightarrow> dbl" where
  "power_of moment diff = d_power diff (nat (moment - 1)) diff"

definition int_moment :: "int \<Rightarrow> int list \<Rightarrow> dbl option" where
  "int_moment moment values =
     do { mean \<leftarrow> int_mean values;
          Some (d_div (d_sum (map (\<lambda>v. power_of moment (d_of_int (wrap32 (v - mean)))) values)) (d_size values)) }"

definition uint64_moment :: "int \<Rightarrow> u64 list \<Rightarrow> dbl option" where
  "uint64_moment moment values =
     do { mean \<leftarrow> uint64_mean values;
          Some (d_div (d_sum (map (\<lambda>v. power_of moment (d_of_u64 (v - mean))) values)) (d_size values)) }"

definition double_moment :: "int \<Rightarrow> dbl list \<Rightarrow> dbl" where
  "double_moment moment values =
     (let mean = double_mean values in
      d_div (d_sum (map (\<lambda>v. power_of moment (d_sub v mean)) values)) (d_size values))"

definition int_stderr :: "int list \<Rightarrow> dbl option" where
  "int_stderr values = map_option d_sqrt (int_variance values)"

definition uint64_stderr :: "u64 list \<Rightarrow> dbl option" where
  "uint64_stderr values = map_option d_sqrt (uint64_variance values)"

definition double_stderr :: "dbl list \<Rightarrow> dbl" where
  "double_stderr values = d_sqrt (double_variance values)"

definition skew_of :: "dbl \<Rightarrow> dbl \<Rightarrow> dbl" where
  "skew_of sigma moment3 = d_div moment3 (d_mul (d_mul sigma sigma) sigma)"

definition int_skew :: "int list \<Rightarrow> dbl option" where
  "int_skew values = do { sigma \<leftarrow> int_stderr values; m3 \<leftarrow> int_moment 3 values; Some (skew_of sigma m3) }"

definition uint64_skew :: "u64 list \<Rightarrow> dbl option" where
  "uint64_skew values = do { sigma \<leftarrow> uint64_stderr values; m3 \<leftarrow> uint64_moment 3 values; Some (skew_of sigma m3) }"

definition double_skew :: "dbl list \<Rightarrow> dbl" where
  "double_skew values = skew_of (double_stderr values) (double_moment 3 values)"

definition kurtosis_of :: "dbl \<Rightarrow> dbl \<Rightarrow> dbl" where
  "kurtosis_of variance moment4 = d_sub (d_div moment4 (d_mul variance variance)) (Fin 3)"

definition int_kurtosis :: "int list \<Rightarrow> dbl option" where
  "int_kurtosis values = do { v \<leftarrow> int_variance values; m4 \<leftarrow> int_moment 4 values; Some (kurtosis_of v m4) }"

definition uint64_kurtosis :: "u64 list \<Rightarrow> dbl option" where
  "uint64_kurtosis values = do { v \<leftarrow> uint64_variance values; m4 \<leftarrow> uint64_moment 4 values; Some (kurtosis_of v m4) }"

definition double_kurtosis :: "dbl list \<Rightarrow> dbl" where
  "double_kurtosis values = kurtosis_of (double_variance values) (double_moment 4 values)"

section \<open>Bootstrap\<close>

definition BOOTSTRAP_COUNT :: nat where "BOOTSTRAP_COUNT = 200"

text \<open>\<open>rands k\<close> is what the \<open>k\<close>-th call of \<open>rand()\<close> returns; sample number \<open>i\<close> takes \<open>size\<close> of them.\<close>

definition bootstrap_sample :: "(nat \<Rightarrow> nat) \<Rightarrow> 'a list \<Rightarrow> nat \<Rightarrow> 'a list" where
  "bootstrap_sample rands values i =
     map (\<lambda>j. values ! (rands (i * length values + j) mod length values)) [0..<length values]"

text \<open>The standard error of the statistics \<open>s\<close> of the samples.\<close>

definition bootstrap_stderr_of :: "dbl list \<Rightarrow> dbl" where
  "bootstrap_stderr_of s =
     (let s_sum = d_div (d_sum s) (d_of_int (int BOOTSTRAP_COUNT));
          sm = d_sum (map (\<lambda>x. d_mul (d_sub x s_sum) (d_sub x s_sum)) s)
      in d_sqrt (d_div sm (d_of_int (int BOOTSTRAP_COUNT - 1))))"

definition int_bootstrap_stderr :: "(nat \<Rightarrow> nat) \<Rightarrow> int list \<Rightarrow> (int list \<Rightarrow> int) \<Rightarrow> dbl" where
  "int_bootstrap_stderr rands values f =
     bootstrap_stderr_of (map (\<lambda>i. d_of_int (f (bootstrap_sample rands values i))) [0..<BOOTSTRAP_COUNT])"

definition uint64_bootstrap_stderr :: "(nat \<Rightarrow> nat) \<Rightarrow> u64 list \<Rightarrow> (u64 list \<Rightarrow> u64) \<Rightarrow> dbl" where
  "uint64_bootstrap_stderr rands values f =
     bootstrap_stderr_of (map (\<lambda>i. d_of_u64 (f (bootstrap_sample rands values i))) [0..<BOOTSTRAP_COUNT])"

definition double_bootstrap_stderr :: "(nat \<Rightarrow> nat) \<Rightarrow> dbl list \<Rightarrow> (dbl list \<Rightarrow> dbl) \<Rightarrow> dbl" where
  "double_bootstrap_stderr rands values f =
     bootstrap_stderr_of (map (\<lambda>i. f (bootstrap_sample rands values i)) [0..<BOOTSTRAP_COUNT])"

section \<open>Linear regression\<close>

record fit =
  fit_a :: dbl
  fit_b :: dbl
  fit_sig_a :: dbl
  fit_sig_b :: dbl
  fit_chi2 :: dbl

text \<open>The deviations \<open>sig\<close>, all 1 when the pointer is null. The products are taken from the left, as
  in the code.\<close>

definition sigs_of :: "dbl list option \<Rightarrow> nat \<Rightarrow> dbl list" where
  "sigs_of sig n = (case sig of Some ss \<Rightarrow> ss | None \<Rightarrow> replicate n (Fin 1))"

definition weights_of :: "dbl list option \<Rightarrow> nat \<Rightarrow> dbl list" where
  "weights_of sig n =
     (case sig of Some ss \<Rightarrow> map (\<lambda>s. d_div (Fin 1) (d_mul s s)) ss
                | None \<Rightarrow> replicate n (d_div (Fin 1) (Fin 1)))"

definition regression :: "dbl list \<Rightarrow> dbl list \<Rightarrow> dbl list option \<Rightarrow> fit" where
  "regression x y sig =
     (let n = length x;
          ws = weights_of sig n; ss = sigs_of sig n;
          S = d_sum ws;
          Sx = d_sum (map2 d_mul ws x);
          Sy = d_sum (map2 d_mul ws y);
          Sx_S = d_div Sx S;
          t = map2 (\<lambda>xi s. d_div (d_sub xi Sx_S) s) x ss;
          Stt = d_sum (map (\<lambda>ti. d_mul ti ti) t);
          b = d_sum (map (\<lambda>(ti, yi, s). d_div (d_mul ti yi) s) (zip t (zip y ss)));
          b = d_div b Stt;
          a = d_div (d_sub Sy (d_mul b Sx)) S;
          sig_a = d_sqrt (d_div (d_add (Fin 1) (d_div (d_mul Sx Sx) (d_mul S Stt))) S);
          sig_b = d_sqrt (d_div (Fin 1) Stt);
          merits = map (\<lambda>(xi, yi, s). d_div (d_sub yi (d_add a (d_mul b xi))) s) (zip x (zip y ss));
          chi2 = d_sum (map (\<lambda>m. d_mul m m) merits);
          scale = d_sqrt (d_div chi2 (d_of_int (int n - 2)))
      in if sig = None
         then \<lparr>fit_a = a, fit_b = b, fit_sig_a = d_mul sig_a scale, fit_sig_b = d_mul sig_b scale, fit_chi2 = chi2\<rparr>
         else \<lparr>fit_a = a, fit_b = b, fit_sig_a = sig_a, fit_sig_b = sig_b, fit_chi2 = chi2\<rparr>)"

section \<open>Sorting\<close>

locale comparison =
  fixes cmp :: "'a \<Rightarrow> 'a \<Rightarrow> int" and valid :: "'a \<Rightarrow> bool"
  assumes cmp_total: "valid a \<Longrightarrow> valid b \<Longrightarrow> cmp a b \<le> 0 \<or> cmp b a \<le> 0"
    and cmp_trans: "valid a \<Longrightarrow> valid b \<Longrightarrow> valid c \<Longrightarrow> cmp a b \<le> 0 \<Longrightarrow> cmp b c \<le> 0 \<Longrightarrow> cmp a c \<le> 0"
begin

lemma mset_insert_by: "mset (insert_by cmp x xs) = add_mset x (mset xs)"
  by (induction xs) auto

lemma mset_qsort: "mset (qsort cmp xs) = mset xs"
  by (induction xs) (simp_all add: qsort_def mset_insert_by)

lemma set_qsort: "set (qsort cmp xs) = set xs"
  using mset_qsort by (metis set_mset_mset)

lemma length_qsort: "length (qsort cmp xs) = length xs"
  using mset_qsort by (metis size_mset)

lemma sorted_insert_by:
  "valid x \<Longrightarrow> \<forall>y \<in> set xs. valid y \<Longrightarrow> sorted_wrt (\<lambda>a b. cmp a b \<le> 0) xs \<Longrightarrow>
   sorted_wrt (\<lambda>a b. cmp a b \<le> 0) (insert_by cmp x xs)"
proof (induction xs)
  case (Cons y ys)
  have set_ins: "set (insert_by cmp x ys) = insert x (set ys)"
    using mset_insert_by [of x ys] by (metis set_mset_add_mset_insert set_mset_mset)
  show ?case
  proof (cases "cmp x y \<le> 0")
    case True
    have "cmp x z \<le> 0" if "z \<in> set ys" for z
      using cmp_trans [of x y z] Cons.prems True that by simp
    with True Cons.prems show ?thesis by simp
  next
    case False
    then have "cmp y x \<le> 0" using cmp_total [of x y] Cons.prems by auto
    with False Cons set_ins show ?thesis by simp
  qed
qed simp

lemma sorted_qsort: "\<forall>x \<in> set xs. valid x \<Longrightarrow> sorted_wrt (\<lambda>a b. cmp a b \<le> 0) (qsort cmp xs)"
proof (induction xs)
  case (Cons x xs)
  moreover have "qsort cmp (x # xs) = insert_by cmp x (qsort cmp xs)" by (simp add: qsort_def)
  ultimately show ?case using set_qsort [of xs] by (simp add: sorted_insert_by)
qed (simp add: qsort_def)

text \<open>The middle of the sorted array: at most half of the elements come strictly before it and
  at most half strictly after it.\<close>

lemma middle:
  assumes "\<forall>x \<in> set xs. valid x" "odd (length xs)"
  defines "m \<equiv> qsort cmp xs ! (length xs div 2)"
  shows "m \<in> set xs" "length (filter (\<lambda>x. \<not> cmp m x \<le> 0) xs) \<le> length xs div 2"
    "length (filter (\<lambda>x. \<not> cmp x m \<le> 0) xs) \<le> length xs div 2"
proof -
  let ?ys = "qsort cmp xs" and ?k = "length xs div 2"
  have k: "?k < length ?ys" using odd_pos [OF assms(2)] length_qsort [of xs] by simp
  then show "m \<in> set xs" unfolding m_def using set_qsort [of xs] nth_mem by metis
  have v: "valid (?ys ! i)" if "i < length ?ys" for i
    using assms(1) set_qsort [of xs] that by (metis nth_mem)
  have refl: "cmp m m \<le> 0" unfolding m_def using cmp_total v [OF k] by blast
  have le: "cmp (?ys ! i) (?ys ! j) \<le> 0" if "i < j" "j < length ?ys" for i j
    using sorted_qsort [OF assms(1)] that by (simp add: sorted_wrt_iff_nth_less)
  have eq: "length (filter P xs) = length (filter P ?ys)" for P
    using mset_qsort [of xs] by (metis mset_filter size_mset)
  have split: "?ys = take ?k ?ys @ drop ?k ?ys" by simp
  have drop: "\<forall>x \<in> set (drop ?k ?ys). cmp m x \<le> 0"
  proof
    fix x assume "x \<in> set (drop ?k ?ys)"
    then obtain j where j: "j < length (drop ?k ?ys)" "x = drop ?k ?ys ! j" by (metis in_set_conv_nth)
    then show "cmp m x \<le> 0" using le [of ?k "?k + j"] refl k by (cases j) (auto simp: m_def)
  qed
  have "filter (\<lambda>x. \<not> cmp m x \<le> 0) ?ys = filter (\<lambda>x. \<not> cmp m x \<le> 0) (take ?k ?ys)"
    by (subst split, subst filter_append) (use drop in \<open>simp add: filter_empty_conv\<close>)
  then show "length (filter (\<lambda>x. \<not> cmp m x \<le> 0) xs) \<le> ?k"
    using eq [of "\<lambda>x. \<not> cmp m x \<le> 0"] length_filter_le [of _ "take ?k ?ys"] by (metis length_take min.boundedE)
  have split': "?ys = take (Suc ?k) ?ys @ drop (Suc ?k) ?ys" by simp
  have take: "\<forall>x \<in> set (take (Suc ?k) ?ys). cmp x m \<le> 0"
  proof
    fix x assume "x \<in> set (take (Suc ?k) ?ys)"
    then obtain i where i: "i < Suc ?k" "x = ?ys ! i" using k by (auto simp: in_set_conv_nth)
    then show "cmp x m \<le> 0" using le [of i ?k] refl k by (cases "i = ?k") (auto simp: m_def)
  qed
  have "filter (\<lambda>x. \<not> cmp x m \<le> 0) ?ys = filter (\<lambda>x. \<not> cmp x m \<le> 0) (drop (Suc ?k) ?ys)"
    by (subst split', subst filter_append) (use take in \<open>simp add: filter_empty_conv\<close>)
  then have "length (filter (\<lambda>x. \<not> cmp x m \<le> 0) xs) \<le> length (drop (Suc ?k) ?ys)"
    using eq [of "\<lambda>x. \<not> cmp x m \<le> 0"] length_filter_le by metis
  also have "\<dots> \<le> ?k" using length_qsort [of xs] by simp
  finally show "length (filter (\<lambda>x. \<not> cmp x m \<le> 0) xs) \<le> ?k" .
qed

end

interpretation int_cmp: comparison int_compare "\<lambda>_. True"
  by unfold_locales (auto simp: int_compare_def split: if_splits)

interpretation uint64_cmp: comparison uint64_compare "\<lambda>_. True"
  by unfold_locales (auto simp: uint64_compare_def split: if_splits)

lemma double_compare_le: "a \<noteq> NaN \<Longrightarrow> b \<noteq> NaN \<Longrightarrow> double_compare a b \<le> 0 \<longleftrightarrow> d_le a b"
  using d_not_lt [of b a] d_lt_asym [of a b] by (auto simp: double_compare_def d_lt_imp_le)

interpretation double_cmp: comparison double_compare "\<lambda>d. d \<noteq> NaN"
proof unfold_locales
  fix a b c :: dbl
  show "double_compare a b \<le> 0 \<or> double_compare b a \<le> 0" if "a \<noteq> NaN" "b \<noteq> NaN"
    using that d_not_lt [of a b] by (auto simp: double_compare_le d_lt_imp_le)
  show "double_compare a c \<le> 0"
    if "a \<noteq> NaN" "b \<noteq> NaN" "c \<noteq> NaN" "double_compare a b \<le> 0" "double_compare b c \<le> 0"
    using that d_le_trans [of a b c] by (simp add: double_compare_le)
qed

section \<open>Minima and maxima\<close>

lemma best_spec:
  assumes irrefl: "\<And>a. ok a \<Longrightarrow> \<not> better a a"
    and step: "\<And>a b c. ok a \<Longrightarrow> ok b \<Longrightarrow> ok c \<Longrightarrow> better b c \<Longrightarrow> \<not> better a c \<Longrightarrow> \<not> better a b"
    and trans: "\<And>a b c. ok a \<Longrightarrow> ok b \<Longrightarrow> ok c \<Longrightarrow> \<not> better a b \<Longrightarrow> \<not> better b c \<Longrightarrow> \<not> better a c"
  shows "\<forall>x \<in> set (m # vs). ok x \<Longrightarrow>
         best better m vs \<in> set (m # vs) \<and> (\<forall>v \<in> set (m # vs). \<not> better v (best better m vs))"
proof (induction vs arbitrary: m)
  case Nil
  then show ?case using irrefl by simp
next
  case (Cons v vs)
  let ?m = "if better v m then v else m"
  let ?b = "best better ?m vs"
  have ok: "\<forall>x \<in> set (?m # vs). ok x" using Cons.prems by auto
  note IH = Cons.IH [OF ok]
  have okb: "ok ?b" using IH ok by blast
  have "\<not> better x ?b" if "x \<in> {m, v}" for x
  proof -
    have okx: "ok x" "ok ?m" "ok m" "ok v" using that Cons.prems by auto
    have "\<not> better x ?m" using that irrefl [OF okx(3)] irrefl [OF okx(4)] step [of m v m] okx by auto
    with trans [OF okx(1,2) okb] IH show ?thesis by simp
  qed
  with IH show ?case by auto
qed

lemma best_of_spec:
  assumes "\<And>a. ok a \<Longrightarrow> \<not> better a a"
    "\<And>a b c. ok a \<Longrightarrow> ok b \<Longrightarrow> ok c \<Longrightarrow> better b c \<Longrightarrow> \<not> better a c \<Longrightarrow> \<not> better a b"
    "\<And>a b c. ok a \<Longrightarrow> ok b \<Longrightarrow> ok c \<Longrightarrow> \<not> better a b \<Longrightarrow> \<not> better b c \<Longrightarrow> \<not> better a c"
    "vs \<noteq> []" "\<forall>x \<in> set vs. ok x"
  shows "\<exists>m. best_of better vs = Some m \<and> m \<in> set vs \<and> (\<forall>v \<in> set vs. \<not> better v m)"
  using assms(4,5) best_spec [of ok better, OF assms(1-3)] by (cases vs) (simp_all add: best_of_def)

section \<open>Properties\<close>

lemma best_of_Min: "vs \<noteq> [] \<Longrightarrow> best_of (<) vs = Some (Min (set vs))" for vs :: "'x :: linorder list"
proof -
  assume "vs \<noteq> []"
  then have "\<exists>m. best_of (<) vs = Some m \<and> m \<in> set vs \<and> (\<forall>v \<in> set vs. \<not> v < m)"
    by (intro best_of_spec [of "\<lambda>_. True"]) (order | simp)+
  then obtain m where "best_of (<) vs = Some m" "m \<in> set vs" "\<forall>v \<in> set vs. \<not> v < m" by blast
  moreover from this(2,3) have "Min (set vs) = m" by (intro Min_eqI) (simp_all add: not_less)
  ultimately show ?thesis by simp
qed

lemma best_of_Max: "vs \<noteq> [] \<Longrightarrow> best_of (>) vs = Some (Max (set vs))" for vs :: "'x :: linorder list"
proof -
  assume "vs \<noteq> []"
  then have "\<exists>m. best_of (>) vs = Some m \<and> m \<in> set vs \<and> (\<forall>v \<in> set vs. \<not> v > m)"
    by (intro best_of_spec [of "\<lambda>_. True"]) (order | simp)+
  then obtain m where "best_of (>) vs = Some m" "m \<in> set vs" "\<forall>v \<in> set vs. \<not> v > m" by blast
  moreover from this(2,3) have "Max (set vs) = m" by (intro Max_eqI) (simp_all add: not_less)
  ultimately show ?thesis by simp
qed

lemma d_lt_negtrans: "a \<noteq> NaN \<Longrightarrow> b \<noteq> NaN \<Longrightarrow> c \<noteq> NaN \<Longrightarrow> \<not> d_lt a b \<Longrightarrow> \<not> d_lt b c \<Longrightarrow> \<not> d_lt a c"
  by (metis d_not_lt d_le_trans)

lemma best_of_d_lt:
  "vs \<noteq> [] \<Longrightarrow> \<forall>x \<in> set vs. x \<noteq> NaN \<Longrightarrow>
   \<exists>m. best_of d_lt vs = Some m \<and> m \<in> set vs \<and> (\<forall>v \<in> set vs. \<not> d_lt v m)"
  by (rule best_of_spec [of "\<lambda>x. x \<noteq> NaN"]) (metis d_lt_asym d_lt_trans d_lt_negtrans)+

lemma best_of_d_gt:
  "vs \<noteq> [] \<Longrightarrow> \<forall>x \<in> set vs. x \<noteq> NaN \<Longrightarrow>
   \<exists>m. best_of (\<lambda>a b. d_lt b a) vs = Some m \<and> m \<in> set vs \<and> (\<forall>v \<in> set vs. \<not> d_lt m v)"
  by (rule best_of_spec [of "\<lambda>x. x \<noteq> NaN"]) (metis d_lt_asym d_lt_trans d_lt_negtrans)+

text \<open>An element with at most half of the others below it and at most half above it.\<close>

definition is_median :: "('a \<Rightarrow> 'a \<Rightarrow> bool) \<Rightarrow> 'a \<Rightarrow> 'a list \<Rightarrow> bool" where
  "is_median lt m xs = (m \<in> set xs \<and> 2 * length (filter (\<lambda>x. lt x m) xs) \<le> length xs
     \<and> 2 * length (filter (\<lambda>x. lt m x) xs) \<le> length xs)"

lemma is_medianI:
  "m \<in> set xs \<Longrightarrow> length (filter (\<lambda>x. lt x m) xs) \<le> length xs div 2 \<Longrightarrow>
   length (filter (\<lambda>x. lt m x) xs) \<le> length xs div 2 \<Longrightarrow> is_median lt m xs"
  unfolding is_median_def by linarith

text \<open>C38. On an odd number of values the three medians are medians: an element of the array with
  at most half of the values below it and at most half above it (for doubles, when no value
  is NaN), and the array keeps its values.\<close>

theorem medians_odd:
  assumes "odd (length ks)" "odd (length us)" "odd (length ds)" "NaN \<notin> set ds"
  shows "is_median (<) (fst (int_median ks)) ks \<and> mset (snd (int_median ks)) = mset ks
       \<and> is_median (<) (fst (uint64_median us)) us \<and> mset (snd (uint64_median us)) = mset us
       \<and> is_median d_lt (fst (double_median ds)) ds \<and> mset (snd (double_median ds)) = mset ds"
proof (intro conjI)
  have i: "(\<not> int_compare a b \<le> 0) = (b < a)" for a b by (simp add: int_compare_def)
  have ne: "ks \<noteq> []" "us \<noteq> []" "ds \<noteq> []" using assms(1-3) by auto
  show "is_median (<) (fst (int_median ks)) ks"
    using int_cmp.middle [of ks] assms(1) ne
    by (intro is_medianI) (simp_all add: int_median_def Let_def mod2_eq_if i)
  have u: "(\<not> uint64_compare a b \<le> 0) = (b < a)" for a b
    by (simp add: uint64_compare_def) (metis less_asym)
  show "is_median (<) (fst (uint64_median us)) us"
    using uint64_cmp.middle [of us] assms(2) ne
    by (intro is_medianI) (simp_all add: uint64_median_def Let_def mod2_eq_if u)
  have d: "(\<not> double_compare a b \<le> 0) = d_lt b a" for a b
    using d_lt_asym by (auto simp: double_compare_def)
  have "\<forall>x \<in> set ds. x \<noteq> NaN" using assms(4) by blast
  then show "is_median d_lt (fst (double_median ds)) ds"
    using double_cmp.middle [of ds] assms(3) ne
    by (intro is_medianI) (simp_all add: double_median_def Let_def mod2_eq_if d)
qed (simp_all add: int_median_def uint64_median_def double_median_def Let_def
       int_cmp.mset_qsort uint64_cmp.mset_qsort double_cmp.mset_qsort)

theorem medians_odd_witness:
  "is_median (<) (fst (int_median [9, 2, 4])) [9, 2, 4] \<and> fst (int_median [9, 2, 4]) = 4
   \<and> is_median (<) (fst (uint64_median [5])) [5] \<and> is_median d_lt (fst (double_median [Fin 1])) [Fin 1]"
  using medians_odd [of "[9, 2, 4]" "[5]" "[Fin 1]"]
  by (simp add: int_median_def qsort_def int_compare_def)

text \<open>The minima and maxima of a nonempty array are its least and greatest elements (for
  doubles, when no value is NaN).\<close>

theorem extremes_correct:
  assumes "ks \<noteq> []" "us \<noteq> []" "ds \<noteq> []" "NaN \<notin> set ds"
  shows "int_min ks = Some (Min (set ks)) \<and> int_max ks = Some (Max (set ks))
       \<and> uint64_min us = Some (Min (set us)) \<and> uint64_max us = Some (Max (set us))
       \<and> (\<exists>m. double_min ds = Some m \<and> m \<in> set ds \<and> (\<forall>v \<in> set ds. d_le m v))
       \<and> (\<exists>m. double_max ds = Some m \<and> m \<in> set ds \<and> (\<forall>v \<in> set ds. d_le v m))"
proof -
  have ok: "\<forall>x \<in> set ds. x \<noteq> NaN" using assms(4) by blast
  have min: "\<exists>m. double_min ds = Some m \<and> m \<in> set ds \<and> (\<forall>v \<in> set ds. \<not> d_lt v m)"
    unfolding double_min_def using assms(3) ok by (intro best_of_d_lt) 
  have max: "\<exists>m. double_max ds = Some m \<and> m \<in> set ds \<and> (\<forall>v \<in> set ds. \<not> d_lt m v)"
    unfolding double_max_def using assms(3) ok by (intro best_of_d_gt)
  show ?thesis
  proof (intro conjI)
    show "\<exists>m. double_min ds = Some m \<and> m \<in> set ds \<and> (\<forall>v \<in> set ds. d_le m v)"
      using min ok d_not_lt by metis
    show "\<exists>m. double_max ds = Some m \<and> m \<in> set ds \<and> (\<forall>v \<in> set ds. d_le v m)"
      using max ok d_not_lt by metis
  qed (use assms(1,2) in \<open>simp_all add: int_min_def int_max_def uint64_min_def uint64_max_def
         best_of_Min best_of_Max\<close>)
qed

theorem extremes_correct_witness:
  "int_min [3, - 7, 5] = Some (- 7) \<and> uint64_max [4, 9] = Some 9 \<and> (\<exists>m. double_min [Fin 2] = Some m)"
  using extremes_correct [of "[3, - 7, 5]" "[4, 9]" "[Fin 2]"] by simp

text \<open>\<open>uint64_moment\<close> subtracts the mean from the values in unsigned arithmetic, so a value
  below the mean counts as a difference of nearly \<open>2^64\<close>: the first moment of 1 and 3, which is
  0 for \<open>int_moment\<close>, is larger than \<open>2^50\<close>.\<close>

theorem uint64_moment_wraps:
  "int_moment 1 [1, 3] = Some (Fin 0) \<and> (\<exists>x. uint64_moment 1 [1, 3] = Some (Fin x) \<and> 2 ^ 50 < x)"
proof
  have "d_of_int (- 1) = Fin (- 1)" "d_of_int 1 = Fin 1" "d_of_int 2 = Fin 2"
    using d_of_int_exact [of "- 1"] d_of_int_exact [of 1] d_of_int_exact [of 2] by simp_all
  moreover have "to_dbl (- 1) = Fin (- 1)" using to_dbl_of_int [of "- 1"] by simp
  ultimately show "int_moment 1 [1, 3] = Some (Fin 0)"
    by (simp add: int_moment_def int_mean_def int_sum_def c_div_def wrap32_def d_sum_def power_of_def)
  define y where "y = rnd (u2r (- 1))"
  have "uint (- 1 :: u64) = 2 ^ 64 - 1" by (simp add: uint_word_ariths)
  then have "of_int (2 ^ 52) \<le> u2r (- 1)" unfolding u2r_def by (subst of_int_le_iff) simp
  then have y: "2 ^ 52 \<le> y" using rnd.r_ge_int [of "2 ^ 52" "u2r (- 1)"] by (simp add: y_def)
  have y64: "y \<le> 2 ^ 64" using u2r_bounds [of "- 1"] rnd_le_pow [of "u2r (- 1)" 64] by (simp add: y_def)
  define z where "z = rnd (rnd y + 1)"
  have ry: "2 ^ 52 \<le> rnd y" "rnd y \<le> 2 ^ 64"
    using y y64 rnd.r_ge_int [of "2 ^ 52" y] rnd_le_pow [of y 64] by simp_all
  have z: "2 ^ 52 \<le> z" "z \<le> 2 ^ 65"
    using ry rnd.r_ge_int [of "2 ^ 52" "rnd y + 1"] rnd_le_pow [of "rnd y + 1" 65] by (simp_all add: z_def)
  have "of_int (2 ^ 51) \<le> z / 2" using z by simp
  then have "2 ^ 51 \<le> rnd (z / 2)" using rnd.r_ge_int [of "2 ^ 51" "z / 2"] by simp
  then have big: "2 ^ 50 < rnd (z / 2)" by simp
  have d: "d_of_u64 (- 1) = Fin y" "d_of_u64 1 = Fin 1" "d_of_int 2 = Fin 2"
    using rnd_u2r_exact [of 1] d_of_int_exact [of 2] by (simp_all add: d_of_u64_Fin y_def) (simp add: u2r_def)
  have "to_dbl y = Fin (rnd y)" using y y64 by (intro to_dbl_finite [of _ 64]) simp_all
  moreover have "to_dbl (rnd y + 1) = Fin z" using ry by (subst to_dbl_finite [of _ 65]) (simp_all add: z_def)
  moreover have "to_dbl (z / 2) = Fin (rnd (z / 2))" using z by (intro to_dbl_finite [of _ 65]) simp_all
  ultimately have "uint64_moment 1 [1, 3] = Some (Fin (rnd (z / 2)))"
    using d by (simp add: uint64_moment_def uint64_mean_def d_sum_def power_of_def)
  with big show "\<exists>x. uint64_moment 1 [1, 3] = Some (Fin x) \<and> 2 ^ 50 < x" by blast
qed

end
