(* ===== verification/Util.thy ===== *)
theory Util
  imports Timing
begin

text \<open>
  The utilities of \<open>src/lib_timing.c\<close>: the number printers \<open>p64\<close> and \<open>p64sz\<close>, the size parser
  \<open>bytes\<close> with \<open>last\<close>, \<open>bread\<close>, \<open>touch\<close>, \<open>permutation\<close>, \<open>cp\<close> and \<open>seekto\<close> (without \<open>lseek64\<close>).
  A C string is the list of its characters without the terminating zero. What the operating
  system and \<open>rand\<close> return are arguments.
\<close>

section \<open>Printing numbers\<close>

text \<open>\<open>%x\<close>, \<open>%08x\<close> and the rotating index \<open>n\<close> of the ten buffers.\<close>

definition hex_digit :: "nat \<Rightarrow> char" where
  "hex_digit d = ''0123456789abcdef'' ! d"

fun hex :: "nat \<Rightarrow> string" where
  "hex n = (if n < 16 then [hex_digit n] else hex (n div 16) @ [hex_digit (n mod 16)])"

declare hex.simps [simp del]

definition hex8 :: "nat \<Rightarrow> string" where
  "hex8 n = replicate (8 - length (hex n)) (CHR ''0'') @ hex n"

definition next_buf :: "nat \<Rightarrow> nat" where
  "next_buf n = (if n + 1 = 10 then 0 else n + 1)"

definition p64 :: "nat \<Rightarrow> u64 \<Rightarrow> string \<times> nat" where
  "p64 n big =
     (let hi = unat big div 2 ^ 32; lo = unat big mod 2 ^ 32
      in (if hi \<noteq> 0 then ''0x'' @ hex hi @ hex8 lo else ''0x'' @ hex lo, next_buf n))"

text \<open>\<open>while (d > 512) t++, d /= 1024;\<close>. The loop never ends for an infinite value, so it has
  fuel; seven rounds are enough for every 64-bit number. The result is what is printed: the
  value with its number of decimals and the tag.\<close>

fun p64sz_scale :: "nat \<Rightarrow> dbl \<Rightarrow> nat \<Rightarrow> (dbl \<times> nat) option" where
  "p64sz_scale fuel d t =
     (if d_gt d (Fin 512) then
        (case fuel of 0 \<Rightarrow> None | Suc f \<Rightarrow> p64sz_scale f (d_div d (Fin 1024)) (Suc t))
      else Some (d, t))"

declare p64sz_scale.simps [simp del]

definition tags :: string where
  "tags = '' KMGTPE''"

definition p64sz :: "nat \<Rightarrow> u64 \<Rightarrow> (out list \<times> nat) option" where
  "p64sz n big =
     do { (d, t) \<leftarrow> p64sz_scale 7 (d_of_u64 big) 0;
          if d_eq d (Fin 0) then Some ([OStr ''0''], next_buf n)
          else do { c \<leftarrow> arr_get tags t;
                    Some ([OFix (if d_lt d (Fin 100) then 4 else 2) d, OStr [c]], next_buf n) } }"

section \<open>Parsing sizes\<close>

text \<open>\<open>last\<close> reads \<open>s[-2]\<close> after the zero: the last character, or memory before the string.\<close>

definition last_char :: "string \<Rightarrow> char option" where
  "last_char s = (if s = [] then None else Some (List.last s))"

definition is_space :: "char \<Rightarrow> bool" where
  "is_space c = (c \<in> {CHR '' '', CHR 0x09, CHR 0x0A, CHR 0x0B, CHR 0x0C, CHR 0x0D})"

definition is_digit :: "char \<Rightarrow> bool" where
  "is_digit c = (48 \<le> (of_char c :: nat) \<and> (of_char c :: nat) \<le> 57)"

definition digit_val :: "char \<Rightarrow> nat" where
  "digit_val c = of_char c - 48"

definition dec_val :: "string \<Rightarrow> nat" where
  "dec_val ds = foldl (\<lambda>n c. 10 * n + digit_val c) 0 ds"

text \<open>\<open>sscanf(s, "%llu", &n)\<close>: white space, a sign, digits; too large values saturate, a
  negative one is negated modulo \<open>2^64\<close>. \<open>None\<close> when there is no number.\<close>

definition scan_llu :: "string \<Rightarrow> u64 option" where
  "scan_llu s =
     (let s = dropWhile is_space s;
          (neg, s) = (case s of c # s' \<Rightarrow> if c = CHR ''-'' then (True, s') else if c = CHR ''+'' then (False, s') else (False, s)
                              | [] \<Rightarrow> (False, s));
          ds = takeWhile is_digit s
      in if ds = [] then None
         else if 2 ^ 64 \<le> dec_val ds then Some (- 1)
         else Some (if neg then - of_nat (dec_val ds) else of_nat (dec_val ds)))"

definition bytes :: "string \<Rightarrow> u64 option" where
  "bytes s =
     (case scan_llu s of None \<Rightarrow> Some 0
      | Some n \<Rightarrow>
          do { c \<leftarrow> last_char s;
               Some (if c = CHR ''k'' then push_bit 10 n
                     else if c = CHR ''K'' then n * 1000
                     else if c = CHR ''m'' then push_bit 20 n
                     else if c = CHR ''M'' then n * 1000000
                     else if c = CHR ''g'' then push_bit 30 n
                     else if c = CHR ''G'' then n * 1000000000
                     else n) })"

section \<open>Reading and touching memory\<close>

text \<open>\<open>bread\<close> over the 8-byte words of the buffer, with its three loops. \<open>words\<close> is the buffer
  from \<open>p\<close> on and \<open>left\<close> the bytes from \<open>p\<close> to \<open>end\<close>; every word read is checked.\<close>

fun read_words :: "u64 list \<Rightarrow> nat \<Rightarrow> u64 option" where
  "read_words words 0 = Some 0"
| "read_words (w # words) (Suc k) = do { s \<leftarrow> read_words words k; Some (w + s) }"
| "read_words [] (Suc k) = None"

fun bread_loop :: "nat \<Rightarrow> u64 list \<Rightarrow> nat \<Rightarrow> u64 \<Rightarrow> (u64 list \<times> nat \<times> u64) option" where
  "bread_loop step words left acc =
     (if step \<noteq> 0 \<and> 8 * step \<le> left then
        do { s \<leftarrow> read_words words step;
             bread_loop step (drop step words) (left - 8 * step) (acc + s) }
      else Some (words, left, acc))"

declare bread_loop.simps [simp del]

definition bread :: "u64 list \<Rightarrow> nat \<Rightarrow> u64 option" where
  "bread buf nbytes =
     do { (p, left, acc) \<leftarrow> bread_loop 128 buf nbytes 0;
          (p, left, acc) \<leftarrow> bread_loop 16 p left acc;
          (p, left, acc) \<leftarrow> bread_loop 1 p left acc;
          Some acc }"

text \<open>\<open>touch\<close> writes a byte per page; an array cell out of range is \<open>None\<close>.\<close>

fun touch_loop :: "nat \<Rightarrow> char list \<Rightarrow> nat \<Rightarrow> nat \<Rightarrow> char list option" where
  "touch_loop psize buf pos nbytes =
     (if psize \<noteq> 0 \<and> psize \<le> nbytes then
        do { buf \<leftarrow> arr_set buf pos (CHR 0x01); touch_loop psize buf (pos + psize) (nbytes - psize) }
      else Some buf)"

declare touch_loop.simps [simp del]

definition touch :: "nat \<Rightarrow> char list \<Rightarrow> nat \<Rightarrow> char list option" where
  "touch psize buf nbytes = touch_loop psize buf 0 nbytes"

section \<open>permutation\<close>

text \<open>\<open>rnd\<close> is the sequence \<open>rand()\<close> returns in the loop, \<open>r\<close> the static seed.\<close>

fun shuffle :: "nat \<Rightarrow> nat list \<Rightarrow> nat \<Rightarrow> u64 \<Rightarrow> u64 list \<Rightarrow> (u64 list \<times> u64) option" where
  "shuffle mx [] i r result = Some (result, r)"
| "shuffle mx (x # rnds) i r result =
     (let r = push_bit 1 r XOR of_nat x;
          o' = unat r mod mx
      in do { v \<leftarrow> arr_get result o';
              w \<leftarrow> arr_get result i;
              result \<leftarrow> arr_set result o' w;
              result \<leftarrow> arr_set result i v;
              shuffle mx rnds (Suc i) r result })"

text \<open>The first seed is \<open>(getpid()<<6) ^ getppid() ^ rand() ^ (rand()<<10)\<close>, taken when the
  static variable is still zero. The list \<open>rnds\<close> has one number for each round.\<close>

definition permutation :: "u64 \<Rightarrow> nat list \<Rightarrow> u64 \<Rightarrow> u64 \<Rightarrow> (u64 list \<times> u64) option" where
  "permutation seed rnds scale r =
     (let mx = length rnds;
          result = map (\<lambda>i. of_nat i * scale) [0..<mx];
          r = (if r = 0 then seed else r)
      in shuffle mx rnds 0 r result)"

section \<open>Files\<close>

text \<open>\<open>cp\<close>: the answers of \<open>open\<close>, the sizes \<open>read\<close> returns (at most 8192 and at most what is left;
  zero or less ends the loop) and the sizes \<open>write\<close> returns. The result is the return value and
  the contents of the destination.\<close>

fun cp_loop :: "string \<Rightarrow> (int \<times> int) list \<Rightarrow> string \<Rightarrow> int \<times> string" where
  "cp_loop src [] dst = (0, dst)"
| "cp_loop src ((rd, wr) # rest) dst =
     (if 0 < rd then
        if wr < rd then (- 1, dst @ take (nat wr) src)
        else cp_loop (drop (nat rd) src) rest (dst @ take (nat rd) src)
      else (0, dst))"

definition cp :: "bool \<Rightarrow> bool \<Rightarrow> string \<Rightarrow> (int \<times> int) list \<Rightarrow> int \<times> string" where
  "cp open_src open_dst src io =
     (if \<not> open_src then (- 1, []) else if \<not> open_dst then (- 1, []) else cp_loop src io [])"

text \<open>\<open>seekto\<close> without \<open>lseek64\<close>: relative seeks of at most \<open>BIGSEEK\<close>. The file position is the
  state; \<open>lseek\<close> fails on a negative position. The return value passes through an \<open>int\<close>.\<close>

datatype whence = SEEK_SET | SEEK_CUR | SEEK_END

definition BIGSEEK :: int where "BIGSEEK = 2 ^ 30"

definition lseek :: "int \<Rightarrow> int \<Rightarrow> int option" where
  "lseek pos off = (if pos + off < 0 then None else Some (pos + off))"

text \<open>The loop: whether all seeks succeeded, the position and \<open>here\<close>.\<close>

function seek_loop :: "int \<Rightarrow> int \<Rightarrow> int \<Rightarrow> int \<Rightarrow> bool \<times> int \<times> int" where
  "seek_loop dlt off here pos =
     (if (off - here < dlt \<and> dlt < 0 \<or> 0 < dlt \<and> dlt < off - here)
      then case lseek pos dlt of None \<Rightarrow> (False, pos, here)
           | Some pos \<Rightarrow> seek_loop dlt off (here + dlt) pos
      else (True, pos, here))"
  by pat_completeness auto
termination
  by (relation "measure (\<lambda>(dlt, off, here, pos). nat \<bar>off - here\<bar>)") auto

declare seek_loop.simps [simp del]

definition seekto :: "int \<Rightarrow> int \<Rightarrow> whence \<Rightarrow> int \<Rightarrow> int \<times> int" where
  "seekto end_pos off wh pos =
     (let dlt = (if 0 \<le> off then BIGSEEK else - BIGSEEK);
          pos0 = (case wh of SEEK_SET \<Rightarrow> 0 | SEEK_END \<Rightarrow> end_pos | SEEK_CUR \<Rightarrow> pos)
      in if wh = SEEK_CUR \<and> off = 0 then (pos, pos)
         else let (ok, p, here) = seek_loop dlt off 0 pos0 in
              if \<not> ok then (- 1, p)
              else case lseek p (wrap32 (off - here)) of
                     None \<Rightarrow> (- 1, p)
                   | Some p' \<Rightarrow> (if wrap32 p' \<noteq> - 1 \<and> wh = SEEK_SET then off else wrap32 p', p'))"

section \<open>Lemmas\<close>

subsection \<open>Printing\<close>

text \<open>The value of a hexadecimal string.\<close>

definition hex_val :: "string \<Rightarrow> nat" where
  "hex_val s = foldl (\<lambda>n c. 16 * n + (if is_digit c then digit_val c else of_char c - 87)) 0 s"

lemma hex_val_snoc: "hex_val (s @ [c]) = 16 * hex_val s + (if is_digit c then digit_val c else of_char c - 87)"
  by (simp add: hex_val_def)

lemma hex_digit_val: "d < 16 \<Longrightarrow> (if is_digit (hex_digit d) then digit_val (hex_digit d) else of_char (hex_digit d) - 87) = d"
proof -
  assume "d < 16"
  then have "d \<in> set [0..<16]" by simp
  moreover have "\<forall>d \<in> set [0..<16].
      (if is_digit (hex_digit d) then digit_val (hex_digit d) else of_char (hex_digit d) - 87) = d"
    by (simp add: upt_rec hex_digit_def is_digit_def digit_val_def)
  ultimately show ?thesis by blast
qed

lemma hex_val_hex: "hex_val (hex n) = n"
proof (induction n rule: hex.induct)
  case (1 n)
  show ?case
  proof (cases "n < 16")
    case True
    then show ?thesis using hex_val_snoc [of "[]" "hex_digit n"] hex_digit_val [OF True]
      by (simp add: hex.simps [of n] hex_val_def)
  next
    case False
    with 1 show ?thesis by (simp add: hex.simps [of n] hex_val_snoc hex_digit_val)
  qed
qed

lemma hex_length: "n < 16 ^ Suc k \<Longrightarrow> length (hex n) \<le> Suc k"
proof (induction k arbitrary: n)
  case 0
  then show ?case by (simp add: hex.simps [of n])
next
  case (Suc k)
  then have "n div 16 < 16 ^ Suc k" by (simp add: less_mult_imp_div_less)
  then have "length (hex (n div 16)) \<le> Suc k" by (rule Suc.IH)
  then show ?case by (simp add: hex.simps [of n])
qed

lemma hex_val_append:
  "hex_val (s @ t) = 16 ^ length t * hex_val s + hex_val t"
proof (induction t rule: rev_induct)
  case (snoc c t)
  have "hex_val (s @ t @ [c]) = 16 * hex_val (s @ t) + (if is_digit c then digit_val c else of_char c - 87)"
    using hex_val_snoc [of "s @ t" c] by simp
  with snoc show ?case by (simp add: hex_val_snoc algebra_simps)
qed (simp add: hex_val_def)

lemma hex_val_zeros: "hex_val (replicate k (CHR ''0'')) = 0"
  by (induction k) (simp_all add: hex_val_def is_digit_def digit_val_def)

lemma hex8_spec: "n < 2 ^ 32 \<Longrightarrow> length (hex8 n) = 8 \<and> hex_val (hex8 n) = n"
  using hex_length [of n 7] by (simp add: hex8_def hex_val_append hex_val_zeros hex_val_hex)

lemma p64_value:
  "hex_val (drop 2 (fst (p64 n big))) = unat big \<and> length (fst (p64 n big)) < 20
   \<and> (n < 10 \<longrightarrow> snd (p64 n big) < 10)"
proof -
  let ?hi = "unat big div 2 ^ 32" and ?lo = "unat big mod 2 ^ 32"
  have lo: "?lo < 2 ^ 32" by simp
  have "?hi < 2 ^ 32" using unat64_less [of big] by (simp add: less_mult_imp_div_less)
  then have hi: "?hi < 16 ^ Suc 7" by simp
  have eq: "?hi * 2 ^ 32 + ?lo = unat big" by (rule div_mult_mod_eq)
  have v: "hex_val (hex ?hi @ hex8 ?lo) = ?hi * 2 ^ 32 + ?lo"
    using hex8_spec [OF lo] by (simp add: hex_val_append hex_val_hex)
  have v0: "?hi = 0 \<Longrightarrow> hex_val (hex ?lo) = unat big" using eq by (simp add: hex_val_hex)
  have "length (hex ?hi) \<le> 8" "length (hex ?lo) \<le> 8" using hex_length [OF hi] hex_length [of ?lo 7] lo by simp_all
  with v v0 eq hex8_spec [OF lo] show ?thesis
    by (auto simp: p64_def Let_def next_buf_def)
qed

lemma p64sz_scale_spec:
  "0 \<le> x \<Longrightarrow> x \<le> 2 ^ (10 * k + 9) \<Longrightarrow> k \<le> 90 \<Longrightarrow>
   \<exists>d t'. p64sz_scale k (Fin x) t = Some (d, t') \<and> t' \<le> t + k \<and> d_le d (Fin 512)"
proof (induction k arbitrary: x t)
  case 0
  then show ?case by (auto simp: p64sz_scale.simps [of 0])
next
  case (Suc k)
  show ?case
  proof (cases "512 < x")
    case True
    let ?y = "rnd (x / 1024)"
    have b: "x / 1024 \<le> 2 ^ (10 * k + 9)" using Suc.prems(2) by (simp add: power_add)
    then have y: "?y \<le> 2 ^ (10 * k + 9)" "0 \<le> ?y"
      using Suc.prems(1,3) rnd_le_pow [of "x / 1024" "10 * k + 9"] rnd_nonneg [of "x / 1024"] by simp_all
    have "\<bar>x / 1024\<bar> \<le> 2 ^ (10 * k + 9)" using b Suc.prems(1) by simp
    moreover have "10 * k + 9 \<le> 1000" using Suc.prems(3) by linarith
    ultimately have "to_dbl (x / 1024) = Fin ?y" by (rule to_dbl_finite)
    with True have "p64sz_scale (Suc k) (Fin x) t = p64sz_scale k (Fin ?y) (Suc t)"
      by (subst p64sz_scale.simps) simp
    with Suc.IH [OF y(2,1), of "Suc t"] Suc.prems(3) show ?thesis by auto
  next
    case False
    then show ?thesis by (auto simp: p64sz_scale.simps [of "Suc k"])
  qed
qed

lemma p64sz_fuel:
  "p64sz_scale k d t = Some y \<Longrightarrow> p64sz_scale (k + j) d t = Some y"
proof (induction k d t rule: p64sz_scale.induct)
  case (1 k d t)
  then show ?case
    by (cases k) (auto simp: p64sz_scale.simps [of _ d] split: if_splits nat.splits)
qed

subsection \<open>Parsing\<close>

lemma digits_scan:
  assumes "\<forall>c \<in> set ds. is_digit c" "ds \<noteq> []" "rest = [] \<or> \<not> is_digit (hd rest)"
  shows "scan_llu (ds @ rest) = Some (if 2 ^ 64 \<le> dec_val ds then - 1 else of_nat (dec_val ds))"
proof -
  obtain c ds' where ds: "ds = c # ds'" using assms(2) by (cases ds) auto
  have c: "is_digit c" using assms(1) ds by simp
  then have "\<not> is_space c" "c \<noteq> CHR ''-''" "c \<noteq> CHR ''+''" by (auto simp: is_digit_def is_space_def)
  moreover have "takeWhile is_digit (ds @ rest) = ds"
    using assms(1,3) by (cases rest) (simp_all add: takeWhile_append)
  ultimately show ?thesis using ds by (simp add: scan_llu_def Let_def)
qed

subsection \<open>bread\<close>

lemma read_words_spec: "k \<le> length ws \<Longrightarrow> read_words ws k = Some (sum_list (take k ws))"
  by (induction ws k rule: read_words.induct) auto

lemma bread_loop_spec:
  "0 < step \<Longrightarrow> left \<le> 8 * length ws \<Longrightarrow>
   \<exists>j. bread_loop step ws left acc = Some (drop j ws, left - 8 * j, acc + sum_list (take j ws))
     \<and> 8 * j \<le> left \<and> left - 8 * j < 8 * step"
proof (induction step ws left acc rule: bread_loop.induct)
  case (1 step ws left acc)
  show ?case
  proof (cases "8 * step \<le> left")
    case True
    then have s: "step \<le> length ws" using "1.prems" by simp
    have r: "read_words ws step = Some (sum_list (take step ws))" using read_words_spec [OF s] .
    obtain j where j: "bread_loop step (drop step ws) (left - 8 * step) (acc + sum_list (take step ws))
        = Some (drop j (drop step ws), left - 8 * step - 8 * j,
                acc + sum_list (take step ws) + sum_list (take j (drop step ws)))"
      "8 * j \<le> left - 8 * step" "left - 8 * step - 8 * j < 8 * step"
      using "1.IH" [OF _ r] True "1.prems" by fastforce
    have "sum_list (take step ws) + sum_list (take j (drop step ws)) = sum_list (take (step + j) ws)"
      by (simp add: take_add)
    with True j r "1.prems"(1) show ?thesis
      by (intro exI [of _ "step + j"]) (simp add: bread_loop.simps [of step ws] add.assoc algebra_simps)
  next
    case False
    then show ?thesis by (intro exI [of _ 0]) (simp add: bread_loop.simps [of step ws])
  qed
qed

subsection \<open>permutation\<close>

lemma shuffle_spec:
  "length result = i + length rnds \<Longrightarrow> mx = length result \<Longrightarrow>
   \<exists>result' r'. shuffle mx rnds i r result = Some (result', r') \<and> mset result' = mset result"
proof (induction mx rnds i r result rule: shuffle.induct)
  case (2 mx x rnds i r result)
  let ?r = "push_bit 1 r XOR of_nat x"
  let ?o = "unat ?r mod mx"
  have i: "i < length result" "?o < length result" using "2.prems" by auto
  let ?res = "result[?o := result ! i, i := result ! ?o]"
  have m: "mset ?res = mset result" using i mset_swap [of ?o result i] by (simp add: swap_def)
  have IH: "\<exists>result' r'. shuffle mx rnds (Suc i) ?r ?res = Some (result', r') \<and> mset result' = mset ?res"
    using "2.IH" [OF refl refl, of "result ! ?o" "result ! i" "result[?o := result ! i]" ?res] i "2.prems"
    by simp
  then show ?case using i m by (simp add: Let_def)
qed simp

subsection \<open>touch, cp and seekto\<close>

lemma touch_loop_spec:
  "0 < psize \<Longrightarrow> pos + nbytes \<le> length buf \<Longrightarrow>
   \<exists>buf'. touch_loop psize buf pos nbytes = Some buf' \<and> length buf' = length buf
     \<and> (\<forall>i < length buf. buf' ! i = (if pos \<le> i \<and> i + psize \<le> pos + nbytes \<and> (i - pos) mod psize = 0
                                      then CHR 0x01 else buf ! i))"
proof (induction psize buf pos nbytes rule: touch_loop.induct)
  case (1 psize buf pos nbytes)
  show ?case
  proof (cases "psize \<le> nbytes")
    case True
    let ?b = "buf[pos := CHR 0x01]"
    have pos: "pos < length buf" using True "1.prems" by simp
    obtain b' where b': "touch_loop psize ?b (pos + psize) (nbytes - psize) = Some b'" "length b' = length buf"
      "\<forall>i < length buf. b' ! i = (if pos + psize \<le> i \<and> i + psize \<le> pos + psize + (nbytes - psize)
          \<and> (i - (pos + psize)) mod psize = 0 then CHR 0x01 else ?b ! i)"
      using "1.IH" [of ?b] True pos "1.prems" by auto
    have "b' ! i = (if pos \<le> i \<and> i + psize \<le> pos + nbytes \<and> (i - pos) mod psize = 0 then CHR 0x01 else buf ! i)"
      if i: "i < length buf" for i
    proof -
      consider "i < pos" | "i = pos" | "pos < i" "i < pos + psize" | "pos + psize \<le> i" by linarith
      then show ?thesis
      proof cases
        case 4
        then have "i - pos = (i - (pos + psize)) + psize" by simp
        then have "(i - pos) mod psize = (i - (pos + psize)) mod psize" by (metis mod_add_self2)
        with b'(3) i 4 True show ?thesis by (simp add: nth_list_update)
      qed (use b'(3) i True "1.prems" in \<open>auto simp: nth_list_update\<close>)
    qed
    with True pos "1.prems" b' show ?thesis by (simp add: touch_loop.simps [of psize buf])
  next
    case False
    then show ?thesis by (auto simp: touch_loop.simps [of psize buf])
  qed
qed

text \<open>The answers a file of the contents \<open>src\<close> gives: \<open>read\<close> returns between one byte and the rest
  of the file, and zero at its end only.\<close>

fun reads_file :: "string \<Rightarrow> (int \<times> int) list \<Rightarrow> bool" where
  "reads_file src [] = False"
| "reads_file src ((rd, wr) # rest) =
     (if rd = 0 then src = [] \<and> rest = []
      else 0 < rd \<and> rd \<le> 8192 \<and> rd \<le> int (length src) \<and> reads_file (drop (nat rd) src) rest)"

lemma cp_loop_copies:
  "reads_file src io \<Longrightarrow> fst (cp_loop src io dst) = 0 \<Longrightarrow> snd (cp_loop src io dst) = dst @ src"
  by (induction src io arbitrary: dst rule: reads_file.induct) (auto split: if_splits)

lemma cp_copies:
  "reads_file src io \<Longrightarrow> fst (cp o1 o2 src io) = 0 \<Longrightarrow> snd (cp o1 o2 src io) = src"
  using cp_loop_copies [of src io "[]"] by (auto simp: cp_def split: if_splits)

lemma seek_loop_forward:
  "dlt = BIGSEEK \<Longrightarrow> 0 \<le> pos \<Longrightarrow> here \<le> off \<Longrightarrow>
   \<exists>p h. seek_loop dlt off here pos = (True, p, h) \<and> p - h = pos - here \<and> h \<le> off \<and> off - h \<le> BIGSEEK \<and> 0 \<le> p"
proof (induction dlt off here pos rule: seek_loop.induct)
  case (1 dlt off here pos)
  show ?case
  proof (cases "dlt < off - here")
    case True
    have "lseek pos dlt = Some (pos + dlt)" using "1.prems" by (simp add: lseek_def BIGSEEK_def)
    moreover from this True "1.prems" have "seek_loop dlt off here pos = seek_loop dlt off (here + dlt) (pos + dlt)"
      by (subst seek_loop.simps) (simp add: BIGSEEK_def)
    ultimately show ?thesis using "1.IH" [of "pos + dlt"] True "1.prems" by (auto simp: BIGSEEK_def)
  next
    case False
    with "1.prems" have "seek_loop dlt off here pos = (True, pos, here)"
      by (subst seek_loop.simps) (simp add: BIGSEEK_def)
    with False "1.prems" show ?thesis by simp
  qed
qed

section \<open>Properties\<close>

text \<open>\<open>permutation\<close> is a permutation: whatever \<open>rand\<close> returns, it stays inside of its array and
  the result holds every multiple of the scale, \<open>0, scale, ..., (max-1)*scale\<close>, exactly once
  as often as in the ordered sequence.\<close>

theorem permutation_correct:
  "\<exists>result r'. permutation seed rnds scale r = Some (result, r')
     \<and> mset result = mset (map (\<lambda>i. of_nat i * scale) [0..<length rnds])"
  using shuffle_spec [of "map (\<lambda>i. of_nat i * scale) [0..<length rnds]" 0 rnds "length rnds" "if r = 0 then seed else r"]
  by (simp add: permutation_def Let_def)

text \<open>\<open>bread\<close>, with its loops unrolled to 128, 16 and one word, reads exactly the whole words
  of the first \<open>nbytes\<close> bytes, each once: it is the sum of them.\<close>

theorem bread_is_sum:
  assumes "nbytes \<le> 8 * length buf"
  shows "bread buf nbytes = Some (sum_list (take (nbytes div 8) buf))"
proof -
  obtain a where a: "bread_loop 128 buf nbytes 0 = Some (drop a buf, nbytes - 8 * a, sum_list (take a buf))"
    "8 * a \<le> nbytes"
    using bread_loop_spec [of 128 nbytes buf 0] assms by auto
  have l1: "nbytes - 8 * a \<le> 8 * length (drop a buf)" using assms by (simp add: diff_le_mono flip: diff_mult_distrib2)
  obtain b where b: "bread_loop 16 (drop a buf) (nbytes - 8 * a) (sum_list (take a buf))
      = Some (drop b (drop a buf), nbytes - 8 * a - 8 * b, sum_list (take a buf) + sum_list (take b (drop a buf)))"
    "8 * b \<le> nbytes - 8 * a"
    using bread_loop_spec [OF _ l1, of 16 "sum_list (take a buf)"] by (auto simp del: drop_drop)
  have ab: "sum_list (take a buf) + sum_list (take b (drop a buf)) = sum_list (take (a + b) buf)"
    by (simp add: take_add)
  have l2: "nbytes - 8 * a - 8 * b \<le> 8 * length (drop b (drop a buf))" using l1 by (simp add: diff_le_mono flip: diff_mult_distrib2)
  obtain c where c: "bread_loop 1 (drop b (drop a buf)) (nbytes - 8 * a - 8 * b) (sum_list (take (a + b) buf))
      = Some (drop c (drop b (drop a buf)), nbytes - 8 * a - 8 * b - 8 * c,
              sum_list (take (a + b) buf) + sum_list (take c (drop b (drop a buf))))"
    "8 * c \<le> nbytes - 8 * a - 8 * b" "nbytes - 8 * a - 8 * b - 8 * c < 8 * 1"
    using bread_loop_spec [OF _ l2, of 1 "sum_list (take (a + b) buf)"] by (auto simp del: drop_drop)
  have "nbytes div 8 = a + b + c" using a(2) b(2) c(2,3) by linarith
  moreover have "sum_list (take (a + b) buf) + sum_list (take c (drop b (drop a buf))) = sum_list (take (a + b + c) buf)"
    by (simp only: take_add [of "a + b" c] sum_list_append drop_drop add.commute [of b a])
  ultimately show ?thesis using a(1) b(1) c(1) ab by (simp add: bread_def)
qed

theorem bread_is_sum_witness: "bread [1, 2, 3, 4] 30 = Some 6"
  using bread_is_sum [of 30 "[1, 2, 3, 4]"] by simp

text \<open>\<open>bytes\<close> reads a size with its unit: \<open>k\<close>, \<open>m\<close>, \<open>g\<close> are powers of two, \<open>K\<close>, \<open>M\<close>, \<open>G\<close> powers of
  ten, and the product is taken modulo \<open>2^64\<close>.\<close>

theorem bytes_units:
  assumes "\<forall>c \<in> set ds. is_digit c" "ds \<noteq> []" "dec_val ds < 2 ^ 64"
  shows "bytes ds = Some (of_nat (dec_val ds))
    \<and> bytes (ds @ ''k'') = Some (of_nat (dec_val ds * 2 ^ 10)) \<and> bytes (ds @ ''K'') = Some (of_nat (dec_val ds * 10 ^ 3))
    \<and> bytes (ds @ ''m'') = Some (of_nat (dec_val ds * 2 ^ 20)) \<and> bytes (ds @ ''M'') = Some (of_nat (dec_val ds * 10 ^ 6))
    \<and> bytes (ds @ ''g'') = Some (of_nat (dec_val ds * 2 ^ 30)) \<and> bytes (ds @ ''G'') = Some (of_nat (dec_val ds * 10 ^ 9))"
proof -
  have scan: "scan_llu (ds @ rest) = Some (of_nat (dec_val ds))" if "rest = [] \<or> \<not> is_digit (hd rest)" for rest
    using digits_scan [OF assms(1,2) that] assms(3) by simp
  have "is_digit (List.last ds)" using assms(1,2) by simp
  then have "List.last ds \<notin> set ''kKmMgG''" by (auto simp: is_digit_def)
  then have "bytes ds = Some (of_nat (dec_val ds))"
    using scan [of "[]"] assms(2) by (simp add: bytes_def last_char_def)
  moreover have "bytes (ds @ [u]) = Some (if u = CHR ''k'' then of_nat (dec_val ds * 2 ^ 10)
      else if u = CHR ''K'' then of_nat (dec_val ds * 10 ^ 3) else if u = CHR ''m'' then of_nat (dec_val ds * 2 ^ 20)
      else if u = CHR ''M'' then of_nat (dec_val ds * 10 ^ 6) else if u = CHR ''g'' then of_nat (dec_val ds * 2 ^ 30)
      else of_nat (dec_val ds * 10 ^ 9))" if "u \<in> set ''kKmMgG''" for u
    using that scan [of "[u]"] by (auto simp: bytes_def last_char_def is_digit_def push_bit_eq_mult)
  ultimately show ?thesis by simp
qed

theorem bytes_units_witness: "bytes ''64k'' = Some 65536"
  using bytes_units [of "''64''"] by (simp add: is_digit_def dec_val_def digit_val_def)

text \<open>\<open>p64sz\<close> ends for every 64-bit number and never reads outside of its table of tags.\<close>

theorem p64sz_total: "\<exists>out. p64sz n big = Some (out, next_buf n)"
proof -
  have "rnd (u2r big) \<le> 2 ^ 64" using u2r_bounds [of big] by (intro rnd_le_pow) simp_all
  then obtain d t where d: "p64sz_scale 6 (Fin (rnd (u2r big))) 0 = Some (d, t)" "t \<le> 6"
    using p64sz_scale_spec [of "rnd (u2r big)" 6 0] rnd_u2r_nonneg [of big] by auto
  then have "p64sz_scale 7 (d_of_u64 big) 0 = Some (d, t)"
    using p64sz_fuel [of 6 _ 0 _ 1] by (simp add: d_of_u64_Fin)
  moreover have "t < length tags" using d(2) by (simp add: tags_def)
  ultimately show ?thesis by (simp add: p64sz_def)
qed

text \<open>\<open>seekto\<close> from the start of a file, built from relative seeks of at most a gigabyte, ends
  at exactly the wanted position for every offset, and returns it except where the low half
  of the position reads as \<open>-1\<close>.\<close>

theorem seekto_set:
  assumes "0 \<le> off"
  shows "snd (seekto end_pos off SEEK_SET pos) = off
         \<and> fst (seekto end_pos off SEEK_SET pos) = (if wrap32 off = - 1 then - 1 else off)"
proof -
  obtain p h where l: "seek_loop BIGSEEK off 0 0 = (True, p, h)" "p = h" "h \<le> off" "off - h \<le> BIGSEEK" "0 \<le> p"
    using seek_loop_forward [of BIGSEEK 0 0 off] assms by auto
  then have "wrap32 (off - h) = off - h" by (intro wrap32_id) (simp_all add: BIGSEEK_def)
  moreover have "lseek p (off - h) = Some off" using l assms by (simp add: lseek_def)
  ultimately show ?thesis using assms l by (simp add: seekto_def)
qed

theorem seekto_set_witness:
  "snd (seekto 0 4294967295 SEEK_SET 7) = 4294967295 \<and> fst (seekto 0 4294967295 SEEK_SET 7) = - 1"
  using seekto_set [of 4294967295 0 7] by (simp add: wrap32_def)
end
