(* ===== verification/Memory.thy ===== *)
theory Memory
  imports Util
begin

text \<open>
  The memory the pointer chains of \<open>src/lib_mem.c\<close> live in, and the loops that walk them. The
  allocated blocks are address ranges; a pointer is stored in the eight bytes from its address
  on, and a store destroys every pointer that overlaps them. A store outside of the blocks and a
  load of something that is not a stored pointer is undefined, \<open>None\<close>. Alignment is not
  modelled: the machines the program runs on allow an unaligned pointer.
  The locale \<open>chain_writer\<close> is what the walkers rely on and every initialiser provides: its stores
  link the addresses of a layout into one ring.
\<close>

section \<open>Loads and stores\<close>

definition ptr_size :: nat where "ptr_size = 8"

record memory =
  blocks :: "(nat \<times> nat) list"
  cells :: "nat \<rightharpoonup> nat"

definition inside :: "memory \<Rightarrow> nat \<Rightarrow> bool" where
  "inside m a = list_ex (\<lambda>(lo, sz). lo \<le> a \<and> a + ptr_size \<le> lo + sz) (blocks m)"

definition store :: "nat \<Rightarrow> nat \<Rightarrow> memory \<Rightarrow> memory option" where
  "store a v m =
     (if inside m a
      then Some (m\<lparr>cells := \<lambda>x. if x = a then Some v
                                else if x < a + ptr_size \<and> a < x + ptr_size then None
                                else cells m x\<rparr>)
      else None)"

definition load :: "memory \<Rightarrow> nat \<Rightarrow> nat option" where
  "load m a = (if inside m a then cells m a else None)"

fun stores :: "(nat \<times> nat) list \<Rightarrow> memory \<Rightarrow> memory option" where
  "stores [] m = Some m"
| "stores ((a, v) # ws) m = do { m \<leftarrow> store a v m; stores ws m }"

text \<open>\<open>malloc\<close> of a block, and \<open>free\<close> of the block that starts at an address.\<close>

definition add_block :: "nat \<Rightarrow> nat \<Rightarrow> memory \<Rightarrow> memory" where
  "add_block a sz m = m\<lparr>blocks := (a, sz) # blocks m\<rparr>"

definition free_block :: "nat \<Rightarrow> memory \<Rightarrow> memory" where
  "free_block a m = m\<lparr>blocks := filter (\<lambda>(lo, sz). lo \<noteq> a) (blocks m)\<rparr>"

section \<open>Walking a chain\<close>

text \<open>\<open>p = *(char**)p\<close> for each of the pointers a benchmark follows in parallel, and \<open>k\<close> rounds
  of it.\<close>

definition deref :: "memory \<Rightarrow> nat list \<Rightarrow> nat list option" where
  "deref m ps = those (map (load m) ps)"

fun chase :: "memory \<Rightarrow> nat \<Rightarrow> nat list \<Rightarrow> nat list option" where
  "chase m 0 ps = Some ps"
| "chase m (Suc k) ps = do { ps \<leftarrow> deref m ps; chase m k ps }"

section \<open>Rings\<close>

text \<open>\<open>linked W x as y\<close>: from \<open>x\<close> the pairs of \<open>W\<close> lead through the addresses \<open>as\<close> to \<open>y\<close>.\<close>

fun linked :: "(nat \<Rightarrow> nat \<Rightarrow> bool) \<Rightarrow> nat \<Rightarrow> nat list \<Rightarrow> nat \<Rightarrow> bool" where
  "linked W x [] y = (x = y)"
| "linked W x (a # as) y = (x = a \<and> (\<exists>b. W a b \<and> linked W b as y))"

definition points_to :: "memory \<Rightarrow> nat \<Rightarrow> nat \<Rightarrow> bool" where
  "points_to m a b = (load m a = Some b)"

text \<open>A circular list through the distinct addresses \<open>as\<close>.\<close>

definition ring :: "memory \<Rightarrow> nat list \<Rightarrow> bool" where
  "ring m as = (as \<noteq> [] \<and> distinct as \<and> linked (points_to m) (hd as) as (hd as))"

lemma linked_append: "linked W x (as @ bs) z \<longleftrightarrow> (\<exists>y. linked W x as y \<and> linked W y bs z)"
  by (induction as arbitrary: x) auto

lemma linked_mono: "linked W x as y \<Longrightarrow> (\<And>a b. a \<in> set as \<Longrightarrow> W a b \<Longrightarrow> V a b) \<Longrightarrow> linked V x as y"
  by (induction as arbitrary: x) fastforce+

lemma linked_conj:
  "linked W x as y \<Longrightarrow> linked V x as y \<Longrightarrow> linked (\<lambda>a b. W a b \<and> V a b) x as y"
proof (induction as arbitrary: x)
  case (Cons a as)
  then obtain b c where bc: "x = a" "W a b" "linked W b as y" "V a c" "linked V c as y" by auto
  then have "b = c" by (cases as) auto
  with bc Cons.IH [of b] show ?case by auto
qed simp

lemma linked_map:
  "(\<And>i. i < n \<Longrightarrow> W (f i) (f (Suc i))) \<Longrightarrow> linked W (f 0) (map f [0..<n]) (f n)"
proof (induction n)
  case (Suc n)
  then show ?case by (auto simp: linked_append)
qed simp

lemma linked_concat:
  "(\<And>i. i < n \<Longrightarrow> linked W (f i) (g i) (f (Suc i))) \<Longrightarrow> linked W (f 0) (concat (map g [0..<n])) (f n)"
proof (induction n)
  case (Suc n)
  then show ?case by (auto simp: linked_append)
qed simp

lemma linked_next:
  "linked W x as y \<Longrightarrow> a \<in> set as \<Longrightarrow> \<exists>b. W a b \<and> b \<in> insert y (set as)"
proof (induction as arbitrary: x)
  case (Cons c as)
  then obtain b where b: "W c b" "linked W b as y" by auto
  then have "b \<in> insert y (set as)" by (cases as) auto
  with Cons b show ?case by auto
qed simp

lemma ring_next: "ring m as \<Longrightarrow> a \<in> set as \<Longrightarrow> \<exists>b. load m a = Some b \<and> b \<in> set as"
  unfolding ring_def points_to_def using linked_next hd_in_set by fastforce

text \<open>No walk on a ring is undefined, however long; it stays on the ring.\<close>

lemma deref_ring:
  assumes "ring m as" "set ps \<subseteq> set as"
  shows "\<exists>qs. deref m ps = Some qs \<and> length qs = length ps \<and> set qs \<subseteq> set as"
  using assms(2)
proof (induction ps)
  case (Cons a ps)
  obtain b where "load m a = Some b" "b \<in> set as" using ring_next [OF assms(1)] Cons.prems by auto
  with Cons show ?case by (auto simp: deref_def)
qed (simp add: deref_def)

lemma chase_ring:
  assumes "ring m as"
  shows "set ps \<subseteq> set as \<Longrightarrow> \<exists>qs. chase m k ps = Some qs \<and> length qs = length ps \<and> set qs \<subseteq> set as"
proof (induction k arbitrary: ps)
  case (Suc k)
  obtain qs where "deref m ps = Some qs" "length qs = length ps" "set qs \<subseteq> set as"
    using deref_ring [OF assms Suc.prems] by blast
  with Suc.IH [of qs] show ?case by auto
qed simp

text \<open>One round of the ring comes back to where it started.\<close>

lemma chase_linked: "linked (points_to m) x as y \<Longrightarrow> chase m (length as) [x] = Some [y]"
  by (induction as arbitrary: x) (auto simp: points_to_def deref_def)

lemma chase_round: "ring m as \<Longrightarrow> chase m (length as) [hd as] = Some [hd as]"
  unfolding ring_def using chase_linked by blast

section \<open>Stores that do not overlap\<close>

definition apart :: "nat \<Rightarrow> nat \<Rightarrow> bool" where
  "apart a b = (a + ptr_size \<le> b \<or> b + ptr_size \<le> a)"

text \<open>Two stores at the same address write the same value, and stores at different addresses do
  not overlap.\<close>

definition compatible :: "(nat \<times> nat) list \<Rightarrow> bool" where
  "compatible ws = (\<forall>(a, v) \<in> set ws. \<forall>(b, w) \<in> set ws. (a = b \<and> v = w) \<or> apart a b)"

lemma apart_sym: "apart a b \<longleftrightarrow> apart b a"
  by (auto simp: apart_def)

lemma apart_neq: "apart a b \<Longrightarrow> a \<noteq> b"
  by (auto simp: apart_def ptr_size_def)

lemma blocks_store: "store a v m = Some m' \<Longrightarrow> blocks m' = blocks m"
  by (auto simp: store_def split: if_splits)

lemma blocks_stores: "stores ws m = Some m' \<Longrightarrow> blocks m' = blocks m"
  by (induction ws m rule: stores.induct) (auto simp: bind_eq_Some_conv dest: blocks_store)

lemma inside_blocks: "blocks m' = blocks m \<Longrightarrow> inside m' a = inside m a"
  by (simp add: inside_def)

lemma cells_store_same: "store a v m = Some m' \<Longrightarrow> cells m' a = Some v"
  by (auto simp: store_def split: if_splits)

lemma cells_store_apart: "store a v m = Some m' \<Longrightarrow> apart a b \<Longrightarrow> cells m' b = cells m b"
  by (auto simp: store_def apart_def ptr_size_def split: if_splits)

lemma cells_stores_apart:
  "stores ws m = Some m' \<Longrightarrow> \<forall>(a, v) \<in> set ws. apart a b \<Longrightarrow> cells m' b = cells m b"
  by (induction ws m rule: stores.induct) (auto simp: bind_eq_Some_conv cells_store_apart)

lemma cells_stores_kept:
  "stores ws m = Some m' \<Longrightarrow> cells m b = Some w \<Longrightarrow>
   \<forall>(a, v) \<in> set ws. (a = b \<and> v = w) \<or> apart a b \<Longrightarrow> cells m' b = Some w"
proof (induction ws m rule: stores.induct)
  case (2 a v ws m)
  then obtain m1 where m1: "store a v m = Some m1" "stores ws m1 = Some m'"
    by (auto simp: bind_eq_Some_conv)
  moreover have "cells m1 b = Some w"
    using "2.prems" m1 cells_store_same [OF m1(1)] cells_store_apart [OF m1(1), of b] by auto
  ultimately show ?case using "2.IH" [of m1] "2.prems" by auto
qed simp

lemma stores_defined:
  "\<forall>(a, v) \<in> set ws. inside m a \<Longrightarrow> \<exists>m'. stores ws m = Some m'"
proof (induction ws m rule: stores.induct)
  case (2 a v ws m)
  then have a: "store a v m = Some (m\<lparr>cells := \<lambda>x. if x = a then Some v
      else if x < a + ptr_size \<and> a < x + ptr_size then None else cells m x\<rparr>)" (is "_ = Some ?m1")
    by (simp add: store_def)
  have "\<forall>(b, w) \<in> set ws. inside ?m1 b" using "2.prems" by (auto simp: inside_def)
  with "2.IH" [of ?m1] a show ?case by simp
qed simp

lemma stores_points_to:
  "stores ws m = Some m' \<Longrightarrow> compatible ws \<Longrightarrow> (a, v) \<in> set ws \<Longrightarrow> points_to m' a v"
proof (induction ws m rule: stores.induct)
  case (2 b w ws m)
  then obtain m1 where m1: "store b w m = Some m1" "stores ws m1 = Some m'"
    by (auto simp: bind_eq_Some_conv)
  have c: "compatible ws" using "2.prems"(2) by (auto simp: compatible_def)
  show ?case
  proof (cases "(a, v) \<in> set ws")
    case True
    with "2.IH" [OF m1 c] show ?thesis .
  next
    case False
    then have "a = b" "v = w" using "2.prems"(3) by auto
    moreover have "\<forall>(x, y) \<in> set ws. (x = b \<and> y = w) \<or> apart x b"
      using "2.prems"(2) by (auto simp: compatible_def)
    moreover have "inside m b" using m1(1) by (auto simp: store_def split: if_splits)
    moreover have "blocks m' = blocks m" using blocks_store [OF m1(1)] blocks_stores [OF m1(2)] by simp
    ultimately show ?thesis
      using cells_stores_kept [OF m1(2) cells_store_same [OF m1(1)]]
      by (simp add: points_to_def load_def inside_def)
  qed
qed simp

section \<open>The contract of the initialisers\<close>

text \<open>An initialiser computes its stores from the state \<open>s\<close>; in a state it supports the stores do
  not overlap and lead once around the addresses \<open>layout s\<close>, back to the first.\<close>

definition writes_to :: "(nat \<times> nat) list \<Rightarrow> nat \<Rightarrow> nat \<Rightarrow> bool" where
  "writes_to ws a b = ((a, b) \<in> set ws)"

locale chain_writer =
  fixes writes :: "'s \<Rightarrow> (nat \<times> nat) list option" and layout :: "'s \<Rightarrow> nat list"
    and supported :: "'s \<Rightarrow> bool"
  assumes writes_defined: "supported s \<Longrightarrow> writes s \<noteq> None"
    and writes_compatible: "supported s \<Longrightarrow> writes s = Some ws \<Longrightarrow> compatible ws"
    and writes_linked:
      "supported s \<Longrightarrow> writes s = Some ws \<Longrightarrow> linked (writes_to ws) (hd (layout s)) (layout s) (hd (layout s))"
    and writes_layout: "supported s \<Longrightarrow> writes s = Some ws \<Longrightarrow> fst ` set ws \<subseteq> set (layout s)"
    and layout_distinct: "supported s \<Longrightarrow> layout s \<noteq> [] \<and> distinct (layout s)"
begin

text \<open>The links are in the memory; then it holds the ring.\<close>

definition intact :: "'s \<Rightarrow> memory \<Rightarrow> bool" where
  "intact s m = (\<exists>ws. writes s = Some ws \<and> (\<forall>(a, v) \<in> set ws. points_to m a v))"

lemma ring_of_intact:
  assumes "supported s" "intact s m"
  shows "ring m (layout s)"
proof -
  obtain ws where "writes s = Some ws" "\<forall>(a, v) \<in> set ws. points_to m a v"
    using assms(2) by (auto simp: intact_def)
  then show ?thesis
    unfolding ring_def using layout_distinct [OF assms(1)]
      linked_mono [OF writes_linked [OF assms(1)], of ws "points_to m"] by (fastforce simp: writes_to_def)
qed

lemma intact_stores:
  assumes "supported s" "writes s = Some ws" "stores ws m = Some m'"
  shows "intact s m'"
  unfolding intact_def
  using assms(2) stores_points_to [OF assms(3) writes_compatible [OF assms(1,2)]] by auto

lemma ring_built:
  assumes "supported s" "\<forall>a \<in> set (layout s). inside m a"
  shows "\<exists>ws m'. writes s = Some ws \<and> stores ws m = Some m' \<and> intact s m' \<and> ring m' (layout s)"
proof -
  obtain ws where ws: "writes s = Some ws" using writes_defined [OF assms(1)] by blast
  have "\<forall>(a, v) \<in> set ws. inside m a" using writes_layout [OF assms(1) ws] assms(2) by force
  then obtain m' where "stores ws m = Some m'" using stores_defined by blast
  with ws intact_stores [OF assms(1) ws] ring_of_intact [OF assms(1)] show ?thesis by blast
qed

end

end
