(* ===== verification/Bits.thy ===== *)
theory Bits
  imports Prelude
begin

text \<open>
  The bit reversal that \<open>words_initialize\<close> of \<open>src/lib_mem.c\<close> and \<open>reverse_bits\<close> of \<open>src/lib_sched.c\<close>
  spell out as the same loop: bit \<open>j\<close> of \<open>i\<close> is or-ed into \<open>w\<close> as bit \<open>nbits-j-1\<close>. The shifts are
  of the \<open>int\<close> 1, defined for \<open>nbits\<close> up to 31; the callers have that guard. On \<open>nbits\<close> bits the
  reversal is its own inverse.
\<close>

text \<open>\<open>for (i = max>>1, nbits = k; i != 0; i >>= 1, nbits++);\<close>, the number of bits; \<open>k\<close> is 0 in \<open>words_initialize\<close> and 1 in \<open>reverse_bits\<close>.\<close>

fun nbits_loop :: "nat \<Rightarrow> nat \<Rightarrow> nat" where
  "nbits_loop i nbits = (if i = 0 then nbits else nbits_loop (i div 2) (Suc nbits))"

declare nbits_loop.simps [simp del]

function reverse_loop :: "nat \<Rightarrow> nat \<Rightarrow> nat \<Rightarrow> nat \<Rightarrow> nat" where
  "reverse_loop nbits i j w =
     (if j < nbits
      then reverse_loop nbits i (Suc j) (if i AND 2 ^ j \<noteq> 0 then w OR 2 ^ (nbits - j - 1) else w)
      else w)"
  by pat_completeness auto
termination by (relation "measure (\<lambda>(nbits, i, j, w). nbits - j)") auto

declare reverse_loop.simps [simp del]

lemma bit_reverse_loop:
  "bit (reverse_loop nbits i j w) k \<longleftrightarrow> bit w k \<or> (k < nbits - j \<and> bit i (nbits - 1 - k))"
proof (induction nbits i j w rule: reverse_loop.induct)
  case (1 nbits i j w)
  show ?case
  proof (cases "j < nbits")
    case True
    have "bit (reverse_loop nbits i j w) k
      \<longleftrightarrow> bit (if i AND 2 ^ j \<noteq> 0 then w OR 2 ^ (nbits - j - 1) else w) k \<or> (k < nbits - Suc j \<and> bit i (nbits - 1 - k))"
      using "1.IH" [OF True] True by (simp add: reverse_loop.simps [of nbits i j w])
    also have "\<dots> \<longleftrightarrow> bit w k \<or> (k < nbits - j \<and> bit i (nbits - 1 - k))"
    proof (cases "k = nbits - Suc j")
      case True
      then show ?thesis using \<open>j < nbits\<close> by (auto simp: bit_simps and_exp_eq_0_iff_not_bit)
    next
      case False
      then show ?thesis using \<open>j < nbits\<close> by (auto simp: bit_simps)
    qed
    finally show ?thesis .
  next
    case False
    then show ?thesis by (simp add: reverse_loop.simps)
  qed
qed

definition reverse :: "nat \<Rightarrow> nat \<Rightarrow> nat" where
  "reverse nbits i = reverse_loop nbits i 0 0"

lemma bit_reverse: "bit (reverse nbits i) k \<longleftrightarrow> k < nbits \<and> bit i (nbits - 1 - k)"
  by (simp add: reverse_def bit_reverse_loop)

lemma nat_less_exp_iff: "(x :: nat) < 2 ^ n \<longleftrightarrow> (\<forall>k. n \<le> k \<longrightarrow> \<not> bit x k)"
proof -
  have "x < 2 ^ n \<longleftrightarrow> take_bit n x = x" by (simp add: take_bit_nat_eq_self_iff)
  also have "\<dots> \<longleftrightarrow> (\<forall>k. (k < n \<and> bit x k) = bit x k)"
    by (simp add: bit_eq_iff bit_take_bit_iff)
  also have "\<dots> \<longleftrightarrow> (\<forall>k. n \<le> k \<longrightarrow> \<not> bit x k)" by (meson not_le)
  finally show ?thesis .
qed

lemma reverse_less: "reverse nbits i < 2 ^ nbits"
  by (simp add: nat_less_exp_iff bit_reverse)

lemma reverse_reverse: "i < 2 ^ nbits \<Longrightarrow> reverse nbits (reverse nbits i) = i"
proof (rule bit_eqI)
  fix n assume "i < 2 ^ nbits"
  then have "bit i n \<Longrightarrow> n < nbits" by (meson nat_less_exp_iff not_le)
  moreover have "n < nbits \<Longrightarrow> nbits - 1 - (nbits - 1 - n) = n" by simp
  ultimately show "bit (reverse nbits (reverse nbits i)) n = bit i n" by (auto simp: bit_reverse)
qed

lemma reverse_0: "reverse nbits 0 = 0"
  by (rule bit_eqI) (simp add: bit_reverse)

lemma mset_map_bij:
  "(\<And>i. i < n \<Longrightarrow> f i < n) \<Longrightarrow> (\<And>i. i < n \<Longrightarrow> f (f i) = i) \<Longrightarrow> mset (map f [0..<n]) = mset [0..<n]"
proof -
  assume *: "\<And>i. i < n \<Longrightarrow> f i < n" "\<And>i. i < n \<Longrightarrow> f (f i) = i"
  then have "inj_on f {0..<n}" by (metis atLeastLessThan_iff inj_onI)
  moreover have "f ` {0..<n} = {0..<n}" using * by (force simp: image_iff)
  ultimately have "distinct (map f [0..<n])" "set (map f [0..<n]) = set [0..<n]"
    by (simp_all add: distinct_map)
  then show ?thesis by (metis distinct_upt set_eq_iff_mset_eq_distinct)
qed

lemma mset_reverse: "mset (map (reverse b) [0..<2 ^ b]) = mset [0..<2 ^ b]"
  by (rule mset_map_bij) (simp_all add: reverse_less reverse_reverse)

lemma nbits_loop_exp: "nbits_loop (2 ^ b) n = Suc (n + b)"
proof (induction b arbitrary: n)
  case 0
  then show ?case by (subst nbits_loop.simps, simp, subst nbits_loop.simps, simp)
next
  case (Suc b)
  then show ?case by (subst nbits_loop.simps) simp
qed

lemma nbits_loop_mask: "nbits_loop (2 ^ b - 1) n = n + b"
proof (induction b arbitrary: n)
  case 0
  then show ?case by (subst nbits_loop.simps) simp
next
  case (Suc b)
  have "(2 ^ Suc b - 1) div 2 = (2 ^ b - 1 :: nat)" by simp
  moreover have "\<not> 2 * 2 ^ b \<le> Suc 0" using one_le_power [of "2 :: nat" b] by linarith
  ultimately show ?case using Suc [of "Suc n"] by (subst nbits_loop.simps) simp
qed

end
