(* ===== verification/Memchain.thy ===== *)
theory Memchain
  imports Memory Bits
begin

text \<open>
  The pointer chains of \<open>src/lib_mem.c\<close>: \<open>struct mem_state\<close>, \<open>words_initialize\<close>, the five
  initialisers \<open>stride\<close>, \<open>thrash\<close>, \<open>mem\<close>, \<open>line\<close> and \<open>tlb_initialize\<close>, the benchmarks
  \<open>mem_benchmark_0\<close> to \<open>mem_benchmark_15\<close>, and the cleanup functions. Sizes are \<open>size_t\<close>, taken as natural numbers below
  \<open>2^64\<close> with the sums that may wrap written out; where the code assigns a size to an \<open>int\<close> the
  model does. The answers of \<open>malloc\<close>, \<open>valloc\<close> and \<open>rand\<close> are arguments. A call returns, ends the
  process, or is undefined (a division by zero, an access outside of an array or a block, a
  shift by more than the width).
\<close>

section \<open>Outcomes and conversions\<close>

datatype 'a outcome = Done 'a | Exit nat | Undefined

definition andthen :: "'a outcome \<Rightarrow> ('a \<Rightarrow> 'b outcome) \<Rightarrow> 'b outcome" where
  "andthen x f = (case x of Done a \<Rightarrow> f a | Exit n \<Rightarrow> Exit n | Undefined \<Rightarrow> Undefined)"

definition defined :: "'a option \<Rightarrow> 'a outcome" where
  "defined x = (case x of None \<Rightarrow> Undefined | Some a \<Rightarrow> Done a)"

lemma andthen_simps [simp]:
  "andthen (Done a) f = f a" "andthen (Exit n) f = Exit n" "andthen Undefined f = Undefined"
  by (simp_all add: andthen_def)

lemma defined_simps [simp]: "defined (Some a) = Done a" "defined None = Undefined"
  by (simp_all add: defined_def)

text \<open>\<open>size_t\<close> to \<open>int\<close> and back.\<close>

definition c_int :: "nat \<Rightarrow> int" where
  "c_int n = wrap32 (int n)"

definition c_size :: "int \<Rightarrow> nat" where
  "c_size x = nat (x mod 2 ^ 64)"

lemma c_int_id [simp]: "n < 2 ^ 31 \<Longrightarrow> c_int n = int n"
  by (simp add: c_int_def)

lemma c_size_int [simp]: "n < 2 ^ 64 \<Longrightarrow> c_size (int n) = n"
  unfolding c_size_def using of_nat_less_iff [where ?'a = int, of n "2 ^ 64"] by simp

section \<open>State\<close>

definition MAX_MEM_PARALLELISM :: nat where "MAX_MEM_PARALLELISM = 16"

text \<open>A null pointer is the address 0, or \<open>None\<close> for the three arrays. \<open>ms_addrs\<close> is the contents of
  the array \<open>addr\<close> points to after \<open>tlb_initialize\<close>.\<close>

record mem_state =
  ms_addr :: nat
  ms_base :: nat
  ms_p :: "nat list"
  ms_initialized :: bool
  ms_width :: int
  ms_len :: nat
  ms_maxlen :: nat
  ms_line :: nat
  ms_pagesize :: nat
  ms_nlines :: nat
  ms_npages :: nat
  ms_nwords :: nat
  ms_pages :: "nat list option"
  ms_lines :: "nat list option"
  ms_words :: "nat list option"
  ms_addrs :: "nat list"

text \<open>The memory and the static variables: \<open>mem_benchmark_rerun\<close>, for each \<open>mem_benchmark_N\<close> its
  \<open>addr_save\<close> and \<open>sp0\<close> to \<open>spN\<close>, and the \<open>r\<close> of \<open>permutation\<close>.\<close>

record mem_lib =
  ml_mem :: memory
  ml_rerun :: bool
  ml_saves :: "nat \<Rightarrow> nat \<times> nat list"
  ml_perm_r :: u64

text \<open>What the allocator and \<open>rand\<close> answer to \<open>base_initialize\<close> and its callers: the address of the
  area (0 when \<open>malloc\<close> fails), whether the arrays are allocated, the first seed of
  \<open>permutation\<close> and its random numbers.\<close>

record mem_env =
  me_area :: nat
  me_pages :: bool
  me_lines :: bool
  me_words :: bool
  me_seed :: u64
  me_rand :: "nat \<Rightarrow> nat"

section \<open>The benchmarks\<close>

text \<open>\<open>mem_benchmark_N\<close> follows \<open>N+1\<close> pointers for 100 steps per iteration; it starts where it left
  off when it is run again on the same area.\<close>

definition mem_benchmark :: "nat \<Rightarrow> nat \<Rightarrow> mem_state \<Rightarrow> mem_lib \<Rightarrow> mem_lib outcome" where
  "mem_benchmark N iters s l =
     (let (addr_save, sp) = ml_saves l N;
          ps = (if ml_rerun l \<and> addr_save = ms_addr s then sp else take (Suc N) (ms_p s))
      in andthen (defined (chase (ml_mem l) (100 * iters) ps)) (\<lambda>ps.
           Done (l\<lparr>ml_saves := (ml_saves l)(N := (ms_addr s, ps)), ml_rerun := True\<rparr>)))"

text \<open>\<open>(*mem_benchmarks[i])(iterations, state)\<close>\<close>

definition mem_benchmarks :: "int \<Rightarrow> nat \<Rightarrow> mem_state \<Rightarrow> mem_lib \<Rightarrow> mem_lib outcome" where
  "mem_benchmarks i iters s l =
     (if 0 \<le> i \<and> i < 16 then mem_benchmark (nat i) iters s l else Undefined)"

definition mem_reset :: "mem_lib \<Rightarrow> mem_lib" where
  "mem_reset l = l\<lparr>ml_rerun := False\<rparr>"

section \<open>Cleanup\<close>

definition free_area :: "nat \<Rightarrow> mem_lib \<Rightarrow> mem_lib" where
  "free_area a l = l\<lparr>ml_mem := free_block a (ml_mem l)\<rparr>"

definition mem_cleanup :: "nat \<Rightarrow> mem_state \<Rightarrow> mem_lib \<Rightarrow> mem_state \<times> mem_lib" where
  "mem_cleanup iters s l =
     (if iters \<noteq> 0 then (s, l)
      else (s\<lparr>ms_addr := 0, ms_lines := None, ms_pages := None, ms_words := None\<rparr>,
            if ms_addr s \<noteq> 0 then free_area (ms_addr s) l else l))"

text \<open>\<open>for (i = 0; i < npages; ++i) if (addr[i]) free(addr[i]);\<close>\<close>

fun free_pages :: "nat list \<Rightarrow> mem_lib \<Rightarrow> mem_lib" where
  "free_pages [] l = l"
| "free_pages (a # as) l = free_pages as (if a \<noteq> 0 then free_area a l else l)"

definition tlb_cleanup :: "nat \<Rightarrow> mem_state \<Rightarrow> mem_lib \<Rightarrow> (mem_state \<times> mem_lib) outcome" where
  "tlb_cleanup iters s l =
     (if iters \<noteq> 0 then Done (s, l)
      else if ms_addr s = 0 then Done (s\<lparr>ms_pages := None, ms_lines := None\<rparr>, l)
      else if length (ms_addrs s) < ms_npages s then Undefined
      else Done (s\<lparr>ms_addr := 0, ms_pages := None, ms_lines := None\<rparr>,
                 free_pages (take (ms_npages s) (ms_addrs s)) l))"

section \<open>words_initialize\<close>

text \<open>The word of index \<open>i\<close> is the reversal of its bits times the scale, an \<open>int\<close> converted to
  \<open>size_t\<close>. The first argument is whether \<open>malloc\<close> succeeds.\<close>

definition words_initialize :: "bool \<Rightarrow> nat \<Rightarrow> int \<Rightarrow> nat list option outcome" where
  "words_initialize ok mx scale =
     (if \<not> ok then Done None
      else let nbits = nbits_loop (mx div 2) 0 in
           if 31 < nbits then Undefined
           else Done (Some (map (\<lambda>i. c_size (int (reverse nbits i) * scale)) [0..<mx])))"

section \<open>base_initialize\<close>

definition base_initialize :: "mem_env \<Rightarrow> nat \<Rightarrow> mem_state \<Rightarrow> mem_lib \<Rightarrow> (mem_state \<times> mem_lib) outcome" where
  "base_initialize e iters s l =
     (if iters \<noteq> 0 then Done (s, l)
      else if ms_line s = 0 \<or> ms_pagesize s = 0 then Undefined
      else
        let nwords = ms_line s div ptr_size;
            nlines = ms_pagesize s div ms_line s;
            npages = (ms_len s + ms_pagesize s - 1) mod 2 ^ 64 div ms_pagesize s;
            nmpages = (ms_maxlen s + ms_pagesize s - 1) mod 2 ^ 64 div ms_pagesize s
        in andthen
             (if me_pages e
              then andthen (defined (permutation (me_seed e) (map (me_rand e) [0..<nmpages])
                                       (of_nat (ms_pagesize s)) (ml_perm_r l)))
                     (\<lambda>(pages, r). Done (Some (map unat pages), r))
              else Done (None, ml_perm_r l)) (\<lambda>(pages, r).
           if me_area e = 0 then Exit 1
           else
             let l = l\<lparr>ml_perm_r := r,
                       ml_mem := add_block (me_area e) ((ms_maxlen s + 2 * ms_pagesize s) mod 2 ^ 64) (ml_mem l)\<rparr>;
                 s = s\<lparr>ms_initialized := False, ms_addr := me_area e, ms_nwords := nwords, ms_nlines := nlines,
                       ms_npages := npages, ms_lines := None, ms_pages := pages, ms_words := None\<rparr>
             in if pages = None then Done (s, l)
                else
                  let p = me_area e;
                      p = (if p mod ms_pagesize s \<noteq> 0 then p + (ms_pagesize s - p mod ms_pagesize s) else p)
                  in Done (s\<lparr>ms_base := p, ms_initialized := True\<rparr>, mem_reset l)))"

section \<open>stride_initialize\<close>

text \<open>The stores of the loop, from index \<open>i\<close> on, and the one that closes the chain. A stride of zero
  never leaves the loop; \<open>stride_initialize\<close> has that guard.\<close>

function stride_loop :: "nat \<Rightarrow> nat \<Rightarrow> nat \<Rightarrow> nat \<Rightarrow> (nat \<times> nat) list" where
  "stride_loop addr stride rng i =
     (if i < rng \<and> 0 < stride
      then (addr + (i - stride), addr + i) # stride_loop addr stride rng (i + stride)
      else [(addr + (i - stride), addr)])"
  by pat_completeness auto
termination by (relation "measure (\<lambda>(addr, stride, rng, i). rng - i)") auto

declare stride_loop.simps [simp del]

definition stride_writes :: "mem_state \<Rightarrow> (nat \<times> nat) list option" where
  "stride_writes s =
     (if ms_line s = 0 then None
      else Some (stride_loop (ms_base s) (ms_line s) (ms_len s) (ms_line s)))"

text \<open>Writing the chain into the memory.\<close>

definition write_chain :: "(nat \<times> nat) list option \<Rightarrow> mem_lib \<Rightarrow> mem_lib outcome" where
  "write_chain ws l =
     andthen (defined (do { ws \<leftarrow> ws; stores ws (ml_mem l) })) (\<lambda>m. Done (l\<lparr>ml_mem := m\<rparr>))"

definition stride_initialize :: "mem_env \<Rightarrow> nat \<Rightarrow> mem_state \<Rightarrow> mem_lib \<Rightarrow> (mem_state \<times> mem_lib) outcome" where
  "stride_initialize e iters s l =
     andthen (base_initialize e iters s l) (\<lambda>(s, l).
       if \<not> ms_initialized s then Done (s, l)
       else andthen (write_chain (stride_writes s) l) (\<lambda>l.
              Done (s\<lparr>ms_p := (ms_p s)[0 := ms_base s]\<rparr>, mem_reset l)))"

section \<open>thrash_initialize\<close>

text \<open>The chain through the words of an area that is not a number of whole pages. With no words at
  all \<open>nwords - 1\<close> wraps around and the loop leaves the array.\<close>

definition thrash_word_writes :: "mem_state \<Rightarrow> (nat \<times> nat) list option" where
  "thrash_word_writes s =
     do { words \<leftarrow> ms_words s;
          (let n = ms_nwords s; addr = ms_base s in
          if n = 0 then None
          else do { ws \<leftarrow> those (map (\<lambda>i. do { a \<leftarrow> arr_get words i; b \<leftarrow> arr_get words (i + 1);
                                              Some (addr + a, addr + b) }) [0..<n - 1]);
                    a \<leftarrow> arr_get words (n - 1);
                    Some (ws @ [(addr + a, addr)]) }) }"

text \<open>The chain that changes the page with every step.\<close>

definition thrash_row :: "nat \<Rightarrow> nat list \<Rightarrow> nat \<Rightarrow> nat \<Rightarrow> nat \<Rightarrow> nat \<Rightarrow> nat \<Rightarrow> (nat \<times> nat) list option" where
  "thrash_row addr words nwords cpage npage cur_from next_from =
     those (map (\<lambda>j. do { a \<leftarrow> arr_get words ((cur_from + j) mod nwords);
                          b \<leftarrow> arr_get words ((next_from + j) mod nwords);
                          Some (addr + (cpage + a), addr + (npage + b)) }) [0..<nwords])"

definition thrash_page_writes :: "mem_state \<Rightarrow> (nat \<times> nat) list option" where
  "thrash_page_writes s =
     do { words \<leftarrow> ms_words s; pages \<leftarrow> ms_pages s;
          (let n = ms_npages s; nwords = ms_nwords s; addr = ms_base s in
          if n = 0 then None
          else do { ws \<leftarrow> those (map (\<lambda>i. do { cpage \<leftarrow> arr_get pages i; npage \<leftarrow> arr_get pages (i + 1);
                                              thrash_row addr words nwords cpage npage i (i + 1) }) [0..<n - 1]);
                    cpage \<leftarrow> arr_get pages (n - 1); npage \<leftarrow> arr_get pages 0;
                    last_row \<leftarrow> thrash_row addr words nwords cpage npage (n - 1) 1;
                    Some (concat ws @ last_row) }) }"

definition thrash_initialize :: "mem_env \<Rightarrow> nat \<Rightarrow> mem_state \<Rightarrow> mem_lib \<Rightarrow> (mem_state \<times> mem_lib) outcome" where
  "thrash_initialize e iters s l =
     andthen (base_initialize e iters s l) (\<lambda>(s, l).
       if \<not> ms_initialized s then Done (s, l)
       else if ms_pagesize s = 0 \<or> ms_line s = 0 then Undefined
       else if ms_len s mod ms_pagesize s \<noteq> 0 then
         let s = s\<lparr>ms_nwords := ms_len s div ms_line s\<rparr> in
         andthen (words_initialize (me_words e) (ms_nwords s) (c_int (ms_line s))) (\<lambda>words.
           let s = s\<lparr>ms_words := words\<rparr> in
           if words = None then Exit 1
           else andthen (write_chain (thrash_word_writes s) l) (\<lambda>l.
                  Done (s\<lparr>ms_p := (ms_p s)[0 := ms_base s]\<rparr>, mem_reset l)))
       else
         let s = s\<lparr>ms_nwords := ms_pagesize s div ms_line s\<rparr> in
         andthen (words_initialize (me_words e) (ms_nwords s) (c_int (ms_line s))) (\<lambda>words.
           let s = s\<lparr>ms_words := words\<rparr> in
           if words = None then Exit 2
           else andthen (write_chain (thrash_page_writes s) l) (\<lambda>l.
                  andthen (defined (do { pages \<leftarrow> ms_pages s; arr_get pages 0 })) (\<lambda>page0.
                    Done (s\<lparr>ms_p := (ms_p s)[0 := ms_base s + page0]\<rparr>, mem_reset l)))))"

section \<open>mem_initialize\<close>

text \<open>The links from line to line of page \<open>i\<close>, from line \<open>j\<close> and link number \<open>l\<close> on: the stores, the
  pointers \<open>p\<close> that start the parallel walks, and the values of \<open>j\<close> and \<open>l\<close> after the loop.
  Every word of the line gets its link.\<close>

definition set_pointer :: "mem_state \<Rightarrow> nat \<Rightarrow> nat \<Rightarrow> nat \<Rightarrow> nat list \<Rightarrow> nat list option" where
  "set_pointer s chunk here l p =
     (if chunk = 0 then None
      else if l mod chunk = 0 \<and> l div chunk < MAX_MEM_PARALLELISM then
        do { words \<leftarrow> ms_words s;
             w \<leftarrow> arr_get words (l div chunk mod nat (c_int (ms_nwords s)));
             arr_set p (l div chunk) (here + w) }
      else Some p)"

function mem_lines ::
  "mem_state \<Rightarrow> nat \<Rightarrow> nat \<Rightarrow> nat list \<Rightarrow> nat \<Rightarrow> nat \<Rightarrow> nat \<Rightarrow> nat list
   \<Rightarrow> (nat \<times> nat \<times> (nat \<times> nat) list \<times> nat list) option"
where
  "mem_lines s npointers page lines nlines j l p =
     (if Suc j < nlines \<and> Suc l < npointers then
        do { a \<leftarrow> arr_get lines j; b \<leftarrow> arr_get lines (Suc j);
             p \<leftarrow> set_pointer s (npointers div nat (ms_width s)) (ms_base s + page + a) l p;
             (j', l', ws, p) \<leftarrow> mem_lines s npointers page lines nlines (Suc j) (Suc l) p;
             Some (j', l', map (\<lambda>k. (ms_base s + page + a + ptr_size * k, ms_base s + page + b + ptr_size * k))
                             [0..<(ms_line s + ptr_size - 1) div ptr_size] @ ws, p) }
      else Some (j, l, [], p))"
  by pat_completeness auto
termination by (relation "measure (\<lambda>(s, npointers, page, lines, nlines, j, l, p). nlines - j)") auto

declare mem_lines.simps [simp del]

text \<open>The links of the words of one line to those of another: \<open>to k\<close> is the index of the word that
  word \<open>k\<close> points to.\<close>

definition word_links :: "nat list \<Rightarrow> nat \<Rightarrow> nat \<Rightarrow> nat \<Rightarrow> (nat \<Rightarrow> nat) \<Rightarrow> (nat \<times> nat) list option" where
  "word_links words nwords here there to =
     those (map (\<lambda>k. do { a \<leftarrow> arr_get words k; b \<leftarrow> arr_get words (to k); Some (here + a, there + b) }) [0..<nwords])"

fun mem_pages ::
  "mem_state \<Rightarrow> nat \<Rightarrow> nat list \<Rightarrow> nat list \<Rightarrow> nat list \<Rightarrow> nat \<Rightarrow> nat \<Rightarrow> nat \<Rightarrow> nat \<Rightarrow> nat \<Rightarrow> nat \<Rightarrow> nat list
   \<Rightarrow> (nat \<times> (nat \<times> nat) list \<times> nat list) option"
where
  "mem_pages s npointers pages lines words nlines nwords 0 i j l p = Some (j, [], p)"
| "mem_pages s npointers pages lines words nlines nwords (Suc todo) i j l p =
     do { page \<leftarrow> arr_get pages i;
          (j, l, ws, p) \<leftarrow> mem_lines s npointers page lines nlines 0 l p;
          jump \<leftarrow> (if todo > 0
                  then do { next_page \<leftarrow> arr_get pages (Suc i); a \<leftarrow> arr_get lines j; b \<leftarrow> arr_get lines 0;
                            word_links words nwords (ms_base s + page + a) (ms_base s + next_page + b) id }
                  else Some []);
          (j, ws', p) \<leftarrow> mem_pages s npointers pages lines words nlines nwords todo (Suc i) j l p;
          Some (j, ws @ jump @ ws', p) }"

text \<open>All stores of \<open>mem_initialize\<close> and the pointers. The last line of the last page leads to the
  first line of the first page, one word further.\<close>

definition mem_links :: "mem_state \<Rightarrow> ((nat \<times> nat) list \<times> nat list) option" where
  "mem_links s =
     do { pages \<leftarrow> ms_pages s; lines \<leftarrow> ms_lines s; words \<leftarrow> ms_words s;
          (let nwords = nat (c_int (ms_nwords s)); nlines = nat (c_int (ms_nlines s)); npages = nat (c_int (ms_npages s));
               npointers = nat (c_int (ms_len s div ms_line s))
           in if npages = 0 \<or> ms_width s < 1 then None
              else do { (j, ws, p) \<leftarrow> mem_pages s npointers pages lines words nlines nwords npages 0 0 0 (ms_p s);
                        page \<leftarrow> arr_get pages (npages - 1); page0 \<leftarrow> arr_get pages 0;
                        a \<leftarrow> arr_get lines j; b \<leftarrow> arr_get lines 0;
                        close \<leftarrow> word_links words nwords (ms_base s + page + a) (ms_base s + page0 + b)
                                  (\<lambda>k. if k = nwords - 1 then 0 else k + 1);
                        Some (ws @ close, p) }) }"

definition mem_writes :: "mem_state \<Rightarrow> (nat \<times> nat) list option" where
  "mem_writes s = map_option fst (mem_links s)"

definition mem_initialize :: "mem_env \<Rightarrow> nat \<Rightarrow> mem_state \<Rightarrow> mem_lib \<Rightarrow> (mem_state \<times> mem_lib) outcome" where
  "mem_initialize e iters s l =
     (if iters \<noteq> 0 then Done (s, l)
      else andthen (base_initialize e iters s l) (\<lambda>(s, l).
        if \<not> ms_initialized s then Done (s, l)
        else
          let s = s\<lparr>ms_initialized := False\<rparr> in
          andthen (words_initialize (me_words e) (c_size (c_int (ms_nwords s))) (int ptr_size)) (\<lambda>words.
          andthen (words_initialize (me_lines e) (c_size (c_int (ms_nlines s))) (c_int (ms_line s))) (\<lambda>lines.
            let s = s\<lparr>ms_words := words, ms_lines := lines\<rparr> in
            if words = None \<or> lines = None then Exit 1
            else andthen (defined (mem_links s)) (\<lambda>(ws, p).
                 andthen (write_chain (Some ws) l) (\<lambda>l.
                   let s = s\<lparr>ms_p := p\<rparr>;
                       n = wrap32 (wrap32 (c_int (ms_nwords s) * c_int (ms_len s div ms_line s)) + 100)
                   in andthen (mem_benchmarks (ms_width s - 1) (c_size (c_div n 100)) s (mem_reset l)) (\<lambda>l.
                        Done (s\<lparr>ms_initialized := True\<rparr>, l))))))))"

section \<open>line_initialize\<close>

definition line_writes :: "mem_state \<Rightarrow> (nat \<times> nat) list option" where
  "line_writes s =
     do { pages \<leftarrow> ms_pages s; lines \<leftarrow> ms_lines s;
          (let nlines = nat (c_int (ms_nlines s)); npages = nat (c_int (ms_npages s)); p = ms_base s
           in map_option concat (those (map (\<lambda>i.
                do { page \<leftarrow> arr_get pages i;
                     ws \<leftarrow> those (map (\<lambda>j. do { a \<leftarrow> arr_get lines j; b \<leftarrow> arr_get lines (j + 1);
                                               Some (p + page + a, p + page + b) }) [0..<nlines - 1]);
                     a \<leftarrow> arr_get lines (nlines - 1);
                     next_page \<leftarrow> arr_get pages (if i + 1 < npages then i + 1 else 0);
                     b \<leftarrow> arr_get lines 0;
                     Some (ws @ [(p + page + a, p + next_page + b)]) }) [0..<npages]))) }"

definition line_first :: "mem_state \<Rightarrow> nat option" where
  "line_first s =
     do { pages \<leftarrow> ms_pages s; lines \<leftarrow> ms_lines s; a \<leftarrow> arr_get pages 0; b \<leftarrow> arr_get lines 0;
          Some (ms_base s + a + b) }"

definition line_initialize :: "mem_env \<Rightarrow> nat \<Rightarrow> mem_state \<Rightarrow> mem_lib \<Rightarrow> (mem_state \<times> mem_lib) outcome" where
  "line_initialize e iters s l =
     (if iters \<noteq> 0 then Done (s, l)
      else andthen (base_initialize e iters s l) (\<lambda>(s, l).
        if \<not> ms_initialized s then Done (s, l)
        else
          andthen (words_initialize (me_lines e) (c_size (c_int (ms_nlines s))) (c_int (ms_line s))) (\<lambda>lines.
            let s = s\<lparr>ms_initialized := False, ms_lines := lines, ms_width := 1\<rparr> in
            if lines = None then Done (s, l)
            else andthen (write_chain (line_writes s) l) (\<lambda>l.
                 andthen (defined (line_first s)) (\<lambda>first.
                   let s = s\<lparr>ms_p := (ms_p s)[0 := first]\<rparr>;
                       n = wrap32 (wrap32 (c_int (ms_nlines s) * c_int (ms_npages s)) + 100)
                   in andthen (mem_benchmark 0 (c_size (c_div n 100)) s (mem_reset l)) (\<lambda>l.
                        Done (s\<lparr>ms_initialized := True\<rparr>, l)))))))"

section \<open>tlb_initialize\<close>

text \<open>The answers of the allocator: \<open>malloc\<close> of the three arrays, and for page \<open>i\<close> the two addresses
  \<open>valloc\<close> returns (the second when the first is not on a page boundary).\<close>

record tlb_env =
  te_lines :: bool
  te_pages :: bool
  te_addr :: nat
  te_valloc :: "nat \<Rightarrow> nat"
  te_valloc2 :: "nat \<Rightarrow> nat"
  te_rand :: "nat \<Rightarrow> nat"

text \<open>The first loop: the array \<open>addr\<close>, the array \<open>pages\<close> and the memory.\<close>

fun tlb_alloc :: "tlb_env \<Rightarrow> nat \<Rightarrow> nat list \<Rightarrow> memory \<Rightarrow> (nat list \<times> nat list \<times> memory) outcome" where
  "tlb_alloc e pagesize [] m = Done ([], [], m)"
| "tlb_alloc e pagesize (i # todo) m =
     (let p = te_valloc e i in
      if p = 0 then Exit 4
      else if p mod pagesize \<noteq> 0 then
        let q = te_valloc2 e i in
        if q = 0 then Exit 5
        else andthen (tlb_alloc e pagesize todo (add_block q (2 * pagesize) m)) (\<lambda>(addr, pages, m).
               Done (q # addr, (q + (pagesize - q mod pagesize)) # pages, m))
      else andthen (tlb_alloc e pagesize todo (add_block p pagesize m)) (\<lambda>(addr, pages, m).
             Done (p # addr, p # pages, m)))"

text \<open>The second loop, for \<open>i\<close> from \<open>npages - 2\<close> down to 1, with \<open>k\<close> calls of \<open>rand\<close> made so far. The
  shifts are of 32-bit numbers.\<close>

fun tlb_shuffle :: "(nat \<Rightarrow> nat) \<Rightarrow> nat \<Rightarrow> nat \<Rightarrow> u32 \<Rightarrow> nat list \<Rightarrow> nat list option" where
  "tlb_shuffle rands k 0 r pages = Some pages"
| "tlb_shuffle rands k (Suc i) r pages =
     (let r = push_bit 1 r XOR of_nat (rands k div 16);
          o' = unat r mod Suc i + 1
      in do { v \<leftarrow> arr_get pages o';
              w \<leftarrow> arr_get pages (Suc i + 1);
              pages \<leftarrow> arr_set pages o' w;
              pages \<leftarrow> arr_set pages (Suc i + 1) v;
              tlb_shuffle rands (Suc k) i r pages })"

text \<open>The third loop.\<close>

definition tlb_writes :: "mem_state \<Rightarrow> (nat \<times> nat) list option" where
  "tlb_writes s =
     do { pages \<leftarrow> ms_pages s; lines \<leftarrow> ms_lines s;
          (let npages = ms_npages s; nlines = ms_nlines s;
               slot = (\<lambda>i j. do { page \<leftarrow> arr_get pages i; w \<leftarrow> arr_get lines j; Some (page + w) })
           in if nlines = 0 then None
              else do { ws \<leftarrow> those (map (\<lambda>i. do { a \<leftarrow> slot i (i mod nlines); b \<leftarrow> slot (i + 1) ((i + 1) mod nlines);
                                                  Some (a, b) }) [0..<npages - 1]);
                        a \<leftarrow> slot (npages - 1) ((npages - 1) mod nlines); b \<leftarrow> slot 0 0;
                        Some (ws @ [(a, b)]) }) }"

definition tlb_initialize :: "tlb_env \<Rightarrow> nat \<Rightarrow> mem_state \<Rightarrow> mem_lib \<Rightarrow> (mem_state \<times> mem_lib) outcome" where
  "tlb_initialize e iters s l =
     (if iters \<noteq> 0 then Done (s, l)
      else
        let pagesize = nat (c_int (ms_pagesize s)) in
        if pagesize = 0 then Undefined
        else
          let nlines = pagesize div ptr_size; npages = nat (c_int (ms_len s div pagesize)) in
          andthen (words_initialize (te_lines e) nlines (int ptr_size)) (\<lambda>lines.
            if lines = None \<or> \<not> te_pages e \<or> te_addr e = 0 then Exit 1
            else andthen (tlb_alloc e pagesize [0..<npages] (ml_mem l)) (\<lambda>(addrs, pages, m).
                 andthen (defined (tlb_shuffle (te_rand e) 2 (npages - 2)
                            (push_bit 15 (of_nat (te_rand e 0)) XOR of_nat (te_rand e 1)) pages)) (\<lambda>pages.
                   let s = s\<lparr>ms_initialized := False, ms_nwords := 1, ms_nlines := nlines, ms_npages := npages,
                             ms_words := None, ms_lines := lines, ms_pages := Some pages,
                             ms_addr := te_addr e, ms_addrs := addrs\<rparr>
                   in andthen (write_chain (tlb_writes s) (l\<lparr>ml_mem := m\<rparr>)) (\<lambda>l.
                      andthen (defined (do { a \<leftarrow> arr_get pages 0; lines \<leftarrow> lines; b \<leftarrow> arr_get lines 0; Some (a + b) })) (\<lambda>first.
                        let s = s\<lparr>ms_p := (ms_p s)[0 := first]\<rparr> in
                        andthen (mem_benchmark 0 ((npages + 100) div 100) s (mem_reset l)) (\<lambda>l.
                          Done (s\<lparr>ms_initialized := True\<rparr>, l))))))))"

end
