(* ===== verification/Ring_Layout.thy ===== *)
theory Ring_Layout
  imports Memchain
begin

text \<open>
  The chains of \<open>Memchain\<close> are rings. For every initialiser: the layout, the list of the addresses
  in the order of the walk, and the states it supports; an interpretation of \<open>chain_writer\<close> shows
  that its stores link the layout into one ring.
\<close>

section \<open>Layouts on a grid\<close>

text \<open>Different multiples of \<open>d\<close> lie at least \<open>d\<close> apart.\<close>

lemma multiples_apart:
  fixes d :: nat
  assumes "x mod d = 0" "y mod d = 0" "x \<noteq> y"
  shows "x + d \<le> y \<or> y + d \<le> x"
proof -
  obtain u v where uv: "x = d * u" "y = d * v" using assms(1,2) by (metis mod_0_imp_dvd dvdE)
  have step: "d * i + d \<le> d * j" if "i < j" for i j
    using mult_le_mono2 [of "Suc i" j d] that by simp
  show ?thesis using step [of u v] step [of v u] uv assms(3) by (cases u v rule: linorder_cases) auto
qed

lemma apart_multiples:
  "x mod d = 0 \<Longrightarrow> y mod d = 0 \<Longrightarrow> x \<noteq> y \<Longrightarrow> a + ptr_size \<le> d \<Longrightarrow> b + ptr_size \<le> d \<Longrightarrow>
   apart (c + x + a) (c + y + b)"
  using multiples_apart [of x d y] unfolding apart_def by linarith

lemma apart_shift: "apart (c + a) (c + b) \<longleftrightarrow> apart a b"
  by (auto simp: apart_def)

lemma nth_neq: "distinct xs \<Longrightarrow> i < length xs \<Longrightarrow> j < length xs \<Longrightarrow> i \<noteq> j \<Longrightarrow> xs ! i \<noteq> xs ! j"
  by (simp add: nth_eq_iff_index_eq)

text \<open>Stores that come from an injective numbering of the addresses.\<close>

lemma compatible_image:
  assumes "set ws \<subseteq> (\<lambda>x. (f x, g x)) ` I" "\<And>x y. x \<in> I \<Longrightarrow> y \<in> I \<Longrightarrow> x \<noteq> y \<Longrightarrow> apart (f x) (f y)"
  shows "compatible ws"
  unfolding compatible_def
proof (clarify)
  fix a v b w assume "(a, v) \<in> set ws" "(b, w) \<in> set ws" and n: "\<not> apart a b"
  then obtain x y where "x \<in> I" "y \<in> I" "a = f x" "v = g x" "b = f y" "w = g y" using assms(1) by blast
  then show "a = b \<and> v = w" using assms(2) [of x y] n by metis
qed

lemma distinct_layout:
  assumes "distinct xs" "\<And>x y. x \<in> set xs \<Longrightarrow> y \<in> set xs \<Longrightarrow> x \<noteq> y \<Longrightarrow> apart (f x) (f y)"
  shows "distinct (map f xs)"
  using assms apart_neq by (fastforce simp: distinct_map inj_on_def)

section \<open>Stride\<close>

definition stride_layout :: "mem_state \<Rightarrow> nat list" where
  "stride_layout s = map (\<lambda>i. ms_base s + i * ms_line s) [0..<(ms_len s + ms_line s - 1) div ms_line s]"

definition stride_supported :: "mem_state \<Rightarrow> bool" where
  "stride_supported s = (ptr_size \<le> ms_line s \<and> 0 < ms_len s)"

lemma stride_loop_value:
  assumes "0 < st" "n = (rng + st - 1) div st" "k < n"
  shows "stride_loop a st rng (Suc k * st)
    = map (\<lambda>i. (a + i * st, a + Suc i * st)) [k..<n - 1] @ [(a + (n - 1) * st, a)]"
  using assms(3)
proof (induction "n - k" arbitrary: k)
  case (Suc d)
  have iff: "Suc k * st < rng \<longleftrightarrow> Suc k < n"
  proof -
    have "Suc k < n \<longleftrightarrow> Suc (Suc k) * st \<le> rng + st - 1"
      using less_eq_div_iff_mult_less_eq [of st "Suc (Suc k)" "rng + st - 1"] assms(1,2)
      by (simp add: Suc_le_eq [of "Suc k"])
    also have "\<dots> \<longleftrightarrow> Suc k * st < rng" using assms(1) by simp linarith
    finally show ?thesis by simp
  qed
  show ?case
  proof (cases "Suc k < n")
    case True
    have IH: "stride_loop a st rng (Suc (Suc k) * st)
        = map (\<lambda>i. (a + i * st, a + Suc i * st)) [Suc k..<n - 1] @ [(a + (n - 1) * st, a)]"
      using Suc.hyps(1) [of "Suc k"] Suc.hyps(2) True by linarith
    have "[k..<n - 1] = k # [Suc k..<n - 1]" using True by (simp add: upt_conv_Cons)
    moreover have "stride_loop a st rng (Suc k * st)
        = (a + k * st, a + Suc k * st) # stride_loop a st rng (Suc (Suc k) * st)"
      using iff True assms(1) by (subst stride_loop.simps) (simp add: add.commute)
    ultimately show ?thesis using IH by simp
  next
    case False
    with Suc.prems have "n = Suc k" by simp
    moreover have "stride_loop a st rng (Suc k * st) = [(a + k * st, a)]"
      using iff False assms(1) by (subst stride_loop.simps) simp
    ultimately show ?thesis by simp
  qed
qed simp

lemma ring_1d:
  assumes "0 < n" "\<And>i j. i < n \<Longrightarrow> j < n \<Longrightarrow> i \<noteq> j \<Longrightarrow> apart (f i) (f j)"
    "ws = map (\<lambda>i. (f i, f (Suc i))) [0..<n - 1] @ [(f (n - 1), f 0)]" "layout = map f [0..<n]"
  shows "compatible ws" "linked (writes_to ws) (hd layout) layout (hd layout)"
    "fst ` set ws \<subseteq> set layout" "layout \<noteq> [] \<and> distinct layout"
proof -
  have "set ws \<subseteq> (\<lambda>i. (f i, if i = n - 1 then f 0 else f (Suc i))) ` {..<n}" using assms(1,3) by auto
  then show "compatible ws" by (rule compatible_image) (use assms(2) in auto)
  show "fst ` set ws \<subseteq> set layout" using assms(1,3,4) by auto
  show "layout \<noteq> [] \<and> distinct layout" using distinct_layout [of "[0..<n]" f] assms(1,2,4) by simp
  have "linked (writes_to ws) (f 0) (map f [0..<n - 1]) (f (n - 1))"
    by (rule linked_map) (simp add: assms(3) writes_to_def)
  moreover have "map f [0..<n] = map f [0..<n - 1] @ [f (n - 1)]"
    using upt_Suc_append [of 0 "n - 1"] assms(1) by simp
  moreover have "writes_to ws (f (n - 1)) (f 0)" by (simp add: assms(3) writes_to_def)
  moreover have "hd layout = f 0" using assms(1,4) by (simp add: hd_map)
  ultimately show "linked (writes_to ws) (hd layout) layout (hd layout)"
    unfolding assms(4) by (simp add: linked_append)
qed

interpretation stride_chain: chain_writer stride_writes stride_layout stride_supported
proof unfold_locales
  fix s ws assume sup: "stride_supported s"
  define st n where d: "st = ms_line s" "n = (ms_len s + ms_line s - 1) div ms_line s"
  define f where "f i = ms_base s + i * st" for i
  have st: "ptr_size \<le> st" "0 < st" using sup by (auto simp: stride_supported_def d ptr_size_def)
  have "ms_line s \<le> ms_len s + ms_line s - 1" using sup by (simp add: stride_supported_def) linarith
  then have n: "0 < n" using st by (simp add: d div_greater_zero_iff)
  have layout: "stride_layout s = map f [0..<n]" by (simp add: stride_layout_def f_def d)
  have "f i = ms_base s + i * st + 0" for i by (simp add: f_def)
  then have apart: "apart (f i) (f j)" if "i \<noteq> j" for i j
    using apart_multiples [of "i * st" st "j * st" 0 0 "ms_base s"] that st by simp
  have val: "stride_writes s = Some (map (\<lambda>i. (f i, f (Suc i))) [0..<n - 1] @ [(f (n - 1), f 0)])"
    using stride_loop_value [of st n "ms_len s" 0 "ms_base s"] st n
    by (simp add: stride_writes_def d(1) [symmetric] d(2) f_def)
  note ring = ring_1d [OF n apart _ layout]
  show "stride_writes s \<noteq> None" using val by simp
  show "stride_layout s \<noteq> [] \<and> distinct (stride_layout s)" by (rule ring(4)) simp_all
  assume "stride_writes s = Some ws"
  with val have ws: "ws = map (\<lambda>i. (f i, f (Suc i))) [0..<n - 1] @ [(f (n - 1), f 0)]" by simp
  show "compatible ws" "linked (writes_to ws) (hd (stride_layout s)) (stride_layout s) (hd (stride_layout s))"
    "fst ` set ws \<subseteq> set (stride_layout s)"
    using ring(1-3) [OF _ ws] by simp_all
qed

section \<open>Lines\<close>

text \<open>Arrays of offsets: different multiples of \<open>d\<close> with room for \<open>room\<close> bytes below \<open>bound\<close>.\<close>

definition offsets :: "nat \<Rightarrow> nat \<Rightarrow> nat \<Rightarrow> nat list \<Rightarrow> bool" where
  "offsets d room bound xs = (distinct xs \<and> list_all (\<lambda>x. x mod d = 0 \<and> x + room \<le> bound) xs)"

lemma offsets_nth: "offsets d room bound xs \<Longrightarrow> i < length xs \<Longrightarrow> xs ! i mod d = 0 \<and> xs ! i + room \<le> bound"
  by (simp add: offsets_def list_all_length)

lemma offsets_neq: "offsets d room bound xs \<Longrightarrow> i < length xs \<Longrightarrow> j < length xs \<Longrightarrow> i \<noteq> j \<Longrightarrow> xs ! i \<noteq> xs ! j"
  by (simp add: offsets_def nth_neq)

definition pages_ok :: "mem_state \<Rightarrow> nat list \<Rightarrow> bool" where
  "pages_ok s pages = (0 < ms_npages s \<and> ms_npages s \<le> length pages \<and> distinct pages
     \<and> list_all (\<lambda>x. x mod ms_pagesize s = 0) pages)"

lemma pages_nth: "pages_ok s pages \<Longrightarrow> i < ms_npages s \<Longrightarrow> pages ! i mod ms_pagesize s = 0"
  by (simp add: pages_ok_def list_all_length)

lemma pages_neq: "pages_ok s pages \<Longrightarrow> i < ms_npages s \<Longrightarrow> j < ms_npages s \<Longrightarrow> i \<noteq> j \<Longrightarrow> pages ! i \<noteq> pages ! j"
  by (simp add: pages_ok_def nth_neq)

text \<open>Two slots of the grid of pages and offsets.\<close>

lemma grid_apart:
  assumes "pages_ok s pages" "offsets d ptr_size (ms_pagesize s) xs" "ptr_size \<le> d"
    "i < ms_npages s" "i' < ms_npages s" "j < length xs" "j' < length xs" "(i, j) \<noteq> (i', j')"
  shows "apart (c + pages ! i + xs ! j) (c + pages ! i' + xs ! j')"
proof (cases "i = i'")
  case True
  then have "apart (c + pages ! i + xs ! j + 0) (c + pages ! i + xs ! j' + 0)"
    using assms offsets_nth [OF assms(2)] offsets_neq [OF assms(2)] by (intro apart_multiples [of _ d]) auto
  with True show ?thesis by simp
next
  case False
  then show ?thesis
    using assms pages_nth [OF assms(1)] pages_neq [OF assms(1)] offsets_nth [OF assms(2)]
    by (intro apart_multiples [of _ "ms_pagesize s"]) auto
qed

text \<open>A ring through the rows of a grid: from the last slot of a row to the first of the next.\<close>

lemma grid_distinct:
  assumes "\<And>i j i' j'. i < n \<Longrightarrow> i' < n \<Longrightarrow> j < k \<Longrightarrow> j' < k \<Longrightarrow> (i, j) \<noteq> (i', j') \<Longrightarrow> apart (f i j) (f i' j')"
  shows "distinct (concat (map (\<lambda>i. map (f i) [0..<k]) [0..<n]))"
proof -
  have "concat (map (\<lambda>i. map (f i) [0..<k]) [0..<n]) = map (\<lambda>(i, j). f i j) (List.product [0..<n] [0..<k])"
    by (simp add: product_concat_map map_concat comp_def)
  moreover have "distinct (map (\<lambda>(i, j). f i j) (List.product [0..<n] [0..<k]))"
  proof (rule distinct_layout)
    fix x y assume "x \<in> set (List.product [0..<n] [0..<k])" "y \<in> set (List.product [0..<n] [0..<k])" "x \<noteq> y"
    then show "apart (case x of (i, j) \<Rightarrow> f i j) (case y of (i, j) \<Rightarrow> f i j)"
      using assms [of "fst x" "fst y" "snd x" "snd y"] by (auto simp: case_prod_unfold prod_eq_iff)
  qed (simp add: distinct_product)
  ultimately show ?thesis by simp
qed

lemma hd_grid: "0 < n \<Longrightarrow> 0 < k \<Longrightarrow> hd (concat (map (\<lambda>i. map (f i) [0..<k]) [0..<n])) = f 0 0"
  by (simp add: upt_conv_Cons)

lemma in_concat_upt: "i < n \<Longrightarrow> x \<in> set (g i) \<Longrightarrow> x \<in> set (concat (map g [0..<n]))"
  by auto

lemma grid_path:
  assumes "0 < n" "0 < k"
    "\<And>i j. i < n \<Longrightarrow> Suc j < k \<Longrightarrow> W (f i j) (f i (Suc j))"
    "\<And>i. Suc i < n \<Longrightarrow> W (f i (k - 1)) (f (Suc i) 0)" "W (f (n - 1) (k - 1)) y"
  shows "linked W (f 0 0) (concat (map (\<lambda>i. map (f i) [0..<k]) [0..<n])) y"
proof -
  let ?g = "\<lambda>i. if i < n then f i 0 else y"
  have row: "linked W (?g i) (map (f i) [0..<k]) (?g (Suc i))" if "i < n" for i
  proof -
    have "linked W (f i 0) (map (f i) [0..<k - 1]) (f i (k - 1))"
      by (rule linked_map) (use assms(3) that in auto)
    moreover have "map (f i) [0..<k] = map (f i) [0..<k - 1] @ [f i (k - 1)]"
      using upt_Suc_append [of 0 "k - 1"] assms(2) by simp
    moreover have "W (f i (k - 1)) (?g (Suc i))"
    proof (cases "Suc i < n")
      case False
      with that have "i = n - 1" by simp
      with assms(5) False show ?thesis by simp
    qed (use assms(4) [of i] in simp)
    ultimately show ?thesis using that by (auto simp: linked_append)
  qed
  then have "linked W (?g 0) (concat (map (\<lambda>i. map (f i) [0..<k]) [0..<n])) (?g n)"
    by (rule linked_concat)
  then show ?thesis using assms(1) by simp
qed

lemma grid_linked:
  assumes "0 < n" "0 < k"
    "\<And>i j. i < n \<Longrightarrow> Suc j < k \<Longrightarrow> W (f i j) (f i (Suc j))"
    "\<And>i. i < n \<Longrightarrow> W (f i (k - 1)) (f (if Suc i < n then Suc i else 0) 0)"
  defines "layout \<equiv> concat (map (\<lambda>i. map (f i) [0..<k]) [0..<n])"
  shows "linked W (hd layout) layout (hd layout)"
  unfolding layout_def hd_grid [OF assms(1,2)]
proof (rule grid_path)
  show "W (f i (k - 1)) (f (Suc i) 0)" if "Suc i < n" for i using assms(4) [of i] that by simp
  show "W (f (n - 1) (k - 1)) (f 0 0)" using assms(4) [of "n - 1"] assms(1) by simp
qed (use assms(1-3) in auto)

definition line_layout :: "mem_state \<Rightarrow> nat list" where
  "line_layout s = concat (map (\<lambda>i. map (\<lambda>j. ms_base s + the (ms_pages s) ! i + the (ms_lines s) ! j)
     [0..<ms_nlines s]) [0..<ms_npages s])"

definition line_supported :: "mem_state \<Rightarrow> bool" where
  "line_supported s = (case (ms_pages s, ms_lines s) of
     (Some pages, Some lines) \<Rightarrow> pages_ok s pages \<and> ms_npages s < 2 ^ 31
       \<and> 0 < ms_nlines s \<and> ms_nlines s < 2 ^ 31 \<and> length lines = ms_nlines s
       \<and> ptr_size \<le> ms_line s \<and> offsets (ms_line s) ptr_size (ms_pagesize s) lines
   | _ \<Rightarrow> False)"

lemma line_supportedD:
  assumes "line_supported s"
  obtains pages lines where "ms_pages s = Some pages" "ms_lines s = Some lines" "pages_ok s pages"
    "ms_npages s < 2 ^ 31" "0 < ms_nlines s" "ms_nlines s < 2 ^ 31" "length lines = ms_nlines s"
    "ptr_size \<le> ms_line s" "offsets (ms_line s) ptr_size (ms_pagesize s) lines"
  using assms by (auto simp: line_supported_def split: option.splits)

lemma line_writes_value:
  assumes "ms_pages s = Some pages" "ms_lines s = Some lines" "pages_ok s pages"
    "ms_npages s < 2 ^ 31" "0 < ms_nlines s" "ms_nlines s < 2 ^ 31" "length lines = ms_nlines s"
  defines "f \<equiv> \<lambda>i j. ms_base s + pages ! i + lines ! j"
  shows "line_writes s = Some (concat (map (\<lambda>i. map (\<lambda>j. (f i j, f i (Suc j))) [0..<ms_nlines s - 1]
           @ [(f i (ms_nlines s - 1), f (if Suc i < ms_npages s then Suc i else 0) 0)]) [0..<ms_npages s]))"
proof -
  have inner: "those (map (\<lambda>j. do { a \<leftarrow> arr_get lines j; b \<leftarrow> arr_get lines (j + 1);
                 Some (ms_base s + page + a, ms_base s + page + b) }) [0..<ms_nlines s - 1])
      = Some (map (\<lambda>j. (ms_base s + page + lines ! j, ms_base s + page + lines ! Suc j)) [0..<ms_nlines s - 1])" for page
    by (rule those_map_value) (use assms(7) in auto)
  have np: "0 < ms_npages s" "ms_npages s \<le> length pages" "arr_get pages 0 = Some (pages ! 0)"
    using assms(3) by (auto simp: pages_ok_def intro!: arr_get_Some)
  show ?thesis
    unfolding line_writes_def f_def using assms(1,2,4-7) np inner
    by (simp add: Let_def) (subst those_map_value, auto)
qed

interpretation line_chain: chain_writer line_writes line_layout line_supported
proof unfold_locales
  fix s ws assume sup: "line_supported s"
  obtain pages lines where *: "ms_pages s = Some pages" "ms_lines s = Some lines" "pages_ok s pages"
    "ms_npages s < 2 ^ 31" "0 < ms_nlines s" "ms_nlines s < 2 ^ 31" "length lines = ms_nlines s"
    "ptr_size \<le> ms_line s" "offsets (ms_line s) ptr_size (ms_pagesize s) lines"
    using sup by (rule line_supportedD)
  define f where "f = (\<lambda>i j. ms_base s + pages ! i + lines ! j)"
  define n k where nk: "n = ms_npages s" "k = ms_nlines s"
  have pos: "0 < n" "0 < k" using * by (auto simp: pages_ok_def nk)
  have layout: "line_layout s = concat (map (\<lambda>i. map (f i) [0..<k]) [0..<n])"
    by (simp add: line_layout_def f_def nk *)
  have apart: "apart (f i j) (f i' j')" if "i < n" "i' < n" "j < k" "j' < k" "(i, j) \<noteq> (i', j')" for i j i' j'
    unfolding f_def using grid_apart [OF *(3,9,8)] that *(7) by (simp add: nk)
  let ?ws = "concat (map (\<lambda>i. map (\<lambda>j. (f i j, f i (Suc j))) [0..<k - 1]
               @ [(f i (k - 1), f (if Suc i < n then Suc i else 0) 0)]) [0..<n])"
  have val: "line_writes s = Some ?ws" unfolding f_def nk by (rule line_writes_value [OF *(1-7)])
  show "line_writes s \<noteq> None" using val by simp
  show "line_layout s \<noteq> [] \<and> distinct (line_layout s)"
    using grid_distinct [of n k f] apart pos by (auto simp: layout)
  assume "line_writes s = Some ws"
  with val have ws: "ws = ?ws" by simp
  let ?next = "\<lambda>(i, j). if Suc j < k then f i (Suc j) else f (if Suc i < n then Suc i else 0) 0"
  have "set ws \<subseteq> (\<lambda>x. (case x of (i, j) \<Rightarrow> f i j, ?next x)) ` ({..<n} \<times> {..<k})"
  proof
    fix w assume "w \<in> set ws"
    then consider i j where "i < n" "j < k - 1" "w = (f i j, f i (Suc j))"
      | i where "i < n" "w = (f i (k - 1), f (if Suc i < n then Suc i else 0) 0)"
      by (auto simp: ws)
    then show "w \<in> (\<lambda>x. (case x of (i, j) \<Rightarrow> f i j, ?next x)) ` ({..<n} \<times> {..<k})"
    proof cases
      case (1 i j)
      then show ?thesis by (intro rev_image_eqI [of "(i, j)"]) auto
    next
      case (2 i)
      then show ?thesis using pos by (intro rev_image_eqI [of "(i, k - 1)"]) auto
    qed
  qed
  then show "compatible ws" by (rule compatible_image) (use apart in auto)
  show "fst ` set ws \<subseteq> set (line_layout s)" using pos by (auto simp: ws layout)
  show "linked (writes_to ws) (hd (line_layout s)) (line_layout s) (hd (line_layout s))"
    unfolding layout
  proof (rule grid_linked)
    show "writes_to ws (f i j) (f i (Suc j))" if "i < n" "Suc j < k" for i j
      unfolding writes_to_def ws by (rule in_concat_upt [OF that(1)]) (use that(2) in auto)
    show "writes_to ws (f i (k - 1)) (f (if Suc i < n then Suc i else 0) 0)" if "i < n" for i
      unfolding writes_to_def ws by (rule in_concat_upt [OF that]) simp
  qed (use pos in auto)
qed

section \<open>Thrashing\<close>

definition thrash_word_layout :: "mem_state \<Rightarrow> nat list" where
  "thrash_word_layout s = map (\<lambda>i. ms_base s + the (ms_words s) ! i) [0..<ms_nwords s]"

definition thrash_word_supported :: "mem_state \<Rightarrow> bool" where
  "thrash_word_supported s = (case ms_words s of
     Some words \<Rightarrow> 0 < ms_nwords s \<and> length words = ms_nwords s \<and> words ! 0 = 0 \<and> ptr_size \<le> ms_line s
       \<and> offsets (ms_line s) 0 (ms_len s) words
   | None \<Rightarrow> False)"

interpretation thrash_word_chain: chain_writer thrash_word_writes thrash_word_layout thrash_word_supported
proof unfold_locales
  fix s ws assume sup: "thrash_word_supported s"
  then obtain words where *: "ms_words s = Some words" "0 < ms_nwords s" "length words = ms_nwords s"
    "words ! 0 = 0" "ptr_size \<le> ms_line s" "offsets (ms_line s) 0 (ms_len s) words"
    by (auto simp: thrash_word_supported_def split: option.splits)
  define f where "f = (\<lambda>i. ms_base s + words ! i)"
  define n where "n = ms_nwords s"
  have layout: "thrash_word_layout s = map f [0..<n]" by (simp add: thrash_word_layout_def f_def n_def *)
  have apart: "apart (f i) (f j)" if "i < n" "j < n" "i \<noteq> j" for i j
  proof -
    have "apart (ms_base s + words ! i + 0) (ms_base s + words ! j + 0)"
      using that * offsets_nth [OF *(6)] offsets_neq [OF *(6)] n_def
      by (intro apart_multiples [of _ "ms_line s"]) auto
    then show ?thesis by (simp add: f_def)
  qed
  have inner: "those (map (\<lambda>i. do { a \<leftarrow> arr_get words i; b \<leftarrow> arr_get words (i + 1);
      Some (ms_base s + a, ms_base s + b) }) [0..<n - 1]) = Some (map (\<lambda>i. (f i, f (Suc i))) [0..<n - 1])"
    by (rule those_map_value) (use *(3) n_def in \<open>auto simp: f_def\<close>)
  have val: "thrash_word_writes s = Some (map (\<lambda>i. (f i, f (Suc i))) [0..<n - 1] @ [(f (n - 1), f 0)])"
    using inner * unfolding thrash_word_writes_def by (simp add: Let_def n_def) (simp add: f_def)
  note ring = ring_1d [OF _ apart _ layout]
  show "thrash_word_writes s \<noteq> None" using val by simp
  show "thrash_word_layout s \<noteq> [] \<and> distinct (thrash_word_layout s)" by (rule ring(4)) (use *(2) n_def in simp_all)
  assume "thrash_word_writes s = Some ws"
  with val have ws: "ws = map (\<lambda>i. (f i, f (Suc i))) [0..<n - 1] @ [(f (n - 1), f 0)]" by simp
  show "compatible ws" "linked (writes_to ws) (hd (thrash_word_layout s)) (thrash_word_layout s) (hd (thrash_word_layout s))"
    "fst ` set ws \<subseteq> set (thrash_word_layout s)"
    using ring(1-3) [OF _ _ _ _ ws] *(2) n_def by simp_all
qed

text \<open>Column \<open>j\<close> of the walk through the pages takes word \<open>i + j\<close> of page \<open>i\<close>.\<close>

definition thrash_page_layout :: "mem_state \<Rightarrow> nat list" where
  "thrash_page_layout s = concat (map (\<lambda>j. map (\<lambda>i.
     ms_base s + the (ms_pages s) ! i + the (ms_words s) ! ((i + j) mod ms_nwords s))
       [0..<ms_npages s]) [0..<ms_nwords s])"

definition thrash_page_supported :: "mem_state \<Rightarrow> bool" where
  "thrash_page_supported s = (case (ms_pages s, ms_words s) of
     (Some pages, Some words) \<Rightarrow> pages_ok s pages \<and> 0 < ms_nwords s \<and> length words = ms_nwords s
       \<and> ptr_size \<le> ms_line s \<and> offsets (ms_line s) ptr_size (ms_pagesize s) words
   | _ \<Rightarrow> False)"

lemma mod_shift_neq:
  fixes i j j' n :: nat
  assumes "j < n" "j' < n" "j \<noteq> j'"
  shows "(i + j) mod n \<noteq> (i + j') mod n"
proof
  assume eq: "(i + j) mod n = (i + j') mod n"
  have gap: False if "a < b" "b < n" "(i + a) mod n = (i + b) mod n" for a b
  proof -
    have "n dvd (i + b) - (i + a)" using that(1,3) mod_eq_dvd_iff_nat [of "i + a" "i + b" n] by simp
    then show False using that(1,2) by (simp add: nat_dvd_not_less)
  qed
  show False using gap [of j j'] gap [of j' j] eq assms by (cases j j' rule: linorder_cases) auto
qed

lemma thrash_row_value:
  assumes "0 < nwords" "length words = nwords"
  shows "thrash_row addr words nwords cpage npage c d
    = Some (map (\<lambda>j. (addr + cpage + words ! ((c + j) mod nwords), addr + npage + words ! ((d + j) mod nwords))) [0..<nwords])"
  unfolding thrash_row_def by (rule those_map_value) (use assms in \<open>simp add: add.assoc\<close>)

interpretation thrash_page_chain: chain_writer thrash_page_writes thrash_page_layout thrash_page_supported
proof unfold_locales
  fix s ws assume sup: "thrash_page_supported s"
  then obtain pages words where *: "ms_pages s = Some pages" "ms_words s = Some words" "pages_ok s pages"
    "0 < ms_nwords s" "length words = ms_nwords s" "ptr_size \<le> ms_line s"
    "offsets (ms_line s) ptr_size (ms_pagesize s) words"
    by (auto simp: thrash_page_supported_def split: option.splits)
  define n k where nk: "n = ms_nwords s" "k = ms_npages s"
  define f where "f = (\<lambda>j i. ms_base s + pages ! i + words ! ((i + j) mod n))"
  have pos: "0 < n" "0 < k" "k \<le> length pages" using * by (auto simp: pages_ok_def nk)
  have layout: "thrash_page_layout s = concat (map (\<lambda>j. map (f j) [0..<k]) [0..<n])"
    by (simp add: thrash_page_layout_def f_def nk *)
  have apart: "apart (f j i) (f j' i')" if "i < k" "i' < k" "j < n" "j' < n" "(j, i) \<noteq> (j', i')" for i j i' j'
  proof -
    have "(i, (i + j) mod n) \<noteq> (i', (i' + j') mod n)" using that mod_shift_neq [of j n j'] by auto
    then show ?thesis
      unfolding f_def using that pos *(5) by (intro grid_apart [OF *(3,7,6)]) (auto simp: nk)
  qed
  have page0: "arr_get pages 0 = Some (pages ! 0)" using pos by (intro arr_get_Some) linarith
  let ?row = "\<lambda>i. map (\<lambda>j. (f j i, f j (Suc i))) [0..<n]"
  let ?ws = "concat (map ?row [0..<k - 1]) @ map (\<lambda>j. (f j (k - 1), f (Suc j) 0)) [0..<n]"
  have rows: "those (map (\<lambda>i. do { cpage \<leftarrow> arr_get pages i; npage \<leftarrow> arr_get pages (i + 1);
      thrash_row (ms_base s) words n cpage npage i (i + 1) }) [0..<k - 1]) = Some (map ?row [0..<k - 1])"
    by (rule those_map_value) (use pos *(5) thrash_row_value [of n words] in \<open>auto simp: f_def nk\<close>)
  have val: "thrash_page_writes s = Some ?ws"
    using rows pos page0 *(1,2,5) thrash_row_value [of n words "ms_base s" "pages ! (k - 1)" "pages ! 0" "k - 1" 1]
    unfolding thrash_page_writes_def nk [symmetric] by (simp add: Let_def f_def add.commute)
  show "thrash_page_writes s \<noteq> None" using val by simp
  show "thrash_page_layout s \<noteq> [] \<and> distinct (thrash_page_layout s)"
    using grid_distinct [of n k f] apart pos by (auto simp: layout)
  assume "thrash_page_writes s = Some ws"
  with val have ws: "ws = ?ws" by simp
  have wrap: "f n 0 = f 0 0" using pos by (simp add: f_def)
  let ?next = "\<lambda>(j, i). if Suc i < k then f j (Suc i) else f (Suc j) 0"
  have "set ws \<subseteq> (\<lambda>x. (case x of (j, i) \<Rightarrow> f j i, ?next x)) ` ({..<n} \<times> {..<k})"
  proof
    fix w assume "w \<in> set ws"
    then consider i j where "j < n" "i < k - 1" "w = (f j i, f j (Suc i))"
      | j where "j < n" "w = (f j (k - 1), f (Suc j) 0)"
      by (auto simp: ws)
    then show "w \<in> (\<lambda>x. (case x of (j, i) \<Rightarrow> f j i, ?next x)) ` ({..<n} \<times> {..<k})"
    proof cases
      case (1 i j)
      then show ?thesis by (intro rev_image_eqI [of "(j, i)"]) auto
    next
      case (2 j)
      then show ?thesis using pos by (intro rev_image_eqI [of "(j, k - 1)"]) auto
    qed
  qed
  then show "compatible ws" by (rule compatible_image) (use apart in auto)
  show "fst ` set ws \<subseteq> set (thrash_page_layout s)" using pos by (auto simp: ws layout)
  have last: "writes_to ws (f j (k - 1)) (f (if Suc j < n then Suc j else 0) 0)" if "j < n" for j
  proof -
    have "f (if Suc j < n then Suc j else 0) 0 = f (Suc j) 0" using that wrap by (cases "Suc j < n") (auto dest: Suc_lessI)
    with that show ?thesis by (auto simp: writes_to_def ws)
  qed
  show "linked (writes_to ws) (hd (thrash_page_layout s)) (thrash_page_layout s) (hd (thrash_page_layout s))"
    unfolding layout
  proof (rule grid_linked)
    show "writes_to ws (f j i) (f j (Suc i))" if "j < n" "Suc i < k" for i j
      unfolding writes_to_def ws set_append using that by (intro UnI1 in_concat_upt [of i]) auto
  qed (use pos last in auto)
qed

section \<open>TLB\<close>

definition tlb_layout :: "mem_state \<Rightarrow> nat list" where
  "tlb_layout s = map (\<lambda>i. the (ms_pages s) ! i + the (ms_lines s) ! (i mod ms_nlines s)) [0..<ms_npages s]"

definition tlb_supported :: "mem_state \<Rightarrow> bool" where
  "tlb_supported s = (case (ms_pages s, ms_lines s) of
     (Some pages, Some lines) \<Rightarrow> 0 < ms_npages s \<and> length pages = ms_npages s
       \<and> distinct pages \<and> list_all (\<lambda>x. x mod ms_pagesize s = 0) pages
       \<and> 0 < ms_nlines s \<and> length lines = ms_nlines s \<and> list_all (\<lambda>x. x + ptr_size \<le> ms_pagesize s) lines
   | _ \<Rightarrow> False)"

interpretation tlb_chain: chain_writer tlb_writes tlb_layout tlb_supported
proof unfold_locales
  fix s ws assume sup: "tlb_supported s"
  then obtain pages lines where *: "ms_pages s = Some pages" "ms_lines s = Some lines" "0 < ms_npages s"
    "length pages = ms_npages s" "distinct pages" "list_all (\<lambda>x. x mod ms_pagesize s = 0) pages"
    "0 < ms_nlines s" "length lines = ms_nlines s" "list_all (\<lambda>x. x + ptr_size \<le> ms_pagesize s) lines"
    by (auto simp: tlb_supported_def split: option.splits)
  define n k where nk: "n = ms_npages s" "k = ms_nlines s"
  define f where "f = (\<lambda>i. pages ! i + lines ! (i mod k))"
  have layout: "tlb_layout s = map f [0..<n]" by (simp add: tlb_layout_def f_def nk *)
  have apart: "apart (f i) (f j)" if "i < n" "j < n" "i \<noteq> j" for i j
  proof -
    have "apart (0 + pages ! i + lines ! (i mod k)) (0 + pages ! j + lines ! (j mod k))"
      using that * nth_neq [OF *(5)] nk
      by (intro apart_multiples [of _ "ms_pagesize s"]) (auto simp: list_all_length)
    then show ?thesis by (simp add: f_def)
  qed
  have inner: "those (map (\<lambda>i. do { a \<leftarrow> do { page \<leftarrow> arr_get pages i; w \<leftarrow> arr_get lines (i mod k); Some (page + w) };
        b \<leftarrow> do { page \<leftarrow> arr_get pages (i + 1); w \<leftarrow> arr_get lines ((i + 1) mod k); Some (page + w) };
        Some (a, b) }) [0..<n - 1]) = Some (map (\<lambda>i. (f i, f (Suc i))) [0..<n - 1])"
    by (rule those_map_value) (use * nk in \<open>auto simp: f_def\<close>)
  have z: "arr_get pages 0 = Some (pages ! 0)" "arr_get lines 0 = Some (lines ! 0)"
    using * by (intro arr_get_Some; simp)+
  have val: "tlb_writes s = Some (map (\<lambda>i. (f i, f (Suc i))) [0..<n - 1] @ [(f (n - 1), f 0)])"
    using inner z *(1-4,7,8) unfolding tlb_writes_def by (simp add: Let_def nk) (simp add: f_def nk)
  note ring = ring_1d [OF _ apart _ layout]
  show "tlb_writes s \<noteq> None" using val by simp
  show "tlb_layout s \<noteq> [] \<and> distinct (tlb_layout s)" by (rule ring(4)) (use *(3) nk in simp_all)
  assume "tlb_writes s = Some ws"
  with val have ws: "ws = map (\<lambda>i. (f i, f (Suc i))) [0..<n - 1] @ [(f (n - 1), f 0)]" by simp
  show "compatible ws" "linked (writes_to ws) (hd (tlb_layout s)) (tlb_layout s) (hd (tlb_layout s))"
    "fst ` set ws \<subseteq> set (tlb_layout s)"
    using ring(1-3) [OF _ _ _ _ ws] *(3) nk by simp_all
qed

section \<open>Every word of every line\<close>

text \<open>The walk of \<open>mem_initialize\<close> takes word \<open>k\<close> of every line of every page before word \<open>k+1\<close>.\<close>

definition mem_slot :: "mem_state \<Rightarrow> nat \<Rightarrow> nat \<Rightarrow> nat \<Rightarrow> nat" where
  "mem_slot s k i j = ms_base s + the (ms_pages s) ! i + the (ms_lines s) ! j + the (ms_words s) ! k"

definition mem_layout :: "mem_state \<Rightarrow> nat list" where
  "mem_layout s = concat (map (\<lambda>k. concat (map (\<lambda>i. map (mem_slot s k i)
     [0..<ms_nlines s]) [0..<ms_npages s])) [0..<ms_nwords s])"

definition mem_supported :: "mem_state \<Rightarrow> bool" where
  "mem_supported s = (case (ms_pages s, ms_lines s, ms_words s) of
     (Some pages, Some lines, Some words) \<Rightarrow> pages_ok s pages \<and> ms_npages s * ms_nlines s < 2 ^ 31
       \<and> ms_len s div ms_line s = ms_npages s * ms_nlines s
       \<and> length lines = ms_nlines s \<and> offsets (ms_line s) (ms_line s) (ms_pagesize s) lines
       \<and> 0 < ms_nwords s \<and> ms_nwords s < 2 ^ 31 \<and> length words = ms_nwords s
       \<and> offsets ptr_size ptr_size (ms_line s) words \<and> ms_line s = ptr_size * ms_nwords s
       \<and> 1 \<le> ms_width s \<and> ms_width s < int (ms_nlines s) \<and> ms_width s \<le> 16 \<and> length (ms_p s) = 16
   | _ \<Rightarrow> False)"

text \<open>The words of a line are all its words: a word offset is found in \<open>words\<close>.\<close>

lemma word_index:
  assumes "offsets ptr_size ptr_size (ptr_size * n) words" "length words = n" "t < n"
  shows "\<exists>k < n. words ! k = ptr_size * t"
proof -
  have "set words \<subseteq> (\<lambda>t. ptr_size * t) ` {..<n}"
  proof
    fix x assume "x \<in> set words"
    then have "x mod ptr_size = 0" "x + ptr_size \<le> ptr_size * n"
      using assms(1) by (auto simp: offsets_def list_all_iff)
    then show "x \<in> (\<lambda>t. ptr_size * t) ` {..<n}"
      by (intro image_eqI [of _ _ "x div ptr_size"]) (auto simp: ptr_size_def)
  qed
  moreover have "card (set words) = n" using assms(1,2) by (simp add: offsets_def distinct_card)
  moreover have "card ((\<lambda>t. ptr_size * t) ` {..<n}) = n"
    by (subst card_image) (auto simp: inj_on_def ptr_size_def)
  ultimately have "set words = (\<lambda>t. ptr_size * t) ` {..<n}" by (simp add: card_subset_eq)
  with assms(3) have "ptr_size * t \<in> set words" by blast
  with assms(2) show ?thesis by (metis in_set_conv_nth)
qed

lemma mem_supportedD:
  assumes "mem_supported s"
  shows "ms_pages s = Some (the (ms_pages s))" "ms_lines s = Some (the (ms_lines s))"
    "ms_words s = Some (the (ms_words s))" "pages_ok s (the (ms_pages s))"
    "length (the (ms_lines s)) = ms_nlines s" "length (the (ms_words s)) = ms_nwords s"
    "offsets (ms_line s) (ms_line s) (ms_pagesize s) (the (ms_lines s))"
    "offsets ptr_size ptr_size (ms_line s) (the (ms_words s))" "ms_line s = ptr_size * ms_nwords s"
    "ms_npages s * ms_nlines s < 2 ^ 31" "ms_len s div ms_line s = ms_npages s * ms_nlines s"
    "0 < ms_nwords s" "ms_nwords s < 2 ^ 31" "1 \<le> ms_width s" "ms_width s < int (ms_nlines s)"
    "ms_width s \<le> 16" "length (ms_p s) = 16"
  using assms by (auto simp: mem_supported_def split: option.splits)

lemma mem_supported_sizes:
  assumes "mem_supported s"
  shows "0 < ms_npages s" "1 < ms_nlines s" "ms_npages s < 2 ^ 31" "ms_nlines s < 2 ^ 31"
    "ms_npages s \<le> length (the (ms_pages s))" "(ms_line s + ptr_size - 1) div ptr_size = ms_nwords s"
proof -
  note d = mem_supportedD [OF assms]
  show np: "0 < ms_npages s" "ms_npages s \<le> length (the (ms_pages s))" using d(4) by (auto simp: pages_ok_def)
  show nl: "1 < ms_nlines s" using d(14,15) by simp
  have "ms_npages s * 1 \<le> ms_npages s * ms_nlines s" "1 * ms_nlines s \<le> ms_npages s * ms_nlines s"
    using np nl by (intro mult_le_mono; simp)+
  with d(10) show "ms_npages s < 2 ^ 31" "ms_nlines s < 2 ^ 31" by linarith+
  show "(ms_line s + ptr_size - 1) div ptr_size = ms_nwords s" by (simp add: d(9) ptr_size_def)
qed

lemma mem_slot_apart:
  assumes "mem_supported s" "k < ms_nwords s" "i < ms_npages s" "j < ms_nlines s"
    "k' < ms_nwords s" "i' < ms_npages s" "j' < ms_nlines s" "(k, i, j) \<noteq> (k', i', j')"
  shows "apart (mem_slot s k i j) (mem_slot s k' i' j')"
proof -
  note d = mem_supportedD [OF assms(1)]
  let ?P = "the (ms_pages s)" and ?L = "the (ms_lines s)" and ?W = "the (ms_words s)"
  have L: "?L ! j mod ms_line s = 0 \<and> ?L ! j + ms_line s \<le> ms_pagesize s" if "j < ms_nlines s" for j
    using offsets_nth [OF d(7)] that d(5) by simp
  have W: "?W ! k mod ptr_size = 0 \<and> ?W ! k + ptr_size \<le> ms_line s" if "k < ms_nwords s" for k
    using offsets_nth [OF d(8)] that d(6) by simp
  consider "i \<noteq> i'" | "i = i'" "j \<noteq> j'" | "i = i'" "j = j'" "k \<noteq> k'" using assms(8) by auto
  then show ?thesis
  proof cases
    case 1
    then have "apart (ms_base s + ?P ! i + (?L ! j + ?W ! k)) (ms_base s + ?P ! i' + (?L ! j' + ?W ! k'))"
      using assms pages_nth [OF d(4)] pages_neq [OF d(4)] L [of j] L [of j'] W [of k] W [of k']
      by (intro apart_multiples [of _ "ms_pagesize s"]) auto
    then show ?thesis by (simp add: mem_slot_def add.assoc)
  next
    case 2
    then have "apart (ms_base s + ?P ! i + ?L ! j + ?W ! k) (ms_base s + ?P ! i + ?L ! j' + ?W ! k')"
      using assms offsets_neq [OF d(7)] d(5) L W by (intro apart_multiples [of _ "ms_line s"]) auto
    with 2 show ?thesis by (simp add: mem_slot_def)
  next
    case 3
    then have "apart (ms_base s + ?P ! i + ?L ! j + ?W ! k + 0) (ms_base s + ?P ! i + ?L ! j + ?W ! k' + 0)"
      using assms offsets_neq [OF d(8)] d(6) W by (intro apart_multiples [of _ ptr_size]) auto
    with 3 show ?thesis by (simp add: mem_slot_def)
  qed
qed

lemma mem_slot_layout:
  "k < ms_nwords s \<Longrightarrow> i < ms_npages s \<Longrightarrow> j < ms_nlines s \<Longrightarrow> mem_slot s k i j \<in> set (mem_layout s)"
  unfolding mem_layout_def by (intro in_concat_upt [of k] in_concat_upt [of i]) auto

subsection \<open>The pointers\<close>

abbreviation mem_chunk :: "mem_state \<Rightarrow> nat" where
  "mem_chunk s \<equiv> ms_npages s * ms_nlines s div nat (ms_width s)"

text \<open>After \<open>l\<close> links the pointers that have been set are on the chain.\<close>

definition pointers_set :: "mem_state \<Rightarrow> nat \<Rightarrow> nat list \<Rightarrow> bool" where
  "pointers_set s l p = (length p = 16 \<and> (\<forall>m < 16. m * mem_chunk s < l \<longrightarrow> p ! m \<in> set (mem_layout s)))"

lemma mem_chunk_pos: "mem_supported s \<Longrightarrow> 0 < mem_chunk s"
proof -
  assume sup: "mem_supported s"
  have "nat (ms_width s) \<le> 1 * ms_nlines s" using mem_supportedD(15) [OF sup] by simp
  also have "\<dots> \<le> ms_npages s * ms_nlines s" using mem_supported_sizes [OF sup] by (intro mult_le_mono) auto
  finally show ?thesis using mem_supportedD(14) [OF sup] by (simp add: div_greater_zero_iff)
qed

lemma set_pointer_step:
  assumes "mem_supported s" "pointers_set s l p" "i < ms_npages s" "j < ms_nlines s"
    "here = ms_base s + the (ms_pages s) ! i + the (ms_lines s) ! j"
  shows "\<exists>p'. set_pointer s (mem_chunk s) here l p = Some p' \<and> pointers_set s (Suc l) p'"
proof -
  note d = mem_supportedD [OF assms(1)]
  let ?c = "mem_chunk s" and ?W = "the (ms_words s)"
  let ?k = "l div ?c mod ms_nwords s"
  have c: "0 < ?c" by (rule mem_chunk_pos [OF assms(1)])
  have len: "length p = 16" using assms(2) by (simp add: pointers_set_def)
  have k: "?k < ms_nwords s" using d(12) by simp
  have slot: "here + ?W ! ?k \<in> set (mem_layout s)"
    using mem_slot_layout [OF k assms(3,4)] assms(5) by (simp add: mem_slot_def)
  have old: "m * ?c < l \<or> m = l div ?c \<and> l mod ?c = 0" if "m * ?c < Suc l" for m
    using that c by (cases "m * ?c = l") auto
  obtain W where W: "ms_words s = Some W" using d(3) by blast
  show ?thesis
  proof (cases "l mod ?c = 0 \<and> l div ?c < 16")
    case True
    then have "set_pointer s ?c here l p = Some (p[l div ?c := here + ?W ! ?k])"
      using c len k W d(6,13) by (simp add: set_pointer_def MAX_MEM_PARALLELISM_def)
    moreover have "pointers_set s (Suc l) (p[l div ?c := here + ?W ! ?k])"
      unfolding pointers_set_def
    proof (intro conjI allI impI)
      fix m assume m: "m < 16" "m * ?c < Suc l"
      show "p[l div ?c := here + ?W ! ?k] ! m \<in> set (mem_layout s)"
        using assms(2) old [OF m(2)] m slot len by (cases "m = l div ?c") (auto simp: pointers_set_def)
    qed (simp add: len)
    ultimately show ?thesis by blast
  next
    case False
    then have "set_pointer s ?c here l p = Some p"
      using c unfolding set_pointer_def MAX_MEM_PARALLELISM_def by (simp only: if_False) auto
    moreover have "pointers_set s (Suc l) p" using assms(2) old False by (auto simp: pointers_set_def)
    ultimately show ?thesis by blast
  qed
qed

subsection \<open>The stores\<close>

definition line_links :: "mem_state \<Rightarrow> nat \<Rightarrow> nat \<Rightarrow> (nat \<times> nat) list" where
  "line_links s i j = map (\<lambda>t. (ms_base s + the (ms_pages s) ! i + the (ms_lines s) ! j + ptr_size * t,
     ms_base s + the (ms_pages s) ! i + the (ms_lines s) ! Suc j + ptr_size * t)) [0..<ms_nwords s]"

definition jump_links :: "mem_state \<Rightarrow> nat \<Rightarrow> nat \<Rightarrow> (nat \<Rightarrow> nat) \<Rightarrow> (nat \<times> nat) list" where
  "jump_links s i i' to = map (\<lambda>k. (mem_slot s k i (ms_nlines s - 1), mem_slot s (to k) i' 0)) [0..<ms_nwords s]"

lemma mem_lines_value:
  assumes "mem_supported s" "i < ms_npages s"
  shows "j < ms_nlines s \<Longrightarrow> l + (ms_nlines s - 1 - j) < ms_npages s * ms_nlines s \<Longrightarrow> pointers_set s l p \<Longrightarrow>
    \<exists>p'. mem_lines s (ms_npages s * ms_nlines s) (the (ms_pages s) ! i) (the (ms_lines s)) (ms_nlines s) j l p
           = Some (ms_nlines s - 1, l + (ms_nlines s - 1 - j), concat (map (line_links s i) [j..<ms_nlines s - 1]), p')
         \<and> pointers_set s (l + (ms_nlines s - 1 - j)) p'"
proof (induction "ms_nlines s - j" arbitrary: j l p)
  case (Suc n)
  show ?case
  proof (cases "Suc j < ms_nlines s")
    case True
    obtain p1 where p1: "set_pointer s (mem_chunk s)
          (ms_base s + the (ms_pages s) ! i + the (ms_lines s) ! j) l p = Some p1" "pointers_set s (Suc l) p1"
      using set_pointer_step [OF assms(1) Suc.prems(3) assms(2) Suc.prems(1) refl] by blast
    have step: "Suc l + (ms_nlines s - 1 - Suc j) = l + (ms_nlines s - 1 - j)" using True by simp
    have n: "n = ms_nlines s - Suc j" using Suc.hyps(2) by simp
    obtain p' where p': "mem_lines s (ms_npages s * ms_nlines s) (the (ms_pages s) ! i) (the (ms_lines s))
         (ms_nlines s) (Suc j) (Suc l) p1
        = Some (ms_nlines s - 1, l + (ms_nlines s - 1 - j), concat (map (line_links s i) [Suc j..<ms_nlines s - 1]), p')"
      "pointers_set s (l + (ms_nlines s - 1 - j)) p'"
      using Suc.hyps(1) [OF n True, of "Suc l" p1] Suc.prems(2) p1(2) unfolding step by blast
    have upt: "[j..<ms_nlines s - 1] = j # [Suc j..<ms_nlines s - 1]" using True by (simp add: upt_conv_Cons)
    have "Suc l < ms_npages s * ms_nlines s" using Suc.prems(2) True by simp
    then show ?thesis
      using True p1 p' upt mem_supportedD(5) [OF assms(1)] mem_supported_sizes(6) [OF assms(1)]
      by (subst mem_lines.simps) (simp add: line_links_def)
  next
    case False
    with Suc.prems(1) have j: "j = ms_nlines s - 1" by simp
    have "mem_lines s (ms_npages s * ms_nlines s) (the (ms_pages s) ! i) (the (ms_lines s)) (ms_nlines s) j l p
        = Some (j, l, [], p)" using False by (subst mem_lines.simps) simp
    with j Suc.prems(3) show ?thesis by simp
  qed
qed simp

lemma word_links_value:
  assumes "mem_supported s" "\<And>k. k < ms_nwords s \<Longrightarrow> to k < ms_nwords s"
  shows "word_links (the (ms_words s)) (ms_nwords s)
      (ms_base s + the (ms_pages s) ! i + the (ms_lines s) ! (ms_nlines s - 1))
      (ms_base s + the (ms_pages s) ! i' + the (ms_lines s) ! 0) to = Some (jump_links s i i' to)"
  unfolding word_links_def jump_links_def
  by (rule those_map_value) (use assms(2) mem_supportedD(6) [OF assms(1)] in \<open>simp add: mem_slot_def\<close>)

definition page_links :: "mem_state \<Rightarrow> nat \<Rightarrow> (nat \<times> nat) list" where
  "page_links s i = concat (map (line_links s i) [0..<ms_nlines s - 1])
     @ (if Suc i < ms_npages s then jump_links s i (Suc i) id else [])"

lemma mem_pages_value:
  assumes "mem_supported s"
  shows "i + todo = ms_npages s \<Longrightarrow> l = i * (ms_nlines s - 1) \<Longrightarrow> (todo = 0 \<longrightarrow> j = ms_nlines s - 1) \<Longrightarrow>
    pointers_set s l p \<Longrightarrow>
    \<exists>p'. mem_pages s (ms_npages s * ms_nlines s) (the (ms_pages s)) (the (ms_lines s)) (the (ms_words s))
           (ms_nlines s) (ms_nwords s) todo i j l p
         = Some (ms_nlines s - 1, concat (map (page_links s) [i..<ms_npages s]), p')
         \<and> pointers_set s (ms_npages s * (ms_nlines s - 1)) p'"
proof (induction todo arbitrary: i j l p)
  case (Suc todo)
  note sz = mem_supported_sizes [OF assms] and d = mem_supportedD [OF assms]
  let ?P = "the (ms_pages s)" and ?L = "the (ms_lines s)" and ?W = "the (ms_words s)"
  let ?nl = "ms_nlines s" and ?np = "ms_npages s"
  have i: "i < ?np" using Suc.prems(1) by simp
  have "Suc i * (?nl - 1) \<le> ?np * (?nl - 1)" using i by (intro mult_le_mono1) simp
  also have "\<dots> < ?np * ?nl" using sz by (intro mult_less_mono2) auto
  finally have room: "l + (?nl - 1 - 0) < ?np * ?nl" using Suc.prems(2) by simp
  obtain p1 where p1: "mem_lines s (?np * ?nl) (?P ! i) ?L ?nl 0 l p
      = Some (?nl - 1, l + (?nl - 1 - 0), concat (map (line_links s i) [0..<?nl - 1]), p1)"
    "pointers_set s (l + (?nl - 1 - 0)) p1"
    using mem_lines_value [OF assms i _ room Suc.prems(4)] sz by auto
  have l': "l + (?nl - 1 - 0) = Suc i * (?nl - 1)" using Suc.prems(2) by simp
  obtain p' where p': "mem_pages s (?np * ?nl) ?P ?L ?W ?nl (ms_nwords s) todo (Suc i) (?nl - 1) (l + (?nl - 1 - 0)) p1
      = Some (?nl - 1, concat (map (page_links s) [Suc i..<?np]), p')"
    "pointers_set s (?np * (?nl - 1)) p'"
    using Suc.IH [OF _ l', of "?nl - 1" p1] Suc.prems(1) p1(2) by auto
  have "(0 < todo) = (Suc i < ?np)" using Suc.prems(1) by auto
  moreover have "word_links ?W (ms_nwords s) (ms_base s + ?P ! i + ?L ! (?nl - 1)) (ms_base s + ?P ! Suc i + ?L ! 0) id
      = Some (jump_links s i (Suc i) id)" by (rule word_links_value [OF assms]) simp
  moreover have "arr_get ?P i = Some (?P ! i)" "Suc i < ?np \<Longrightarrow> arr_get ?P (Suc i) = Some (?P ! Suc i)"
    "arr_get ?L 0 = Some (?L ! 0)" "arr_get ?L (?nl - 1) = Some (?L ! (?nl - 1))"
    using i sz d(5) by (intro arr_get_Some; linarith)+
  moreover have "[i..<?np] = i # [Suc i..<?np]" using i by (simp add: upt_conv_Cons)
  ultimately show ?case using p1(1) p' by (simp add: page_links_def [of s i])
qed (use assms in simp)

definition close_to :: "mem_state \<Rightarrow> nat \<Rightarrow> nat" where
  "close_to s k = (if k = ms_nwords s - 1 then 0 else k + 1)"

lemma mem_links_value:
  assumes "mem_supported s"
  shows "\<exists>p. mem_links s = Some (concat (map (page_links s) [0..<ms_npages s])
            @ jump_links s (ms_npages s - 1) 0 (close_to s), p)
          \<and> pointers_set s (ms_npages s * (ms_nlines s - 1)) p"
proof -
  note sz = mem_supported_sizes [OF assms] and d = mem_supportedD [OF assms]
  let ?P = "the (ms_pages s)" and ?L = "the (ms_lines s)" and ?W = "the (ms_words s)"
  obtain P L W where w: "ms_pages s = Some P" "ms_lines s = Some L" "ms_words s = Some W" using d(1-3) by blast
  have "pointers_set s 0 (ms_p s)" using d(17) by (simp add: pointers_set_def)
  then obtain p where p: "mem_pages s (ms_npages s * ms_nlines s) P L W (ms_nlines s) (ms_nwords s) (ms_npages s) 0 0 0 (ms_p s)
      = Some (ms_nlines s - 1, concat (map (page_links s) [0..<ms_npages s]), p)"
    "pointers_set s (ms_npages s * (ms_nlines s - 1)) p"
    using mem_pages_value [OF assms, of 0 "ms_npages s" 0 0 "ms_p s"] sz(1) w by auto
  have close: "close_to s k < ms_nwords s" if "k < ms_nwords s" for k using that by (auto simp: close_to_def)
  have "word_links W (ms_nwords s) (ms_base s + P ! (ms_npages s - 1) + L ! (ms_nlines s - 1)) (ms_base s + P ! 0 + L ! 0)
      (close_to s) = Some (jump_links s (ms_npages s - 1) 0 (close_to s))"
    using word_links_value [OF assms, of "close_to s" "ms_npages s - 1" 0] w close by simp
  moreover have "arr_get P (ms_npages s - 1) = Some (P ! (ms_npages s - 1))" "arr_get P 0 = Some (P ! 0)"
    "arr_get L (ms_nlines s - 1) = Some (L ! (ms_nlines s - 1))" "arr_get L 0 = Some (L ! 0)"
    using sz(1,2,5) d(5) w by (intro arr_get_Some; force)+
  moreover have "close_to s = (\<lambda>k. if k = ms_nwords s - 1 then 0 else k + 1)" by (simp add: close_to_def fun_eq_iff)
  ultimately show ?thesis
    using p w sz d(10,11,13,14) unfolding mem_links_def by (simp add: Let_def nat_mult_distrib)
qed

text \<open>The stores of a line, seen through the order of the words.\<close>

lemma line_links_slots:
  assumes "mem_supported s"
  shows "set (line_links s i j) = (\<lambda>k. (mem_slot s k i j, mem_slot s k i (Suc j))) ` {..<ms_nwords s}"
proof -
  note d = mem_supportedD [OF assms]
  let ?W = "the (ms_words s)" and ?n = "ms_nwords s"
  have "(\<lambda>k. ?W ! k) ` {..<?n} = (\<lambda>t. ptr_size * t) ` {..<?n}"
  proof
    show "(\<lambda>t. ptr_size * t) ` {..<?n} \<subseteq> (\<lambda>k. ?W ! k) ` {..<?n}"
      using word_index [of ?n ?W] d(6,8,9) by (force simp: image_iff)
    show "(\<lambda>k. ?W ! k) ` {..<?n} \<subseteq> (\<lambda>t. ptr_size * t) ` {..<?n}"
    proof clarify
      fix k assume "k < ?n"
      then have "?W ! k mod ptr_size = 0" "?W ! k + ptr_size \<le> ptr_size * ?n"
        using offsets_nth [OF d(8)] d(6,9) by auto
      then show "?W ! k \<in> (\<lambda>t. ptr_size * t) ` {..<?n}"
        by (intro image_eqI [of _ _ "?W ! k div ptr_size"]) (auto simp: ptr_size_def)
    qed
  qed
  then have "(\<lambda>w. (ms_base s + the (ms_pages s) ! i + the (ms_lines s) ! j + w,
      ms_base s + the (ms_pages s) ! i + the (ms_lines s) ! Suc j + w)) ` ((\<lambda>k. ?W ! k) ` {..<?n})
    = (\<lambda>w. (ms_base s + the (ms_pages s) ! i + the (ms_lines s) ! j + w,
      ms_base s + the (ms_pages s) ! i + the (ms_lines s) ! Suc j + w)) ` ((\<lambda>t. ptr_size * t) ` {..<?n})" by simp
  then show ?thesis by (simp add: line_links_def mem_slot_def image_image atLeast0LessThan)
qed

lemma mem_writes_value:
  assumes "mem_supported s"
  shows "mem_writes s = Some (concat (map (page_links s) [0..<ms_npages s]) @ jump_links s (ms_npages s - 1) 0 (close_to s))"
  using mem_links_value [OF assms] by (auto simp: mem_writes_def)

text \<open>Where each slot leads.\<close>

definition mem_next :: "mem_state \<Rightarrow> nat \<times> nat \<times> nat \<Rightarrow> nat" where
  "mem_next s = (\<lambda>(k, i, j). if Suc j < ms_nlines s then mem_slot s k i (Suc j)
     else if Suc i < ms_npages s then mem_slot s k (Suc i) 0 else mem_slot s (close_to s k) 0 0)"

lemma mem_writes_image:
  assumes "mem_supported s" "mem_writes s = Some ws"
  shows "set ws = (\<lambda>x. (case x of (k, i, j) \<Rightarrow> mem_slot s k i j, mem_next s x))
                   ` ({..<ms_nwords s} \<times> {..<ms_npages s} \<times> {..<ms_nlines s})" (is "_ = ?f ` ?I")
proof
  note sz = mem_supported_sizes [OF assms(1)]
  have ws: "ws = concat (map (page_links s) [0..<ms_npages s]) @ jump_links s (ms_npages s - 1) 0 (close_to s)"
    using mem_writes_value [OF assms(1)] assms(2) by simp
  have line: "?f (k, i, j) = (mem_slot s k i j, mem_slot s k i (Suc j))" if "Suc j < ms_nlines s" for k i j
    using that by (simp add: mem_next_def)
  have jump: "?f (k, i, ms_nlines s - 1) = (mem_slot s k i (ms_nlines s - 1), mem_slot s k (Suc i) 0)"
    if "Suc i < ms_npages s" for k i using that sz by (simp add: mem_next_def)
  have close: "?f (k, ms_npages s - 1, ms_nlines s - 1)
      = (mem_slot s k (ms_npages s - 1) (ms_nlines s - 1), mem_slot s (close_to s k) 0 0)" for k
    using sz by (simp add: mem_next_def)
  show "set ws \<subseteq> ?f ` ?I"
  proof
    fix w assume "w \<in> set ws"
    then consider k i j where "k < ms_nwords s" "i < ms_npages s" "j < ms_nlines s - 1"
        "w = (mem_slot s k i j, mem_slot s k i (Suc j))"
      | k i where "k < ms_nwords s" "Suc i < ms_npages s" "w = (mem_slot s k i (ms_nlines s - 1), mem_slot s k (Suc i) 0)"
      | k where "k < ms_nwords s" "w = (mem_slot s k (ms_npages s - 1) (ms_nlines s - 1), mem_slot s (close_to s k) 0 0)"
      by (auto simp: ws page_links_def line_links_slots [OF assms(1)] jump_links_def split: if_splits)
    then show "w \<in> ?f ` ?I"
    proof cases
      case (1 k i j)
      with line [of j k i] show ?thesis by (intro rev_image_eqI [of "(k, i, j)"]) auto
    next
      case (2 k i)
      with jump [of i k] sz show ?thesis by (intro rev_image_eqI [of "(k, i, ms_nlines s - 1)"]) auto
    next
      case (3 k)
      with close [of k] sz show ?thesis
        by (intro rev_image_eqI [of "(k, ms_npages s - 1, ms_nlines s - 1)"]) auto
    qed
  qed
  show "?f ` ?I \<subseteq> set ws"
  proof clarify
    fix k i j assume kij: "k < ms_nwords s" "i < ms_npages s" "j < ms_nlines s"
    consider "Suc j < ms_nlines s" | "j = ms_nlines s - 1" "Suc i < ms_npages s"
      | "j = ms_nlines s - 1" "i = ms_npages s - 1" using kij by linarith
    then have "?f (k, i, j) \<in> set ws"
    proof cases
      case 1
      then have "?f (k, i, j) \<in> set (line_links s i j)" using kij(1) line line_links_slots [OF assms(1)] by blast
      then have "?f (k, i, j) \<in> set (page_links s i)"
        unfolding page_links_def set_append using 1 by (intro UnI1 in_concat_upt [of j]) auto
      then show ?thesis unfolding ws set_append using kij by (intro UnI1 in_concat_upt [of i]) auto
    next
      case 2
      then have "?f (k, i, j) \<in> set (jump_links s i (Suc i) id)" using kij(1) jump by (auto simp: jump_links_def)
      then have "?f (k, i, j) \<in> set (page_links s i)" using 2 by (simp add: page_links_def)
      then show ?thesis unfolding ws set_append using kij by (intro UnI1 in_concat_upt [of i]) auto
    next
      case 3
      then have "?f (k, i, j) \<in> set (jump_links s (ms_npages s - 1) 0 (close_to s))"
        using kij(1) close by (auto simp: jump_links_def)
      then show ?thesis by (simp add: ws)
    qed
    then show "(mem_slot s k i j, mem_next s (k, i, j)) \<in> set ws" by simp
  qed
qed

lemma distinct_mem_layout:
  assumes "mem_supported s"
  shows "distinct (mem_layout s)"
proof -
  let ?I = "List.product [0..<ms_nwords s] (List.product [0..<ms_npages s] [0..<ms_nlines s])"
  have "mem_layout s = map (\<lambda>(k, i, j). mem_slot s k i j) ?I"
    by (simp add: mem_layout_def product_concat_map map_concat comp_def)
  moreover have "distinct (map (\<lambda>(k, i, j). mem_slot s k i j) ?I)"
  proof (rule distinct_layout)
    fix x y assume "x \<in> set ?I" "y \<in> set ?I" "x \<noteq> y"
    then show "apart (case x of (k, i, j) \<Rightarrow> mem_slot s k i j) (case y of (k, i, j) \<Rightarrow> mem_slot s k i j)"
      using mem_slot_apart [OF assms, of "fst x" "fst (snd x)" "snd (snd x)" "fst y" "fst (snd y)" "snd (snd y)"]
      by (auto simp: case_prod_unfold prod_eq_iff)
  qed (simp add: distinct_product)
  ultimately show ?thesis by simp
qed

interpretation mem_chain: chain_writer mem_writes mem_layout mem_supported
proof unfold_locales
  fix s ws assume sup: "mem_supported s"
  note sz = mem_supported_sizes [OF sup] and nw = mem_supportedD(12) [OF sup]
  have first: "mem_layout s \<noteq> []" "hd (mem_layout s) = mem_slot s 0 0 0"
    using sz nw by (simp_all add: mem_layout_def upt_conv_Cons)
  show "mem_writes s \<noteq> None" using mem_writes_value [OF sup] by simp
  show "mem_layout s \<noteq> [] \<and> distinct (mem_layout s)" using first distinct_mem_layout [OF sup] by simp
  assume val: "mem_writes s = Some ws"
  note image = mem_writes_image [OF sup val]
  show "compatible ws"
  proof (rule compatible_image [OF equalityD1 [OF image]])
    fix x y assume "x \<in> {..<ms_nwords s} \<times> {..<ms_npages s} \<times> {..<ms_nlines s}"
      "y \<in> {..<ms_nwords s} \<times> {..<ms_npages s} \<times> {..<ms_nlines s}" "x \<noteq> y"
    then show "apart (case x of (k, i, j) \<Rightarrow> mem_slot s k i j) (case y of (k, i, j) \<Rightarrow> mem_slot s k i j)"
      using mem_slot_apart [OF sup, of "fst x" "fst (snd x)" "snd (snd x)" "fst y" "fst (snd y)" "snd (snd y)"]
      by (auto simp: case_prod_unfold prod_eq_iff)
  qed
  show "fst ` set ws \<subseteq> set (mem_layout s)" unfolding image using mem_slot_layout by auto
  have W: "writes_to ws (mem_slot s k i j) (mem_next s (k, i, j))"
    if "k < ms_nwords s" "i < ms_npages s" "j < ms_nlines s" for k i j
    unfolding writes_to_def image using that by (intro image_eqI [of _ _ "(k, i, j)"]) auto
  have row: "linked (writes_to ws) (mem_slot s k 0 0)
      (concat (map (\<lambda>i. map (mem_slot s k i) [0..<ms_nlines s]) [0..<ms_npages s]))
      (mem_slot s (close_to s k) 0 0)" if k: "k < ms_nwords s" for k
  proof (rule grid_path)
    show "writes_to ws (mem_slot s k i j) (mem_slot s k i (Suc j))" if "i < ms_npages s" "Suc j < ms_nlines s" for i j
      using W [of k i j] that k by (simp add: mem_next_def)
    show "writes_to ws (mem_slot s k i (ms_nlines s - 1)) (mem_slot s k (Suc i) 0)" if "Suc i < ms_npages s" for i
      using W [of k i "ms_nlines s - 1"] that k sz by (simp add: mem_next_def)
    show "writes_to ws (mem_slot s k (ms_npages s - 1) (ms_nlines s - 1)) (mem_slot s (close_to s k) 0 0)"
      using W [of k "ms_npages s - 1" "ms_nlines s - 1"] k sz by (simp add: mem_next_def)
  qed (use sz in auto)
  let ?g = "\<lambda>k. mem_slot s (if k < ms_nwords s then k else 0) 0 0"
  have nxt: "mem_slot s (close_to s k) 0 0 = ?g (Suc k)" if "k < ms_nwords s" for k
    using that by (auto simp: close_to_def)
  have "linked (writes_to ws) (?g 0) (mem_layout s) (?g (ms_nwords s))"
    unfolding mem_layout_def by (rule linked_concat) (use row nxt in auto)
  then show "linked (writes_to ws) (hd (mem_layout s)) (mem_layout s) (hd (mem_layout s))"
    using nw first by simp
qed

end
