(* ===== verification/Chains.thy ===== *)
theory Chains
  imports Ring_Layout
begin

text \<open>
  The initialisers of \<open>src/lib_mem.c\<close> from the call to the ring: what \<open>words_initialize\<close> and
  \<open>base_initialize\<close> set up is a state that the interpretations of \<open>Ring_Layout\<close> support, so that the
  initialisers build their ring inside of the allocated area and the walk over it is defined.
\<close>

section \<open>words_initialize\<close>

lemma nbits_exp: "nbits_loop (2 ^ b div 2) 0 = b"
proof (cases b)
  case 0
  then show ?thesis by (subst nbits_loop.simps) simp
qed (simp add: nbits_loop_exp)

lemma words_initialize_value:
  assumes "b \<le> 31" "scale < 2 ^ 31"
  shows "words_initialize True (2 ^ b) (int scale) = Done (Some (map (\<lambda>i. reverse b i * scale) [0..<2 ^ b]))"
proof -
  have "reverse b i * scale < 2 ^ 64" for i
  proof -
    have "reverse b i \<le> 2 ^ b" using reverse_less [of b i] by simp
    also have "(2 :: nat) ^ b \<le> 2 ^ 31" by (rule power_increasing) (use assms(1) in auto)
    finally have "reverse b i * scale \<le> 2 ^ 31 * 2 ^ 31" using assms(2) by (intro mult_le_mono) auto
    also have "\<dots> < (2 :: nat) ^ 64" by simp
    finally show ?thesis .
  qed
  then have "c_size (int (reverse b i) * int scale) = reverse b i * scale" for i
    using c_size_int [of "reverse b i * scale"] by simp
  then show ?thesis using assms(1) by (simp add: words_initialize_def nbits_exp)
qed

lemma words_offsets:
  assumes "0 < scale" "room \<le> scale"
  shows "offsets scale room (2 ^ b * scale) (map (\<lambda>i. reverse b i * scale) [0..<2 ^ b])"
  unfolding offsets_def
proof
  have "distinct (map (reverse b) [0..<2 ^ b])" using mset_reverse [of b] distinct_mset_eq by (metis distinct_upt)
  then show "distinct (map (\<lambda>i. reverse b i * scale) [0..<2 ^ b])"
    using assms(1) by (auto simp: distinct_map inj_on_def)
  have "reverse b i * scale + room \<le> 2 ^ b * scale" for i
  proof -
    have "Suc (reverse b i) * scale \<le> 2 ^ b * scale" using reverse_less [of b i] by (intro mult_le_mono1) simp
    with assms(2) show ?thesis by simp
  qed
  then show "list_all (\<lambda>x. x mod scale = 0 \<and> x + room \<le> 2 ^ b * scale) (map (\<lambda>i. reverse b i * scale) [0..<2 ^ b])"
    by (simp add: list_all_iff)
qed

section \<open>base_initialize\<close>

text \<open>The calls the chains are built for: the allocator answers, the chain is not empty and fits into
  the area, which lies within the address space.\<close>

definition area_ok :: "mem_env \<Rightarrow> mem_state \<Rightarrow> bool" where
  "area_ok e s = (me_area e \<noteq> 0 \<and> me_pages e \<and> 0 < ms_line s \<and> 0 < ms_pagesize s
     \<and> 0 < ms_len s \<and> ms_len s \<le> ms_maxlen s \<and> me_area e + ms_maxlen s + 2 * ms_pagesize s < 2 ^ 64)"

definition page_count :: "nat \<Rightarrow> mem_state \<Rightarrow> nat" where
  "page_count n s = (n + ms_pagesize s - 1) div ms_pagesize s"

definition base_state :: "mem_env \<Rightarrow> mem_state \<Rightarrow> nat list \<Rightarrow> mem_state" where
  "base_state e s pages = s\<lparr>ms_initialized := False, ms_addr := me_area e, ms_nwords := ms_line s div ptr_size,
     ms_nlines := ms_pagesize s div ms_line s, ms_npages := page_count (ms_len s) s,
     ms_lines := None, ms_pages := Some pages, ms_words := None,
     ms_base := (if me_area e mod ms_pagesize s \<noteq> 0 then me_area e + (ms_pagesize s - me_area e mod ms_pagesize s)
                 else me_area e),
     ms_initialized := True\<rparr>"

lemma page_multiples:
  assumes "0 < ms_pagesize s" "n + ms_pagesize s < 2 ^ 64" "i < page_count n s"
  shows "i * ms_pagesize s + ms_pagesize s \<le> n + ms_pagesize s - 1"
    "unat (of_nat i * of_nat (ms_pagesize s) :: u64) = i * ms_pagesize s"
proof -
  have "Suc i * ms_pagesize s \<le> page_count n s * ms_pagesize s" using assms(3) by (intro mult_le_mono1) simp
  also have "\<dots> \<le> n + ms_pagesize s - 1" by (simp add: page_count_def)
  finally show le: "i * ms_pagesize s + ms_pagesize s \<le> n + ms_pagesize s - 1" by simp
  have "(of_nat i * of_nat (ms_pagesize s) :: u64) = of_nat (i * ms_pagesize s)" by simp
  moreover have "i * ms_pagesize s < 2 ^ 64" using le assms(2) by linarith
  ultimately show "unat (of_nat i * of_nat (ms_pagesize s) :: u64) = i * ms_pagesize s"
    using unat_of_nat64 by metis
qed

lemma base_initialize_ok:
  assumes "area_ok e s"
  obtains pages r where
    "base_initialize e 0 s l = Done (base_state e s pages, mem_reset (l\<lparr>ml_perm_r := r,
       ml_mem := add_block (me_area e) (ms_maxlen s + 2 * ms_pagesize s) (ml_mem l)\<rparr>))"
    "mset pages = mset (map (\<lambda>i. i * ms_pagesize s) [0..<page_count (ms_maxlen s) s])"
proof -
  note a = assms [unfolded area_ok_def]
  let ?ps = "ms_pagesize s" and ?n = "page_count (ms_maxlen s) s"
  let ?mul = "\<lambda>i. of_nat i * (of_nat ?ps :: u64)"
  obtain ws r where p: "permutation (me_seed e) (map (me_rand e) [0..<?n]) (of_nat ?ps) (ml_perm_r l) = Some (ws, r)"
    "mset ws = mset (map ?mul [0..<?n])"
    using shuffle_spec [of "map ?mul [0..<?n]" 0 "map (me_rand e) [0..<?n]" ?n
        "if ml_perm_r l = 0 then me_seed e else ml_perm_r l"]
    by (auto simp: permutation_def Let_def)
  have wraps: "(ms_len s + ?ps - 1) mod 2 ^ 64 = ms_len s + ?ps - 1"
    "(ms_maxlen s + ?ps - 1) mod 2 ^ 64 = ms_maxlen s + ?ps - 1"
    "(ms_maxlen s + 2 * ?ps) mod 2 ^ 64 = ms_maxlen s + 2 * ?ps"
    using a by (intro mod_less; linarith)+
  have base: "base_initialize e 0 s l = Done (base_state e s (map unat ws), mem_reset (l\<lparr>ml_perm_r := r,
       ml_mem := add_block (me_area e) (ms_maxlen s + 2 * ?ps) (ml_mem l)\<rparr>))"
    unfolding base_initialize_def wraps
    using a p(1) by (simp add: Let_def base_state_def page_count_def)
  have "mset (map unat ws) = mset (map unat (map ?mul [0..<?n]))" using p(2) by (metis mset_map)
  also have "map unat (map ?mul [0..<?n]) = map (\<lambda>i. i * ?ps) [0..<?n]"
    using page_multiples(2) [of s "ms_maxlen s"] a by simp
  finally show ?thesis using that base by blast
qed

lemma base_state_fields:
  "ms_pages (base_state e s pages) = Some pages" "ms_npages (base_state e s pages) = page_count (ms_len s) s"
  "ms_nlines (base_state e s pages) = ms_pagesize s div ms_line s"
  "ms_nwords (base_state e s pages) = ms_line s div ptr_size"
  "ms_pagesize (base_state e s pages) = ms_pagesize s" "ms_line (base_state e s pages) = ms_line s"
  "ms_len (base_state e s pages) = ms_len s" "ms_width (base_state e s pages) = ms_width s"
  "ms_p (base_state e s pages) = ms_p s" "ms_initialized (base_state e s pages)"
  by (simp_all add: base_state_def)

lemma page_count_mono: "m \<le> n \<Longrightarrow> page_count m s \<le> page_count n s"
  unfolding page_count_def by (intro div_le_mono) simp

lemma base_state_pages:
  assumes "area_ok e s" "mset pages = mset (map (\<lambda>i. i * ms_pagesize s) [0..<page_count (ms_maxlen s) s])"
    "ms_npages t = page_count (ms_len s) s" "ms_pagesize t = ms_pagesize s"
  shows "pages_ok t pages"
proof -
  note a = assms(1) [unfolded area_ok_def]
  have len: "length pages = page_count (ms_maxlen s) s" using arg_cong [OF assms(2), of size] by simp
  have "distinct (map (\<lambda>i. i * ms_pagesize s) [0..<page_count (ms_maxlen s) s])"
    using a by (auto simp: distinct_map inj_on_def)
  then have "distinct pages" using distinct_mset_eq [OF assms(2)] by simp
  moreover have "set pages = (\<lambda>i. i * ms_pagesize s) ` {0..<page_count (ms_maxlen s) s}"
    using arg_cong [OF assms(2), of set_mset] by simp
  moreover have "ms_pagesize s \<le> ms_len s + ms_pagesize s - 1" using a by linarith
  then have "0 < page_count (ms_len s) s" using a by (simp add: page_count_def div_greater_zero_iff)
  ultimately show ?thesis
    using len page_count_mono [of "ms_len s" "ms_maxlen s" s] a assms(3,4)
    by (auto simp: pages_ok_def list_all_iff)
qed

text \<open>The grid of a page lies inside of the area.\<close>

lemma base_inside:
  assumes "area_ok e s" "blocks m = (me_area e, ms_maxlen s + 2 * ms_pagesize s) # bs"
    "off + ptr_size \<le> ms_maxlen s + ms_pagesize s" "base = ms_base (base_state e s pages)"
  shows "inside m (base + off)"
proof -
  note a = assms(1) [unfolded area_ok_def]
  have "me_area e mod ms_pagesize s < ms_pagesize s" using a by simp
  then have "me_area e \<le> base" "base \<le> me_area e + ms_pagesize s"
    unfolding assms(4) base_state_def by (simp_all add: trans_le_add1) linarith
  then show ?thesis using assms(2,3) by (simp add: inside_def)
qed

lemma page_inside:
  assumes "area_ok e s" "mset pages = mset (map (\<lambda>i. i * ms_pagesize s) [0..<page_count (ms_maxlen s) s])"
    "i < page_count (ms_len s) s" "off + ptr_size \<le> ms_pagesize s"
  shows "pages ! i + off + ptr_size \<le> ms_maxlen s + ms_pagesize s"
proof -
  note a = assms(1) [unfolded area_ok_def]
  have "length pages = page_count (ms_maxlen s) s" using arg_cong [OF assms(2), of size] by simp
  then have "pages ! i \<in> set pages" using assms(3) page_count_mono [of "ms_len s" "ms_maxlen s" s] a by simp
  also have "set pages = (\<lambda>i. i * ms_pagesize s) ` {0..<page_count (ms_maxlen s) s}"
    using arg_cong [OF assms(2), of set_mset] by simp
  finally obtain k where "k < page_count (ms_maxlen s) s" "pages ! i = k * ms_pagesize s" by auto
  with page_multiples(1) [of s "ms_maxlen s" k] assms(4) a show ?thesis by simp
qed

section \<open>The initialisers\<close>

lemma mem_benchmark_ring:
  assumes "ring (ml_mem l) as" "set (take (Suc N) (ms_p s)) \<subseteq> set as" "\<not> ml_rerun l"
  shows "\<exists>l'. mem_benchmark N k s l = Done l' \<and> ml_mem l' = ml_mem l"
  using chase_ring [OF assms(1,2), of "100 * k"] assms(3)
  by (auto simp: mem_benchmark_def case_prod_unfold)

lemma ml_mem_reset [simp]: "ml_mem (mem_reset l) = ml_mem l" "\<not> ml_rerun (mem_reset l)"
  by (simp_all add: mem_reset_def)

lemma write_chain_Some: "stores ws (ml_mem l) = Some m \<Longrightarrow> write_chain (Some ws) l = Done (l\<lparr>ml_mem := m\<rparr>)"
  by (simp add: write_chain_def)

lemma blocks_add: "blocks (add_block a sz m) = (a, sz) # blocks m"
  by (simp add: add_block_def)

subsection \<open>stride_initialize\<close>

lemma stride_inside:
  assumes "area_ok e s" "ptr_size \<le> ms_line s" "ms_line s \<le> ms_pagesize s"
    "blocks m = (me_area e, ms_maxlen s + 2 * ms_pagesize s) # bs" "a \<in> set (stride_layout (base_state e s pages))"
  shows "inside m a"
proof -
  note a = assms(1) [unfolded area_ok_def]
  obtain i where i: "i < (ms_len s + ms_line s - 1) div ms_line s" "a = ms_base (base_state e s pages) + i * ms_line s"
    using assms(5) by (auto simp: stride_layout_def base_state_fields)
  have "Suc i * ms_line s \<le> (ms_len s + ms_line s - 1) div ms_line s * ms_line s" using i(1) by (intro mult_le_mono1) simp
  also have "\<dots> \<le> ms_len s + ms_line s - 1" by simp
  finally have "i * ms_line s + ptr_size \<le> ms_maxlen s + ms_pagesize s" using a assms(2,3) by simp linarith
  with i(2) base_inside [OF assms(1,4)] show ?thesis by blast
qed

subsection \<open>Grids of pages\<close>

lemma grid_inside:
  assumes "area_ok e s" "mset pages = mset (map (\<lambda>i. i * ms_pagesize s) [0..<page_count (ms_maxlen s) s])"
    "blocks m = (me_area e, ms_maxlen s + 2 * ms_pagesize s) # bs"
    "i < page_count (ms_len s) s" "off + ptr_size \<le> ms_pagesize s"
  shows "inside m (ms_base (base_state e s pages) + pages ! i + off)"
  using base_inside [OF assms(1,3) page_inside [OF assms(1,2,4,5)] refl] by (simp add: add.assoc)

text \<open>The geometry the chains support: a page is a power of two of lines, and the counts are \<open>int\<close>
  values.\<close>

definition geometry :: "nat \<Rightarrow> mem_env \<Rightarrow> mem_state \<Rightarrow> bool" where
  "geometry b e s = (area_ok e s \<and> b < 31 \<and> ms_pagesize s = 2 ^ b * ms_line s \<and> ptr_size \<le> ms_line s
     \<and> ms_line s < 2 ^ 31 \<and> page_count (ms_len s) s < 2 ^ 31)"

lemma geometry_lines:
  assumes "geometry b e s"
  shows "ms_pagesize s div ms_line s = 2 ^ b" "(2 :: nat) ^ b < 2 ^ 31"
    "words_initialize True (c_size (c_int (ms_pagesize s div ms_line s))) (c_int (ms_line s))
       = Done (Some (map (\<lambda>i. reverse b i * ms_line s) [0..<2 ^ b]))"
    "offsets (ms_line s) ptr_size (ms_pagesize s) (map (\<lambda>i. reverse b i * ms_line s) [0..<2 ^ b])"
    "offsets (ms_line s) (ms_line s) (ms_pagesize s) (map (\<lambda>i. reverse b i * ms_line s) [0..<2 ^ b])"
proof -
  note g = assms [unfolded geometry_def]
  have line: "0 < ms_line s" using g by (simp add: ptr_size_def)
  show d: "ms_pagesize s div ms_line s = 2 ^ b" using g line by simp
  show b: "(2 :: nat) ^ b < 2 ^ 31" by (rule power_strict_increasing) (use g in auto)
  have "(2 :: nat) ^ b < 2 ^ 64" using b by simp
  then show "words_initialize True (c_size (c_int (ms_pagesize s div ms_line s))) (c_int (ms_line s))
       = Done (Some (map (\<lambda>i. reverse b i * ms_line s) [0..<2 ^ b]))"
    using words_initialize_value [of b "ms_line s"] g b unfolding d by (simp del: of_nat_power)
  show "offsets (ms_line s) ptr_size (ms_pagesize s) (map (\<lambda>i. reverse b i * ms_line s) [0..<2 ^ b])"
    using words_offsets [of "ms_line s" ptr_size b] g line by simp
  show "offsets (ms_line s) (ms_line s) (ms_pagesize s) (map (\<lambda>i. reverse b i * ms_line s) [0..<2 ^ b])"
    using words_offsets [of "ms_line s" "ms_line s" b] g line by simp
qed

text \<open>The reference for the chains of lines: the area rounded up to a page, and the addresses of the lines
  of the pages \<open>P\<close>.\<close>

definition aligned_base :: "mem_env \<Rightarrow> mem_state \<Rightarrow> nat" where
  "aligned_base e s = (me_area e + ms_pagesize s - 1) div ms_pagesize s * ms_pagesize s"

definition line_slots :: "nat \<Rightarrow> mem_env \<Rightarrow> mem_state \<Rightarrow> nat set \<Rightarrow> nat set" where
  "line_slots b e s P = (\<lambda>(p, j). aligned_base e s + p * ms_pagesize s + j * ms_line s) ` (P \<times> {..<2 ^ b})"

definition pages_chosen :: "mem_state \<Rightarrow> nat set \<Rightarrow> bool" where
  "pages_chosen s P = (P \<subseteq> {..<page_count (ms_maxlen s) s} \<and> card P = page_count (ms_len s) s)"

lemma round_up:
  fixes a d :: nat
  assumes "0 < d"
  shows "(a + d - 1) div d * d = (if a mod d \<noteq> 0 then a + (d - a mod d) else a)"
proof -
  define q r where qr: "q = a div d" "r = a mod d"
  have a: "a = q * d + r" "r < d" using assms by (simp_all add: qr)
  have "a + d - 1 = (r + d - 1) + q * d" using a assms by simp
  then have "(a + d - 1) div d = q + (r + d - 1) div d" using assms by (simp only: div_mult_self1)
  moreover have "(r + d - 1) div d = (if r = 0 then 0 else 1)"
  proof (cases "r = 0")
    case False
    then have "r + d - 1 = (r - 1) + 1 * d" by simp
    then have "(r + d - 1) div d = 1 + (r - 1) div d" using assms by (simp only: div_mult_self1)
    with False a(2) show ?thesis by simp
  qed (use assms in simp)
  ultimately show ?thesis using a assms by (auto simp: qr(2) [symmetric] add_mult_distrib)
qed

lemma base_state_aligned:
  "area_ok e s \<Longrightarrow> ms_base (base_state e s pages) = aligned_base e s"
  unfolding aligned_base_def using round_up [of "ms_pagesize s" "me_area e"] by (simp add: base_state_def area_ok_def)

lemma used_pages:
  assumes "area_ok e s" "mset pages = mset (map (\<lambda>i. i * ms_pagesize s) [0..<page_count (ms_maxlen s) s])"
  obtains P where "pages_chosen s P" "(!) pages ` {..<page_count (ms_len s) s} = (\<lambda>p. p * ms_pagesize s) ` P"
proof -
  let ?n = "page_count (ms_len s) s" and ?ps = "ms_pagesize s"
  have ps: "0 < ?ps" "ms_len s \<le> ms_maxlen s" using assms(1) by (auto simp: area_ok_def)
  have set: "set pages = (\<lambda>i. i * ?ps) ` {0..<page_count (ms_maxlen s) s}"
    using arg_cong [OF assms(2), of set_mset] by simp
  have n: "?n \<le> length pages"
    using arg_cong [OF assms(2), of size] page_count_mono [OF ps(2), of s] by simp
  have "distinct (map (\<lambda>i. i * ?ps) [0..<page_count (ms_maxlen s) s])"
    using ps by (auto simp: distinct_map inj_on_def)
  then have dist: "distinct pages" using distinct_mset_eq [OF assms(2)] by simp
  let ?S = "(!) pages ` {..<?n}"
  have S: "?S \<subseteq> (\<lambda>i. i * ?ps) ` {0..<page_count (ms_maxlen s) s}"
    unfolding set [symmetric] using n by (auto intro!: nth_mem)
  have "card ?S = ?n" using dist n by (subst card_image) (auto simp: inj_on_def nth_eq_iff_index_eq)
  moreover have "inj_on (\<lambda>p. p div ?ps) ((\<lambda>i. i * ?ps) ` {0..<page_count (ms_maxlen s) s})" using ps(1) by (auto simp: inj_on_def)
  then have "inj_on (\<lambda>p. p div ?ps) ?S" using S by (rule inj_on_subset)
  ultimately have "card ((\<lambda>p. p div ?ps) ` ?S) = ?n" by (simp add: card_image)
  moreover have "(\<lambda>p. p div ?ps) ` ?S \<subseteq> {..<page_count (ms_maxlen s) s}" using S ps(1) by auto
  moreover have "?S = (\<lambda>p. p * ?ps) ` (\<lambda>p. p div ?ps) ` ?S" using S ps(1) by (force simp: image_iff)
  ultimately show ?thesis using that by (simp add: pages_chosen_def)
qed

lemma reversed_lines: "set (map (\<lambda>i. reverse b i * d) [0..<2 ^ b]) = (\<lambda>j. j * d) ` {..<2 ^ b}"
proof -
  have "set (map (reverse b) [0..<2 ^ b]) = {..<2 ^ b}"
    using arg_cong [OF mset_reverse [of b], of set_mset] by (simp add: atLeast0LessThan)
  then have "(\<lambda>j. j * d) ` set (map (reverse b) [0..<2 ^ b]) = (\<lambda>j. j * d) ` {..<2 ^ b}" by simp
  then show ?thesis by (simp add: image_image)
qed

lemma grid_slots:
  assumes "(!) pages ` {..<n} = (\<lambda>p. p * ms_pagesize s) ` P" "\<And>i. i < n \<Longrightarrow> g i ` {..<k} = (\<lambda>j. j * ms_line s) ` {..<2 ^ b}"
  shows "(\<lambda>(i, j). aligned_base e s + pages ! i + g i j) ` ({..<n} \<times> {..<k}) = line_slots b e s P"
proof -
  let ?c = "aligned_base e s"
  have "(\<lambda>(i, j). ?c + pages ! i + g i j) ` ({..<n} \<times> {..<k}) = (\<Union>i<n. (\<lambda>x. ?c + pages ! i + x) ` g i ` {..<k})" by force
  also have "\<dots> = (\<Union>i<n. (\<lambda>x. ?c + pages ! i + x) ` (\<lambda>j. j * ms_line s) ` {..<2 ^ b})" using assms(2) by simp
  also have "\<dots> = (\<Union>q\<in>(!) pages ` {..<n}. (\<lambda>x. ?c + q + x) ` (\<lambda>j. j * ms_line s) ` {..<2 ^ b})" by simp
  also have "\<dots> = line_slots b e s P" unfolding assms(1) by (force simp: line_slots_def)
  finally show ?thesis .
qed

subsection \<open>line_initialize\<close>

lemma line_layout_inside:
  assumes "geometry b e s" "mset pages = mset (map (\<lambda>i. i * ms_pagesize s) [0..<page_count (ms_maxlen s) s])"
    "blocks m = (me_area e, ms_maxlen s + 2 * ms_pagesize s) # bs"
    "lines = map (\<lambda>i. reverse b i * ms_line s) [0..<2 ^ b]"
    "t = (base_state e s pages)\<lparr>ms_initialized := False, ms_lines := Some lines, ms_width := 1\<rparr>"
  shows "\<forall>a \<in> set (line_layout t). inside m a"
proof
  fix a assume "a \<in> set (line_layout t)"
  then obtain i j where ij: "i < page_count (ms_len s) s" "j < 2 ^ b"
    "a = ms_base (base_state e s pages) + pages ! i + lines ! j"
    using geometry_lines(1) [OF assms(1)] by (auto simp: line_layout_def assms(5) base_state_fields)
  have "lines ! j + ptr_size \<le> ms_pagesize s"
    using offsets_nth [OF geometry_lines(4) [OF assms(1)]] ij(2) by (simp add: assms(4))
  with grid_inside [OF _ assms(2,3) ij(1)] ij(3) assms(1) show "inside m a" by (simp add: geometry_def)
qed

lemma line_state_supported:
  assumes "geometry b e s" "mset pages = mset (map (\<lambda>i. i * ms_pagesize s) [0..<page_count (ms_maxlen s) s])"
    "lines = map (\<lambda>i. reverse b i * ms_line s) [0..<2 ^ b]"
    "t = (base_state e s pages)\<lparr>ms_initialized := False, ms_lines := Some lines, ms_width := 1\<rparr>"
  shows "line_supported t"
proof -
  have "pages_ok t pages"
    using assms(1) by (intro base_state_pages [OF _ assms(2)]) (auto simp: geometry_def assms(4) base_state_fields)
  with assms(1) geometry_lines [OF assms(1)] show ?thesis
    by (simp add: line_supported_def assms(3,4) base_state_fields geometry_def)
qed

lemma length_grid: "length (concat (map (\<lambda>i. map (f i) [0..<k]) [0..<n])) = n * k"
  by (simp add: length_concat comp_def sum_list_triv)

lemma line_layout_slots:
  assumes "geometry b e s" "mset pages = mset (map (\<lambda>i. i * ms_pagesize s) [0..<page_count (ms_maxlen s) s])"
    "lines = map (\<lambda>i. reverse b i * ms_line s) [0..<2 ^ b]"
    "t = (base_state e s pages)\<lparr>ms_initialized := False, ms_lines := Some lines, ms_width := 1\<rparr>"
  shows "\<exists>P. pages_chosen s P \<and> set (line_layout t) = line_slots b e s P"
proof -
  have area: "area_ok e s" using assms(1) by (simp add: geometry_def)
  obtain P where P: "pages_chosen s P" "(!) pages ` {..<page_count (ms_len s) s} = (\<lambda>p. p * ms_pagesize s) ` P"
    using used_pages [OF area assms(2)] by blast
  have "length lines = 2 ^ b" unfolding assms(3) by simp
  then have "(!) lines ` {..<2 ^ b} = set lines" unfolding set_conv_nth by auto
  then have "(!) lines ` {..<2 ^ b} = (\<lambda>j. j * ms_line s) ` {..<2 ^ b}" using reversed_lines [of b "ms_line s"] assms(3) by simp
  from grid_slots [OF P(2) this, of e] have
    "(\<lambda>(i, j). aligned_base e s + pages ! i + lines ! j) ` ({..<page_count (ms_len s) s} \<times> {..<2 ^ b}) = line_slots b e s P" .
  moreover have "set (line_layout t)
      = (\<lambda>(i, j). aligned_base e s + pages ! i + lines ! j) ` ({..<page_count (ms_len s) s} \<times> {..<2 ^ b})"
    using geometry_lines(1) [OF assms(1)]
    by (force simp: line_layout_def assms(4) base_state_fields base_state_aligned [OF area])
  ultimately show ?thesis using P(1) by auto
qed

lemma line_initialize_builds:
  assumes "geometry b e s" "me_lines e" "0 < length (ms_p s)"
  shows "\<exists>t l'. line_initialize e 0 s l = Done (t, l') \<and> ms_initialized t \<and> line_supported t
      \<and> line_chain.intact t (ml_mem l') \<and> ms_addr t = me_area e \<and> ms_pagesize t = ms_pagesize s \<and> ms_line t = ms_line s
      \<and> ms_nlines t = 2 ^ b \<and> ms_p t \<noteq> []
      \<and> ring (ml_mem l') (line_layout t) \<and> ms_p t ! 0 = hd (line_layout t)
      \<and> length (line_layout t) = page_count (ms_len s) s * 2 ^ b
      \<and> (\<exists>P. pages_chosen s P \<and> set (line_layout t) = line_slots b e s P)"
proof -
  note g = assms(1) [unfolded geometry_def] and gl = geometry_lines [OF assms(1)]
  have area: "area_ok e s" using g by blast
  define lines where lines: "lines = map (\<lambda>i. reverse b i * ms_line s) [0..<2 ^ b]"
  obtain pages r where base: "base_initialize e 0 s l = Done (base_state e s pages, mem_reset (l\<lparr>ml_perm_r := r,
       ml_mem := add_block (me_area e) (ms_maxlen s + 2 * ms_pagesize s) (ml_mem l)\<rparr>))" (is "_ = Done (_, ?l)")
    and pages: "mset pages = mset (map (\<lambda>i. i * ms_pagesize s) [0..<page_count (ms_maxlen s) s])"
    using base_initialize_ok [OF area] by blast
  define t where t: "t = (base_state e s pages)\<lparr>ms_initialized := False, ms_lines := Some lines, ms_width := 1\<rparr>"
  have sup: "line_supported t" by (rule line_state_supported [OF assms(1) pages lines t])
  have blk: "blocks (ml_mem ?l) = (me_area e, ms_maxlen s + 2 * ms_pagesize s) # blocks (ml_mem l)"
    by (simp add: blocks_add)
  obtain ws m where ws: "line_writes t = Some ws" "stores ws (ml_mem ?l) = Some m" "ring m (line_layout t)" "line_chain.intact t m"
    using line_chain.ring_built [OF sup line_layout_inside [OF assms(1) pages blk lines t]] by blast
  have "0 < page_count (ms_len s) s" "0 < length pages"
    using base_state_pages [OF _ pages, of e t] g by (auto simp: pages_ok_def t base_state_fields)
  then have first: "line_first t = Some (hd (line_layout t))" and
    len: "length (line_layout t) = page_count (ms_len s) s * 2 ^ b"
    using gl(1) by (simp_all add: line_first_def line_layout_def t base_state_fields lines hd_grid length_grid)
  have slots: "\<exists>P. pages_chosen s P \<and> set (line_layout t) = line_slots b e s P"
    using line_layout_slots [OF assms(1) pages lines t] .
  let ?t = "t\<lparr>ms_p := (ms_p t)[0 := hd (line_layout t)]\<rparr>"
  have p0: "ms_p ?t ! 0 = hd (line_layout t)" "set (take (Suc 0) (ms_p ?t)) \<subseteq> set (line_layout t)"
    using assms(3) ws(3) by (cases "ms_p s"; simp add: t base_state_fields ring_def)+
  obtain l' where l': "mem_benchmark 0 (c_size (c_div (wrap32 (wrap32 (c_int (ms_nlines ?t) * c_int (ms_npages ?t)) + 100)) 100))
      ?t (mem_reset (?l\<lparr>ml_mem := m\<rparr>)) = Done l'" "ml_mem l' = m"
    using mem_benchmark_ring [of "mem_reset (?l\<lparr>ml_mem := m\<rparr>)" "line_layout t" 0 ?t] ws(3) p0(2) by fastforce
  have "words_initialize (me_lines e) (c_size (c_int (ms_nlines (base_state e s pages)))) (c_int (ms_line (base_state e s pages)))
      = Done (Some lines)" using gl(3) assms(2) by (simp add: base_state_fields lines)
  then have "line_initialize e 0 s l = Done (?t\<lparr>ms_initialized := True\<rparr>, l')"
    unfolding line_initialize_def base
    using ws(1) write_chain_Some [OF ws(2)] first l'(1) by (simp add: Let_def base_state_fields(10) t [symmetric])
  moreover have "line_layout (?t\<lparr>ms_initialized := True\<rparr>) = line_layout t" by (simp add: line_layout_def)
  moreover have "line_supported (?t\<lparr>ms_initialized := True\<rparr>)" using sup
    by (auto simp: line_supported_def pages_ok_def split: option.splits)
  moreover have "line_chain.intact (?t\<lparr>ms_initialized := True\<rparr>) m"
    using ws(4) by (simp add: line_chain.intact_def line_writes_def)
  moreover have "ms_p t \<noteq> []" using assms(3) by (simp add: t base_state_fields)
  ultimately show ?thesis
    using ws(3) l'(2) p0(1) len slots gl(1) by (auto simp: t base_state_fields) (simp_all add: base_state_def)
qed

lemma stride_initialize_builds:
  assumes "area_ok e s" "ptr_size \<le> ms_line s" "ms_line s \<le> ms_pagesize s" "0 < length (ms_p s)"
  shows "\<exists>t l'. stride_initialize e 0 s l = Done (t, l') \<and> ring (ml_mem l') (stride_layout t)
      \<and> ms_p t ! 0 = hd (stride_layout t) \<and> length (stride_layout t) = (ms_len s + ms_line s - 1) div ms_line s
      \<and> ms_line t = ms_line s \<and> ms_len t = ms_len s \<and> length (ms_p t) = length (ms_p s)"
proof -
  obtain pages r where base: "base_initialize e 0 s l = Done (base_state e s pages, mem_reset (l\<lparr>ml_perm_r := r,
       ml_mem := add_block (me_area e) (ms_maxlen s + 2 * ms_pagesize s) (ml_mem l)\<rparr>))" (is "_ = Done (_, ?l)")
    using base_initialize_ok [OF assms(1)] by blast
  let ?t = "base_state e s pages"
  have sup: "stride_supported ?t" using assms by (simp add: stride_supported_def base_state_fields area_ok_def)
  have blk: "blocks (ml_mem ?l) = (me_area e, ms_maxlen s + 2 * ms_pagesize s) # blocks (ml_mem l)"
    by (simp add: blocks_add)
  obtain ws m where ws: "stride_writes ?t = Some ws" "stores ws (ml_mem ?l) = Some m" "ring m (stride_layout ?t)"
    using stride_chain.ring_built [OF sup] stride_inside [OF assms(1-3) blk] by blast
  have "stride_initialize e 0 s l = Done (?t\<lparr>ms_p := (ms_p s)[0 := ms_base ?t]\<rparr>, mem_reset (?l\<lparr>ml_mem := m\<rparr>))"
    unfolding stride_initialize_def base using ws(1) write_chain_Some [OF ws(2)] by (simp add: base_state_fields)
  moreover have "stride_layout (?t\<lparr>ms_p := (ms_p s)[0 := ms_base ?t]\<rparr>) = stride_layout ?t" by (simp add: stride_layout_def)
  moreover have "hd (stride_layout ?t) = ms_base ?t"
    using ws(3) by (auto simp: stride_layout_def hd_map ring_def)
  ultimately show ?thesis using ws(3) assms(4) by (simp add: stride_layout_def base_state_fields)
qed

subsection \<open>thrash_initialize\<close>





subsection \<open>mem_initialize\<close>





subsection \<open>tlb_initialize\<close>

text \<open>The page the allocator gives for index \<open>i\<close>. What is used of \<open>valloc\<close>: it answers, and the
  blocks it returns do not overlap, so that the pages are different.\<close>

definition tlb_page :: "tlb_env \<Rightarrow> nat \<Rightarrow> nat \<Rightarrow> nat" where
  "tlb_page e pagesize i =
     (let p = te_valloc e i; q = te_valloc2 e i
      in if p mod pagesize \<noteq> 0 then q + (pagesize - q mod pagesize) else p)"

definition valloc_ok :: "tlb_env \<Rightarrow> nat \<Rightarrow> nat \<Rightarrow> bool" where
  "valloc_ok e pagesize n = (te_lines e \<and> te_pages e \<and> te_addr e \<noteq> 0 \<and> distinct (map (tlb_page e pagesize) [0..<n])
     \<and> list_all (\<lambda>i. te_valloc e i \<noteq> 0 \<and> (te_valloc e i mod pagesize \<noteq> 0 \<longrightarrow> te_valloc2 e i \<noteq> 0)) [0..<n])"

lemma tlb_alloc_value:
  assumes "0 < pagesize"
    "\<forall>i \<in> set todo. te_valloc e i \<noteq> 0 \<and> (te_valloc e i mod pagesize \<noteq> 0 \<longrightarrow> te_valloc2 e i \<noteq> 0)"
  shows "\<exists>addrs m'. tlb_alloc e pagesize todo m = Done (addrs, map (tlb_page e pagesize) todo, m')
    \<and> length addrs = length todo \<and> set (blocks m) \<subseteq> set (blocks m')
    \<and> (\<forall>i \<in> set todo. \<exists>lo sz. (lo, sz) \<in> set (blocks m') \<and> lo \<le> tlb_page e pagesize i
          \<and> tlb_page e pagesize i + pagesize \<le> lo + sz)"
  using assms(2)
proof (induction todo arbitrary: m)
  case (Cons i todo)
  let ?p = "te_valloc e i" and ?q = "te_valloc2 e i"
  define blk where "blk = (if ?p mod pagesize \<noteq> 0 then (?q, 2 * pagesize) else (?p, pagesize))"
  have room: "fst blk \<le> tlb_page e pagesize i" "tlb_page e pagesize i + pagesize \<le> fst blk + snd blk"
    using mod_less_divisor [OF assms(1), of ?q] by (auto simp: blk_def tlb_page_def Let_def)
  obtain addrs m' where IH: "tlb_alloc e pagesize todo (add_block (fst blk) (snd blk) m)
      = Done (addrs, map (tlb_page e pagesize) todo, m')" "length addrs = length todo"
    "set (blocks (add_block (fst blk) (snd blk) m)) \<subseteq> set (blocks m')"
    "\<forall>i \<in> set todo. \<exists>lo sz. (lo, sz) \<in> set (blocks m') \<and> lo \<le> tlb_page e pagesize i \<and> tlb_page e pagesize i + pagesize \<le> lo + sz"
    using Cons.IH [of "add_block (fst blk) (snd blk) m"] Cons.prems by auto
  have "tlb_alloc e pagesize (i # todo) m
      = Done ((if ?p mod pagesize \<noteq> 0 then ?q else ?p) # addrs, map (tlb_page e pagesize) (i # todo), m')"
    using IH(1) Cons.prems by (simp add: blk_def tlb_page_def Let_def split: if_splits)
  moreover have "(fst blk, snd blk) \<in> set (blocks m')" "set (blocks m) \<subseteq> set (blocks m')"
    using IH(3) by (auto simp: blocks_add)
  ultimately show ?case using IH(2,4) room by (cases blk) (auto simp del: tlb_alloc.simps)
qed simp

lemma tlb_shuffle_permutes:
  "i + 1 < length pages \<or> i = 0 \<Longrightarrow> \<exists>pages'. tlb_shuffle rands k i r pages = Some pages' \<and> mset pages' = mset pages"
proof (induction i arbitrary: k r pages)
  case (Suc i)
  let ?r = "push_bit 1 r XOR of_nat (rands k div 16)"
  let ?o = "unat ?r mod Suc i + 1"
  have "unat ?r mod Suc i < Suc i" by (rule mod_less_divisor) simp
  then have o: "?o < length pages" "Suc i + 1 < length pages" using Suc.prems by linarith+
  let ?pages = "pages[?o := pages ! (Suc i + 1), Suc i + 1 := pages ! ?o]"
  have "mset ?pages = mset pages" using mset_swap [OF o] by (simp add: swap_def)
  moreover obtain pages' where "tlb_shuffle rands (Suc k) i ?r ?pages = Some pages'" "mset pages' = mset ?pages"
    using Suc.IH [of ?pages "Suc k" ?r] o by auto
  ultimately show ?case using o by (simp add: Let_def)
qed simp

lemma tlb_initialize_builds:
  assumes "ms_pagesize s = 2 ^ b * ptr_size" "b < 28" "0 < ms_len s div ms_pagesize s"
    "ms_len s div ms_pagesize s < 2 ^ 31" "valloc_ok e (ms_pagesize s) (ms_len s div ms_pagesize s)" "0 < length (ms_p s)"
    "\<forall>i < ms_len s div ms_pagesize s. tlb_page e (ms_pagesize s) i mod ms_pagesize s = 0"
  shows "\<exists>t l'. tlb_initialize e 0 s l = Done (t, l') \<and> ms_initialized t \<and> ring (ml_mem l') (tlb_layout t)
      \<and> ms_p t ! 0 = hd (tlb_layout t) \<and> length (tlb_layout t) = ms_len s div ms_pagesize s"
proof -
  let ?ps = "ms_pagesize s" and ?n = "ms_len s div ms_pagesize s"
  note v = assms(5) [unfolded valloc_ok_def]
  have b: "(2 :: nat) ^ b < 2 ^ 28" by (rule power_strict_increasing) (use assms(2) in auto)
  then have ps: "0 < ?ps" "?ps < 2 ^ 31" "?ps div ptr_size = 2 ^ b"
    using assms(1) by (simp_all add: ptr_size_def)
  have ci: "nat (c_int ?ps) = ?ps" "nat (c_int ?n) = ?n" using ps(2) assms(4) by (simp_all only: c_int_id nat_int)
  define lines where lines: "lines = map (\<lambda>i. reverse b i * ptr_size) [0..<2 ^ b]"
  have ini: "words_initialize True (2 ^ b) (int ptr_size) = Done (Some lines)"
    using words_initialize_value [of b ptr_size] assms(2) by (simp add: lines ptr_size_def)
  have off: "offsets ptr_size ptr_size ?ps lines"
    using words_offsets [of ptr_size ptr_size b] assms(1) by (simp add: lines ptr_size_def)
  obtain addrs m1 where al: "tlb_alloc e ?ps [0..<?n] (ml_mem l) = Done (addrs, map (tlb_page e ?ps) [0..<?n], m1)"
    "\<forall>i < ?n. \<exists>lo sz. (lo, sz) \<in> set (blocks m1) \<and> lo \<le> tlb_page e ?ps i \<and> tlb_page e ?ps i + ?ps \<le> lo + sz"
    using tlb_alloc_value [OF ps(1), of "[0..<?n]" e "ml_mem l"] v by (auto simp: list_all_iff)
  let ?r = "push_bit 15 (of_nat (te_rand e 0)) XOR of_nat (te_rand e 1) :: u32"
  have pre: "(?n - 2) + 1 < length (map (tlb_page e ?ps) [0..<?n]) \<or> ?n - 2 = 0" unfolding length_map length_upt by linarith
  obtain pages where sh: "tlb_shuffle (te_rand e) 2 (?n - 2) ?r (map (tlb_page e ?ps) [0..<?n]) = Some pages"
    "mset pages = mset (map (tlb_page e ?ps) [0..<?n])"
    using tlb_shuffle_permutes [OF pre, of "te_rand e" 2 ?r] by blast
  have pages: "length pages = ?n" "distinct pages" "set pages = tlb_page e ?ps ` {0..<?n}"
    using arg_cong [OF sh(2), of size] distinct_mset_eq [OF sh(2)] v arg_cong [OF sh(2), of set_mset] by simp_all
  define t where t: "t = s\<lparr>ms_initialized := False, ms_nwords := 1, ms_nlines := 2 ^ b, ms_npages := ?n,
      ms_words := None, ms_lines := Some lines, ms_pages := Some pages, ms_addr := te_addr e, ms_addrs := addrs\<rparr>"
  have sup: "tlb_supported t"
    using pages off assms(3,7) by (auto simp: tlb_supported_def t lines offsets_def list_all_iff)
  have "inside m1 a" if a: "a \<in> set (tlb_layout t)" for a
  proof -
    obtain i where i: "i < ?n" "a = pages ! i + lines ! (i mod 2 ^ b)" using a by (auto simp: tlb_layout_def t)
    have "pages ! i \<in> tlb_page e ?ps ` {0..<?n}" using pages i(1) nth_mem by metis
    then obtain k where k: "k < ?n" "pages ! i = tlb_page e ?ps k" by auto
    have "lines ! (i mod 2 ^ b) + ptr_size \<le> ?ps" using offsets_nth [OF off, of "i mod 2 ^ b"] by (simp add: lines)
    moreover obtain lo sz where "(lo, sz) \<in> set (blocks m1)" "lo \<le> tlb_page e ?ps k" "tlb_page e ?ps k + ?ps \<le> lo + sz"
      using al(2) k(1) by blast
    ultimately show ?thesis using i(2) k(2) unfolding inside_def list_ex_iff by (intro bexI [of _ "(lo, sz)"]) auto
  qed
  then obtain ws m where ws: "tlb_writes t = Some ws" "stores ws m1 = Some m" "ring m (tlb_layout t)"
    using tlb_chain.ring_built [OF sup] by blast
  have hd: "hd (tlb_layout t) = pages ! 0 + lines ! 0" "length (tlb_layout t) = ?n"
    using assms(3) by (simp_all add: tlb_layout_def t hd_map)
  let ?t = "t\<lparr>ms_p := (ms_p t)[0 := hd (tlb_layout t)]\<rparr>"
  have p0: "ms_p ?t ! 0 = hd (tlb_layout t)" "set (take (Suc 0) (ms_p ?t)) \<subseteq> set (tlb_layout t)"
    using assms(6) ws(3) by (cases "ms_p s"; simp add: t ring_def)+
  obtain l' where l': "mem_benchmark 0 ((?n + 100) div 100) ?t (mem_reset (l\<lparr>ml_mem := m\<rparr>)) = Done l'" "ml_mem l' = m"
    using mem_benchmark_ring [of "mem_reset (l\<lparr>ml_mem := m\<rparr>)" "tlb_layout t" 0 ?t] ws(3) p0(2) by fastforce
  have first: "arr_get pages 0 = Some (pages ! 0)" "arr_get lines 0 = Some (lines ! 0)"
    using pages(1) assms(3) by (intro arr_get_Some; simp add: lines)+
  have "write_chain (tlb_writes t) (l\<lparr>ml_mem := m1\<rparr>) = Done (l\<lparr>ml_mem := m\<rparr>)"
    using ws(1,2) by (simp add: write_chain_def)
  then have "tlb_initialize e 0 s l = Done (?t\<lparr>ms_initialized := True\<rparr>, l')"
    unfolding tlb_initialize_def
    using ps ci v ini al(1) sh(1) first hd(1) l'(1) by (simp add: Let_def t)
  moreover have "tlb_layout (?t\<lparr>ms_initialized := True\<rparr>) = tlb_layout t" by (simp add: tlb_layout_def)
  ultimately show ?thesis using ws(3) l'(2) p0(1) hd(2) by auto
qed

section \<open>Properties\<close>

definition demo_state :: mem_state where
  "demo_state = \<lparr>ms_addr = 0, ms_base = 0, ms_p = replicate 16 0, ms_initialized = False, ms_width = 1,
     ms_len = 128, ms_maxlen = 128, ms_line = 16, ms_pagesize = 64, ms_nlines = 0, ms_npages = 0, ms_nwords = 0,
     ms_pages = None, ms_lines = None, ms_words = None, ms_addrs = []\<rparr>"

definition demo_env :: mem_env where
  "demo_env = \<lparr>me_area = 1000, me_pages = True, me_lines = True, me_words = True, me_seed = 7, me_rand = \<lambda>k. 5\<rparr>"

definition demo_lib :: mem_lib where
  "demo_lib = \<lparr>ml_mem = \<lparr>blocks = [], cells = Map.empty\<rparr>, ml_rerun = False, ml_saves = (\<lambda>_. (0, [])), ml_perm_r = 0\<rparr>"

lemma demo_geometry: "geometry 2 demo_env demo_state"
  by (simp add: geometry_def area_ok_def page_count_def demo_env_def demo_state_def ptr_size_def)

lemma demo_slots: "pages_chosen demo_state P \<Longrightarrow>
    line_slots 2 demo_env demo_state P = {1024, 1040, 1056, 1072, 1088, 1104, 1120, 1136}"
proof -
  assume "pages_chosen demo_state P"
  then have "P \<subseteq> {..<2}" "card P = card {..<2 :: nat}" by (simp_all add: pages_chosen_def page_count_def demo_state_def)
  then have "P = {..<2}" by (intro card_subset_eq) auto
  then have "P \<times> {..<2 ^ 2 :: nat} = {(0, 0), (0, 1), (0, 2), (0, 3), (1, 0), (1, 1), (1, 2), (1, 3)}" by auto
  then show ?thesis by (simp add: line_slots_def aligned_base_def demo_env_def demo_state_def)
qed



text \<open>C12. \<open>line_initialize\<close> chooses as many different pages of the area as the length has and links the first
  word of every line of each of them, and no other address, into one ring; the walk starts at its head. The
  lines are those of \<open>line_slots\<close>: multiples of the line size on the pages of the area rounded up to a page. A
  page has a power of two of lines (\<open>geometry\<close>).\<close>

theorem line_initialize_ring:
  assumes "geometry b e s" "me_lines e" "0 < length (ms_p s)"
  shows "\<exists>t l' P. line_initialize e 0 s l = Done (t, l') \<and> ms_initialized t
      \<and> pages_chosen s P \<and> set (line_layout t) = line_slots b e s P
      \<and> ring (ml_mem l') (line_layout t) \<and> ms_p t ! 0 = hd (line_layout t)
      \<and> length (line_layout t) = page_count (ms_len s) s * 2 ^ b"
  using line_initialize_builds [OF assms] by blast

theorem line_initialize_ring_witness:
  "\<exists>t l'. line_initialize demo_env 0 demo_state demo_lib = Done (t, l') \<and> ring (ml_mem l') (line_layout t)
     \<and> set (line_layout t) = {1024, 1040, 1056, 1072, 1088, 1104, 1120, 1136} \<and> length (line_layout t) = 8"
  using line_initialize_ring [OF demo_geometry, of demo_lib] demo_slots
  by (auto simp: demo_state_def demo_env_def page_count_def)

text \<open>\<open>stride_initialize\<close> links the area in steps of the stride into one ring of
  \<open>len / stride\<close> elements, rounded up, for every length and every stride from a pointer to a page.\<close>

theorem stride_initialize_ring:
  assumes "area_ok e s" "ptr_size \<le> ms_line s" "ms_line s \<le> ms_pagesize s" "0 < length (ms_p s)"
  shows "\<exists>t l'. stride_initialize e 0 s l = Done (t, l') \<and> ring (ml_mem l') (stride_layout t)
      \<and> ms_p t ! 0 = hd (stride_layout t) \<and> length (stride_layout t) = (ms_len s + ms_line s - 1) div ms_line s"
  using stride_initialize_builds [OF assms] by blast

theorem stride_initialize_ring_witness:
  "\<exists>t l'. stride_initialize demo_env 0 demo_state demo_lib = Done (t, l') \<and> ring (ml_mem l') (stride_layout t)
     \<and> length (stride_layout t) = 8"
  using stride_initialize_ring [of demo_env demo_state demo_lib] demo_geometry
  by (auto simp: demo_state_def demo_env_def geometry_def ptr_size_def)



text \<open>\<open>tlb_initialize\<close> links one word of every page into one ring of as many elements as
  pages, whatever \<open>rand\<close> returns; \<open>valloc\<close> has to answer with different pages.\<close>

theorem tlb_initialize_ring:
  assumes "ms_pagesize s = 2 ^ b * ptr_size" "b < 28" "0 < ms_len s div ms_pagesize s"
    "ms_len s div ms_pagesize s < 2 ^ 31" "valloc_ok e (ms_pagesize s) (ms_len s div ms_pagesize s)" "0 < length (ms_p s)"
    "\<forall>i < ms_len s div ms_pagesize s. tlb_page e (ms_pagesize s) i mod ms_pagesize s = 0"
  shows "\<exists>t l'. tlb_initialize e 0 s l = Done (t, l') \<and> ms_initialized t \<and> ring (ml_mem l') (tlb_layout t)
      \<and> ms_p t ! 0 = hd (tlb_layout t) \<and> length (tlb_layout t) = ms_len s div ms_pagesize s"
  using assms by (rule tlb_initialize_builds)

definition demo_tlb_env :: tlb_env where
  "demo_tlb_env = \<lparr>te_lines = True, te_pages = True, te_addr = 8, te_valloc = (\<lambda>i. 64 * (i + 1)),
     te_valloc2 = (\<lambda>i. 0), te_rand = (\<lambda>k. 3 * k)\<rparr>"

theorem tlb_initialize_ring_witness:
  "\<exists>t l'. tlb_initialize demo_tlb_env 0 demo_state demo_lib = Done (t, l') \<and> ring (ml_mem l') (tlb_layout t)
     \<and> length (tlb_layout t) = 2"
  using tlb_initialize_ring [of demo_state 3 demo_tlb_env demo_lib]
  by (auto simp: demo_state_def demo_tlb_env_def ptr_size_def valloc_ok_def tlb_page_def Let_def upt_rec)

lemma three_words:
  "line < 2 ^ 31 \<Longrightarrow> words_initialize True 3 (int line) = Done (Some [0, line, 0])"
proof -
  assume line: "line < 2 ^ 31"
  have "nbits_loop 1 0 = 1" using nbits_loop_exp [of 0 0] by simp
  then have n: "nbits_loop (3 div 2) 0 = 1" by simp
  have rev: "reverse 1 0 = 0" "reverse 1 1 = 1" "reverse 1 2 = 0"
    by (simp_all add: reverse_def reverse_loop.simps)
  have "[0..<3] = [0, 1, 2 :: nat]" by (simp add: upt_rec)
  moreover have "c_size (int line) = line" "c_size 0 = 0" using line c_size_int [of line] c_size_int [of 0] by simp_all
  ultimately show ?thesis using n rev by (simp add: words_initialize_def)
qed

text \<open>On a part of a page whose number of lines is not a power of two the words of
  \<open>words_initialize\<close> repeat, and the chain of \<open>thrash_initialize\<close> falls apart: with three lines the
  head of the chain points to itself, so that the walk never leaves the first line.\<close>

theorem thrash_words_collapse:
  assumes "area_ok e s" "me_words e" "0 < length (ms_p s)" "ms_len s = 3 * ms_line s" "ptr_size \<le> ms_line s"
    "ms_line s < 2 ^ 31" "ms_line s \<le> ms_pagesize s" "ms_len s mod ms_pagesize s \<noteq> 0"
  shows "\<exists>t l'. thrash_initialize e 0 s l = Done (t, l') \<and> load (ml_mem l') (ms_p t ! 0) = Some (ms_p t ! 0)"
proof -
  obtain pages r where base: "base_initialize e 0 s l = Done (base_state e s pages, mem_reset (l\<lparr>ml_perm_r := r,
       ml_mem := add_block (me_area e) (ms_maxlen s + 2 * ms_pagesize s) (ml_mem l)\<rparr>))" (is "_ = Done (_, ?l)")
    using base_initialize_ok [OF assms(1)] by blast
  note a = assms(1) [unfolded area_ok_def]
  define t where t: "t = (base_state e s pages)\<lparr>ms_nwords := 3, ms_words := Some [0, ms_line s, 0]\<rparr>"
  let ?b = "ms_base t" and ?ws = "[(ms_base t, ms_base t + ms_line s), (ms_base t + ms_line s, ms_base t), (ms_base t, ms_base t)]"
  have n: "ms_len s div ms_line s = 3" using assms(4) a by simp
  have blk: "blocks (ml_mem ?l) = (me_area e, ms_maxlen s + 2 * ms_pagesize s) # blocks (ml_mem l)"
    by (simp add: blocks_add)
  have b: "?b = ms_base (base_state e s pages)" by (simp add: t)
  have "inside (ml_mem ?l) (?b + 0)" "inside (ml_mem ?l) (?b + ms_line s)"
    unfolding b using a assms(4,5,7) by (intro base_inside [OF assms(1) blk _ refl]; linarith)+
  then obtain m where m: "stores ?ws (ml_mem ?l) = Some m" using stores_defined [of ?ws "ml_mem ?l"] by auto
  then obtain m2 where m2: "store ?b ?b m2 = Some m" by (auto simp: bind_eq_Some_conv)
  then have "load m ?b = Some ?b"
    using cells_store_same [OF m2] blocks_store [OF m2] by (auto simp: load_def store_def inside_def split: if_splits)
  moreover have "thrash_word_writes t = Some ?ws"
    by (simp add: thrash_word_writes_def t Let_def upt_rec)
  then have "thrash_initialize e 0 s l = Done (t\<lparr>ms_p := (ms_p t)[0 := ?b]\<rparr>, mem_reset (?l\<lparr>ml_mem := m\<rparr>))"
    unfolding thrash_initialize_def base
    using a assms(2,6,8) n three_words [of "ms_line s"] write_chain_Some [OF m]
    by (simp add: Let_def base_state_fields t)
  moreover have "0 < length (ms_p t)" using assms(3) by (simp add: t base_state_fields)
  ultimately show ?thesis by auto
qed

theorem thrash_words_collapse_witness:
  "\<exists>t l'. thrash_initialize demo_env 0 (demo_state\<lparr>ms_len := 48\<rparr>) demo_lib = Done (t, l')
     \<and> load (ml_mem l') (ms_p t ! 0) = Some (ms_p t ! 0)"
  using thrash_words_collapse [of demo_env "demo_state\<lparr>ms_len := 48\<rparr>" demo_lib]
  by (simp add: demo_state_def demo_env_def area_ok_def ptr_size_def)

end
