(* ===== verification/Memtest.thy ===== *)
theory Memtest
  imports Chains Overhead
begin

text \<open>
  The experiments of \<open>src/lib_mem.c\<close> on the chains: \<open>line_test\<close> shortens the chain of
  \<open>line_initialize\<close> to the first lines of each page, times walks over it and puts the links back;
  \<open>line_find\<close> doubles the line size until the time per step stops growing; \<open>par_mem\<close>
  compares walks over several pointers. What the \<open>BENCH\<close> macros leave behind (how often the
  loop body ran and the measured interval) is an argument; the macros themselves are in \<open>Overhead\<close>.
\<close>

section \<open>line_test\<close>

text \<open>The stores before and after the walks, for the first \<open>nlines\<close> lines of each page. With no
  line or no page the index \<open>nlines-1\<close> or \<open>npages-1\<close> wraps around.\<close>

definition cut_writes :: "mem_state \<Rightarrow> nat \<Rightarrow> (nat \<times> nat) list option" where
  "cut_writes s nlines =
     do { pages \<leftarrow> ms_pages s; lines \<leftarrow> ms_lines s;
          (let n = ms_npages s; p = ms_base s in
           if n = 0 \<or> nlines = 0 then None
           else do { ws \<leftarrow> those (map (\<lambda>i. do { a \<leftarrow> arr_get pages i; x \<leftarrow> arr_get lines (nlines - 1);
                                               b \<leftarrow> arr_get pages (i + 1); y \<leftarrow> arr_get lines 0;
                                               Some (p + a + x, p + b + y) }) [0..<n - 1]);
                     a \<leftarrow> arr_get pages (n - 1); x \<leftarrow> arr_get lines (nlines - 1);
                     b \<leftarrow> arr_get pages 0; y \<leftarrow> arr_get lines 0;
                     Some (ws @ [(p + a + x, p + b + y)]) }) }"

definition fix_writes :: "mem_state \<Rightarrow> nat \<Rightarrow> (nat \<times> nat) list option" where
  "fix_writes s nlines =
     do { pages \<leftarrow> ms_pages s; lines \<leftarrow> ms_lines s;
          (let n = ms_npages s; p = ms_base s;
               link = (\<lambda>i. do { a \<leftarrow> arr_get pages i; x \<leftarrow> arr_get lines (nlines - 1); y \<leftarrow> arr_get lines nlines;
                                Some (p + a + x, p + a + y) })
           in if n = 0 \<or> nlines = 0 then None
              else do { ws \<leftarrow> those (map link [0..<n - 1]); w \<leftarrow> link (n - 1); Some (ws @ [w]) }) }"

text \<open>The timed walks: each element of \<open>runs\<close> is one \<open>BENCH1\<close>, the number of times its body of
  a hundred steps ran and the state of the timing library after it.\<close>

fun test_loop :: "memory \<Rightarrow> (nat \<times> timing) list \<Rightarrow> nat \<Rightarrow> result_t \<Rightarrow> timing \<Rightarrow> (nat \<times> result_t \<times> timing) option" where
  "test_loop m [] p r tm = Some (p, r, tm)"
| "test_loop m ((k, tm') # runs) p r tm =
     do { ps \<leftarrow> chase m (100 * k) [p];
          r \<leftarrow> insertsort (gettime tm') (get_n tm') r;
          test_loop m runs (hd ps) r tm' }"

text \<open>\<open>ra\<close> and \<open>raw\<close> are the address (0 when \<open>malloc\<close> fails) and the contents of the result array
  that is allocated.\<close>

definition line_test ::
  "nat \<Rightarrow> int \<Rightarrow> (nat \<Rightarrow> nat \<times> timing) \<Rightarrow> nat \<Rightarrow> result_t \<Rightarrow> mem_state \<Rightarrow> timing \<Rightarrow> mem_lib
   \<Rightarrow> (dbl \<times> timing \<times> mem_lib) outcome"
where
  "line_test line repetitions runs ra raw s tm l =
     (if line = 0 then Undefined
      else
        let nlines = ms_pagesize s div line in
        andthen (defined (line_first s)) (\<lambda>first.
        let repetitions = (if repetitions < 0 then int TRIES else repetitions) in
        andthen (if nlines < ms_nlines s then write_chain (cut_writes s nlines) l else Done l) (\<lambda>l.
        if ra = 0 then Exit 1
        else
          let r_save = get_results tm in
          andthen (defined (test_loop (ml_mem l) (map runs [0..<nat repetitions]) first (insertinit raw) tm)) (\<lambda>(p, r, tm).
          let tm = use_pointer (of_nat p) tm;
              tm = tm\<lparr>result_objs := (result_objs tm)(ra := r)\<rparr> in
          andthen (defined (set_results ra tm)) (\<lambda>tm.
          let t = d_div (d_mul (Fin 10) (d_of_u64 (gettime tm))) (d_of_u64 (get_n tm)) in
          andthen (defined (set_results r_save tm)) (\<lambda>tm.
          andthen (if nlines < ms_nlines s then write_chain (fix_writes s nlines) l else Done l) (\<lambda>l.
            Done (t, tm, l))))))))"

section \<open>line_find\<close>

text \<open>What one call of \<open>line_test\<close> gets from outside: its walks and its result array.\<close>

record test_env =
  tv_runs :: "nat \<Rightarrow> nat \<times> timing"
  tv_ra :: nat
  tv_raw :: result_t

text \<open>\<open>for (state->addr = NULL; !state->addr && len; ) ...\<close>: attempt \<open>k\<close> uses \<open>e k\<close>. The length is
  halved at most 64 times.\<close>

fun try_lengths ::
  "(mem_env \<Rightarrow> nat \<Rightarrow> mem_state \<Rightarrow> mem_lib \<Rightarrow> (mem_state \<times> mem_lib) outcome) \<Rightarrow> (nat \<Rightarrow> mem_env)
   \<Rightarrow> nat \<Rightarrow> nat \<Rightarrow> mem_state \<Rightarrow> mem_lib \<Rightarrow> (nat \<times> mem_state \<times> mem_lib) outcome"
where
  "try_lengths ini e 0 len s l = Undefined"
| "try_lengths ini e (Suc fuel) len s l =
     (if ms_addr s \<noteq> 0 \<or> len = 0 then Done (len, s, l)
      else andthen (ini (e fuel) 0 (s\<lparr>ms_len := len, ms_maxlen := len\<rparr>) l) (\<lambda>(s, l).
             try_lengths ini e fuel (if ms_addr s = 0 then len div 2 else len) s l))"

definition try_fuel :: nat where "try_fuel = 66"

lemma andthen_cong [fundef_cong]: "x = y \<Longrightarrow> (\<And>a. y = Done a \<Longrightarrow> f a = g a) \<Longrightarrow> andthen x f = andthen y g"
  by (cases y) simp_all

text \<open>The loop over the line sizes; \<open>baseline\<close> is the time of the previous size.\<close>

function find_loop ::
  "nat \<Rightarrow> int \<Rightarrow> (nat \<Rightarrow> test_env) \<Rightarrow> mem_state \<Rightarrow> nat \<Rightarrow> dbl \<Rightarrow> bool \<Rightarrow> timing \<Rightarrow> mem_lib
   \<Rightarrow> (nat \<times> timing \<times> mem_lib) outcome"
where
  "find_loop maxline repetitions te s i baseline big_jump tm l =
     (if 0 < i \<and> i \<le> maxline then
        andthen (line_test i repetitions (tv_runs (te i)) (tv_ra (te i)) (tv_raw (te i)) s tm l) (\<lambda>(t, tm, l).
          if d_eq t (Fin 0) then Done (0, tm, l)
          else if ptr_size < i \<and> d_gt t (d_mul (to_dbl (13 / 10)) baseline) then
            find_loop maxline repetitions te s (2 * i) t True tm l
          else if ptr_size < i \<and> big_jump \<and> d_lt t (d_mul (to_dbl (115 / 100)) baseline) then
            Done (i div 2, tm, l)
          else find_loop maxline repetitions te s (2 * i) t big_jump tm l)
      else Done (0, tm, l))"
  by pat_completeness auto
termination
  by (relation "measure (\<lambda>(maxline, repetitions, te, s, i, baseline, big_jump, tm, l). Suc maxline - i)") auto

declare find_loop.simps [simp del]

text \<open>The first component of the result is the value returned, -1 when there is no memory.\<close>

definition line_find ::
  "nat \<Rightarrow> nat \<Rightarrow> int \<Rightarrow> (nat \<Rightarrow> mem_env) \<Rightarrow> (nat \<Rightarrow> test_env) \<Rightarrow> mem_state \<Rightarrow> timing \<Rightarrow> mem_lib
   \<Rightarrow> (int \<times> mem_state \<times> timing \<times> mem_lib) outcome"
where
  "line_find getpagesize len repetitions e te s tm l =
     (let maxline = getpagesize div 16;
          repetitions = (if repetitions < 0 then int TRIES else repetitions);
          s = s\<lparr>ms_width := 1, ms_line := ptr_size, ms_addr := 0\<rparr>
      in andthen (try_lengths line_initialize e try_fuel len s l) (\<lambda>(len, s, l).
           if ms_addr s = 0 then Done (- 1, s, tm, l)
           else andthen (find_loop maxline repetitions te s ptr_size (Fin 0) False tm l) (\<lambda>(line, tm, l).
                  let (s, l) = mem_cleanup 0 s l in Done (int line, s, tm, l))))"

section \<open>par_mem\<close>

text \<open>The pointer \<open>j\<close> of \<open>i+1\<close> parallel walks.\<close>

definition par_pointer :: "mem_state \<Rightarrow> nat \<Rightarrow> nat \<Rightarrow> nat \<Rightarrow> nat option" where
  "par_pointer s len i j =
     (if ms_line s = 0 \<or> ms_pagesize s div ms_line s = 0 \<or> ms_nwords s = 0 then None
      else
        let nlines = len div ms_line s;
            lines_per_chunk = nlines div (i + 1);
            lines_per_page = ms_pagesize s div ms_line s;
            line = j * lines_per_chunk;
            word = (j * ms_nwords s) div (i + 1)
        in do { pages \<leftarrow> ms_pages s; lines \<leftarrow> ms_lines s; words \<leftarrow> ms_words s;
                a \<leftarrow> arr_get pages (line div lines_per_page);
                b \<leftarrow> arr_get lines (line mod lines_per_page);
                c \<leftarrow> arr_get words (word mod ms_nwords s);
                Some (ms_base s + a + b + c) })"

text \<open>One \<open>BENCH\<close>: the counts the benchmark was called with, and the time and count it reports.\<close>

record par_env =
  pe_counts :: "nat list"
  pe_time :: u64
  pe_n :: u64

fun run_counts :: "nat \<Rightarrow> nat list \<Rightarrow> mem_state \<Rightarrow> mem_lib \<Rightarrow> mem_lib outcome" where
  "run_counts i [] s l = Done l"
| "run_counts i (k # ks) s l = andthen (mem_benchmark i k s l) (run_counts i ks s)"

definition par_ratio :: "dbl \<Rightarrow> nat \<Rightarrow> par_env \<Rightarrow> dbl" where
  "par_ratio baseline i pe =
     d_div baseline (d_div (d_of_u64 (pe_time pe)) (d_of_u64 (of_nat (i + 1) * pe_n pe)))"

fun par_loop ::
  "nat list \<Rightarrow> nat \<Rightarrow> (nat \<Rightarrow> par_env) \<Rightarrow> mem_state \<Rightarrow> dbl \<Rightarrow> dbl \<Rightarrow> mem_lib \<Rightarrow> (dbl \<times> mem_state \<times> mem_lib) outcome"
where
  "par_loop [] len pe s baseline max_par l = Done (max_par, s, l)"
| "par_loop (i # todo) len pe s baseline max_par l =
     andthen (defined (those (map (par_pointer s len i) [0..<Suc i]))) (\<lambda>ps.
     if length (ms_p s) \<le> i then Undefined
     else
       let s = s\<lparr>ms_p := ps @ drop (Suc i) (ms_p s)\<rparr> in
       andthen (mem_benchmark i ((len div ptr_size + 100) div 100) s (mem_reset l)) (\<lambda>l.
       andthen (run_counts i (pe_counts (pe i)) s l) (\<lambda>l.
       if i = 0 then
         par_loop todo len pe s (d_div (d_of_u64 (pe_time (pe i))) (d_of_u64 (pe_n (pe i)))) max_par l
       else if 0 < pe_time (pe i) then
         let par = par_ratio baseline i (pe i);
             max_par = (if d_gt par max_par then par else max_par)
         in if d_lt (d_mul (Fin 4) max_par) (d_of_int (int i)) then Done (max_par, s, l)
            else par_loop todo len pe s baseline max_par l
       else par_loop todo len pe s baseline max_par l)))"

definition par_mem ::
  "nat \<Rightarrow> (nat \<Rightarrow> mem_env) \<Rightarrow> (nat \<Rightarrow> par_env) \<Rightarrow> mem_state \<Rightarrow> mem_lib \<Rightarrow> (dbl \<times> mem_state \<times> mem_lib) outcome"
where
  "par_mem len e pe s l =
     andthen (try_lengths mem_initialize e try_fuel len (s\<lparr>ms_width := 1, ms_addr := 0\<rparr>) l) (\<lambda>(len, s, l).
       if ms_addr s = 0 then Done (Fin (- 1), s, l)
       else andthen (par_loop [0..<MAX_MEM_PARALLELISM] len pe s (Fin 0) (Fin 1) l) (\<lambda>(max_par, s, l).
              let (s, l) = mem_cleanup 0 s l in Done (max_par, s, l)))"

section \<open>The chain during and after a test\<close>

definition line_slot :: "mem_state \<Rightarrow> nat \<Rightarrow> nat \<Rightarrow> nat" where
  "line_slot s i j = ms_base s + the (ms_pages s) ! i + the (ms_lines s) ! j"

definition next_page :: "mem_state \<Rightarrow> nat \<Rightarrow> nat" where
  "next_page s i = (if Suc i < ms_npages s then Suc i else 0)"

text \<open>The first \<open>k\<close> lines of every page.\<close>

definition short_layout :: "mem_state \<Rightarrow> nat \<Rightarrow> nat list" where
  "short_layout s k = concat (map (\<lambda>i. map (line_slot s i) [0..<k]) [0..<ms_npages s])"

lemma line_slot_apart:
  assumes "line_supported s" "i < ms_npages s" "i' < ms_npages s" "j < ms_nlines s" "j' < ms_nlines s" "(i, j) \<noteq> (i', j')"
  shows "apart (line_slot s i j) (line_slot s i' j')"
proof -
  obtain pages lines where *: "ms_pages s = Some pages" "ms_lines s = Some lines" "pages_ok s pages"
    "length lines = ms_nlines s" "ptr_size \<le> ms_line s" "offsets (ms_line s) ptr_size (ms_pagesize s) lines"
    using assms(1) by (rule line_supportedD)
  show ?thesis unfolding line_slot_def using grid_apart [OF *(3,6,5)] assms(2-6) * by simp
qed

lemma line_sizes:
  assumes "line_supported s"
  obtains pages lines where "ms_pages s = Some pages" "ms_lines s = Some lines" "0 < ms_npages s"
    "ms_npages s \<le> length pages" "0 < ms_nlines s" "length lines = ms_nlines s"
  using line_supportedD [OF assms] unfolding pages_ok_def by metis

lemma ball_concat_upt: "(\<forall>x \<in> set (concat (map g [0..<n])). P x) \<longleftrightarrow> (\<forall>i < n. \<forall>x \<in> set (g i). P x)"
  by auto

lemma intact_iff:
  assumes "line_supported s"
  shows "line_chain.intact s m \<longleftrightarrow> (\<forall>i < ms_npages s.
    (\<forall>j. Suc j < ms_nlines s \<longrightarrow> points_to m (line_slot s i j) (line_slot s i (Suc j)))
    \<and> points_to m (line_slot s i (ms_nlines s - 1)) (line_slot s (next_page s i) 0))"
proof -
  obtain pages lines where *: "ms_pages s = Some pages" "ms_lines s = Some lines" "pages_ok s pages"
    "ms_npages s < 2 ^ 31" "0 < ms_nlines s" "ms_nlines s < 2 ^ 31" "length lines = ms_nlines s"
    using assms by (rule line_supportedD)
  have slot: "line_slot s = (\<lambda>i j. ms_base s + pages ! i + lines ! j)" by (intro ext) (simp add: line_slot_def *)
  define row where "row = (\<lambda>i. map (\<lambda>j. (line_slot s i j, line_slot s i (Suc j))) [0..<ms_nlines s - 1]
      @ [(line_slot s i (ms_nlines s - 1), line_slot s (next_page s i) 0)])"
  have "line_writes s = Some (concat (map row [0..<ms_npages s]))"
    unfolding row_def slot next_page_def by (rule line_writes_value [OF *])
  then have "line_chain.intact s m \<longleftrightarrow> (\<forall>x \<in> set (concat (map row [0..<ms_npages s])). case x of (a, v) \<Rightarrow> points_to m a v)"
    by (simp only: line_chain.intact_def option.inject) blast
  also have "\<dots> \<longleftrightarrow> (\<forall>i < ms_npages s. \<forall>x \<in> set (row i). case x of (a, v) \<Rightarrow> points_to m a v)"
    by (rule ball_concat_upt)
  finally have rows: "line_chain.intact s m \<longleftrightarrow> \<dots>" .
  have row: "(\<forall>x \<in> set (row i). case x of (a, v) \<Rightarrow> points_to m a v) \<longleftrightarrow>
    (\<forall>j. Suc j < ms_nlines s \<longrightarrow> points_to m (line_slot s i j) (line_slot s i (Suc j)))
    \<and> points_to m (line_slot s i (ms_nlines s - 1)) (line_slot s (next_page s i) 0)" for i
    unfolding row_def by (auto simp: less_diff_conv)
  show ?thesis unfolding rows row ..
qed

lemma cut_value:
  assumes "line_supported s" "0 < k" "k < ms_nlines s"
  shows "cut_writes s k = Some (map (\<lambda>i. (line_slot s i (k - 1), line_slot s (next_page s i) 0)) [0..<ms_npages s])"
proof -
  obtain pages lines where *: "ms_pages s = Some pages" "ms_lines s = Some lines" "0 < ms_npages s"
    "ms_npages s \<le> length pages" "0 < ms_nlines s" "length lines = ms_nlines s"
    using assms(1) by (rule line_sizes)
  let ?p = "ms_base s"
  have inner: "those (map (\<lambda>i. do { a \<leftarrow> arr_get pages i; x \<leftarrow> arr_get lines (k - 1); b \<leftarrow> arr_get pages (i + 1);
      y \<leftarrow> arr_get lines 0; Some (?p + a + x, ?p + b + y) }) [0..<ms_npages s - 1])
    = Some (map (\<lambda>i. (line_slot s i (k - 1), line_slot s (next_page s i) 0)) [0..<ms_npages s - 1])"
    by (rule those_map_value) (use * assms in \<open>auto simp: line_slot_def next_page_def\<close>)
  have "arr_get pages (ms_npages s - 1) = Some (pages ! (ms_npages s - 1))" "arr_get pages 0 = Some (pages ! 0)"
    "arr_get lines (k - 1) = Some (lines ! (k - 1))" "arr_get lines 0 = Some (lines ! 0)"
    using * assms by (intro arr_get_Some; linarith)+
  moreover have "[0..<ms_npages s] = [0..<ms_npages s - 1] @ [ms_npages s - 1]"
    using upt_Suc_append [of 0 "ms_npages s - 1"] *(3) by simp
  ultimately show ?thesis
    using inner * assms(2) by (simp add: cut_writes_def Let_def) (simp add: line_slot_def next_page_def)
qed

lemma fix_value:
  assumes "line_supported s" "0 < k" "k < ms_nlines s"
  shows "fix_writes s k = Some (map (\<lambda>i. (line_slot s i (k - 1), line_slot s i k)) [0..<ms_npages s])"
proof -
  obtain pages lines where *: "ms_pages s = Some pages" "ms_lines s = Some lines" "0 < ms_npages s"
    "ms_npages s \<le> length pages" "0 < ms_nlines s" "length lines = ms_nlines s"
    using assms(1) by (rule line_sizes)
  define link where "link i = do { a \<leftarrow> arr_get pages i; x \<leftarrow> arr_get lines (k - 1); y \<leftarrow> arr_get lines k;
      Some (ms_base s + a + x, ms_base s + a + y) }" for i
  have link: "link i = Some (line_slot s i (k - 1), line_slot s i k)" if "i < ms_npages s" for i
    using that * assms by (simp add: link_def line_slot_def)
  then have "those (map link [0..<ms_npages s - 1])
      = Some (map (\<lambda>i. (line_slot s i (k - 1), line_slot s i k)) [0..<ms_npages s - 1])"
    by (intro those_map_value) auto
  moreover have "[0..<ms_npages s] = [0..<ms_npages s - 1] @ [ms_npages s - 1]"
    using upt_Suc_append [of 0 "ms_npages s - 1"] *(3) by simp
  moreover have "fix_writes s k = do { ws \<leftarrow> those (map link [0..<ms_npages s - 1]); w \<leftarrow> link (ms_npages s - 1); Some (ws @ [w]) }"
    using *(1-3) assms(2) by (simp add: fix_writes_def Let_def link_def [abs_def])
  ultimately show ?thesis using *(3) link [of "ms_npages s - 1"] by simp
qed

text \<open>Stores at line \<open>k-1\<close> of every page.\<close>

lemma slot_stores:
  assumes "line_supported s" "0 < k" "k \<le> ms_nlines s" "line_chain.intact s m0" "blocks m = blocks m0"
  shows "\<exists>m'. stores (map (\<lambda>i. (line_slot s i (k - 1), g i)) [0..<ms_npages s]) m = Some m' \<and> blocks m' = blocks m
     \<and> (\<forall>i < ms_npages s. points_to m' (line_slot s i (k - 1)) (g i))
     \<and> (\<forall>i < ms_npages s. \<forall>j < ms_nlines s. j \<noteq> k - 1 \<longrightarrow> points_to m' (line_slot s i j) = points_to m (line_slot s i j))"
proof -
  let ?ws = "map (\<lambda>i. (line_slot s i (k - 1), g i)) [0..<ms_npages s]"
  have "inside m0 (line_slot s i (k - 1))" if "i < ms_npages s" for i
  proof -
    have "\<exists>v. points_to m0 (line_slot s i (k - 1)) v"
    proof (cases "k = ms_nlines s")
      case True
      then show ?thesis using assms(4) that unfolding intact_iff [OF assms(1)] by blast
    next
      case False
      then have "Suc (k - 1) < ms_nlines s" using assms(2,3) by linarith
      then show ?thesis using assms(4) that unfolding intact_iff [OF assms(1)] by blast
    qed
    then show ?thesis by (auto simp: points_to_def load_def split: if_splits)
  qed
  then have "\<forall>(a, v) \<in> set ?ws. inside m a" using inside_blocks [OF assms(5)] by auto
  then obtain m' where m': "stores ?ws m = Some m'" using stores_defined by blast
  have ap: "apart (line_slot s i j) (line_slot s i' j')"
    if "i < ms_npages s" "i' < ms_npages s" "j < ms_nlines s" "j' < ms_nlines s" "(i, j) \<noteq> (i', j')" for i i' j j'
    using line_slot_apart [OF assms(1)] that by blast
  have "compatible ?ws"
    by (rule compatible_image [of _ "\<lambda>i. line_slot s i (k - 1)" g "{..<ms_npages s}"]) (use ap assms(2,3) in auto)
  then have pts: "points_to m' (line_slot s i (k - 1)) (g i)" if "i < ms_npages s" for i
    using stores_points_to [OF m'] that by auto
  have keep: "points_to m' (line_slot s i j) = points_to m (line_slot s i j)"
    if "i < ms_npages s" "j < ms_nlines s" "j \<noteq> k - 1" for i j
  proof -
    have "cells m' (line_slot s i j) = cells m (line_slot s i j)"
      by (rule cells_stores_apart [OF m']) (use ap that assms(2,3) in auto)
    then show ?thesis using inside_blocks [OF blocks_stores [OF m']] by (auto simp: points_to_def load_def fun_eq_iff)
  qed
  show ?thesis using m' blocks_stores [OF m'] pts keep by blast
qed

lemma cut_and_fix:
  assumes "line_supported s" "0 < k" "k < ms_nlines s" "line_chain.intact s m"
  shows "\<exists>ws m1 ws' m2. cut_writes s k = Some ws \<and> stores ws m = Some m1 \<and> ring m1 (short_layout s k)
    \<and> fix_writes s k = Some ws' \<and> stores ws' m1 = Some m2 \<and> line_chain.intact s m2 \<and> blocks m2 = blocks m"
proof -
  note int = assms(4) [unfolded intact_iff [OF assms(1)]]
  have np: "0 < ms_npages s" using assms(1) by (rule line_sizes)
  have k: "k \<le> ms_nlines s" "k - 1 \<noteq> ms_nlines s - 1" using assms(2,3) by auto
  obtain m1 where m1: "stores (map (\<lambda>i. (line_slot s i (k - 1), line_slot s (next_page s i) 0)) [0..<ms_npages s]) m = Some m1"
    "blocks m1 = blocks m" "\<forall>i < ms_npages s. points_to m1 (line_slot s i (k - 1)) (line_slot s (next_page s i) 0)"
    "\<forall>i < ms_npages s. \<forall>j < ms_nlines s. j \<noteq> k - 1 \<longrightarrow> points_to m1 (line_slot s i j) = points_to m (line_slot s i j)"
    using slot_stores [OF assms(1,2) k(1) assms(4) refl, of "\<lambda>i. line_slot s (next_page s i) 0"] by blast
  obtain m2 where m2: "stores (map (\<lambda>i. (line_slot s i (k - 1), line_slot s i k)) [0..<ms_npages s]) m1 = Some m2"
    "blocks m2 = blocks m1" "\<forall>i < ms_npages s. points_to m2 (line_slot s i (k - 1)) (line_slot s i k)"
    "\<forall>i < ms_npages s. \<forall>j < ms_nlines s. j \<noteq> k - 1 \<longrightarrow> points_to m2 (line_slot s i j) = points_to m1 (line_slot s i j)"
    using slot_stores [OF assms(1,2) k(1) assms(4) m1(2), of "\<lambda>i. line_slot s i k"] by blast
  have "points_to m2 (line_slot s i j) (line_slot s i (Suc j))" if "i < ms_npages s" "Suc j < ms_nlines s" for i j
    using m2(3,4) m1(4) int that assms(2) by (cases "j = k - 1") auto
  moreover have "points_to m2 (line_slot s i (ms_nlines s - 1)) (line_slot s (next_page s i) 0)" if "i < ms_npages s" for i
    using m2(4) m1(4) int that k(2) assms(3) by (metis diff_less less_nat_zero_code not_gr_zero zero_less_one)
  ultimately have int2: "line_chain.intact s m2" unfolding intact_iff [OF assms(1)] by blast
  have "linked (points_to m1) (hd (short_layout s k)) (short_layout s k) (hd (short_layout s k))"
    unfolding short_layout_def
  proof (rule grid_linked)
    show "points_to m1 (line_slot s i j) (line_slot s i (Suc j))" if "i < ms_npages s" "Suc j < k" for i j
      using m1(4) int that assms(3) by auto
    show "points_to m1 (line_slot s i (k - 1)) (line_slot s (if Suc i < ms_npages s then Suc i else 0) 0)"
      if "i < ms_npages s" for i using m1(3) that by (simp add: next_page_def)
  qed (use np assms(2) in auto)
  moreover have "distinct (short_layout s k)"
    unfolding short_layout_def using line_slot_apart [OF assms(1)] assms(3) by (intro grid_distinct) auto
  moreover have "short_layout s k \<noteq> []" using np assms(2) by (auto simp: short_layout_def)
  ultimately have "ring m1 (short_layout s k)" by (simp add: ring_def)
  with m1(1,2) m2(1,2) int2 cut_value [OF assms(1-3)] fix_value [OF assms(1-3)] show ?thesis by auto
qed

section \<open>The walks\<close>

lemma test_loop_total:
  assumes "ring m as"
  shows "p \<in> set as \<Longrightarrow> res_inv r \<Longrightarrow> res_N r + length runs \<le> length (res_v r) \<Longrightarrow> ok tm \<Longrightarrow>
    \<forall>(k, t) \<in> set runs. ok t \<Longrightarrow>
    \<exists>p' r' tm'. test_loop m runs p r tm = Some (p', r', tm') \<and> p' \<in> set as \<and> res_inv r' \<and> ok tm'"
proof (induction runs arbitrary: p r tm)
  case (Cons run runs)
  obtain k t where run: "run = (k, t)" by force
  obtain qs where qs: "chase m (100 * k) [p] = Some qs" "length qs = 1" "set qs \<subseteq> set as"
    using chase_ring [OF assms, of "[p]" "100 * k"] Cons.prems(1) by auto
  obtain r1 where r1: "insertsort (gettime t) (get_n t) r = Some r1" "res_inv r1" "res_N r1 + length runs \<le> length (res_v r1)"
    using insertsort_room [OF Cons.prems(2), of "length runs"] Cons.prems(3) by auto
  have "hd qs \<in> set as" using qs(2,3) by (cases qs) auto
  moreover have "ok t" "\<forall>(k, t) \<in> set runs. ok t" using Cons.prems(5) run by auto
  ultimately show ?case using Cons.IH [of "hd qs" r1 t] r1 qs(1) run by simp
qed simp

text \<open>What a test relies on: the result array was allocated with room for the repetitions, and the
  array that was current before is well formed whenever a \<open>BENCH1\<close> has ended.\<close>

definition test_ok :: "nat \<Rightarrow> int \<Rightarrow> test_env \<Rightarrow> bool" where
  "test_ok r0 repetitions te =
     (tv_ra te \<noteq> 0 \<and> repetitions < 2 ^ 27 \<and> length (res_v (tv_raw te)) = capacity_of_size (sizeof_result repetitions)
      \<and> (\<forall>k. res_inv (result_objs (snd (tv_runs te k)) r0)))"

definition timing_ok :: "nat \<Rightarrow> timing \<Rightarrow> bool" where
  "timing_ok r0 tm = (results tm = r0 \<and> res_inv (result_objs tm r0))"

lemma res_inv_insertinit': "res_inv (insertinit r)"
  by (simp add: res_inv_def insertinit_def res_list_def desc_sorted_def)

text \<open>The reference for the time of a test: the median of what its repetitions recorded, whatever the
  memory and the state of the library before.\<close>

fun test_record :: "(nat \<times> timing) list \<Rightarrow> result_t \<Rightarrow> result_t option" where
  "test_record [] r = Some r"
| "test_record ((k, tm) # runs) r = do { r \<leftarrow> insertsort (gettime tm) (get_n tm) r; test_record runs r }"

definition step_time :: "timing \<Rightarrow> dbl" where
  "step_time tm = d_div (d_mul (Fin 10) (d_of_u64 (gettime tm))) (d_of_u64 (get_n tm))"

definition line_time :: "int \<Rightarrow> test_env \<Rightarrow> dbl" where
  "line_time repetitions te =
     (case test_record (map (tv_runs te) [0..<nat repetitions]) (insertinit (tv_raw te)) of
        Some r \<Rightarrow> step_time (the (save_median ((timing_init (\<lambda>_. tv_zero))\<lparr>result_objs := (\<lambda>_. r)\<rparr>)))
      | None \<Rightarrow> NaN)"

lemma test_record_loop: "test_loop m runs p r tm = Some (p', r', tm') \<Longrightarrow> test_record runs r = Some r'"
  by (induction m runs p r tm rule: test_loop.induct) (auto simp: bind_eq_Some_conv)

lemma save_median_same:
  "save_median s = Some s' \<Longrightarrow> cur_results u = cur_results s \<Longrightarrow> step_time (the (save_median u)) = step_time s'"
  unfolding save_median_def Let_def step_time_def
  by (auto simp: bind_eq_Some_conv get_n_def [symmetric] simp del: gettime_def split: if_splits)

text \<open>The timed part of \<open>line_test\<close> on a ring.\<close>

lemma test_part:
  assumes "ring m as" "first \<in> set as" "0 \<le> reps" "test_ok r0 reps te" "timing_ok r0 tm"
  shows "\<exists>p r tm1 tm2 tm3. test_loop m (map (tv_runs te) [0..<nat reps]) first (insertinit (tv_raw te)) tm = Some (p, r, tm1)
    \<and> set_results (tv_ra te) ((use_pointer (of_nat p) tm1)\<lparr>result_objs := (result_objs (use_pointer (of_nat p) tm1))(tv_ra te := r)\<rparr>) = Some tm2
    \<and> step_time tm2 = line_time reps te \<and> set_results r0 tm2 = Some tm3 \<and> timing_ok r0 tm3"
proof -
  note te = assms(4) [unfolded test_ok_def]
  let ?runs = "map (tv_runs te) [0..<nat reps]" and ?ok = "\<lambda>t. res_inv (result_objs t r0)"
  have room: "res_N (insertinit (tv_raw te)) + length ?runs \<le> length (res_v (insertinit (tv_raw te)))"
    using te assms(3) by (simp add: insertinit_def capacity_sizeof_result)
  have runs: "\<forall>(k, t) \<in> set ?runs. ?ok t" using te by (auto simp: case_prod_unfold)
  obtain p r tm1 where loop: "test_loop m ?runs first (insertinit (tv_raw te)) tm = Some (p, r, tm1)" "res_inv r" "?ok tm1"
    using test_loop_total [OF assms(1,2) res_inv_insertinit' room, of ?ok tm] runs assms(5) by (auto simp: timing_ok_def)
  let ?tm = "(use_pointer (of_nat p) tm1)\<lparr>result_objs := (result_objs (use_pointer (of_nat p) tm1))(tv_ra te := r)\<rparr>"
  obtain tm2 where tm2: "set_results (tv_ra te) ?tm = Some tm2" "result_objs tm2 = result_objs ?tm"
    using set_results_total [of ?tm "tv_ra te"] loop(2) by auto
  have "step_time (the (save_median ((timing_init (\<lambda>_. tv_zero))\<lparr>result_objs := (\<lambda>_. r)\<rparr>))) = step_time tm2"
    using save_median_same [OF tm2(1) [unfolded set_results_def]] by simp
  then have time: "step_time tm2 = line_time reps te"
    using test_record_loop [OF loop(1)] by (simp add: line_time_def)
  have "?ok tm2" using tm2(2) loop(2,3) by (simp add: use_pointer_def)
  then obtain tm3 where "set_results r0 tm2 = Some tm3" "result_objs tm3 = result_objs tm2" "results tm3 = r0"
    using set_results_total [of tm2 r0] by auto
  with loop(1) tm2 time \<open>?ok tm2\<close> show ?thesis by (auto simp: timing_ok_def)
qed

lemma line_first_value:
  assumes "line_supported s"
  shows "line_first s = Some (line_slot s 0 0)"
proof -
  obtain pages lines where *: "ms_pages s = Some pages" "ms_lines s = Some lines" "0 < ms_npages s"
    "ms_npages s \<le> length pages" "0 < ms_nlines s" "length lines = ms_nlines s"
    using assms by (rule line_sizes)
  have "arr_get pages 0 = Some (pages ! 0)" "arr_get lines 0 = Some (lines ! 0)"
    using * by (intro arr_get_Some; linarith)+
  with * show ?thesis by (simp add: line_first_def line_slot_def)
qed

lemma first_slot: "0 < ms_npages s \<Longrightarrow> 0 < k \<Longrightarrow> line_slot s 0 0 \<in> set (short_layout s k)"
  unfolding short_layout_def by (intro in_concat_upt [of 0]) auto

lemma full_layout: "line_layout s = short_layout s (ms_nlines s)"
  unfolding line_layout_def short_layout_def line_slot_def [abs_def] ..

lemma line_test_keeps:
  assumes "line_supported s" "line_chain.intact s (ml_mem l)" "0 < line" "line \<le> ms_pagesize s"
    "test_ok r0 (if repetitions < 0 then int TRIES else repetitions) te" "timing_ok r0 tm"
  shows "\<exists>tm' l'. line_test line repetitions (tv_runs te) (tv_ra te) (tv_raw te) s tm l
      = Done (line_time (if repetitions < 0 then int TRIES else repetitions) te, tm', l')
    \<and> line_chain.intact s (ml_mem l') \<and> timing_ok r0 tm'"
proof -
  let ?reps = "if repetitions < 0 then int TRIES else repetitions" and ?k = "ms_pagesize s div line"
  obtain np: "0 < ms_npages s" "0 < ms_nlines s" using assms(1) by (rule line_sizes)
  have k: "0 < ?k" using assms(3,4) by (simp add: div_greater_zero_iff)
  have reps: "0 \<le> ?reps" by simp
  have r0: "get_results tm = r0" using assms(6) by (simp add: timing_ok_def get_results_def)
  have ra: "tv_ra te \<noteq> 0" using assms(5) by (simp add: test_ok_def)
  show ?thesis
  proof (cases "?k < ms_nlines s")
    case True
    obtain ws m1 ws' m2 where c: "cut_writes s ?k = Some ws" "stores ws (ml_mem l) = Some m1" "ring m1 (short_layout s ?k)"
      "fix_writes s ?k = Some ws'" "stores ws' m1 = Some m2" "line_chain.intact s m2"
      using cut_and_fix [OF assms(1) k True assms(2)] by blast
    have fixed: "write_chain (Some ws') (l\<lparr>ml_mem := m1\<rparr>) = Done (l\<lparr>ml_mem := m2\<rparr>)"
      using c(5) by (simp add: write_chain_def)
    show ?thesis
      using test_part [OF c(3) first_slot [OF np(1) k] reps assms(5,6)] write_chain_Some [OF c(2)] fixed c(1,4,6)
        True assms(3) ra r0 line_first_value [OF assms(1)]
      by (auto simp: line_test_def Let_def step_time_def)
  next
    case False
    have "ring (ml_mem l) (short_layout s (ms_nlines s))"
      using line_chain.ring_of_intact [OF assms(1,2)] by (simp add: full_layout)
    then show ?thesis
      using test_part [OF _ first_slot [OF np] reps assms(5,6), of "ml_mem l"] False assms(2,3) ra r0
        line_first_value [OF assms(1)]
      by (auto simp: line_test_def Let_def step_time_def)
  qed
qed

section \<open>line_find\<close>

text \<open>The reference for the choice of the line, over the times \<open>t k\<close> of the sizes \<open>ptr_size * 2 ^ k\<close>: a size
  jumps when it takes more than 1.3 of the time of the size before, and settles when, after a jump, it takes
  less than 1.15 of it. The first size that settles gives the line, half of it; a time of zero ends the search.\<close>

definition jumps :: "(nat \<Rightarrow> dbl) \<Rightarrow> nat \<Rightarrow> bool" where
  "jumps t k = (0 < k \<and> d_gt (t k) (d_mul (to_dbl (13 / 10)) (t (k - 1))))"

definition settles :: "(nat \<Rightarrow> dbl) \<Rightarrow> nat \<Rightarrow> bool" where
  "settles t k = (0 < k \<and> \<not> jumps t k \<and> (\<exists>j < k. jumps t j) \<and> d_lt (t k) (d_mul (to_dbl (115 / 100)) (t (k - 1))))"

definition line_choice :: "(nat \<Rightarrow> dbl) \<Rightarrow> nat list \<Rightarrow> nat" where
  "line_choice t ks = (case find (\<lambda>k. d_eq (t k) (Fin 0) \<or> settles t k) ks of
     Some k \<Rightarrow> if d_eq (t k) (Fin 0) then 0 else ptr_size * 2 ^ (k - 1)
   | None \<Rightarrow> 0)"

lemma line_choice_bound:
  assumes "\<forall>k \<in> set ks. ptr_size * 2 ^ k \<le> bound"
  shows "line_choice t ks \<le> bound"
proof (cases "find (\<lambda>k. d_eq (t k) (Fin 0) \<or> settles t k) ks")
  case (Some k)
  then have "k \<in> set ks" by (auto simp: find_Some_iff)
  moreover have "(2 :: nat) ^ (k - 1) \<le> 2 ^ k" by (rule power_increasing) auto
  ultimately have "ptr_size * 2 ^ (k - 1) \<le> bound" using assms le_trans mult_le_mono2 by metis
  with Some show ?thesis by (simp add: line_choice_def)
qed (simp add: line_choice_def)

lemma find_loop_value:
  assumes "line_supported s" "\<forall>i. test_ok r0 repetitions (te i)" "maxline \<le> ms_pagesize s" "0 \<le> repetitions"
    "\<forall>k. ptr_size * 2 ^ k \<le> maxline \<longleftrightarrow> k < n" "t = (\<lambda>k. line_time repetitions (te (ptr_size * 2 ^ k)))"
  shows "line_chain.intact s (ml_mem l) \<Longrightarrow> timing_ok r0 tm \<Longrightarrow> 0 < k \<longrightarrow> baseline = t (k - 1) \<Longrightarrow>
    big_jump = (\<exists>j < k. jumps t j) \<Longrightarrow>
    \<exists>tm' l'. find_loop maxline repetitions te s (ptr_size * 2 ^ k) baseline big_jump tm l
      = Done (line_choice t [k..<n], tm', l') \<and> timing_ok r0 tm'"
proof (induction "n - k" arbitrary: k baseline big_jump tm l)
  case 0
  then have "\<not> ptr_size * 2 ^ k \<le> maxline" using assms(5) by simp
  with 0 show ?case by (subst find_loop.simps) (simp add: line_choice_def)
next
  case (Suc d)
  let ?i = "ptr_size * 2 ^ k"
  have i: "0 < ?i" "?i \<le> maxline" "2 * ?i = ptr_size * 2 ^ Suc k" "ptr_size < ?i \<longleftrightarrow> 0 < k"
    using assms(5) Suc.hyps(2) by (simp_all add: ptr_size_def) (cases k; simp add: Suc_lessI)
  obtain tm1 l1 where test: "line_test ?i repetitions (tv_runs (te ?i)) (tv_ra (te ?i)) (tv_raw (te ?i)) s tm l = Done (t k, tm1, l1)"
    "line_chain.intact s (ml_mem l1)" "timing_ok r0 tm1"
    using line_test_keeps [OF assms(1) Suc.prems(1) i(1), of r0 repetitions "te ?i" tm] Suc.prems(2) i(2) assms(2-4,6) by auto
  have IH: "\<exists>tm' l'. find_loop maxline repetitions te s (2 * ?i) (t k) big tm1 l1 = Done (line_choice t [Suc k..<n], tm', l') \<and> timing_ok r0 tm'"
    if "big = (\<exists>j < Suc k. jumps t j)" for big
    using Suc.hyps(1) [of "Suc k" l1 tm1 "t k" big] Suc.hyps(2) test(2,3) that unfolding i(3) by simp
  have upt: "[k..<n] = k # [Suc k..<n]" using Suc.hyps(2) by (simp add: upt_conv_Cons)
  have jump: "ptr_size < ?i \<and> d_gt (t k) (d_mul (to_dbl (13 / 10)) baseline) \<longleftrightarrow> jumps t k"
    using Suc.prems(3) i(4) by (auto simp: jumps_def)
  have settle: "\<not> jumps t k \<Longrightarrow> ptr_size < ?i \<and> big_jump \<and> d_lt (t k) (d_mul (to_dbl (115 / 100)) baseline) \<longleftrightarrow> settles t k"
    using Suc.prems(3,4) i(4) by (auto simp: settles_def)
  have half: "?i div 2 = ptr_size * 2 ^ (k - 1)" if "settles t k" using that by (cases k) (auto simp: settles_def)
  note unfold = find_loop.simps [of maxline repetitions te s ?i baseline big_jump tm l] test(1) andthen_simps(1) prod.case jump
  consider (zero) "d_eq (t k) (Fin 0)" | (jump) "\<not> d_eq (t k) (Fin 0)" "jumps t k"
    | (found) "\<not> d_eq (t k) (Fin 0)" "\<not> jumps t k" "settles t k"
    | (go) "\<not> d_eq (t k) (Fin 0)" "\<not> jumps t k" "\<not> settles t k" by blast
  then show ?case
  proof cases
    case zero
    then show ?thesis unfolding unfold using i(1,2) test(3) by (simp add: line_choice_def upt)
  next
    case jump
    then have "\<not> settles t k" "True = (\<exists>j < Suc k. jumps t j)" by (auto simp: settles_def)
    then show ?thesis unfolding unfold using i(1,2) jump IH by (simp add: line_choice_def upt del: mult_Suc_right)
  next
    case found
    then show ?thesis unfolding unfold settle [OF found(2)] using i(1,2) test(3) half by (simp add: line_choice_def upt)
  next
    case go
    then have "big_jump = (\<exists>j < Suc k. jumps t j)" using Suc.prems(4) less_Suc_eq by auto
    then show ?thesis unfolding unfold settle [OF go(2)] using i(1,2) go IH by (simp add: line_choice_def upt)
  qed
qed

text \<open>The sizes up to a sixteenth of a page of \<open>2 ^ b\<close> pointers.\<close>

lemma sizes_tested: "ptr_size * 2 ^ k \<le> 2 ^ b * ptr_size div 16 \<longleftrightarrow> k < b - 3"
proof (cases "b \<le> 3")
  case True
  then have "(2 :: nat) ^ b \<le> 2 ^ 3" by (intro power_increasing) auto
  then have "2 ^ b * ptr_size div 16 \<le> 4" by (simp add: ptr_size_def)
  moreover have "8 \<le> ptr_size * 2 ^ k" by (simp add: ptr_size_def)
  ultimately show ?thesis using True by linarith
next
  case False
  then obtain c where c: "b = c + 4" using le_Suc_ex [of 4 b] by auto
  have "2 ^ b * ptr_size div 16 = ptr_size * 2 ^ c" by (simp add: c ptr_size_def power_add)
  moreover have "ptr_size * 2 ^ k \<le> ptr_size * 2 ^ c \<longleftrightarrow> k \<le> c" by (simp add: ptr_size_def power_le_imp_le_exp power_increasing_iff)
  ultimately show ?thesis using c by auto
qed

text \<open>The state in which \<open>line_find\<close> calls \<open>line_initialize\<close>.\<close>

definition find_state :: "nat \<Rightarrow> mem_state \<Rightarrow> mem_state" where
  "find_state len s = s\<lparr>ms_width := 1, ms_line := ptr_size, ms_addr := 0, ms_len := len, ms_maxlen := len\<rparr>"

lemma try_lengths_once:
  assumes "len \<noteq> 0" "ms_addr s = 0" "ini (e (Suc fuel)) 0 (s\<lparr>ms_len := len, ms_maxlen := len\<rparr>) l = Done (t, l')"
    "ms_addr t \<noteq> 0"
  shows "try_lengths ini e (Suc (Suc fuel)) len s l = Done (len, t, l')"
  using assms by simp

lemma try_fuel_Suc: "try_fuel = Suc (Suc 64)"
  by (simp add: try_fuel_def)

lemma line_find_runs:
  assumes "geometry b (e 65) (find_state len s)" "me_lines (e 65)" "0 < length (ms_p s)"
    "ms_pagesize s = getpagesize" "\<forall>i. test_ok (results tm) (if repetitions < 0 then int TRIES else repetitions) (te i)"
    "res_inv (cur_results tm)"
  shows "\<exists>line s' tm' l'. line_find getpagesize len repetitions e te s tm l = Done (line, s', tm', l')
    \<and> line = int (line_choice (\<lambda>k. line_time (if repetitions < 0 then int TRIES else repetitions) (te (ptr_size * 2 ^ k))) [0..<b - 3])
    \<and> 0 \<le> line \<and> line \<le> int (getpagesize div 16) \<and> results tm' = results tm
    \<and> ms_addr s' = 0 \<and> ms_pages s' = None \<and> ms_lines s' = None \<and> ms_words s' = None"
proof -
  let ?s = "find_state len s" and ?reps = "if repetitions < 0 then int TRIES else repetitions"
  have len: "len \<noteq> 0" using assms(1) by (auto simp: geometry_def area_ok_def find_state_def)
  obtain t l1 where t: "line_initialize (e 65) 0 ?s l = Done (t, l1)" "line_supported t"
    "line_chain.intact t (ml_mem l1)" "ms_addr t = me_area (e 65)" "ms_pagesize t = ms_pagesize ?s"
    using line_initialize_builds [OF assms(1,2), of l] assms(3) by (auto simp: find_state_def)
  have addr: "ms_addr t \<noteq> 0" using t(4) assms(1) by (simp add: geometry_def area_ok_def)
  let ?s0 = "s\<lparr>ms_width := 1, ms_line := ptr_size, ms_addr := 0\<rparr>"
  have ini: "line_initialize (e (Suc 64)) 0 (?s0\<lparr>ms_len := len, ms_maxlen := len\<rparr>) l = Done (t, l1)"
    using t(1) by (simp add: find_state_def)
  have tried: "try_lengths line_initialize e try_fuel len ?s0 l = Done (len, t, l1)"
    unfolding try_fuel_Suc by (rule try_lengths_once [where fuel = 64 and e = e and ini = line_initialize, OF len _ ini addr]) simp
  have ps: "getpagesize div 16 \<le> ms_pagesize t" using t(5) assms(4) by (simp add: find_state_def)
  have reps: "0 \<le> ?reps" by simp
  let ?t = "\<lambda>k. line_time ?reps (te (ptr_size * 2 ^ k))"
  have page: "getpagesize = 2 ^ b * ptr_size" using assms(1,4) by (simp add: geometry_def find_state_def)
  have sizes: "\<forall>k. ptr_size * 2 ^ k \<le> getpagesize div 16 \<longleftrightarrow> k < b - 3" using sizes_tested [of _ b] unfolding page by blast
  then have bound: "line_choice ?t [0..<b - 3] \<le> getpagesize div 16" by (intro line_choice_bound) auto
  have "\<exists>tm' l'. find_loop (getpagesize div 16) ?reps te t (ptr_size * 2 ^ 0) (Fin 0) False tm l1
      = Done (line_choice ?t [0..<b - 3], tm', l') \<and> timing_ok (results tm) tm'"
    by (rule find_loop_value [OF t(2) assms(5) ps reps sizes refl t(3)]) (use assms(6) in \<open>simp_all add: timing_ok_def\<close>)
  then obtain tm' l' where f: "find_loop (getpagesize div 16) ?reps te t ptr_size (Fin 0) False tm l1 = Done (line_choice ?t [0..<b - 3], tm', l')"
    "timing_ok (results tm) tm'" by auto
  show ?thesis
    unfolding line_find_def using tried addr f bound by (simp add: Let_def mem_cleanup_def timing_ok_def)
qed

section \<open>Properties\<close>

text \<open>C13. \<open>line_test\<close> gives the chain back as it found it: for every line size up to a page the walks
  over the shortened chain are defined however long the benchmark lets them run, and after the
  call every link of the full ring is in place again, so that the next test starts from it.\<close>

theorem line_test_restores:
  assumes "line_supported s" "line_chain.intact s (ml_mem l)" "0 < line" "line \<le> ms_pagesize s"
    "test_ok (results tm) (if repetitions < 0 then int TRIES else repetitions) te" "res_inv (cur_results tm)"
  shows "\<exists>t tm' l'. line_test line repetitions (tv_runs te) (tv_ra te) (tv_raw te) s tm l = Done (t, tm', l')
    \<and> line_chain.intact s (ml_mem l') \<and> ring (ml_mem l') (line_layout s) \<and> results tm' = results tm"
proof -
  have "timing_ok (results tm) tm" using assms(6) by (simp add: timing_ok_def)
  then obtain t tm' l' where "line_test line repetitions (tv_runs te) (tv_ra te) (tv_raw te) s tm l = Done (t, tm', l')"
    "line_chain.intact s (ml_mem l')" "timing_ok (results tm) tm'"
    using line_test_keeps [OF assms(1-5)] by blast
  moreover from this(2) have "ring (ml_mem l') (line_layout s)" by (rule line_chain.ring_of_intact [OF assms(1)])
  ultimately show ?thesis by (auto simp: timing_ok_def)
qed

definition demo_tm :: timing where
  "demo_tm = timing_init (\<lambda>_. \<lparr>tv_sec = 0, tv_usec = 0\<rparr>)"

definition demo_test :: test_env where
  "demo_test = \<lparr>tv_runs = (\<lambda>k. (k, demo_tm)), tv_ra = 5,
     tv_raw = \<lparr>res_N = 3, res_v = replicate TRIES \<lparr>val_u = 1, val_n = 1\<rparr>\<rparr>\<rparr>"

lemma demo_test_ok: "test_ok (results demo_tm) (int TRIES) demo_test" "res_inv (cur_results demo_tm)"
  by (simp_all add: test_ok_def demo_test_def demo_tm_def timing_init_def capacity_sizeof_result TRIES_def res_inv_def
      res_list_def desc_sorted_def)

theorem line_test_restores_witness:
  "\<exists>s l. line_supported s \<and> (\<exists>t tm' l'. line_test 32 (- 1) (tv_runs demo_test) (tv_ra demo_test) (tv_raw demo_test) s demo_tm l
       = Done (t, tm', l') \<and> ring (ml_mem l') (line_layout s))"
proof -
  have "me_lines demo_env" "0 < length (ms_p demo_state)" by (simp_all add: demo_env_def demo_state_def)
  then obtain s and l :: mem_lib where *: "line_supported s" "line_chain.intact s (ml_mem l)" "ms_pagesize s = ms_pagesize demo_state"
    using line_initialize_builds [OF demo_geometry, of demo_lib] by blast
  have "32 \<le> ms_pagesize s" using *(3) by (simp add: demo_state_def)
  then have "\<exists>t tm' l'. line_test 32 (- 1) (tv_runs demo_test) (tv_ra demo_test) (tv_raw demo_test) s demo_tm l
      = Done (t, tm', l') \<and> ring (ml_mem l') (line_layout s)"
    using line_test_restores [OF *(1,2), of 32 demo_tm "- 1" demo_test] demo_test_ok by auto
  with *(1) show ?thesis by blast
qed

text \<open>C14. \<open>line_find\<close> as a whole: with a page of \<open>2 ^ b\<close> pointers and an allocation that succeeds at the first
  attempt it returns, and the value is the one \<open>line_choice\<close> reads off the times of the sizes 8, 16, ... up to a
  sixteenth of a page (\<open>b - 3\<close> sizes): half of the first size that, after a jump of more than 1.3, takes less
  than 1.15 of the time before it, and 0 if a time of zero comes first or no size settles. The time of a size
  is the median of its repetitions whatever the sizes before did to the chain. The current results are
  restored and the state is cleaned up.\<close>

theorem line_find_returns:
  assumes "geometry b (e 65) (find_state len s)" "me_lines (e 65)" "0 < length (ms_p s)"
    "ms_pagesize s = getpagesize" "\<forall>i. test_ok (results tm) (if repetitions < 0 then int TRIES else repetitions) (te i)"
    "res_inv (cur_results tm)"
  shows "\<exists>line s' tm' l'. line_find getpagesize len repetitions e te s tm l = Done (line, s', tm', l')
    \<and> line = int (line_choice (\<lambda>k. line_time (if repetitions < 0 then int TRIES else repetitions) (te (ptr_size * 2 ^ k))) [0..<b - 3])
    \<and> 0 \<le> line \<and> line \<le> int (getpagesize div 16) \<and> results tm' = results tm
    \<and> ms_addr s' = 0 \<and> ms_pages s' = None \<and> ms_lines s' = None \<and> ms_words s' = None"
  using assms by (rule line_find_runs)

text \<open>A page of 64 pointers, whose sizes are 8, 16 and 32: the time jumps at 16 and settles at 32, so that the
  line has 16 bytes.\<close>

definition demo_run :: "u64 \<Rightarrow> timing" where
  "demo_run u = settime u (save_n 10 demo_tm)"

definition demo_times :: "nat \<Rightarrow> test_env" where
  "demo_times i = demo_test\<lparr>tv_runs := (\<lambda>k. (k, demo_run (if i = 16 then 10 else 1)))\<rparr>"

definition demo_page :: mem_state where
  "demo_page = demo_state\<lparr>ms_len := 512, ms_maxlen := 512, ms_pagesize := 512\<rparr>"

lemma demo_times_ok: "test_ok (results demo_tm) 1 (demo_times i)"
  using demo_test_ok by (simp add: test_ok_def demo_times_def demo_test_def demo_run_def demo_tm_def timing_init_def
      capacity_sizeof_result TRIES_def)

lemma demo_record:
  "u \<noteq> 0 \<Longrightarrow> insertsort u n (insertinit (tv_raw demo_test))
     = Some \<lparr>res_N = 1, res_v = \<lparr>val_u = u, val_n = n\<rparr> # replicate (TRIES - 1) \<lparr>val_u = 1, val_n = 1\<rparr>\<rparr>"
  by (simp add: insertsort_def find_slot.simps insertinit_def demo_test_def arr_set_def TRIES_def numeral_eq_Suc)

lemma demo_times_value: "line_time 1 (demo_times i) = Fin (if i = 16 then 10 else 1)"
  using to_dbl_of_int [of 100] to_dbl_of_int [of 10] to_dbl_of_int [of 1] rnd_of_int [of 10] rnd_of_int [of 1]
  by (simp add: line_time_def demo_times_def demo_run_def demo_record save_median_def step_time_def timing_init_def
      d_of_u64_Fin arr_get_def rnd_u2r_exact u2r_def)

lemma demo_choice: "line_choice (\<lambda>k. Fin (if ptr_size * 2 ^ k = 16 then 10 else 1)) [0..<3] = 16"
proof -
  let ?t = "\<lambda>k. Fin (if ptr_size * 2 ^ k = 16 then 10 else 1)"
  have q: "to_dbl (13 / 10) = Fin (rnd (13 / 10))" "to_dbl (115 / 100) = Fin (rnd (115 / 100))"
    using to_dbl_finite [of "13 / 10" 1] to_dbl_finite [of "115 / 100" 1] by simp_all
  have r: "1 \<le> rnd (13 / 10)" "rnd (13 / 10) \<le> 2" "1 \<le> rnd (115 / 100)" "rnd (115 / 100) \<le> 2"
    using rnd_le_pow [of "13 / 10" 1] rnd_le_pow [of "115 / 100" 1] rnd.r_ge_int [of 1 "13 / 10"]
      rnd.r_ge_int [of 1 "115 / 100"] by simp_all
  have p: "to_dbl (rnd (13 / 10) * 1) = Fin (rnd (rnd (13 / 10) * 1))" "to_dbl (rnd (13 / 10) * 10) = Fin (rnd (rnd (13 / 10) * 10))"
    "to_dbl (rnd (115 / 100) * 10) = Fin (rnd (rnd (115 / 100) * 10))"
    using r by (intro to_dbl_finite [of _ 5]; simp)+
  have "rnd (rnd (13 / 10) * 1) \<le> 2" "10 \<le> rnd (rnd (13 / 10) * 10)" "10 \<le> rnd (rnd (115 / 100) * 10)"
    using r rnd_le_pow [of "rnd (13 / 10) * 1" 1] rnd.r_ge_int [of 10 "rnd (13 / 10) * 10"] rnd.r_ge_int [of 10 "rnd (115 / 100) * 10"]
    by simp_all
  then have "d_lt (d_mul (to_dbl (13 / 10)) (Fin 1)) (Fin 10)" "d_lt (Fin 1) (d_mul (to_dbl (115 / 100)) (Fin 10))"
    "\<not> d_lt (d_mul (to_dbl (13 / 10)) (Fin 10)) (Fin 1)"
    unfolding q d_mul.simps p by auto
  then have "jumps ?t 1" "settles ?t 2" "\<not> settles ?t 1" "\<not> settles ?t 0"
    by (auto simp: jumps_def settles_def ptr_size_def numeral_2_eq_2)
  then show ?thesis by (simp add: line_choice_def upt_rec d_eq_def ptr_size_def numeral_2_eq_2)
qed

theorem line_find_returns_witness:
  "\<exists>line s' tm' l'. line_find 512 512 1 (\<lambda>_. demo_env) demo_times demo_page demo_tm demo_lib = Done (line, s', tm', l')
     \<and> line = 16 \<and> results tm' = results demo_tm"
proof -
  have g: "geometry 6 ((\<lambda>_. demo_env) 65) (find_state 512 demo_page)"
    by (simp add: geometry_def area_ok_def find_state_def demo_env_def demo_page_def demo_state_def ptr_size_def page_count_def)
  have t: "line_choice (\<lambda>k. line_time 1 (demo_times (ptr_size * 2 ^ k))) [0..<3] = 16"
    unfolding demo_times_value by (simp add: demo_choice)
  show ?thesis
    using line_find_returns [OF g, of 512 demo_tm 1 demo_times demo_lib] demo_times_ok demo_test_ok(2) t
    by (auto simp: demo_env_def demo_page_def demo_state_def)
qed

end
