(* ===== verification/Getopt.thy ===== *)
theory Getopt
  imports Prelude "HOL-Library.Monad_Syntax"
begin

text \<open>
  The option parser of \<open>src/getopt.c\<close>. The variables \<open>optind\<close>, \<open>optopt\<close>, \<open>optarg\<close> and the
  static \<open>n\<close>, the index into the current word, are the state; \<open>argv\<close> is a list of strings, each
  without its terminating zero. A call returns \<open>None\<close> when the assertion on the current
  character fails or the index is past the end of the word, and otherwise the result (\<open>None\<close> for
  \<open>EOF\<close>) with the new state.
\<close>

section \<open>getopt\<close>

record opt_state =
  optind :: nat
  optopt :: "char option"
  optarg :: "string option"
  opt_n :: nat

text \<open>\<open>for (t = opts; *t; t++) if (*t == c) break;\<close>: the tail of the option string at the letter.\<close>

fun find_letter :: "string \<Rightarrow> char \<Rightarrow> string option" where
  "find_letter [] c = None"
| "find_letter (t # ts) c = (if t = c then Some (t # ts) else find_letter ts c)"

text \<open>\<open>t[1]\<close>, the kind of the option; zero at the end of the string.\<close>

definition kind_at :: "string \<Rightarrow> char" where
  "kind_at t = (case t of _ # k # _ \<Rightarrow> k | _ \<Rightarrow> CHR 0x00)"

definition getopt :: "string list \<Rightarrow> string \<Rightarrow> opt_state \<Rightarrow> (char option \<times> opt_state) option" where
  "getopt av opts st =
     (let st = (if optind st = 0 then st\<lparr>optind := 1, opt_n := 1\<rparr> else st);
          i = optind st; n = opt_n st
      in if length av \<le> i then Some (None, st)
         else
           let w = av ! i in
           if w = [] \<or> hd w \<noteq> CHR ''-'' \<or> tl w = [] then Some (None, st)
           else if length w \<le> n then None
           else
             let c = w ! n in
             case find_letter opts c of
               None \<Rightarrow> Some (Some CHR ''?'', st\<lparr>optopt := Some c\<rparr>)
             | Some t \<Rightarrow>
                 let k = kind_at t in
                 if k \<noteq> CHR '':'' \<and> k \<noteq> CHR ''|'' \<and> k \<noteq> CHR '';'' then
                   if length w = n + 1 then Some (Some c, st\<lparr>optind := i + 1, opt_n := 1\<rparr>)
                   else Some (Some c, st\<lparr>opt_n := n + 1\<rparr>)
                 else if n + 1 < length w then
                   Some (Some c, st\<lparr>optarg := Some (drop (n + 1) w), optind := i + 1, opt_n := 1\<rparr>)
                 else if k = CHR ''|'' then
                   Some (Some c, st\<lparr>optarg := None, optind := i + 1, opt_n := 1\<rparr>)
                 else if k = CHR '';'' then
                   Some (Some CHR ''?'', st\<lparr>optarg := None, optind := i + 1, optopt := Some c\<rparr>)
                 else if i + 1 = length av \<or> (av ! (i + 1) \<noteq> [] \<and> hd (av ! (i + 1)) = CHR ''-'') then
                   Some (Some CHR ''?'', st\<lparr>optopt := Some c\<rparr>)
                 else Some (Some c, st\<lparr>optarg := Some (av ! (i + 1)), optind := i + 2, opt_n := 1\<rparr>))"

text \<open>The callers' loop \<open>while ((c = getopt(ac, av, opts)) != EOF)\<close>: the letters with the argument
  seen after each call. The fuel bounds the number of calls; the loop does not end on a word that
  \<open>getopt\<close> does not advance over.\<close>

fun getopt_loop :: "nat \<Rightarrow> string list \<Rightarrow> string \<Rightarrow> opt_state \<Rightarrow> ((char \<times> string option) list \<times> opt_state) option" where
  "getopt_loop 0 av opts st = None"
| "getopt_loop (Suc fuel) av opts st =
     do { (r, st) \<leftarrow> getopt av opts st;
          (case r of None \<Rightarrow> Some ([], st)
                   | Some c \<Rightarrow> do { (rs, st') \<leftarrow> getopt_loop fuel av opts st; Some ((c, optarg st) # rs, st') }) }"

section \<open>Command lines\<close>

text \<open>The forms the head comment of the file lists: a word of flags \<open>-abcd\<close>, and flags followed by an
  option with its argument next to it, \<open>-abcr<arg>\<close>, or in the next word, \<open>-abcr <arg>\<close>.\<close>

datatype item = Flags string | Cozy string char string | Apart string char string

fun words_of :: "item \<Rightarrow> string list" where
  "words_of (Flags cs) = [CHR ''-'' # cs]"
| "words_of (Cozy cs c a) = [CHR ''-'' # cs @ c # a]"
| "words_of (Apart cs c a) = [CHR ''-'' # cs @ [c], a]"

definition kind_of :: "string \<Rightarrow> char \<Rightarrow> char option" where
  "kind_of opts c = map_option kind_at (find_letter opts c)"

definition is_flag :: "string \<Rightarrow> char \<Rightarrow> bool" where
  "is_flag opts c = (case kind_of opts c of None \<Rightarrow> False | Some k \<Rightarrow> k \<notin> {CHR '':'', CHR ''|'', CHR '';''})"

definition takes_arg :: "string \<Rightarrow> char \<Rightarrow> char set \<Rightarrow> bool" where
  "takes_arg opts c ks = (case kind_of opts c of None \<Rightarrow> False | Some k \<Rightarrow> k \<in> ks)"

fun item_ok :: "string \<Rightarrow> item \<Rightarrow> bool" where
  "item_ok opts (Flags cs) = (cs \<noteq> [] \<and> list_all (is_flag opts) cs)"
| "item_ok opts (Cozy cs c a) = (list_all (is_flag opts) cs \<and> takes_arg opts c {CHR '':'', CHR ''|'', CHR '';''} \<and> a \<noteq> [])"
| "item_ok opts (Apart cs c a) = (list_all (is_flag opts) cs \<and> takes_arg opts c {CHR '':''}
     \<and> (a = [] \<or> hd a \<noteq> CHR ''-''))"

text \<open>What a caller sees: the letters, and for an option with an argument the argument. \<open>optarg\<close> keeps
  its old value at a flag.\<close>

fun seen_of :: "string option \<Rightarrow> item \<Rightarrow> (char \<times> string option) list" where
  "seen_of arg (Flags cs) = map (\<lambda>c. (c, arg)) cs"
| "seen_of arg (Cozy cs c a) = map (\<lambda>c. (c, arg)) cs @ [(c, Some a)]"
| "seen_of arg (Apart cs c a) = map (\<lambda>c. (c, arg)) cs @ [(c, Some a)]"

fun arg_after :: "string option \<Rightarrow> item \<Rightarrow> string option" where
  "arg_after arg (Flags cs) = arg"
| "arg_after arg (Cozy cs c a) = Some a"
| "arg_after arg (Apart cs c a) = Some a"

fun seen :: "string option \<Rightarrow> item list \<Rightarrow> (char \<times> string option) list" where
  "seen arg [] = []"
| "seen arg (it # its) = seen_of arg it @ seen (arg_after arg it) its"

definition stops :: "string list \<Rightarrow> bool" where
  "stops rest = (case rest of [] \<Rightarrow> True | w # _ \<Rightarrow> w = [] \<or> hd w \<noteq> CHR ''-'' \<or> tl w = [])"

section \<open>One call\<close>

text \<open>Word \<open>i\<close> of \<open>argv\<close> is the dash, what was read of it, and the rest.\<close>

lemma flag_step:
  assumes "i < length av" "i \<noteq> 0" "av ! i = CHR ''-'' # pre @ c # suf" "is_flag opts c" "optind st = i" "opt_n st = Suc (length pre)"
  shows "getopt av opts st = Some (Some c, if suf = [] then st\<lparr>optind := i + 1, opt_n := 1\<rparr> else st\<lparr>opt_n := Suc (Suc (length pre))\<rparr>)"
proof -
  obtain t where t: "find_letter opts c = Some t" "kind_at t \<noteq> CHR '':''" "kind_at t \<noteq> CHR ''|''" "kind_at t \<noteq> CHR '';''"
    using assms(4) by (auto simp: is_flag_def kind_of_def split: option.splits)
  have "(CHR ''-'' # pre @ c # suf) ! Suc (length pre) = c" by (simp add: nth_append)
  with assms t show ?thesis by (auto simp: getopt_def Let_def)
qed

lemma cozy_step:
  assumes "i < length av" "i \<noteq> 0" "av ! i = CHR ''-'' # pre @ c # a" "takes_arg opts c {CHR '':'', CHR ''|'', CHR '';''}"
    "a \<noteq> []" "optind st = i" "opt_n st = Suc (length pre)"
  shows "getopt av opts st = Some (Some c, st\<lparr>optarg := Some a, optind := i + 1, opt_n := 1\<rparr>)"
proof -
  obtain t where t: "find_letter opts c = Some t" "kind_at t \<in> {CHR '':'', CHR ''|'', CHR '';''}"
    using assms(4) by (auto simp: takes_arg_def kind_of_def split: option.splits)
  have "(CHR ''-'' # pre @ c # a) ! Suc (length pre) = c" by (simp add: nth_append)
  with assms t show ?thesis by (auto simp: getopt_def Let_def)
qed

lemma apart_step:
  assumes "i + 1 < length av" "i \<noteq> 0" "av ! i = CHR ''-'' # pre @ [c]" "av ! (i + 1) = a" "takes_arg opts c {CHR '':''}"
    "a = [] \<or> hd a \<noteq> CHR ''-''" "optind st = i" "opt_n st = Suc (length pre)"
  shows "getopt av opts st = Some (Some c, st\<lparr>optarg := Some a, optind := i + 2, opt_n := 1\<rparr>)"
proof -
  obtain t where t: "find_letter opts c = Some t" "kind_at t = CHR '':''"
    using assms(5) by (auto simp: takes_arg_def kind_of_def split: option.splits)
  have "(CHR ''-'' # pre @ [c]) ! Suc (length pre) = c" by (simp add: nth_append)
  with assms t show ?thesis by (auto simp: getopt_def Let_def)
qed

lemma stop_step:
  assumes "optind st = i" "i \<noteq> 0" "i \<le> length av" "stops (drop i av)"
  shows "getopt av opts st = Some (None, st)"
proof (cases "i < length av")
  case True
  then have "drop i av = av ! i # drop (Suc i) av" by (simp add: Cons_nth_drop_Suc)
  with True assms show ?thesis by (auto simp: getopt_def Let_def stops_def)
qed (use assms in \<open>simp add: getopt_def Let_def\<close>)

section \<open>The loop\<close>

text \<open>A run of flags inside of a word.\<close>

lemma flags_loop:
  assumes "i < length av" "i \<noteq> 0"
  shows "av ! i = CHR ''-'' # pre @ cs @ suf \<Longrightarrow> list_all (is_flag opts) cs \<Longrightarrow> suf \<noteq> [] \<Longrightarrow>
    optind st = i \<Longrightarrow> opt_n st = Suc (length pre) \<Longrightarrow>
    getopt_loop (fuel + length cs) av opts st
      = map_option (\<lambda>(rs, st'). (map (\<lambda>c. (c, optarg st)) cs @ rs, st'))
          (getopt_loop fuel av opts (st\<lparr>opt_n := Suc (length pre + length cs)\<rparr>))"
proof (induction cs arbitrary: pre st)
  case Nil
  have "st\<lparr>opt_n := Suc (length pre)\<rparr> = st" using Nil.prems by (cases st) simp
  then show ?case by (simp add: option.map_ident case_prod_unfold)
next
  case (Cons c cs)
  let ?st = "st\<lparr>opt_n := Suc (Suc (length pre))\<rparr>"
  have step: "getopt av opts st = Some (Some c, ?st)"
    using flag_step [OF assms, of pre c "cs @ suf" opts st] Cons.prems by simp
  have "getopt_loop (fuel + length cs) av opts ?st
      = map_option (\<lambda>(rs, st'). (map (\<lambda>c. (c, optarg st)) cs @ rs, st'))
          (getopt_loop fuel av opts (st\<lparr>opt_n := Suc (length pre + length (c # cs))\<rparr>))"
    using Cons.IH [of "pre @ [c]" ?st] Cons.prems by simp
  with step show ?case by (cases "getopt_loop fuel av opts (st\<lparr>opt_n := Suc (length pre + length (c # cs))\<rparr>)") auto
qed

text \<open>One item.\<close>

lemma item_loop:
  assumes "drop i av = words_of it @ others" "i \<noteq> 0" "item_ok opts it" "optind st = i" "opt_n st = 1"
  shows "getopt_loop (fuel + length (seen_of (optarg st) it)) av opts st
    = map_option (\<lambda>(rs, st'). (seen_of (optarg st) it @ rs, st'))
        (getopt_loop fuel av opts (st\<lparr>optarg := arg_after (optarg st) it, optind := i + length (words_of it), opt_n := 1\<rparr>))"
proof -
  have i: "i < length av" using assms(1) by (cases it) (auto simp: not_le [symmetric] dest: drop_all)
  have w: "av ! i = hd (words_of it)" using assms(1) i by (metis append_is_Nil_conv hd_append2 hd_drop_conv_nth item.exhaust list.distinct(1) words_of.simps)
  show ?thesis
  proof (cases it)
    case (Flags cs)
    then obtain ds d where cs: "cs = ds @ [d]" using assms(3) by (cases cs rule: rev_cases) auto
    let ?st = "st\<lparr>opt_n := Suc (length ds)\<rparr>"
    have "getopt av opts ?st = Some (Some d, ?st\<lparr>optind := i + 1, opt_n := 1\<rparr>)"
      using flag_step [OF i assms(2), of ds d "[]" opts ?st] w assms(3,4) Flags cs by simp
    moreover have "getopt_loop (Suc fuel + length ds) av opts st
        = map_option (\<lambda>(rs, st'). (map (\<lambda>c. (c, optarg st)) ds @ rs, st')) (getopt_loop (Suc fuel) av opts ?st)"
      using flags_loop [OF i assms(2), of "[]" ds "[d]" opts st "Suc fuel"] w assms(3-5) Flags cs by simp
    moreover have "st\<lparr>optarg := optarg st, optind := Suc i, opt_n := Suc 0\<rparr> = st\<lparr>optind := Suc i, opt_n := Suc 0\<rparr>"
      by (cases st) simp
    ultimately show ?thesis
      using Flags cs by (cases "getopt_loop fuel av opts (st\<lparr>optind := Suc i, opt_n := Suc 0\<rparr>)") auto
  next
    case (Cozy cs c a)
    let ?st = "st\<lparr>opt_n := Suc (length cs)\<rparr>"
    have "getopt av opts ?st = Some (Some c, ?st\<lparr>optarg := Some a, optind := i + 1, opt_n := 1\<rparr>)"
      using cozy_step [OF i assms(2), of cs c a opts ?st] w assms(3,4) Cozy by simp
    moreover have "getopt_loop (Suc fuel + length cs) av opts st
        = map_option (\<lambda>(rs, st'). (map (\<lambda>c. (c, optarg st)) cs @ rs, st')) (getopt_loop (Suc fuel) av opts ?st)"
      using flags_loop [OF i assms(2), of "[]" cs "c # a" opts st "Suc fuel"] w assms(3-5) Cozy by simp
    ultimately show ?thesis
      using Cozy by (cases "getopt_loop fuel av opts (st\<lparr>optarg := Some a, optind := Suc i, opt_n := Suc 0\<rparr>)") auto
  next
    case (Apart cs c a)
    have i1: "i + 1 < length av"
    proof (rule ccontr)
      assume "\<not> i + 1 < length av"
      then have "length (drop i av) \<le> 1" by simp
      with assms(1) Apart show False by simp
    qed
    have "av ! (i + 1) = drop i av ! 1" using i1 by simp
    then have a: "av ! (i + 1) = a" using assms(1) Apart by simp
    let ?st = "st\<lparr>opt_n := Suc (length cs)\<rparr>"
    have "getopt av opts ?st = Some (Some c, ?st\<lparr>optarg := Some a, optind := i + 2, opt_n := 1\<rparr>)"
      using apart_step [OF i1 assms(2), of cs c a opts ?st] a w assms(3,4) Apart by simp
    moreover have "getopt_loop (Suc fuel + length cs) av opts st
        = map_option (\<lambda>(rs, st'). (map (\<lambda>c. (c, optarg st)) cs @ rs, st')) (getopt_loop (Suc fuel) av opts ?st)"
      using flags_loop [OF i assms(2), of "[]" cs "[c]" opts st "Suc fuel"] w assms(3-5) Apart by simp
    ultimately show ?thesis
      using Apart by (cases "getopt_loop fuel av opts (st\<lparr>optarg := Some a, optind := Suc (Suc i), opt_n := Suc 0\<rparr>)") auto
  qed
qed

lemma items_loop:
  "drop i av = concat (map words_of its) @ rest \<Longrightarrow> i \<noteq> 0 \<Longrightarrow> i \<le> length av \<Longrightarrow> list_all (item_ok opts) its \<Longrightarrow> stops rest \<Longrightarrow>
   optind st = i \<Longrightarrow> opt_n st = 1 \<Longrightarrow>
   \<exists>st'. getopt_loop (Suc (length (seen (optarg st) its))) av opts st = Some (seen (optarg st) its, st')
     \<and> drop (optind st') av = rest \<and> optind st' = i + length (concat (map words_of its))"
proof (induction its arbitrary: i st)
  case Nil
  then show ?case using stop_step [of st i av opts] by simp
next
  case (Cons it its)
  let ?st = "st\<lparr>optarg := arg_after (optarg st) it, optind := i + length (words_of it), opt_n := 1\<rparr>"
  have d: "drop i av = words_of it @ concat (map words_of its) @ rest" using Cons.prems(1) by simp
  then have "length (drop i av) = length (words_of it @ concat (map words_of its) @ rest)" by simp
  then have len: "i + length (words_of it) \<le> length av" using Cons.prems(3) by simp
  have "drop (i + length (words_of it)) av = concat (map words_of its) @ rest"
    using d by (metis add.commute append_eq_conv_conj drop_drop)
  then obtain st' where IH: "getopt_loop (Suc (length (seen (optarg ?st) its))) av opts ?st = Some (seen (optarg ?st) its, st')"
    "drop (optind st') av = rest" "optind st' = i + length (words_of it) + length (concat (map words_of its))"
    using Cons.IH [of "i + length (words_of it)" ?st] Cons.prems len by auto
  have "getopt_loop (Suc (length (seen (optarg ?st) its)) + length (seen_of (optarg st) it)) av opts st
      = Some (seen_of (optarg st) it @ seen (optarg ?st) its, st')"
    using item_loop [OF d Cons.prems(2) _ Cons.prems(6,7), of opts "Suc (length (seen (optarg ?st) its))"] Cons.prems(4) IH(1)
    by simp
  then show ?case using IH(2,3) by (simp add: add.commute)
qed

section \<open>Properties\<close>

text \<open>C25. \<open>getopt\<close> reads back every command line of the forms its head comment lists: after the program
  name, any sequence of words \<open>-abc\<close>, \<open>-abcr<arg>\<close> and \<open>-abcr <arg>\<close> over an option string that
  has these letters, followed by words that are not options. The loop over \<open>getopt\<close> returns exactly the letters
  with their arguments, ends, and leaves \<open>optind\<close> at the first of the other words.\<close>

theorem getopt_reads_back:
  assumes "av = prog # concat (map words_of its) @ rest" "list_all (item_ok opts) its" "stops rest" "optind st = 0"
  shows "\<exists>st'. getopt_loop (Suc (length (seen (optarg st) its))) av opts st = Some (seen (optarg st) its, st')
     \<and> drop (optind st') av = rest"
proof -
  let ?st = "st\<lparr>optind := 1, opt_n := 1\<rparr>"
  have "getopt_loop (Suc fuel) av opts st = getopt_loop (Suc fuel) av opts ?st" for fuel
    using assms(4) by (simp add: getopt_def Let_def)
  moreover have "\<exists>st'. getopt_loop (Suc (length (seen (optarg ?st) its))) av opts ?st = Some (seen (optarg ?st) its, st')
     \<and> drop (optind st') av = rest"
    using items_loop [of 1 av its rest opts ?st] assms(1-3) by auto
  ultimately show ?thesis by simp
qed

theorem getopt_reads_back_witness:
  "\<exists>st'. getopt_loop 4 [''lmdd'', ''-vx'', ''file'', ''-W4'', ''rest''] ''vx:W:''
       \<lparr>optind = 0, optopt = None, optarg = None, opt_n = 0\<rparr>
     = Some ([(CHR ''v'', None), (CHR ''x'', Some ''file''), (CHR ''W'', Some ''4'')], st')
     \<and> drop (optind st') [''lmdd'', ''-vx'', ''file'', ''-W4'', ''rest''] = [''rest'']"
  using getopt_reads_back [of _ "''lmdd''" "[Apart ''v'' CHR ''x'' ''file'', Cozy [] CHR ''W'' ''4'']" "[''rest'']" "''vx:W:''"
      "\<lparr>optind = 0, optopt = None, optarg = None, opt_n = 0\<rparr>"]
  by (simp add: is_flag_def takes_arg_def kind_of_def kind_at_def stops_def eval_nat_numeral del: getopt_loop.simps)

text \<open>An unknown letter is reported without going past it: the next call reports it again.\<close>

lemma unknown_letter_stays:
  "getopt av opts st = Some (Some CHR ''?'', st') \<Longrightarrow> optind st \<noteq> 0 \<Longrightarrow> optind st' = optind st \<Longrightarrow> opt_n st' = opt_n st \<Longrightarrow>
   getopt av opts st' = Some (Some CHR ''?'', st')"
  by (auto simp: getopt_def Let_def split: if_splits option.splits)

text \<open>The comment promises that \<open>d;\<close> without an argument is an error; the index into the next word
  is not reset there, so that the next call starts in the middle of that word or, when the word is too short, past its end.\<close>

lemma semicolon_keeps_index:
  "getopt_loop 3 [''p'', ''-vd'', ''-v''] ''vd;'' \<lparr>optind = 0, optopt = None, optarg = None, opt_n = 0\<rparr> = None"
  by (simp add: getopt_def Let_def kind_at_def eval_nat_numeral)

end
