(* ===== verification/Sched.thy ===== *)
theory Sched
  imports Util Bits
begin

text \<open>
  The placement of processes on CPUs, \<open>src/lib_sched.c\<close>: \<open>handle_scheduler\<close> chooses a CPU from the
  variable \<open>LMBENCH_SCHED\<close>, \<open>reverse_bits\<close> spreads neighbouring numbers, \<open>custom\<close> reads a list of
  CPUs, and \<open>sched_pin\<close>, in the Linux branch, turns the number into an affinity mask. The number
  of processors and the answers of \<open>sched_getaffinity\<close> and \<open>sched_setaffinity\<close> are arguments.
\<close>

section \<open>reverse_bits and custom\<close>

definition reverse_bits :: "nat \<Rightarrow> nat \<Rightarrow> nat" where
  "reverse_bits ncpus cpu = reverse (nbits_loop ((ncpus - 1) div 2) 1) cpu"

text \<open>The loop of \<open>custom\<close>. After a number the code writes a zero and steps over it; when the number ends the
  string it steps past the terminating zero, and what follows in memory is read: \<open>None\<close>.\<close>

function custom_values :: "string \<Rightarrow> nat list option" where
  "custom_values str =
     (let s = dropWhile (\<lambda>c. \<not> is_digit c) str;
          q = takeWhile is_digit s
      in if str = [] \<or> q = [] then Some []
         else case dropWhile is_digit s of
                [] \<Rightarrow> None
              | _ # rest \<Rightarrow> map_option (Cons (dec_val q)) (custom_values rest))"
  by pat_completeness auto
termination
proof (relation "measure length")
  fix str s q :: string and c rest
  assume "s = dropWhile (\<lambda>c. \<not> is_digit c) str" "dropWhile is_digit s = c # rest"
  then have "length (c # rest) \<le> length s" "length s \<le> length str" by (metis length_dropWhile_le)+
  then show "(rest, str) \<in> measure length" by simp
qed simp

declare custom_values.simps [simp del]

text \<open>The static array is filled by the first call; the second component is its new contents.\<close>

definition custom :: "string \<Rightarrow> nat \<Rightarrow> nat list option \<Rightarrow> (nat \<times> nat list option) option" where
  "custom str cpu values =
     do { vs \<leftarrow> (case values of Some vs \<Rightarrow> Some vs | None \<Rightarrow> custom_values str);
          Some (if vs = [] then 0 else vs ! (cpu mod length vs), Some vs) }"

section \<open>handle_scheduler\<close>

definition to_lower :: "char \<Rightarrow> char" where
  "to_lower c = (if 65 \<le> (of_char c :: nat) \<and> (of_char c :: nat) \<le> 90 then char_of ((of_char c :: nat) + 32) else c)"

text \<open>\<open>strcasecmp(s, t) == 0\<close> and \<open>strncasecmp(s, t, strlen(t)) == 0\<close>.\<close>

definition strcaseeq :: "string \<Rightarrow> string \<Rightarrow> bool" where
  "strcaseeq s t = (map to_lower s = map to_lower t)"

definition strcaseprefix :: "string \<Rightarrow> string \<Rightarrow> bool" where
  "strcaseprefix s t = (map to_lower (take (length t) s) = map to_lower t)"

text \<open>The number given to \<open>sched_pin\<close>, or \<open>None\<close> when the process is not pinned; with it the static array of
  \<open>custom\<close>. The outer \<open>None\<close> is the undefined read of \<open>custom\<close>.\<close>

definition sched_target ::
  "string option \<Rightarrow> nat \<Rightarrow> nat \<Rightarrow> nat \<Rightarrow> nat \<Rightarrow> nat list option \<Rightarrow> (nat option \<times> nat list option) option"
where
  "sched_target sched ncpus childno benchproc nbenchprocs values =
     (let pin = (\<lambda>cpu. Some (Some (cpu mod ncpus), values));
          unique = childno * (nbenchprocs + 1) + benchproc
      in case sched of
           None \<Rightarrow> Some (None, values)
         | Some v \<Rightarrow>
             if strcaseeq v ''DEFAULT'' then Some (None, values)
             else if strcaseeq v ''SINGLE'' then pin 0
             else if strcaseeq v ''BALANCED'' then pin childno
             else if strcaseeq v ''BALANCED_SPREAD'' then pin (reverse_bits ncpus childno)
             else if strcaseeq v ''UNIQUE'' then pin unique
             else if strcaseeq v ''UNIQUE_SPREAD'' then pin (reverse_bits ncpus unique)
             else if strcaseprefix v ''CUSTOM '' then
               do { (cpu, values) \<leftarrow> custom (drop (length ''CUSTOM'') v) childno values; Some (Some (cpu mod ncpus), values) }
             else if strcaseprefix v ''CUSTOM_SPREAD '' then
               do { (cpu, values) \<leftarrow> custom (drop (length ''CUSTOM_SPREAD'') v) unique values; Some (Some (cpu mod ncpus), values) }
             else Some (None, values))"

section \<open>sched_pin\<close>

text \<open>The static variables: the mask of the allowed CPUs and their number. \<open>shl1 b\<close> is \<open>1 << b\<close> as an unsigned
  long; the shift is of an \<open>int\<close> and not defined by C for 31 bits and more, so that it is an argument.\<close>

record pin_state =
  pn_cpumask :: "u64 list option"
  pn_ncpus :: nat

definition mask_words :: "nat \<Rightarrow> nat" where
  "mask_words ncpus = 1 + (2 * ncpus) div 64"

definition allowed :: "(nat \<Rightarrow> u64) \<Rightarrow> u64 list \<Rightarrow> nat \<Rightarrow> bool" where
  "allowed shl1 cpumask i = (cpumask ! (i div 64) AND shl1 (i mod 64) \<noteq> 0)"

text \<open>The loop that looks for the allowed CPU number \<open>cpu\<close>, with \<open>j\<close> of them passed.\<close>

fun pick_cpu :: "(nat \<Rightarrow> bool) \<Rightarrow> nat list \<Rightarrow> nat \<Rightarrow> nat \<Rightarrow> nat option" where
  "pick_cpu ok [] j cpu = None"
| "pick_cpu ok (i # todo) j cpu =
     (if ok i then (if cpu \<le> j then Some i else pick_cpu ok todo (Suc j) cpu) else pick_cpu ok todo j cpu)"

text \<open>The result is the value returned, the mask that was set, and the new state. \<open>getaff\<close> is the return value of
  \<open>sched_getaffinity\<close> and the mask it fills in. With no allowed CPU the remainder is undefined.\<close>

definition sched_pin ::
  "(nat \<Rightarrow> u64) \<Rightarrow> nat \<Rightarrow> int \<times> u64 list \<Rightarrow> int \<Rightarrow> nat \<Rightarrow> pin_state \<Rightarrow> (int \<times> u64 list option \<times> pin_state) option"
where
  "sched_pin shl1 ncpus getaff setaff cpu st =
     (let sz = mask_words ncpus;
          st1 = (if pn_cpumask st = None
                 then (if fst getaff < 0 then None
                       else Some \<lparr>pn_cpumask = Some (snd getaff),
                                  pn_ncpus = pn_ncpus st + length (filter (allowed shl1 (snd getaff)) [0..<sz * 64])\<rparr>)
                 else Some st)
      in case st1 of
           None \<Rightarrow> Some (fst getaff, None, st\<lparr>pn_cpumask := Some (snd getaff)\<rparr>)
         | Some st1 \<Rightarrow>
             if pn_ncpus st1 = 0 then None
             else
               let mask = (case pick_cpu (allowed shl1 (the (pn_cpumask st1))) [0..<sz * 64] 0 (cpu mod pn_ncpus st1) of
                             None \<Rightarrow> replicate sz 0
                           | Some i \<Rightarrow> (replicate sz 0)[i div 64 := shl1 (i mod 64)])
               in Some (setaff, Some mask, st1))"

text \<open>\<open>handle_scheduler\<close>: 0 when the process is not pinned.\<close>

definition handle_scheduler ::
  "(nat \<Rightarrow> u64) \<Rightarrow> nat \<Rightarrow> int \<times> u64 list \<Rightarrow> int \<Rightarrow> string option \<Rightarrow> nat \<Rightarrow> nat \<Rightarrow> nat \<Rightarrow> nat list option \<Rightarrow> pin_state
   \<Rightarrow> (int \<times> u64 list option \<times> nat list option \<times> pin_state) option"
where
  "handle_scheduler shl1 ncpus getaff setaff sched childno benchproc nbenchprocs values st =
     do { (target, values) \<leftarrow> sched_target sched ncpus childno benchproc nbenchprocs values;
          (case target of
             None \<Rightarrow> Some (0, None, values, st)
           | Some cpu \<Rightarrow> do { (r, mask, st) \<leftarrow> sched_pin shl1 ncpus getaff setaff cpu st; Some (r, mask, values, st) }) }"

section \<open>The spread\<close>

lemma reverse_bits_exp: "reverse_bits (2 ^ Suc b) cpu = reverse (Suc b) cpu"
proof -
  have "(2 ^ Suc b - 1) div 2 = (2 ^ b - 1 :: nat)" by simp
  then have "nbits_loop ((2 ^ Suc b - 1) div 2) 1 = Suc b" using nbits_loop_mask [of b 1] by simp
  then show ?thesis by (simp only: reverse_bits_def)
qed

lemma strcaseeq_neq: "strcaseeq v s \<Longrightarrow> map to_lower s \<noteq> map to_lower t \<Longrightarrow> \<not> strcaseeq v t"
  by (simp add: strcaseeq_def)

lemma spread_target:
  assumes "strcaseeq v ''BALANCED_SPREAD''" "child < 2 ^ Suc b"
  shows "sched_target (Some v) (2 ^ Suc b) child p n values = Some (Some (reverse (Suc b) child), values)"
proof -
  have "\<not> strcaseeq v ''DEFAULT''" "\<not> strcaseeq v ''SINGLE''" "\<not> strcaseeq v ''BALANCED''"
    using assms(1) by (rule strcaseeq_neq; simp add: to_lower_def)+
  then show ?thesis
    using assms reverse_less [of "Suc b" child] reverse_bits_exp [of b child]
    by (simp add: sched_target_def Let_def del: power_Suc)
qed

section \<open>The mask\<close>

text \<open>The \<open>k\<close>-th of the numbers that satisfy \<open>ok\<close>.\<close>

lemma pick_cpu_nth:
  "cpu \<ge> j \<Longrightarrow> cpu - j < length (filter ok todo) \<Longrightarrow> pick_cpu ok todo j cpu = Some (filter ok todo ! (cpu - j))"
proof (induction todo arbitrary: j)
  case (Cons i todo)
  show ?case
  proof (cases "ok i \<and> j < cpu")
    case True
    then have "cpu - j = Suc (cpu - Suc j)" by linarith
    with True Cons show ?thesis by simp
  next
    case False
    with Cons show ?thesis by (cases "ok i") auto
  qed
qed simp

lemma count_allowed:
  assumes "\<forall>b < 31. shl1 b = 2 ^ b" "sz = mask_words ncpus"
  shows "\<exists>xs. filter (allowed shl1 cm) [0..<sz * 64] = filter (bit (cm ! 0)) [0..<31] @ xs"
proof -
  have "31 \<le> sz * 64" using assms(2) by (simp add: mask_words_def)
  then have "[0..<sz * 64] = [0..<31] @ [31..<sz * 64]" using upt_add_eq_append [of 0 31 "sz * 64 - 31"] by simp
  moreover have "filter (allowed shl1 cm) [0..<31] = filter (bit (cm ! 0)) [0..<31]"
    using assms(1) by (intro filter_cong) (auto simp: allowed_def and_exp_eq_0_iff_not_bit)
  ultimately show ?thesis by simp
qed

section \<open>Properties\<close>

text \<open>C37. With \<open>BALANCED_SPREAD\<close> (in any case of letters) on a power of two of processors the benchmark
  processes \<open>0\<close> to \<open>ncpus-1\<close> are given every processor exactly once.\<close>

theorem spread_is_permutation:
  assumes "strcaseeq v ''BALANCED_SPREAD''"
  shows "mset (map (\<lambda>child. sched_target (Some v) (2 ^ Suc b) child p n values) [0..<2 ^ Suc b])
       = mset (map (\<lambda>cpu. Some (Some cpu, values)) [0..<2 ^ Suc b])"
proof -
  let ?f = "\<lambda>cpu. Some (Some cpu, values)"
  have "map (\<lambda>child. sched_target (Some v) (2 ^ Suc b) child p n values) [0..<2 ^ Suc b]
      = map (\<lambda>cpu. Some (Some cpu, values)) (map (reverse (Suc b)) [0..<2 ^ Suc b])"
    using spread_target [OF assms] by (simp del: power_Suc)
  moreover have "mset (map ?f (map (reverse (Suc b)) [0..<2 ^ Suc b])) = image_mset ?f (mset [0..<2 ^ Suc b])"
    by (simp only: mset_map [of ?f] mset_reverse)
  ultimately show ?thesis by (simp only: mset_map [of ?f])
qed

theorem spread_is_permutation_witness:
  "mset (map (\<lambda>child. sched_target (Some ''balanced_Spread'') 4 child 0 0 None) [0..<4])
     = mset (map (\<lambda>cpu. Some (Some cpu, None)) [0..<4])"
proof -
  have "strcaseeq ''balanced_Spread'' ''BALANCED_SPREAD''" by code_simp
  from spread_is_permutation [OF this, of 1 0 0 None] show ?thesis by simp
qed

text \<open>The first call of \<open>sched_pin(cpu)\<close> sets the affinity to exactly one CPU, the one of number \<open>cpu\<close> among the CPUs the process may
  use, as long as these are among the first 31, the ones for which the shift \<open>1 << bit\<close> is defined; what the shift gives
  beyond does not matter.\<close>

theorem sched_pin_nth:
  assumes "\<forall>b < 31. shl1 b = 2 ^ b" "0 \<le> fst getaff" "cpu < length (filter (bit (snd getaff ! 0)) [0..<31])"
  shows "\<exists>st. sched_pin shl1 ncpus getaff setaff cpu \<lparr>pn_cpumask = None, pn_ncpus = 0\<rparr>
    = Some (setaff, Some ((replicate (mask_words ncpus) 0)[0 := 2 ^ (filter (bit (snd getaff ! 0)) [0..<31] ! cpu)]), st)"
proof -
  let ?A = "filter (bit (snd getaff ! 0)) [0..<31]" and ?ok = "allowed shl1 (snd getaff)" and ?all = "[0..<mask_words ncpus * 64]"
  obtain xs where xs: "filter ?ok ?all = ?A @ xs" using count_allowed [OF assms(1) refl] by blast
  have n: "cpu < length (filter ?ok ?all)" using assms(3) xs by simp
  then have "pick_cpu ?ok ?all 0 cpu = Some (?A ! cpu)"
    using pick_cpu_nth [of 0 cpu ?ok ?all] xs assms(3) by (simp add: nth_append)
  moreover have "?A ! cpu \<in> set ?A" using assms(3) by (rule nth_mem)
  then have "?A ! cpu < 31" by simp
  moreover have "cpu mod length (filter ?ok ?all) = cpu" "length (filter ?ok ?all) \<noteq> 0" using n by auto
  ultimately show ?thesis using assms(1,2) by (simp add: sched_pin_def Let_def)
qed

theorem sched_pin_nth_witness:
  "\<exists>st. sched_pin (\<lambda>b. 2 ^ (b mod 32)) 4 (0, [0xC]) 0 1 \<lparr>pn_cpumask = None, pn_ncpus = 0\<rparr> = Some (0, Some [8], st)"
proof -
  have f: "filter (bit (12 :: u64)) [0..<31] = [2, 3]" by (simp add: upt_rec bit_numeral_rec)
  have "\<exists>st. sched_pin (\<lambda>b. 2 ^ (b mod 32)) 4 (0, [12]) 0 1 \<lparr>pn_cpumask = None, pn_ncpus = 0\<rparr>
      = Some (0, Some ((replicate (mask_words 4) 0)[0 := 2 ^ (filter (bit (snd (0 :: int, [12 :: u64]) ! 0)) [0..<31] ! 1)]), st)"
    by (rule sched_pin_nth) (simp_all add: f)
  then show ?thesis by (simp add: f mask_words_def)
qed

text \<open>A list of CPUs that ends with a number is read past its end.\<close>

lemma custom_past_end: "custom_values ''0 1'' = None" "custom_values ''0 1 '' = Some [0, 1]"
  by (simp_all add: custom_values.simps is_digit_def dec_val_def digit_val_def)

end
