(* ===== verification/Debug.thy ===== *)
theory Debug
  imports Chains Overhead
begin

text \<open>
  The reports of \<open>src/lib_debug.c\<close>: \<open>percent_point\<close> and the quartiles over the current results, and the two
  functions that follow a pointer chain, \<open>print_mem\<close> and \<open>check_mem\<close>. What is printed is returned as a
  list.
\<close>

section \<open>Quantiles of the results\<close>

text \<open>\<open>results->v[i].u / (double)results->v[i].n\<close>; outside of the array it is undefined.\<close>

definition point_at :: "result_t \<Rightarrow> int \<Rightarrow> dbl option" where
  "point_at r i = (if i < 0 then None else map_option (\<lambda>x. d_div (d_of_u64 (val_u x)) (d_of_u64 (val_n x))) (arr_get (res_v r) (nat i)))"

definition percent_point :: "dbl \<Rightarrow> timing \<Rightarrow> dbl option" where
  "percent_point fraction tm =
     (let r = cur_results tm;
          t = d_mul (d_sub (Fin 1) fraction) (d_of_int (int (res_N r) - 1))
      in if d_eq t (d_floor t) then point_at r (int_of_dbl t)
         else do { a \<leftarrow> point_at r (int_of_dbl t); b \<leftarrow> point_at r (int_of_dbl t + 1);
                   Some (d_div (d_add a b) (Fin 2)) })"

definition quartile_points :: "real list" where
  "quartile_points = [0, 1 / 4, 1 / 2, 3 / 4, 1]"

definition bw_quartile :: "u64 \<Rightarrow> timing \<Rightarrow> (u64 \<times> dbl list) option" where
  "bw_quartile nbytes tm =
     do { ps \<leftarrow> those (map (\<lambda>q. percent_point (Fin q) tm) quartile_points);
          Some (get_n tm, map (\<lambda>p. d_div (d_of_u64 nbytes) (d_mul (Fin 1000000) p)) ps) }"

definition nano_quartile :: "u64 \<Rightarrow> timing \<Rightarrow> (u64 \<times> dbl list) option" where
  "nano_quartile n tm =
     do { ps \<leftarrow> those (map (\<lambda>q. percent_point (Fin q) tm) quartile_points);
          Some (get_n tm, map (\<lambda>p. d_div (d_mul p (Fin 1000)) (d_of_u64 n)) ps) }"

section \<open>print_results\<close>

text \<open>The count, the times per iteration, and with details the pairs.\<close>

definition print_results :: "bool \<Rightarrow> timing \<Rightarrow> (nat \<times> dbl list \<times> (u64 \<times> u64) list) option" where
  "print_results details tm =
     (let r = cur_results tm in
      do { vs \<leftarrow> those (map (arr_get (res_v r)) [0..<res_N r]);
           Some (res_N r, map (\<lambda>x. d_div (d_of_u64 (val_u x)) (d_of_u64 (val_n x))) vs,
                 if details then map (\<lambda>x. (val_u x, val_n x)) vs else []) })"

section \<open>Following a chain\<close>

definition link_place :: "nat \<Rightarrow> nat \<Rightarrow> nat \<Rightarrow> nat \<Rightarrow> nat \<times> nat \<times> nat" where
  "link_place addr pagesize line p =
     (let off = (p + 2 ^ 64 - addr) mod 2 ^ 64
      in (off div pagesize, off mod pagesize div line, off mod line div ptr_size))"

text \<open>\<open>for (p = addr; *(char**)p != addr; p = *(char**)p)\<close>: the page, line and word of each link. The loop does not end when
  the chain does not come back to \<open>addr\<close>; then, and on an undefined read, the value is \<open>None\<close>.\<close>

partial_function (option) print_mem_loop :: "memory \<Rightarrow> nat \<Rightarrow> nat \<Rightarrow> nat \<Rightarrow> nat \<Rightarrow> (nat \<times> nat \<times> nat) list option" where
  "print_mem_loop m addr pagesize line p =
     do { q \<leftarrow> load m p;
          if q = addr then Some []
          else if pagesize = 0 \<or> line = 0 then None
          else do { rest \<leftarrow> print_mem_loop m addr pagesize line q;
                    Some (link_place addr pagesize line p # rest) } }"

definition print_mem :: "nat \<Rightarrow> memory \<Rightarrow> nat \<Rightarrow> nat \<Rightarrow> (nat \<times> nat \<times> nat) list option" where
  "print_mem getpagesize m addr line = print_mem_loop m addr getpagesize line addr"

datatype report = Out_of_range | Does_not_loop

text \<open>The loop of \<open>check_mem\<close> for at most \<open>fuel\<close> links; its result is the last pointer and the reports.\<close>

fun check_loop :: "memory \<Rightarrow> nat \<Rightarrow> nat \<Rightarrow> nat \<Rightarrow> nat \<Rightarrow> (nat \<times> report list) option" where
  "check_loop m addr sz 0 p = do { q \<leftarrow> load m p; Some (p, []) }"
| "check_loop m addr sz (Suc fuel) p =
     do { q \<leftarrow> load m p;
          if q = addr then Some (p, [])
          else do { (p', rs) \<leftarrow> check_loop m addr sz fuel q;
                    Some (p', (if p < addr \<or> addr + sz \<le> p then [Out_of_range] else []) @ rs) } }"

definition check_mem :: "memory \<Rightarrow> nat \<Rightarrow> nat \<Rightarrow> report list option" where
  "check_mem m addr sz =
     do { (p, rs) \<leftarrow> check_loop m addr sz (sz div ptr_size + 1) addr;
          q \<leftarrow> load m p;
          Some (rs @ (if q \<noteq> addr then [Does_not_loop] else [])) }"

section \<open>On a ring\<close>

lemma linked_step:
  assumes "linked (points_to m) p (p # a # as) e"
  shows "load m p = Some a" and "linked (points_to m) a (a # as) e"
proof -
  from assms obtain b where "points_to m p b" "linked (points_to m) b (a # as) e" by auto
  moreover from this have "b = a" by simp
  ultimately show "load m p = Some a" "linked (points_to m) a (a # as) e" by (simp_all only: points_to_def)
qed

lemma check_loop_linked:
  assumes "addr \<notin> set (tl (p # as))" "linked (points_to m) p (p # as) addr" "length as \<le> fuel"
    "\<forall>a \<in> set (p # as). addr \<le> a \<and> a < addr + sz"
  shows "\<exists>q. check_loop m addr sz fuel p = Some (q, []) \<and> load m q = Some addr"
  using assms
proof (induction as arbitrary: p fuel)
  case Nil
  then show ?case by (cases fuel) (auto simp: points_to_def)
next
  case (Cons a as)
  then obtain fuel' where f: "fuel = Suc fuel'" by (cases fuel) auto
  have l: "load m p = Some a" "linked (points_to m) a (a # as) addr" using Cons.prems(2) by (rule linked_step)+
  have "\<exists>q. check_loop m addr sz fuel' a = Some (q, []) \<and> load m q = Some addr"
    using Cons.IH [of a fuel'] Cons.prems l(2) f by auto
  then show ?case using l(1) Cons.prems f by auto
qed

lemma ring_Cons:
  assumes "ring m as" "hd as = addr"
  obtains bs where "as = addr # bs" "addr \<notin> set bs" "linked (points_to m) addr (addr # bs) addr"
  using assms by (cases as) (auto simp: ring_def)

text \<open>\<open>check_mem\<close> is silent about a ring that starts at \<open>addr\<close>, lies in the \<open>sz\<close> bytes from there and has no
  more elements than fit.\<close>

lemma check_mem_ring:
  assumes "ring m as" "hd as = addr" "\<forall>a \<in> set as. addr \<le> a \<and> a < addr + sz" "length as \<le> sz div ptr_size"
  shows "check_mem m addr sz = Some []"
proof -
  obtain bs where b: "as = addr # bs" "addr \<notin> set bs" "linked (points_to m) addr (addr # bs) addr"
    using assms(1,2) by (rule ring_Cons)
  then have "\<exists>q. check_loop m addr sz (sz div ptr_size + 1) addr = Some (q, []) \<and> load m q = Some addr"
    using assms(3,4) by (intro check_loop_linked [of addr addr bs]) auto
  then show ?thesis by (auto simp: check_mem_def simp del: check_loop.simps)
qed

text \<open>\<open>print_mem\<close> ends on a ring and lists every link but the last.\<close>

lemma print_mem_linked:
  "addr \<notin> set as \<Longrightarrow> linked (points_to m) p (p # as) addr \<Longrightarrow> pagesize \<noteq> 0 \<Longrightarrow> line \<noteq> 0 \<Longrightarrow>
   print_mem_loop m addr pagesize line p = Some (map (link_place addr pagesize line) (butlast (p # as)))"
proof (induction as arbitrary: p)
  case Nil
  then show ?case by (subst print_mem_loop.simps) (auto simp: points_to_def)
next
  case (Cons a as)
  have l: "load m p = Some a" "linked (points_to m) a (a # as) addr" using Cons.prems(2) by (rule linked_step)+
  with Cons show ?case by (subst print_mem_loop.simps) auto
qed

lemma print_mem_ring:
  assumes "ring m as" "hd as = addr" "getpagesize \<noteq> 0" "line \<noteq> 0"
  shows "print_mem getpagesize m addr line = Some (map (link_place addr getpagesize line) (butlast as))"
proof -
  obtain bs where "as = addr # bs" "addr \<notin> set bs" "linked (points_to m) addr (addr # bs) addr"
    using assms(1,2) by (rule ring_Cons)
  then show ?thesis using print_mem_linked [of addr bs m addr] assms(3,4) by (simp add: print_mem_def)
qed

text \<open>The chain of \<open>stride_initialize\<close> passes the check.\<close>

lemma stride_passes_check:
  assumes "area_ok e s" "ptr_size \<le> ms_line s" "ms_line s \<le> ms_pagesize s" "0 < length (ms_p s)"
    "ms_len s mod ms_line s = 0"
  shows "\<exists>t l'. stride_initialize e 0 s l = Done (t, l') \<and> check_mem (ml_mem l') (ms_p t ! 0) (ms_len s) = Some []"
proof -
  obtain t l' where t: "stride_initialize e 0 s l = Done (t, l')" "ring (ml_mem l') (stride_layout t)"
    "ms_p t ! 0 = hd (stride_layout t)" "length (stride_layout t) = (ms_len s + ms_line s - 1) div ms_line s"
    "ms_line t = ms_line s" "ms_len t = ms_len s"
    using stride_initialize_builds [OF assms(1-4), of l] by blast
  note a = assms(1) [unfolded area_ok_def]
  obtain n where n: "ms_len s = n * ms_line s" using assms(5) by (metis mod_0_imp_dvd dvdE mult.commute)
  have pos: "ms_line s \<noteq> 0" using a by simp
  have "ms_len s + ms_line s - 1 = (ms_line s - 1) + n * ms_line s" using a n by simp
  then have "(ms_len s + ms_line s - 1) div ms_line s = n + (ms_line s - 1) div ms_line s"
    by (simp only: div_mult_self1 [OF pos])
  then have cnt: "(ms_len s + ms_line s - 1) div ms_line s = n" using a by simp
  have n0: "0 < n" using a n by (cases n) auto
  have layout: "stride_layout t = map (\<lambda>i. ms_base t + i * ms_line s) [0..<n]" using cnt t(5,6) by (simp add: stride_layout_def)
  have "i * ms_line s < ms_len s" if "i < n" for i using that a n by simp
  then have "\<forall>x \<in> set (stride_layout t). ms_base t \<le> x \<and> x < ms_base t + ms_len s" by (auto simp: layout)
  moreover have "n * ptr_size \<le> ms_len s" using n assms(2) by simp
  then have "length (stride_layout t) \<le> ms_len s div ptr_size"
    using t(4) cnt by (simp add: less_eq_div_iff_mult_less_eq ptr_size_def)
  moreover have "hd (stride_layout t) = ms_base t" using n0 by (simp add: layout hd_map)
  ultimately show ?thesis using check_mem_ring [OF t(2)] t(1,3) by auto
qed

end
