(* ===== verification/Bwmem.thy ===== *)
theory Bwmem
  imports Memchain Timing
begin

text \<open>
  The memory bandwidth benchmark \<open>src/bw_mem.c\<close>. The buffers are arrays of 32-bit words, a pointer
  into one is the index of a word. The seven unrolled loops all have the form
  \<open>while (p <= lastone) { body; p += 128; }\<close>; the locale \<open>chunk_body\<close> is the contract of such a
  body, and each body is an interpretation of it.
\<close>

section \<open>State\<close>

text \<open>\<open>bw_buf\<close> and \<open>bw_buf2_orig\<close> are the words of the two blocks (a block of a size that is not a
  multiple of four has up to three bytes more), \<open>bw_buf2\<close> is the index of \<open>buf2\<close> in its block,
  \<open>bw_lastone\<close> the distance in bytes from \<open>buf\<close> to \<open>lastone\<close>, and \<open>bw_addr\<close> the address of \<open>buf\<close>.\<close>

record bw_state =
  bw_overhead :: dbl
  bw_nbytes :: nat
  bw_need_buf2 :: bool
  bw_aligned :: bool
  bw_buf :: "u32 list option"
  bw_addr :: nat
  bw_buf2_orig :: "u32 list option"
  bw_buf2 :: nat
  bw_lastone :: int
  bw_N :: nat

text \<open>The two addresses are the answers of \<open>valloc\<close> (0 when it fails), \<open>junk\<close> is what the second block
  holds.\<close>

definition init_loop :: "nat \<Rightarrow> nat \<Rightarrow> (nat \<Rightarrow> u32) \<Rightarrow> nat \<Rightarrow> bw_state \<Rightarrow> bw_state outcome" where
  "init_loop a1 a2 junk iters s =
     (if iters \<noteq> 0 then Done s
      else if a1 = 0 then Exit 1
      else
        let s = s\<lparr>bw_buf := Some (replicate (bw_nbytes s div 4) 0), bw_addr := a1, bw_buf2_orig := None,
                  bw_lastone := int (bw_nbytes s) - 512, bw_N := bw_nbytes s\<rparr>
        in if bw_need_buf2 s then
             if a2 = 0 then Exit 1
             else Done (s\<lparr>bw_buf2_orig := Some (map junk [0..<(bw_nbytes s + 2048) mod 2 ^ 64 div 4]),
                          bw_buf2 := (if bw_aligned s then (2048 - 128) div 4 else 0)\<rparr>)
           else Done s)"

definition bw_cleanup :: "nat \<Rightarrow> bw_state \<Rightarrow> bw_state" where
  "bw_cleanup iters s = (if iters \<noteq> 0 then s else s\<lparr>bw_buf := None, bw_buf2_orig := None\<rparr>)"

section \<open>Loops\<close>

text \<open>\<open>while (iterations-- > 0)\<close>\<close>

fun iterate :: "nat \<Rightarrow> ('s \<Rightarrow> 's option) \<Rightarrow> 's \<Rightarrow> 's option" where
  "iterate 0 f s = Some s"
| "iterate (Suc n) f s = do { s \<leftarrow> f s; iterate n f s }"

text \<open>\<open>while (p <= lastone) { body; p += 128; }\<close>: the state and \<open>p\<close> after the loop.\<close>

function chunk_loop :: "(nat \<Rightarrow> 's \<Rightarrow> 's option) \<Rightarrow> int \<Rightarrow> nat \<Rightarrow> 's \<Rightarrow> (nat \<times> 's) option" where
  "chunk_loop body lastone p s =
     (if 4 * int p \<le> lastone then do { s \<leftarrow> body p s; chunk_loop body lastone (p + 128) s } else Some (p, s))"
  by pat_completeness auto
termination by (relation "measure (\<lambda>(body, lastone, p, s). nat (lastone + 1 - 4 * int p))") auto

declare chunk_loop.simps [simp del]

text \<open>The indices of the unrolled bodies: every fourth word of a chunk, and every word.\<close>

definition strided :: "nat list" where "strided = map (\<lambda>k. 4 * k) [0..<32]"
definition all_words :: "nat list" where "all_words = [0..<128]"

text \<open>\<open>sum += p[i0] + p[i1] + ...\<close>\<close>

definition sum_chunk :: "nat list \<Rightarrow> u32 list \<Rightarrow> nat \<Rightarrow> u32 \<Rightarrow> u32 option" where
  "sum_chunk idx buf p acc = do { vs \<leftarrow> those (map (\<lambda>i. arr_get buf (p + i)) idx); Some (acc + sum_list vs) }"

text \<open>\<open>p[i] = 1;\<close> and \<open>sum += p[i]; p[i] = 1;\<close> and \<open>dst[i] = p[i];\<close> for the indices of the body.\<close>

fun set_chunk :: "nat list \<Rightarrow> nat \<Rightarrow> u32 list \<Rightarrow> u32 list option" where
  "set_chunk [] p buf = Some buf"
| "set_chunk (i # idx) p buf = do { buf \<leftarrow> arr_set buf (p + i) 1; set_chunk idx p buf }"

fun sum_set_chunk :: "nat list \<Rightarrow> nat \<Rightarrow> u32 \<times> u32 list \<Rightarrow> (u32 \<times> u32 list) option" where
  "sum_set_chunk [] p (acc, buf) = Some (acc, buf)"
| "sum_set_chunk (i # idx) p (acc, buf) =
     do { v \<leftarrow> arr_get buf (p + i); buf \<leftarrow> arr_set buf (p + i) 1; sum_set_chunk idx p (acc + v, buf) }"

fun copy_chunk :: "nat list \<Rightarrow> u32 list \<Rightarrow> nat \<Rightarrow> nat \<Rightarrow> u32 list \<Rightarrow> u32 list option" where
  "copy_chunk [] src off p dst = Some dst"
| "copy_chunk (i # idx) src off p dst =
     do { v \<leftarrow> arr_get src (p + i); dst \<leftarrow> arr_set dst (off + p + i) v; copy_chunk idx src off p dst }"

definition passes :: "nat \<Rightarrow> (nat \<Rightarrow> 's \<Rightarrow> 's option) \<Rightarrow> bw_state \<Rightarrow> 's \<Rightarrow> 's option" where
  "passes iters body s = iterate iters (\<lambda>x. map_option snd (chunk_loop body (bw_lastone s) 0 x))"

text \<open>\<open>p_save\<close> after the passes of \<open>mcp\<close> and \<open>fwr\<close>: where the last pass ended, null with no pass.\<close>

definition p_save :: "nat \<Rightarrow> bw_state \<Rightarrow> u64" where
  "p_save iters s =
     (if iters = 0 then 0
      else case chunk_loop (\<lambda>p x. Some x) (bw_lastone s) 0 () of None \<Rightarrow> 0 | Some (p, _) \<Rightarrow> of_nat (bw_addr s + 4 * p))"

definition rd :: "nat \<Rightarrow> bw_state \<Rightarrow> timing \<Rightarrow> timing option" where
  "rd iters s tm =
     do { buf \<leftarrow> bw_buf s; acc \<leftarrow> passes iters (sum_chunk strided buf) s 0; Some (use_int acc tm) }"

definition wr :: "nat \<Rightarrow> bw_state \<Rightarrow> bw_state option" where
  "wr iters s =
     do { buf \<leftarrow> bw_buf s; buf \<leftarrow> passes iters (set_chunk strided) s buf; Some (s\<lparr>bw_buf := Some buf\<rparr>) }"

definition rdwr :: "nat \<Rightarrow> bw_state \<Rightarrow> timing \<Rightarrow> (bw_state \<times> timing) option" where
  "rdwr iters s tm =
     do { buf \<leftarrow> bw_buf s; (acc, buf) \<leftarrow> passes iters (sum_set_chunk strided) s (0, buf);
          Some (s\<lparr>bw_buf := Some buf\<rparr>, use_int acc tm) }"

definition mcp :: "nat \<Rightarrow> bw_state \<Rightarrow> timing \<Rightarrow> (bw_state \<times> timing) option" where
  "mcp iters s tm =
     do { buf \<leftarrow> bw_buf s; dst \<leftarrow> bw_buf2_orig s; dst \<leftarrow> passes iters (copy_chunk strided buf (bw_buf2 s)) s dst;
          Some (s\<lparr>bw_buf2_orig := Some dst\<rparr>, use_pointer (p_save iters s) tm) }"

text \<open>\<open>p[0]=p[1]=...=p[127]=1\<close> assigns from the right.\<close>

definition fwr :: "nat \<Rightarrow> bw_state \<Rightarrow> timing \<Rightarrow> (bw_state \<times> timing) option" where
  "fwr iters s tm =
     do { buf \<leftarrow> bw_buf s; buf \<leftarrow> passes iters (set_chunk (rev all_words)) s buf;
          Some (s\<lparr>bw_buf := Some buf\<rparr>, use_pointer (p_save iters s) tm) }"

definition frd :: "nat \<Rightarrow> bw_state \<Rightarrow> timing \<Rightarrow> timing option" where
  "frd iters s tm =
     do { buf \<leftarrow> bw_buf s; acc \<leftarrow> passes iters (sum_chunk all_words buf) s 0; Some (use_int acc tm) }"

definition fcp :: "nat \<Rightarrow> bw_state \<Rightarrow> bw_state option" where
  "fcp iters s =
     do { buf \<leftarrow> bw_buf s; dst \<leftarrow> bw_buf2_orig s; dst \<leftarrow> passes iters (copy_chunk all_words buf (bw_buf2 s)) s dst;
          Some (s\<lparr>bw_buf2_orig := Some dst\<rparr>) }"

text \<open>\<open>bzero(p, N)\<close> and \<open>bcopy(p, dst, N)\<close>. When \<open>N\<close> is not a multiple of four \<open>tail\<close> is the word the last bytes of
  the copy leave in the destination.\<close>

definition loop_bzero :: "nat \<Rightarrow> bw_state \<Rightarrow> bw_state option" where
  "loop_bzero iters s =
     do { buf \<leftarrow> bw_buf s;
          buf \<leftarrow> iterate iters (\<lambda>b. if length b < bw_N s div 4 then None
                                   else Some (replicate (bw_N s div 4) 0 @ drop (bw_N s div 4) b)) buf;
          Some (s\<lparr>bw_buf := Some buf\<rparr>) }"

definition loop_bcopy :: "u32 \<Rightarrow> nat \<Rightarrow> bw_state \<Rightarrow> bw_state option" where
  "loop_bcopy tail iters s =
     (let n = bw_N s div 4; off = bw_buf2 s in
      do { buf \<leftarrow> bw_buf s; dst \<leftarrow> bw_buf2_orig s;
           dst \<leftarrow> iterate iters (\<lambda>d. if length buf < n \<or> length d < off + n then None
                                     else let d = take off d @ take n buf @ drop (off + n) d in
                                          if bw_N s mod 4 = 0 then Some d else arr_set d (off + n) tail) dst;
           Some (s\<lparr>bw_buf2_orig := Some dst\<rparr>) })"

text \<open>The report: with an interval that is not positive nothing is printed.\<close>

definition adjusted_bandwidth :: "u64 \<Rightarrow> u64 \<Rightarrow> u64 \<Rightarrow> dbl \<Rightarrow> out list" where
  "adjusted_bandwidth time nbytes iter overhd =
     (let secs = d_div (d_sub (d_div (d_of_u64 time) (d_of_u64 iter)) overhd) (Fin 1000000);
          mb = d_div (d_of_u64 nbytes) MB;
          fmt = (\<lambda>x. if d_lt x (Fin 1) then OFix 6 x else OFix 2 x)
      in if d_le secs (Fin 0) then [] else [fmt mb, fmt (d_div mb secs)])"


section \<open>The contract of a body\<close>

text \<open>\<open>after k s\<close> is the state when the first \<open>k\<close> chunks of a pass are done, and \<open>room s n\<close> says that \<open>n\<close> words
  are accessible.\<close>

locale chunk_body =
  fixes body :: "nat \<Rightarrow> 's \<Rightarrow> 's option" and after :: "nat \<Rightarrow> 's \<Rightarrow> 's" and room :: "'s \<Rightarrow> nat \<Rightarrow> bool"
  assumes start: "after 0 s = s"
    and step: "room s (128 * Suc k) \<Longrightarrow> body (128 * k) (after k s) = Some (after (Suc k) s)"
    and room_mono: "room s n \<Longrightarrow> m \<le> n \<Longrightarrow> room s m"
    and room_after: "room (after k s) n = room s n"
begin

lemma loop_from:
  assumes "room s (128 * n)" "k \<le> n" "\<And>j. 4 * int (128 * j) \<le> lastone \<longleftrightarrow> j < n"
  shows "chunk_loop body lastone (128 * k) (after k s) = Some (128 * n, after n s)"
  using assms(2)
proof (induction "n - k" arbitrary: k)
  case 0
  then have k: "k = n" by simp
  have "\<not> 4 * int (128 * n) \<le> lastone" using assms(3) [of n] by (simp only: less_irrefl not_False_eq_True)
  then show ?case unfolding k by (subst chunk_loop.simps) simp
next
  case (Suc m)
  then have "k < n" by simp
  then have le: "4 * int (128 * k) \<le> lastone" using assms(3) [of k] by blast
  have "128 * Suc k \<le> 128 * n" using \<open>k < n\<close> by simp
  then have b: "body (128 * k) (after k s) = Some (after (Suc k) s)" by (intro step room_mono [OF assms(1)])
  have next_p: "128 * k + 128 = 128 * Suc k" by simp
  have "chunk_loop body lastone (128 * Suc k) (after (Suc k) s) = Some (128 * n, after n s)"
    using Suc.hyps(2) \<open>k < n\<close> by (intro Suc.hyps(1)) auto
  then show ?case using le by (subst chunk_loop.simps) (simp only: b next_p if_True bind.bind_lunit)
qed

lemma loop:
  assumes "room s (128 * n)" "\<And>j. 4 * int (128 * j) \<le> lastone \<longleftrightarrow> j < n"
  shows "chunk_loop body lastone 0 s = Some (128 * n, after n s)"
  using loop_from [OF assms(1) _ assms(2), of 0] by (simp only: start mult_0_right le0)

lemma room_pow: "room ((after n ^^ m) s) k = room s k"
  by (induction m) (simp_all add: room_after)

lemma iterated:
  assumes "room s (128 * n)" "\<And>j. 4 * int (128 * j) \<le> lastone \<longleftrightarrow> j < n"
  shows "iterate m (\<lambda>x. map_option snd (chunk_loop body lastone 0 x)) s = Some ((after n ^^ m) s)"
  using assms(1)
proof (induction m arbitrary: s)
  case (Suc m)
  have "chunk_loop body lastone 0 s = Some (128 * n, after n s)" using Suc.prems assms(2) by (rule loop)
  moreover have "room (after n s) (128 * n)" using Suc.prems by (simp only: room_after)
  ultimately show ?case using Suc.IH [of "after n s"] by (simp add: funpow_swap1)
qed simp

end

section \<open>The bodies\<close>

lemma strided_bound: "\<forall>i \<in> set strided. i < 128"
  by (auto simp: strided_def)

lemma all_words_bound: "\<forall>i \<in> set all_words. i < 128"
  by (simp add: all_words_def)

lemma distinct_strided [simp]: "distinct strided"
  by (simp add: strided_def distinct_map inj_on_def)

lemma distinct_all_words [simp]: "distinct all_words"
  by (simp add: all_words_def)

text \<open>The word \<open>j\<close> is touched by the first \<open>k\<close> chunks.\<close>

definition touched :: "nat list \<Rightarrow> nat \<Rightarrow> nat \<Rightarrow> bool" where
  "touched idx k j = (j < 128 * k \<and> j mod 128 \<in> set idx)"

lemma touched_0 [simp]: "\<not> touched idx 0 j"
  by (simp add: touched_def)

lemma touched_Suc:
  assumes "\<forall>i \<in> set idx. i < 128"
  shows "touched idx (Suc k) j \<longleftrightarrow> touched idx k j \<or> (\<exists>i \<in> set idx. j = 128 * k + i)"
proof -
  consider (low) "j < 128 * k" | (mid) "128 * k \<le> j" "j < 128 * Suc k" | (high) "128 * Suc k \<le> j" by linarith
  then show ?thesis
  proof cases
    case low
    then have "\<not> (\<exists>i \<in> set idx. j = 128 * k + i)" by auto
    moreover from low have "j < 128 * Suc k" by simp
    ultimately show ?thesis using low by (simp only: touched_def simp_thms)
  next
    case mid
    then have "j div 128 = k" by (intro div_nat_eqI) auto
    then have j: "j = 128 * k + j mod 128" by (metis mult_div_mod_eq)
    have "(128 * k + i) mod 128 = i" if "i \<in> set idx" for i using assms that by simp
    with j have "j mod 128 \<in> set idx \<longleftrightarrow> (\<exists>i \<in> set idx. j = 128 * k + i)" by metis
    moreover have "touched idx (Suc k) j \<longleftrightarrow> j mod 128 \<in> set idx" using mid(2) by (simp only: touched_def simp_thms)
    moreover have "\<not> touched idx k j" using mid(1) by (simp add: touched_def)
    ultimately show ?thesis by blast
  next
    case high
    have "128 * k + i < j" if "i \<in> set idx" for i using assms that high by fastforce
    then have "\<not> (\<exists>i \<in> set idx. j = 128 * k + i)" by blast
    moreover have "\<not> touched idx (Suc k) j" "\<not> touched idx k j" using high by (simp_all add: touched_def)
    ultimately show ?thesis by blast
  qed
qed

text \<open>Reading.\<close>

definition chunk_sum :: "nat list \<Rightarrow> u32 list \<Rightarrow> nat \<Rightarrow> u32" where
  "chunk_sum idx buf k = (\<Sum>i \<leftarrow> idx. buf ! (128 * k + i))"

definition sum_after :: "nat list \<Rightarrow> u32 list \<Rightarrow> nat \<Rightarrow> u32 \<Rightarrow> u32" where
  "sum_after idx buf k acc = acc + (\<Sum>c \<leftarrow> [0..<k]. chunk_sum idx buf c)"

lemma those_reads:
  "\<forall>i \<in> set idx. p + i < length buf \<Longrightarrow> those (map (\<lambda>i. arr_get buf (p + i)) idx) = Some (map (\<lambda>i. buf ! (p + i)) idx)"
  by (induction idx) auto

lemma sum_body: "\<forall>i \<in> set idx. i < 128 \<Longrightarrow> chunk_body (sum_chunk idx buf) (sum_after idx buf) (\<lambda>_ n. n \<le> length buf)"
proof
  fix s :: u32 and k
  assume idx: "\<forall>i \<in> set idx. i < 128" and "128 * Suc k \<le> length buf"
  then have "\<forall>i \<in> set idx. 128 * k + i < length buf" by fastforce
  then show "sum_chunk idx buf (128 * k) (sum_after idx buf k s) = Some (sum_after idx buf (Suc k) s)"
    by (simp add: sum_chunk_def those_reads sum_after_def chunk_sum_def)
qed (auto simp: sum_after_def)

text \<open>Writing: the words touched so far have the value of \<open>new\<close>.\<close>

definition mark :: "nat list \<Rightarrow> nat \<Rightarrow> (nat \<Rightarrow> u32) \<Rightarrow> nat \<Rightarrow> u32 list \<Rightarrow> u32 list" where
  "mark idx off new k buf = map (\<lambda>j. if off \<le> j \<and> touched idx k (j - off) then new (j - off) else buf ! j) [0..<length buf]"

lemma length_mark [simp]: "length (mark idx off new k buf) = length buf"
  by (simp add: mark_def)

lemma nth_mark:
  "j < length buf \<Longrightarrow> mark idx off new k buf ! j = (if off \<le> j \<and> touched idx k (j - off) then new (j - off) else buf ! j)"
  by (simp add: mark_def)

lemma mark_0 [simp]: "mark idx off new 0 buf = buf"
  by (rule nth_equalityI) (simp_all add: nth_mark)

lemma mark_mark [simp]: "mark idx off new k (mark idx off new k buf) = mark idx off new k buf"
  by (rule nth_equalityI) (simp_all add: nth_mark)

lemma mark_pow: "(mark idx off new k ^^ m) buf = (if m = 0 then buf else mark idx off new k buf)"
  by (induction m) auto

lemma mark_Suc:
  assumes "\<forall>i \<in> set idx. i < 128"
    "\<And>j. j < length buf \<Longrightarrow> buf' ! j = (if \<exists>i \<in> set idx. j = off + 128 * k + i then new (j - off) else mark idx off new k buf ! j)"
    "length buf' = length buf"
  shows "buf' = mark idx off new (Suc k) buf"
proof (rule nth_equalityI)
  fix j assume "j < length buf'"
  moreover have "(\<exists>i \<in> set idx. j = off + 128 * k + i) \<longleftrightarrow> off \<le> j \<and> (\<exists>i \<in> set idx. j - off = 128 * k + i)"
    by (auto intro!: bexI)
  ultimately show "buf' ! j = mark idx off new (Suc k) buf ! j"
    using assms(2) [of j] assms(3) by (auto simp: nth_mark touched_Suc [OF assms(1)])
qed (simp add: assms(3))

lemma set_chunk_nth:
  assumes "\<forall>i \<in> set idx. p + i < length buf"
  shows "\<exists>buf'. set_chunk idx p buf = Some buf' \<and> length buf' = length buf
    \<and> (\<forall>j < length buf. buf' ! j = (if \<exists>i \<in> set idx. j = p + i then 1 else buf ! j))"
  using assms
proof (induction idx arbitrary: buf)
  case (Cons i idx)
  then obtain buf' where "set_chunk idx p (buf[p + i := 1]) = Some buf'" "length buf' = length buf"
    "\<forall>j < length buf. buf' ! j = (if \<exists>i \<in> set idx. j = p + i then 1 else buf[p + i := 1] ! j)"
    using Cons.IH [of "buf[p + i := 1]"] by auto
  with Cons.prems show ?case by (auto simp: nth_list_update)
qed simp

lemma set_body: "\<forall>i \<in> set idx. i < 128 \<Longrightarrow> chunk_body (set_chunk idx) (mark idx 0 (\<lambda>_. 1)) (\<lambda>buf n. n \<le> length buf)"
proof
  fix s :: "u32 list" and k
  assume idx: "\<forall>i \<in> set idx. i < 128" and r: "128 * Suc k \<le> length s"
  let ?m = "mark idx 0 (\<lambda>_. 1) k s"
  have "\<forall>i \<in> set idx. 128 * k + i < length ?m" using idx r by fastforce
  then obtain b where b: "set_chunk idx (128 * k) ?m = Some b" "length b = length s"
    "\<forall>j < length s. b ! j = (if \<exists>i \<in> set idx. j = 128 * k + i then 1 else ?m ! j)"
    using set_chunk_nth [of idx "128 * k" ?m] by auto
  have "b = mark idx 0 (\<lambda>_. 1) (Suc k) s" using b by (intro mark_Suc [OF idx]) auto
  with b(1) show "set_chunk idx (128 * k) ?m = Some (mark idx 0 (\<lambda>_. 1) (Suc k) s)" by simp
qed auto

lemma copy_chunk_nth:
  assumes "\<forall>i \<in> set idx. p + i < length src \<and> off + p + i < length dst"
  shows "\<exists>dst'. copy_chunk idx src off p dst = Some dst' \<and> length dst' = length dst
    \<and> (\<forall>j < length dst. dst' ! j = (if \<exists>i \<in> set idx. j = off + p + i then src ! (j - off) else dst ! j))"
  using assms
proof (induction idx arbitrary: dst)
  case (Cons i idx)
  then obtain d where "copy_chunk idx src off p (dst[off + p + i := src ! (p + i)]) = Some d" "length d = length dst"
    "\<forall>j < length dst. d ! j = (if \<exists>i \<in> set idx. j = off + p + i then src ! (j - off) else dst[off + p + i := src ! (p + i)] ! j)"
    using Cons.IH [of "dst[off + p + i := src ! (p + i)]"] by auto
  with Cons.prems show ?case by (auto simp: nth_list_update)
qed simp

lemma copy_body:
  "\<forall>i \<in> set idx. i < 128 \<Longrightarrow>
   chunk_body (copy_chunk idx src off) (mark idx off (\<lambda>j. src ! j)) (\<lambda>dst n. n \<le> length src \<and> off + n \<le> length dst)"
proof
  fix s :: "u32 list" and k
  assume idx: "\<forall>i \<in> set idx. i < 128" and r: "128 * Suc k \<le> length src \<and> off + 128 * Suc k \<le> length s"
  let ?m = "mark idx off (\<lambda>j. src ! j) k s"
  have "\<forall>i \<in> set idx. 128 * k + i < length src \<and> off + 128 * k + i < length ?m" using idx r by fastforce
  then obtain b where b: "copy_chunk idx src off (128 * k) ?m = Some b" "length b = length s"
    "\<forall>j < length s. b ! j = (if \<exists>i \<in> set idx. j = off + 128 * k + i then src ! (j - off) else ?m ! j)"
    using copy_chunk_nth [of idx "128 * k" src off ?m] by auto
  have "b = mark idx off (\<lambda>j. src ! j) (Suc k) s" using b by (intro mark_Suc [OF idx]) auto
  with b(1) show "copy_chunk idx src off (128 * k) ?m = Some (mark idx off (\<lambda>j. src ! j) (Suc k) s)" by simp
qed auto

interpretation rd_body: chunk_body "sum_chunk strided buf" "sum_after strided buf" "\<lambda>_ n. n \<le> length buf" for buf
  by (rule sum_body [OF strided_bound])

interpretation frd_body: chunk_body "sum_chunk all_words buf" "sum_after all_words buf" "\<lambda>_ n. n \<le> length buf" for buf
  by (rule sum_body [OF all_words_bound])

interpretation wr_body: chunk_body "set_chunk strided" "mark strided 0 (\<lambda>_. 1)" "\<lambda>buf n. n \<le> length buf"
  by (rule set_body [OF strided_bound])

interpretation fwr_body: chunk_body "set_chunk (rev all_words)" "mark (rev all_words) 0 (\<lambda>_. 1)" "\<lambda>buf n. n \<le> length buf"
  by (rule set_body) (use all_words_bound in simp)

interpretation mcp_body: chunk_body "copy_chunk strided src off" "mark strided off (\<lambda>j. src ! j)"
    "\<lambda>dst n. n \<le> length src \<and> off + n \<le> length dst" for src off
  by (rule copy_body [OF strided_bound])

interpretation fcp_body: chunk_body "copy_chunk all_words src off" "mark all_words off (\<lambda>j. src ! j)"
    "\<lambda>dst n. n \<le> length src \<and> off + n \<le> length dst" for src off
  by (rule copy_body [OF all_words_bound])

text \<open>Reading and writing: \<open>rdwr\<close> reads each word before it sets it.\<close>

definition sum_mark :: "nat list \<Rightarrow> nat \<Rightarrow> u32 \<times> u32 list \<Rightarrow> u32 \<times> u32 list" where
  "sum_mark idx k x = (sum_after idx (snd x) k (fst x), mark idx 0 (\<lambda>_. 1) k (snd x))"

lemma sum_set_chunk_eq:
  "distinct idx \<Longrightarrow> \<forall>i \<in> set idx. p + i < length buf \<Longrightarrow>
   sum_set_chunk idx p (acc, buf) = map_option (Pair (acc + (\<Sum>i \<leftarrow> idx. buf ! (p + i)))) (set_chunk idx p buf)"
proof (induction idx arbitrary: acc buf)
  case (Cons i idx)
  have "(\<Sum>x \<leftarrow> idx. buf[p + i := 1] ! (p + x)) = (\<Sum>x \<leftarrow> idx. buf ! (p + x))"
    using Cons.prems(1) by (intro arg_cong [where f = sum_list] map_cong refl nth_list_update_neq) auto
  then show ?case using Cons by (simp add: add.assoc)
qed simp

lemma sum_set_body:
  "distinct idx \<Longrightarrow> \<forall>i \<in> set idx. i < 128 \<Longrightarrow>
   chunk_body (sum_set_chunk idx) (sum_mark idx) (\<lambda>x n. n \<le> length (snd x))"
proof
  fix s :: "u32 \<times> u32 list" and k
  assume d: "distinct idx" and idx: "\<forall>i \<in> set idx. i < 128" and r: "128 * Suc k \<le> length (snd s)"
  obtain acc buf where s: "s = (acc, buf)" by force
  let ?m = "mark idx 0 (\<lambda>_. 1) k buf"
  have "\<forall>i \<in> set idx. 128 * k + i < length ?m" using idx r s by fastforce
  then have "sum_set_chunk idx (128 * k) (sum_after idx buf k acc, ?m)
    = map_option (Pair (sum_after idx buf k acc + (\<Sum>i \<leftarrow> idx. ?m ! (128 * k + i)))) (set_chunk idx (128 * k) ?m)"
    by (rule sum_set_chunk_eq [OF d])
  moreover have "?m ! (128 * k + i) = buf ! (128 * k + i)" if "i \<in> set idx" for i
    using that idx r s by (subst nth_mark) (auto simp: touched_def)
  then have "(\<Sum>i \<leftarrow> idx. ?m ! (128 * k + i)) = chunk_sum idx buf k"
    unfolding chunk_sum_def by (intro arg_cong [where f = sum_list] map_cong) auto
  moreover have "set_chunk idx (128 * k) ?m = Some (mark idx 0 (\<lambda>_. 1) (Suc k) buf)"
    using chunk_body.step [OF set_body [OF idx]] r s by simp
  ultimately show "sum_set_chunk idx (128 * k) (sum_mark idx k s) = Some (sum_mark idx (Suc k) s)"
    by (simp add: s sum_mark_def sum_after_def add.assoc)
qed (auto simp: sum_mark_def sum_after_def)

interpretation rdwr_body: chunk_body "sum_set_chunk strided" "sum_mark strided" "\<lambda>x n. n \<le> length (snd x)"
  by (rule sum_set_body [OF distinct_strided strided_bound])

section \<open>The loops\<close>

text \<open>What \<open>init_loop\<close> leaves behind: the buffer of \<open>nbytes\<close> bytes, a second block with as much room after
  \<open>buf2\<close>, and \<open>lastone\<close> 512 bytes before the end.\<close>

definition bw_ready :: "bw_state \<Rightarrow> u32 list \<Rightarrow> u32 list \<Rightarrow> bool" where
  "bw_ready s buf dst = (bw_buf s = Some buf \<and> bw_buf2_orig s = Some dst \<and> bw_lastone s = int (bw_nbytes s) - 512
     \<and> length buf = bw_nbytes s div 4 \<and> bw_buf2 s + bw_nbytes s div 4 < length dst \<and> bw_N s = bw_nbytes s)"

lemma lastone_iff: "4 * int (128 * j) \<le> int n - 512 \<longleftrightarrow> j < n div 512"
proof -
  have "4 * int (128 * j) \<le> int n - 512 \<longleftrightarrow> int (Suc j * 512) \<le> int n" by (simp add: algebra_simps)
  also have "\<dots> \<longleftrightarrow> Suc j * 512 \<le> n" by (simp only: of_nat_le_iff)
  also have "\<dots> \<longleftrightarrow> Suc j \<le> n div 512" by (simp only: less_eq_div_iff_mult_less_eq zero_less_numeral)
  finally show ?thesis by (simp only: Suc_le_eq)
qed

lemma chunks_fit: "128 * (n div 512) \<le> n div (4 :: nat)"
  by linarith

lemmas passes_iterated =
  rd_body.iterated [OF _ lastone_iff] frd_body.iterated [OF _ lastone_iff] wr_body.iterated [OF _ lastone_iff]
  fwr_body.iterated [OF _ lastone_iff] rdwr_body.iterated [OF _ lastone_iff]
  mcp_body.iterated [OF _ lastone_iff] fcp_body.iterated [OF _ lastone_iff]

lemma sum_after_pow: "(sum_after idx buf k ^^ m) acc = acc + of_nat m * (\<Sum>c \<leftarrow> [0..<k]. chunk_sum idx buf c)"
  by (induction m) (simp_all add: sum_after_def algebra_simps)

lemma touched_all: "touched all_words k j \<longleftrightarrow> j < 128 * k" "touched (rev all_words) k j \<longleftrightarrow> j < 128 * k"
  by (auto simp: touched_def all_words_def)

lemma touched_strided: "touched strided k j \<longleftrightarrow> j < 128 * k \<and> j mod 4 = 0"
proof -
  have "j mod 128 mod 4 = j mod 4" by (simp add: mod_mod_cancel)
  moreover have "m \<in> set strided \<longleftrightarrow> m < 128 \<and> m mod 4 = 0" for m
    by (auto simp: strided_def elim!: mod_0_imp_dvd [THEN dvdE])
  ultimately show ?thesis by (simp add: touched_def)
qed

lemma all_words_sum: "128 * k \<le> length buf \<Longrightarrow> (\<Sum>c \<leftarrow> [0..<k]. chunk_sum all_words buf c) = sum_list (take (128 * k) buf)"
proof (induction k)
  case (Suc k)
  have "map (\<lambda>i. buf ! (128 * k + i)) [0..<128] = take 128 (drop (128 * k) buf)"
    using Suc.prems by (intro nth_equalityI) (auto simp del: upt_rec_numeral)
  then have "chunk_sum all_words buf k = sum_list (take 128 (drop (128 * k) buf))" by (simp only: chunk_sum_def all_words_def)
  moreover have "take (128 * Suc k) buf = take (128 * k) buf @ take 128 (drop (128 * k) buf)"
    by (simp only: mult_Suc_right take_add add.commute [of 128])
  moreover have "128 * k \<le> length buf" using Suc.prems by simp
  ultimately show ?case using Suc.IH by simp
qed simp

lemma strided_sum: "(\<Sum>c \<leftarrow> [0..<k]. chunk_sum strided buf c) = (\<Sum>i \<leftarrow> [0..<32 * k]. buf ! (4 * i))"
proof (induction k)
  case (Suc k)
  have "[0..<32 * Suc k] = [0..<32 * k] @ [32 * k..<32 * k + 32]"
    using upt_add_eq_append [of 0 "32 * k" 32] by (simp only: mult_Suc_right add.commute le0)
  moreover have "[32 * k..<32 * k + 32] = map (\<lambda>i. i + 32 * k) [0..<32]" by (simp only: map_add_upt add.commute)
  moreover have "chunk_sum strided buf k = (\<Sum>i \<leftarrow> map (\<lambda>i. i + 32 * k) [0..<32]. buf ! (4 * i))"
    by (simp add: chunk_sum_def strided_def comp_def algebra_simps del: upt_rec_numeral)
  ultimately show ?case using Suc by (simp del: upt_rec_numeral)
qed simp

lemma mark_all:
  "off + 128 * k \<le> length dst \<Longrightarrow> 128 * k \<le> length src \<Longrightarrow>
   mark all_words off (\<lambda>j. src ! j) k dst = take off dst @ take (128 * k) src @ drop (off + 128 * k) dst"
  by (rule nth_equalityI) (auto simp: nth_mark touched_all nth_append)

lemma mark_all_ones: "128 * k \<le> length buf \<Longrightarrow> mark (rev all_words) 0 (\<lambda>_. 1) k buf = replicate (128 * k) 1 @ drop (128 * k) buf"
  by (rule nth_equalityI) (auto simp: nth_mark touched_all nth_append)

text \<open>The state after some passes, for each of the loops.\<close>

lemma loops_run:
  assumes "bw_ready s buf dst"
  defines "c \<equiv> bw_nbytes s div 512" and "ones \<equiv> (\<lambda>idx. mark idx 0 (\<lambda>_. 1 :: u32))"
  shows "rd iters s tm = Some (use_int ((sum_after strided buf c ^^ iters) 0) tm)"
    and "frd iters s tm = Some (use_int ((sum_after all_words buf c ^^ iters) 0) tm)"
    and "wr iters s = Some (s\<lparr>bw_buf := Some ((ones strided c ^^ iters) buf)\<rparr>)"
    and "fwr iters s tm = Some (s\<lparr>bw_buf := Some ((ones (rev all_words) c ^^ iters) buf)\<rparr>, use_pointer (p_save iters s) tm)"
    and "rdwr iters s tm = (case (sum_mark strided c ^^ iters) (0, buf) of (acc, b) \<Rightarrow> Some (s\<lparr>bw_buf := Some b\<rparr>, use_int acc tm))"
    and "mcp iters s tm = Some (s\<lparr>bw_buf2_orig := Some ((mark strided (bw_buf2 s) (\<lambda>j. buf ! j) c ^^ iters) dst)\<rparr>, use_pointer (p_save iters s) tm)"
    and "fcp iters s = Some (s\<lparr>bw_buf2_orig := Some ((mark all_words (bw_buf2 s) (\<lambda>j. buf ! j) c ^^ iters) dst)\<rparr>)"
proof -
  have fit: "128 * c \<le> length buf" "bw_buf2 s + 128 * c \<le> length dst"
    using assms(1) chunks_fit [of "bw_nbytes s"] by (simp_all add: bw_ready_def c_def)
  note r = assms(1) [unfolded bw_ready_def]
  note run = passes_iterated [where n = "bw_nbytes s", folded c_def]
  show "rd iters s tm = Some (use_int ((sum_after strided buf c ^^ iters) 0) tm)"
    using r run(1) [OF fit(1)] by (simp add: rd_def passes_def)
  show "frd iters s tm = Some (use_int ((sum_after all_words buf c ^^ iters) 0) tm)"
    using r run(2) [OF fit(1)] by (simp add: frd_def passes_def)
  show "wr iters s = Some (s\<lparr>bw_buf := Some ((ones strided c ^^ iters) buf)\<rparr>)"
    using r run(3) [OF fit(1)] by (simp add: wr_def passes_def ones_def)
  show "fwr iters s tm = Some (s\<lparr>bw_buf := Some ((ones (rev all_words) c ^^ iters) buf)\<rparr>, use_pointer (p_save iters s) tm)"
    using r run(4) [OF fit(1)] by (simp add: fwr_def passes_def ones_def)
  show "rdwr iters s tm = (case (sum_mark strided c ^^ iters) (0, buf) of (acc, b) \<Rightarrow> Some (s\<lparr>bw_buf := Some b\<rparr>, use_int acc tm))"
    using r run(5) [of "(0, buf)"] fit(1) by (simp add: rdwr_def passes_def split_def)
  show "mcp iters s tm = Some (s\<lparr>bw_buf2_orig := Some ((mark strided (bw_buf2 s) (\<lambda>j. buf ! j) c ^^ iters) dst)\<rparr>, use_pointer (p_save iters s) tm)"
    using r run(6) [of buf "bw_buf2 s" dst] fit by (simp add: mcp_def passes_def)
  show "fcp iters s = Some (s\<lparr>bw_buf2_orig := Some ((mark all_words (bw_buf2 s) (\<lambda>j. buf ! j) c ^^ iters) dst)\<rparr>)"
    using r run(7) [of buf "bw_buf2 s" dst] fit by (simp add: fcp_def passes_def)
qed

lemma iterate_defined:
  "P x \<Longrightarrow> (\<And>y. P y \<Longrightarrow> \<exists>z. f y = Some z \<and> P z) \<Longrightarrow> iterate n f x \<noteq> None"
  by (induction n arbitrary: x) fastforce+

lemma bzero_bcopy_run:
  assumes "bw_ready s buf dst"
  shows "loop_bzero iters s \<noteq> None" "loop_bcopy tail iters s \<noteq> None"
proof -
  note r = assms [unfolded bw_ready_def]
  then have N: "bw_N s = bw_nbytes s" by simp
  let ?n = "bw_nbytes s div 4"
  have "iterate iters (\<lambda>b. if length b < ?n then None else Some (replicate ?n 0 @ drop ?n b)) buf \<noteq> None"
    using r by (intro iterate_defined [where P = "\<lambda>b. ?n \<le> length b"]) auto
  then show "loop_bzero iters s \<noteq> None" unfolding loop_bzero_def N using r by auto
  have "iterate iters (\<lambda>d. if length buf < ?n \<or> length d < bw_buf2 s + ?n then None
      else let d = take (bw_buf2 s) d @ take ?n buf @ drop (bw_buf2 s + ?n) d in
           if bw_nbytes s mod 4 = 0 then Some d else arr_set d (bw_buf2 s + ?n) tail) dst \<noteq> None"
    using r by (intro iterate_defined [where P = "\<lambda>d. bw_buf2 s + ?n < length d"]) (auto simp: Let_def)
  then show "loop_bcopy tail iters s \<noteq> None" unfolding loop_bcopy_def N using r by (auto simp: Let_def)
qed

lemma init_loop_ready:
  assumes "bw_need_buf2 s" "512 \<le> bw_nbytes s" "bw_nbytes s + 2048 < 2 ^ 64" "a1 \<noteq> 0" "a2 \<noteq> 0"
  shows "\<exists>t buf dst. init_loop a1 a2 junk 0 s = Done t \<and> bw_ready t buf dst"
proof -
  have "(bw_nbytes s + 2048) div 4 = bw_nbytes s div 4 + 512" by presburger
  with assms show ?thesis by (simp add: init_loop_def Let_def bw_ready_def)
qed

section \<open>Properties\<close>

text \<open>C31. The loops that touch every word: on a buffer of \<open>nbytes\<close> bytes the unrolled \<open>frd\<close> adds the words of the
  whole 512-byte chunks once per iteration, \<open>fwr\<close> sets exactly these words to one, and \<open>fcp\<close> copies exactly these
  words to the destination and changes nothing else of it.\<close>

theorem full_word_loops:
  fixes s :: bw_state
  assumes "bw_ready s buf dst" "0 < iters"
  defines "n \<equiv> 128 * (bw_nbytes s div 512)"
  shows "frd iters s tm = Some (use_int (of_nat iters * sum_list (take n buf)) tm)
    \<and> (\<exists>tm'. fwr iters s tm = Some (s\<lparr>bw_buf := Some (replicate n 1 @ drop n buf)\<rparr>, tm'))
    \<and> fcp iters s = Some (s\<lparr>bw_buf2_orig := Some (take (bw_buf2 s) dst @ take n buf @ drop (bw_buf2 s + n) dst)\<rparr>)"
proof -
  have fit: "n \<le> length buf" "bw_buf2 s + n \<le> length dst"
    using assms(1) chunks_fit [of "bw_nbytes s"] by (simp_all add: bw_ready_def n_def)
  note run = loops_run [OF assms(1)]
  have "frd iters s tm = Some (use_int (of_nat iters * sum_list (take n buf)) tm)"
    using run(2) fit(1) by (simp add: sum_after_pow all_words_sum n_def)
  moreover have "\<exists>tm'. fwr iters s tm = Some (s\<lparr>bw_buf := Some (replicate n 1 @ drop n buf)\<rparr>, tm')"
    using run(4) fit(1) assms(2) by (simp add: mark_pow mark_all_ones n_def)
  moreover have "fcp iters s = Some (s\<lparr>bw_buf2_orig := Some (take (bw_buf2 s) dst @ take n buf @ drop (bw_buf2 s + n) dst)\<rparr>)"
    using run(7) fit assms(2) by (simp add: mark_pow mark_all n_def)
  ultimately show ?thesis by blast
qed

definition demo_bw :: bw_state where
  "demo_bw = \<lparr>bw_overhead = Fin 0, bw_nbytes = 600, bw_need_buf2 = True, bw_aligned = True,
     bw_buf = Some (replicate 150 7), bw_addr = 4096, bw_buf2_orig = Some (replicate 662 0), bw_buf2 = 480,
     bw_lastone = 88, bw_N = 600\<rparr>"

definition demo_timing :: timing where
  "demo_timing = timing_init (\<lambda>_. \<lparr>tv_sec = 0, tv_usec = 0\<rparr>)"

theorem full_word_loops_witness:
  "frd 3 demo_bw demo_timing = Some (use_int 2688 demo_timing)
    \<and> fcp 1 demo_bw = Some (demo_bw\<lparr>bw_buf2_orig := Some (replicate 480 0 @ replicate 128 7 @ replicate 54 0)\<rparr>)"
proof -
  have r: "bw_ready demo_bw (replicate 150 7) (replicate 662 0)" by (simp add: bw_ready_def demo_bw_def)
  have n: "128 * (bw_nbytes demo_bw div 512) = 128" "bw_buf2 demo_bw = 480" by (simp_all add: demo_bw_def)
  show ?thesis
    using full_word_loops [OF r, of 3 demo_timing] full_word_loops [OF r, of 1 demo_timing]
    by (simp only: n) (simp add: sum_list_replicate)
qed

text \<open>The loops with a stride of four words: \<open>rd\<close> adds every fourth word of the whole chunks once per
  iteration, \<open>wr\<close> sets exactly these words to one, and \<open>mcp\<close> copies exactly these words.\<close>

theorem strided_loops:
  fixes s :: bw_state
  assumes "bw_ready s buf dst" "0 < iters"
  defines "n \<equiv> 128 * (bw_nbytes s div 512)" and "off \<equiv> bw_buf2 s"
  shows "rd iters s tm = Some (use_int (of_nat iters * (\<Sum>i \<leftarrow> [0..<n div 4]. buf ! (4 * i))) tm)
    \<and> wr iters s = Some (s\<lparr>bw_buf := Some (map (\<lambda>j. if j < n \<and> j mod 4 = 0 then 1 else buf ! j) [0..<length buf])\<rparr>)
    \<and> (\<exists>tm'. mcp iters s tm = Some (s\<lparr>bw_buf2_orig := Some (map (\<lambda>j. if off \<le> j \<and> j - off < n \<and> (j - off) mod 4 = 0
                                                         then buf ! (j - off) else dst ! j) [0..<length dst])\<rparr>, tm'))"
proof -
  note run = loops_run [OF assms(1), folded off_def]
  have "rd iters s tm = Some (use_int (of_nat iters * (\<Sum>i \<leftarrow> [0..<n div 4]. buf ! (4 * i))) tm)"
    using run(1) by (simp add: sum_after_pow strided_sum n_def)
  moreover have "wr iters s = Some (s\<lparr>bw_buf := Some (map (\<lambda>j. if j < n \<and> j mod 4 = 0 then 1 else buf ! j) [0..<length buf])\<rparr>)"
    using run(3) assms(2) by (simp add: mark_pow mark_def touched_strided n_def)
  moreover have "\<exists>tm'. mcp iters s tm = Some (s\<lparr>bw_buf2_orig := Some (map (\<lambda>j. if off \<le> j \<and> j - off < n \<and> (j - off) mod 4 = 0
                                                         then buf ! (j - off) else dst ! j) [0..<length dst])\<rparr>, tm')"
    using run(6) assms(2) by (simp add: mark_pow mark_def touched_strided n_def)
  ultimately show ?thesis by blast
qed

theorem strided_loops_witness: "rd 2 demo_bw demo_timing = Some (use_int 448 demo_timing)"
proof -
  have r: "bw_ready demo_bw (replicate 150 7) (replicate 662 0)" by (simp add: bw_ready_def demo_bw_def)
  have n: "128 * (bw_nbytes demo_bw div 512) div 4 = 32" by (simp add: demo_bw_def)
  have "map (\<lambda>i. replicate 150 (7 :: u32) ! (4 * i)) [0..<32] = replicate 32 7"
    by (intro nth_equalityI) (auto simp del: upt_rec_numeral)
  with strided_loops [OF r, of 2 demo_timing] show ?thesis by (simp only: n) (simp add: sum_list_replicate del: upt_rec_numeral)
qed

text \<open>With a buffer of at least 512 bytes, the guard of \<open>main\<close>, \<open>init_loop\<close> sets up the state, and none of the
  nine benchmarks then reads or writes outside of its buffers, aligned or not.\<close>

theorem benchmarks_in_bounds:
  assumes "bw_need_buf2 s" "512 \<le> bw_nbytes s" "bw_nbytes s + 2048 < 2 ^ 64" "a1 \<noteq> 0" "a2 \<noteq> 0"
  shows "\<exists>t. init_loop a1 a2 junk 0 s = Done t \<and> rd iters t tm \<noteq> None \<and> wr iters t \<noteq> None \<and> rdwr iters t tm \<noteq> None
    \<and> mcp iters t tm \<noteq> None \<and> fwr iters t tm \<noteq> None \<and> frd iters t tm \<noteq> None \<and> fcp iters t \<noteq> None
    \<and> loop_bzero iters t \<noteq> None \<and> loop_bcopy tail iters t \<noteq> None"
proof -
  obtain t buf dst where t: "init_loop a1 a2 junk 0 s = Done t" "bw_ready t buf dst"
    using init_loop_ready [OF assms] by blast
  show ?thesis using t(1) loops_run [OF t(2)] bzero_bcopy_run [OF t(2)] by (simp add: split_def)
qed

theorem benchmarks_in_bounds_witness:
  "\<exists>t. init_loop 4096 8192 (\<lambda>_. 0) 0 demo_bw = Done t \<and> mcp 5 t demo_timing \<noteq> None \<and> loop_bcopy 0 5 t \<noteq> None"
  using benchmarks_in_bounds [of demo_bw 4096 8192 "\<lambda>_. 0" 5 demo_timing 0] by (auto simp: demo_bw_def)

end
