(* ===== verification/Mhz.thy ===== *)
theory Mhz
  imports Results Stats
begin

text \<open>
  The analysis of \<open>src/mhz.c\<close>: from the times of nine loops per iteration the clock rate is found as the
  reciprocal of the greatest common divisor of many subsets of them. The arrays the code allocates
  have their capacity in the model, and a write past it is \<open>None\<close>. The timed loops themselves are not
  modelled: what each run measures is an argument.
\<close>

section \<open>Data points\<close>

definition NTESTS :: nat where "NTESTS = 9"

definition d_abs :: "dbl \<Rightarrow> dbl" where
  "d_abs x = (if d_lt x (Fin 0) then d_neg x else x)"

text \<open>The median as \<open>filter_data\<close> and \<open>classes\<close> compute it from a sorted copy of the array.\<close>

definition copy_median :: "dbl list \<Rightarrow> dbl" where
  "copy_median values =
     (let d = qsort double_compare values; n = length values; m = d ! (n div 2)
      in if n mod 2 = 0 then d_div (d_add m (d ! (n div 2 - 1))) (Fin 2) else m)"

text \<open>\<open>if (ok(values[i])) { if (i > tests) values[tests] = values[i]; tests++; }\<close> for the given indices.\<close>

fun filter_loop :: "(dbl \<Rightarrow> bool) \<Rightarrow> nat list \<Rightarrow> nat \<Rightarrow> dbl list \<Rightarrow> nat \<times> dbl list" where
  "filter_loop ok [] tests values = (tests, values)"
| "filter_loop ok (i # todo) tests values =
     (if ok (values ! i)
      then filter_loop ok todo (Suc tests) (if tests < i then values[tests := values ! i] else values)
      else filter_loop ok todo tests values)"

text \<open>The envelope of acceptable points.\<close>

definition acceptable :: "dbl \<Rightarrow> dbl \<Rightarrow> bool" where
  "acceptable median v = (d_lt (d_mul (to_dbl (5 / 100)) median) v \<and> d_lt v (d_mul (Fin 20) median))"

text \<open>With no values the median is not initialised, but it is not used either.\<close>

definition filter_data :: "dbl list \<Rightarrow> nat \<times> dbl list" where
  "filter_data values = filter_loop (acceptable (copy_median values)) [0..<length values] 0 values"

definition classes :: "dbl list \<Rightarrow> nat option" where
  "classes values =
     (if values = [] then None
      else let d = qsort double_compare values; median = copy_median values
           in Some (1 + length (filter (\<lambda>i. d_gt (d_sub (d ! i) (d ! (i - 1))) (d_mul (to_dbl (5 / 100)) median))
                                  [1..<length values])))"

section \<open>mode\<close>

definition to_mhz :: "dbl \<Rightarrow> int" where
  "to_mhz v = int_of_dbl (d_add v (Fin (1 / 2)))"

fun mode_loop :: "int list \<Rightarrow> int \<Rightarrow> nat \<Rightarrow> int \<Rightarrow> nat \<Rightarrow> int" where
  "mode_loop [] md n_mode cur n_curr = md"
| "mode_loop (v # vs) md n_mode cur n_curr =
     (let n_curr = (if cur \<noteq> v then 0 else n_curr) + 1
      in if n_mode < n_curr then mode_loop vs v n_curr v n_curr else mode_loop vs md n_mode v n_curr)"

text \<open>The array is sorted in place; with no values \<open>values[0]\<close> is read all the same.\<close>

definition mode :: "dbl list \<Rightarrow> int option" where
  "mode values =
     (case map to_mhz (qsort double_compare values) of
        [] \<Rightarrow> None
      | v # vs \<Rightarrow> Some (mode_loop vs v 1 v 1))"

section \<open>gcd\<close>

text \<open>\<open>a[n++] = x\<close> in an array of \<open>cap\<close> elements of which the first \<open>n\<close> are in use.\<close>

definition push :: "nat \<Rightarrow> dbl \<Rightarrow> dbl list \<Rightarrow> dbl list option" where
  "push cap x xs = (if length xs < cap then Some (xs @ [x]) else None)"

fun push_all :: "nat \<Rightarrow> dbl list \<Rightarrow> dbl list \<Rightarrow> dbl list option" where
  "push_all cap [] ys = Some ys"
| "push_all cap (x # xs) ys = do { ys \<leftarrow> push cap x ys; push_all cap xs ys }"

text \<open>What the loop for index \<open>i\<close> stores: the value and its differences to the later ones.\<close>

definition cross_row :: "dbl list \<Rightarrow> nat \<Rightarrow> dbl list" where
  "cross_row values i = values ! i # map (\<lambda>j. d_abs (d_sub (values ! i) (values ! j))) [i + 1..<length values]"

definition cross_values :: "dbl list \<Rightarrow> dbl list option" where
  "cross_values values =
     push_all (length values * length values) (concat (map (cross_row values) [0..<length values])) []"

definition MAX_COUNT :: nat where "MAX_COUNT = 6"

text \<open>The guess of how many instructions each loop has, when the shortest has \<open>k\<close>.\<close>

definition guess :: "nat \<Rightarrow> dbl \<Rightarrow> dbl \<Rightarrow> dbl" where
  "guess k mn y = d_of_int (int_of_dbl (d_add (d_div (d_mul (d_of_int (int k)) y) mn) (Fin (1 / 2))))"

fun gcd_loop :: "nat list \<Rightarrow> nat \<Rightarrow> dbl \<Rightarrow> dbl list \<Rightarrow> dbl \<Rightarrow> dbl \<Rightarrow> dbl option" where
  "gcd_loop [] cap mn y result min_chi2 = Some result"
| "gcd_loop (k # ks) cap mn y result min_chi2 =
     do { x \<leftarrow> push_all cap (map (guess k mn) y) [];
          (let f = regression x y None in
           if k = 1 \<or> d_lt (d_mul (d_of_int (int (k * k))) (fit_chi2 f)) min_chi2
           then gcd_loop ks cap mn y (fit_b f) (fit_chi2 f)
           else gcd_loop ks cap mn y result min_chi2) }"

definition gcd_of :: "dbl list \<Rightarrow> dbl option" where
  "gcd_of values =
     (let cap = length values * length values in
      do { mn \<leftarrow> double_min values;
           y \<leftarrow> cross_values values;
           y \<leftarrow> push cap (Fin 0) y;
           gcd_loop [1..<MAX_COUNT] cap mn y mn (Fin 0) })"

section \<open>compute_mhz\<close>

text \<open>The data of a subset of the tests, those with more than half of the tries; \<open>i\<close> is 0 for the smallest and 1 for
  the second smallest time.\<close>

definition subset_data :: "result_t list \<Rightarrow> nat \<Rightarrow> nat \<Rightarrow> dbl list option" where
  "subset_data r i sub =
     those (map (\<lambda>j. map_option val_key (arr_get (res_v (r ! j)) (res_N (r ! j) - 1 - i)))
              (filter (\<lambda>j. bit sub j \<and> TRIES div 2 < res_N (r ! j)) [0..<NTESTS]))"

text \<open>The result of a subset, or \<open>None\<close> inside when there is too little data.\<close>

definition subset_result :: "result_t list \<Rightarrow> nat \<Rightarrow> nat \<Rightarrow> dbl option option" where
  "subset_result r i sub =
     do { data \<leftarrow> subset_data r i sub;
          if length data < 2 then Some None
          else
            let (n, values) = filter_data data; data = take n values in
            if n < 2 then Some None
            else do { c \<leftarrow> classes data;
                      if c < 2 then Some None
                      else do { g \<leftarrow> gcd_of data; Some (Some (d_div (Fin 1) g)) } } }"

definition all_results :: "result_t list \<Rightarrow> nat \<Rightarrow> dbl list option" where
  "all_results r i =
     do { rs \<leftarrow> those (map (subset_result r i) [0..<2 ^ NTESTS]);
          push_all (2 ^ NTESTS) (map the (filter (\<lambda>x. x \<noteq> None) rs)) [] }"

definition compute_mhz :: "result_t list \<Rightarrow> int option" where
  "compute_mhz r =
     do { rs0 \<leftarrow> all_results r 0; mhz0 \<leftarrow> mode rs0;
          rs1 \<leftarrow> all_results r 1; mhz1 \<leftarrow> mode rs1;
          (let diff = \<bar>wrap32 (mhz0 - mhz1)\<bar> in
           Some (if d_le (d_div (d_of_int diff) (d_of_int mhz0)) (to_dbl (1 / 100)) \<or> diff \<le> 1 then mhz0 else - 1)) }"

section \<open>main\<close>

text \<open>One effort: \<open>TRIES\<close> rounds over the tests; \<open>t j k\<close> is the time and count of test \<open>k\<close> in round \<open>j\<close>.\<close>

definition measure_round :: "(nat \<Rightarrow> u64 \<times> u64) \<Rightarrow> result_t list \<Rightarrow> result_t list option" where
  "measure_round t data = those (map (\<lambda>k. insertsort (fst (t k)) (snd (t k)) (data ! k)) [0..<NTESTS])"

fun measure_rounds :: "(nat \<Rightarrow> nat \<Rightarrow> u64 \<times> u64) \<Rightarrow> nat list \<Rightarrow> result_t list \<Rightarrow> result_t list option" where
  "measure_rounds t [] data = Some data"
| "measure_rounds t (j # js) data = do { data \<leftarrow> measure_round (t j) data; measure_rounds t js data }"

definition one_effort :: "(nat \<Rightarrow> nat \<Rightarrow> u64 \<times> u64) \<Rightarrow> result_t list \<Rightarrow> result_t list option" where
  "one_effort t data = measure_rounds t [0..<TRIES] (map insertinit data)"

text \<open>\<open>for (i = 0; i < 3 && mhz < 0; ++i)\<close>: the clock rate, and the data that are saved for printing.\<close>

fun efforts :: "(nat \<Rightarrow> nat \<Rightarrow> nat \<Rightarrow> u64 \<times> u64) \<Rightarrow> nat list \<Rightarrow> int \<Rightarrow> result_t list \<Rightarrow> (int \<times> result_t list) option" where
  "efforts t [] mhz data = Some (mhz, data)"
| "efforts t (i # rest) mhz data =
     (if mhz < 0
      then do { data \<leftarrow> one_effort (t i) data; mhz \<leftarrow> compute_mhz data; efforts t rest mhz data }
      else Some (mhz, data))"

definition mhz_main :: "(nat \<Rightarrow> nat \<Rightarrow> nat \<Rightarrow> u64 \<times> u64) \<Rightarrow> result_t list \<Rightarrow> (int \<times> result_t list) option" where
  "mhz_main t data = efforts t [0..<3] (- 1) data"

section \<open>The filter\<close>

lemma filter_loop_take:
  assumes "tests \<le> i" "i \<le> length v" "filter_loop ok [i..<length v] tests v = (n, v')"
  shows "n = tests + length (filter ok (drop i v)) \<and> take n v' = take tests v @ filter ok (drop i v) \<and> length v' = length v"
  using assms
proof (induction "length v - i" arbitrary: i tests v)
  case (Suc m)
  then have i: "i < length v" by simp
  then have upt: "[i..<length v] = i # [Suc i..<length v]" by (simp add: upt_conv_Cons)
  have d: "drop i v = v ! i # drop (Suc i) v" using i by (rule Cons_nth_drop_Suc [symmetric])
  show ?case
  proof (cases "ok (v ! i)")
    case True
    define w where "w = (if tests < i then v[tests := v ! i] else v)"
    have w: "length w = length v" "drop (Suc i) w = drop (Suc i) v" "take (Suc tests) w = take tests v @ [v ! i]"
      using Suc.prems(1) i by (auto simp: w_def take_Suc_conv_app_nth)
    have "filter_loop ok [Suc i..<length w] (Suc tests) w = (n, v')"
      using Suc.prems(3) True w(1) by (simp add: upt w_def)
    then have "n = Suc tests + length (filter ok (drop (Suc i) w)) \<and>
        take n v' = take (Suc tests) w @ filter ok (drop (Suc i) w) \<and> length v' = length w"
      using Suc.hyps(2) Suc.prems(1) i w(1) by (intro Suc.hyps(1)) auto
    then show ?thesis using True by (auto simp: d w)
  next
    case False
    have "n = tests + length (filter ok (drop (Suc i) v)) \<and>
        take n v' = take tests v @ filter ok (drop (Suc i) v) \<and> length v' = length v"
      using Suc.hyps(2) Suc.prems i False by (intro Suc.hyps(1)) (auto simp: upt)
    then show ?thesis using False by (auto simp: d)
  qed
qed simp

text \<open>\<open>filter_data\<close> moves the acceptable points to the lower part of the array, in their order.\<close>

lemma filter_data_filter:
  "filter_data values = (n, v') \<Longrightarrow>
   n = length (filter (acceptable (copy_median values)) values)
   \<and> take n v' = filter (acceptable (copy_median values)) values \<and> length v' = length values"
  using filter_loop_take [of 0 0 "values" "acceptable (copy_median values)" n v']
  by (simp only: filter_data_def le0 drop_0 take_0 add_0 append_Nil)

section \<open>The mode\<close>

text \<open>The state of the loop after a sorted prefix: its last value with its multiplicity, and a most frequent value with its.\<close>

definition mode_inv :: "int list \<Rightarrow> int \<Rightarrow> nat \<Rightarrow> int \<Rightarrow> nat \<Rightarrow> bool" where
  "mode_inv xs md n_mode cur n_cur =
     (xs \<noteq> [] \<and> cur = last xs \<and> n_cur = count_list xs cur \<and> n_mode = count_list xs md \<and> (\<forall>k. count_list xs k \<le> n_mode))"

lemma mode_loop_max:
  "mode_inv xs md n_mode cur n_cur \<Longrightarrow> sorted (xs @ vs) \<Longrightarrow>
   \<forall>k. count_list (xs @ vs) k \<le> count_list (xs @ vs) (mode_loop vs md n_mode cur n_cur)"
proof (induction vs arbitrary: xs md n_mode cur n_cur)
  case Nil
  then show ?case by (auto simp: mode_inv_def)
next
  case (Cons v vs)
  note inv = Cons.prems(1) [unfolded mode_inv_def]
  define n where "n = (if cur \<noteq> v then 0 else n_cur) + 1"
  have "v \<notin> set xs" if "cur \<noteq> v"
  proof
    assume "v \<in> set xs"
    moreover have "xs = butlast xs @ [last xs]" using inv by simp
    ultimately have "v \<le> last xs" using Cons.prems(2) by (metis Un_iff empty_iff empty_set insert_iff list.simps(15) order_refl set_append sorted_append)
    moreover have "last xs \<le> v" using Cons.prems(2) inv by (simp add: sorted_append)
    ultimately show False using that inv by simp
  qed
  then have n: "n = count_list (xs @ [v]) v" using inv by (auto simp: n_def count_notin)
  have s: "sorted ((xs @ [v]) @ vs)" using Cons.prems(2) by simp
  have le: "count_list (xs @ [v]) k \<le> max n_mode n" for k
    using inv n by (cases "k = v") (auto simp: le_max_iff_disj)
  show ?case
  proof (cases "n_mode < n")
    case True
    then have "mode_inv (xs @ [v]) v n v n" using n le by (auto simp: mode_inv_def max_def)
    from Cons.IH [OF this s] True show ?thesis by (simp add: n_def Let_def)
  next
    case False
    have "md \<noteq> v \<or> n_mode = 0" using False inv n by (auto)
    then have "mode_inv (xs @ [v]) md n_mode v n" using n le inv False by (auto simp: mode_inv_def max_def)
    from Cons.IH [OF this s] False show ?thesis by (simp add: n_def Let_def)
  qed
qed

text \<open>Rounding is monotone on the values a clock rate in MHz can have.\<close>

definition rate_ok :: "dbl \<Rightarrow> bool" where
  "rate_ok v = (\<exists>x. v = Fin x \<and> 0 \<le> x \<and> x \<le> 2 ^ 30)"

lemma to_mhz_mono:
  assumes "rate_ok a" "rate_ok b" "d_le a b"
  shows "to_mhz a \<le> to_mhz b"
proof -
  obtain x y where xy: "a = Fin x" "b = Fin y" "0 \<le> x" "x \<le> y" "y \<le> 2 ^ 30"
    using assms by (auto simp: rate_ok_def)
  have up: "rnd z \<le> 2 ^ 30 + 1" if "z \<le> 2 ^ 30 + 1 / 2" for z :: real
    using rnd.r_le_int [of "2 ^ 30 + 1" z] that by simp
  have lo: "0 \<le> rnd (x + 1 / 2)" "rnd (x + 1 / 2) \<le> rnd (y + 1 / 2)" using xy rnd.r_nonneg rnd.r_mono by auto
  have fin: "to_mhz (Fin z) = \<lfloor>rnd (z + 1 / 2)\<rfloor>" if "0 \<le> z" "z \<le> 2 ^ 30" for z
  proof -
    have b: "0 \<le> rnd (z + 1 / 2)" "rnd (z + 1 / 2) \<le> 2 ^ 30 + 1" using that up rnd.r_nonneg by auto
    have big: "(2 ^ 30 + 1 :: real) < dbl_max" unfolding dbl_max_def
      using power_strict_increasing [of 31 1024 "2 :: real"] by simp
    have "\<lfloor>rnd (z + 1 / 2)\<rfloor> \<le> 2 ^ 30 + 1" using b(2) floor_mono [OF b(2)] by simp
    moreover have "0 \<le> \<lfloor>rnd (z + 1 / 2)\<rfloor>" using b(1) by simp
    ultimately show ?thesis using b big by (simp add: to_mhz_def to_dbl_def Let_def d_trunc_def)
  qed
  show ?thesis using xy fin [of x] fin [of y] floor_mono [OF lo(2)] by simp
qed

lemma sorted_rates:
  assumes "\<forall>v \<in> set values. rate_ok v"
  shows "sorted (map to_mhz (qsort double_compare values))"
proof -
  let ?d = "qsort double_compare values"
  have ok: "\<forall>v \<in> set ?d. rate_ok v" using assms by (simp only: double_cmp.set_qsort)
  have valid: "\<forall>v \<in> set values. v \<noteq> NaN" using assms by (auto simp: rate_ok_def)
  have "sorted_wrt (\<lambda>a b. double_compare a b \<le> 0) ?d" using valid by (rule double_cmp.sorted_qsort)
  then have "sorted_wrt (\<lambda>a b. to_mhz a \<le> to_mhz b) ?d"
  proof (rule sorted_wrt_mono_rel [rotated])
    fix a b assume "a \<in> set ?d" "b \<in> set ?d" "double_compare a b \<le> 0"
    moreover from this have "a \<noteq> NaN" "b \<noteq> NaN" using ok by (auto simp: rate_ok_def)
    then have "d_le a b" using \<open>double_compare a b \<le> 0\<close> by (simp add: double_compare_le)
    ultimately show "to_mhz a \<le> to_mhz b" using ok to_mhz_mono by blast
  qed
  then show ?thesis by (simp add: sorted_map)
qed

lemma count_rates: "count_list (map to_mhz (qsort double_compare values)) k = count_list (map to_mhz values) k"
proof -
  have "mset (map to_mhz (qsort double_compare values)) = mset (map to_mhz values)"
    by (simp only: mset_map double_cmp.mset_qsort)
  then show ?thesis by (metis count_mset)
qed

section \<open>Bounds of the arrays\<close>

lemma push_all_fits: "length ys + length xs \<le> cap \<Longrightarrow> push_all cap xs ys = Some (ys @ xs)"
  by (induction xs arbitrary: ys) (simp_all add: push_def)

lemma push_all_full: "cap < length ys + length xs \<Longrightarrow> length ys \<le> cap \<Longrightarrow> push_all cap xs ys = None"
  by (induction xs arbitrary: ys) (simp_all add: push_def)

lemma length_cross: "2 * length (concat (map (cross_row values) [0..<length values])) = length values * (length values + 1)"
proof -
  have "2 * (\<Sum>i \<leftarrow> [0..<n]. m - i) = n * (2 * m - n + 1)" if "n \<le> m" for n m :: nat
    using that
  proof (induction n)
    case (Suc n)
    then obtain k where "m = Suc n + k" using le_iff_add by blast
    with Suc show ?case by (simp add: algebra_simps)
  qed simp
  from this [of "length values" "length values"]
  have "2 * (\<Sum>i \<leftarrow> [0..<length values]. length values - i) = length values * (length values + 1)" by simp
  moreover have "map (\<lambda>i. length (cross_row values i)) [0..<length values] = map (\<lambda>i. length values - i) [0..<length values]"
    by (auto simp: cross_row_def)
  ultimately show ?thesis by (simp only: length_concat map_map comp_def)
qed

lemma cross_fits: "2 \<le> n \<Longrightarrow> 2 * c = n * (n + 1) \<Longrightarrow> c < n * n" for n c :: nat
proof -
  assume "2 \<le> n" "2 * c = n * (n + 1)"
  then obtain k where "n = k + 2" by (metis le_add_diff_inverse2)
  with \<open>2 * c = n * (n + 1)\<close> have "2 * c < 2 * (n * n)" by (simp add: algebra_simps)
  then show "c < n * n" by simp
qed

lemma gcd_loop_fits: "length y \<le> cap \<Longrightarrow> \<exists>r. gcd_loop ks cap mn y result min_chi2 = Some r"
  by (induction ks arbitrary: result min_chi2) (simp_all add: push_all_fits Let_def)

lemma gcd_of_fits:
  assumes "2 \<le> length values"
  shows "\<exists>r. gcd_of values = Some r"
proof -
  let ?y = "concat (map (cross_row values) [0..<length values])"
  have c: "length ?y < length values * length values" using cross_fits [OF assms length_cross] .
  then have "cross_values values = Some ?y" by (simp add: cross_values_def push_all_fits)
  moreover have "push (length values * length values) (Fin 0) ?y = Some (?y @ [Fin 0])" using c by (simp add: push_def)
  moreover have "\<exists>mn. double_min values = Some mn" using assms by (cases "values") (auto simp: double_min_def best_of_def)
  ultimately show ?thesis using gcd_loop_fits [of "?y @ [Fin 0]"] c by (auto simp: gcd_of_def Let_def)
qed

text \<open>With a single value there is no room for the point at the origin.\<close>

lemma gcd_of_single: "gcd_of [v] = None"
  by (simp add: gcd_of_def double_min_def best_of_def cross_values_def cross_row_def push_def)

section \<open>compute_mhz\<close>

definition data_ok :: "result_t list \<Rightarrow> bool" where
  "data_ok r = (length r = NTESTS \<and> list_all (\<lambda>x. res_inv x \<and> length (res_v x) = TRIES) r)"

lemma those_all: "(\<And>x. x \<in> set xs \<Longrightarrow> \<exists>y. f x = Some y) \<Longrightarrow> \<exists>ys. those (map f xs) = Some ys \<and> length ys = length xs"
  by (induction xs) fastforce+

lemma subset_data_defined: "data_ok r \<Longrightarrow> i \<le> 1 \<Longrightarrow> \<exists>d. subset_data r i sub = Some d"
proof -
  assume r: "data_ok r" "i \<le> 1"
  have "\<exists>y. map_option val_key (arr_get (res_v (r ! j)) (res_N (r ! j) - 1 - i)) = Some y"
    if "j < NTESTS" "TRIES div 2 < res_N (r ! j)" for j
  proof -
    have "r ! j \<in> set r" using r(1) that(1) by (simp add: data_ok_def)
    then have "res_N (r ! j) \<le> length (res_v (r ! j))" using r(1) by (auto simp: data_ok_def list_all_iff res_inv_def)
    then show ?thesis using that(2) by (simp add: TRIES_def)
  qed
  then show ?thesis unfolding subset_data_def
    using those_all [of "filter (\<lambda>j. bit sub j \<and> TRIES div 2 < res_N (r ! j)) [0..<NTESTS]"
      "\<lambda>j. map_option val_key (arr_get (res_v (r ! j)) (res_N (r ! j) - 1 - i))"] by auto
qed

lemma subset_result_defined:
  assumes "data_ok r" "i \<le> 1"
  shows "\<exists>x. subset_result r i sub = Some x"
proof -
  obtain d where d: "subset_data r i sub = Some d" using subset_data_defined [OF assms] by blast
  obtain n v where f: "filter_data d = (n, v)" by force
  have n: "length (take n v) = n" using filter_data_filter [OF f] by (auto simp: length_filter_le)
  have "\<exists>c. classes (take n v) = Some c" if "2 \<le> n" using that n by (auto simp: classes_def Let_def)
  moreover have "\<exists>g. gcd_of (take n v) = Some g" if "2 \<le> n" using that n gcd_of_fits by metis
  ultimately show ?thesis by (cases "n < 2") (force simp: subset_result_def d f Let_def)+
qed

lemma all_results_defined:
  assumes "data_ok r" "i \<le> 1"
  shows "\<exists>rs. all_results r i = Some rs \<and> length rs \<le> 2 ^ NTESTS"
proof -
  obtain rs where rs: "those (map (subset_result r i) [0..<2 ^ NTESTS]) = Some rs" "length rs = length [0 :: nat..<2 ^ NTESTS]"
    using those_all [of "[0..<2 ^ NTESTS]" "subset_result r i"] subset_result_defined [OF assms] by blast
  then have "length (filter (\<lambda>x. x \<noteq> None) rs) \<le> 2 ^ NTESTS" using length_filter_le [of "\<lambda>x. x \<noteq> None" rs] by simp
  then show ?thesis by (simp add: all_results_def rs(1) push_all_fits)
qed

lemma mode_None: "mode values = None \<longleftrightarrow> values = []"
proof -
  have "qsort double_compare values = [] \<longleftrightarrow> values = []" using double_cmp.length_qsort [of "values"] by (metis length_0_conv)
  then show ?thesis by (auto simp: mode_def split: list.splits)
qed

section \<open>Collecting the data\<close>

definition rounds_ok :: "nat \<Rightarrow> result_t list \<Rightarrow> bool" where
  "rounds_ok j data = (data_ok data \<and> list_all (\<lambda>x. res_N x \<le> j) data)"

lemma measure_round_ok:
  assumes "rounds_ok j data" "j < TRIES"
  shows "\<exists>d. measure_round t data = Some d \<and> rounds_ok (Suc j) d"
proof -
  have "\<exists>r'. insertsort (fst (t k)) (snd (t k)) (data ! k) = Some r' \<and> res_inv r' \<and> length (res_v r') = TRIES \<and> res_N r' \<le> Suc j"
    if "k < NTESTS" for k
  proof -
    have "data ! k \<in> set data" using assms(1) that by (simp add: rounds_ok_def data_ok_def)
    then have "res_inv (data ! k)" "length (res_v (data ! k)) = TRIES" "res_N (data ! k) \<le> j"
      using assms(1) by (simp_all add: rounds_ok_def data_ok_def list_all_iff)
    with assms(2) insertsort_inv [of "data ! k" "fst (t k)" "snd (t k)"] show ?thesis by (auto split: if_splits)
  qed
  then obtain f where f: "\<forall>k < NTESTS. insertsort (fst (t k)) (snd (t k)) (data ! k) = Some (f k) \<and> res_inv (f k)
      \<and> length (res_v (f k)) = TRIES \<and> res_N (f k) \<le> Suc j" by metis
  then have "those (map (\<lambda>k. insertsort (fst (t k)) (snd (t k)) (data ! k)) [0..<NTESTS]) = Some (map f [0..<NTESTS])"
    by (intro those_map_value) auto
  then show ?thesis using f by (auto simp: measure_round_def rounds_ok_def data_ok_def list_all_iff)
qed

lemma measure_rounds_ok:
  "rounds_ok j data \<Longrightarrow> j + n \<le> TRIES \<Longrightarrow> \<exists>d. measure_rounds t [j..<j + n] data = Some d \<and> rounds_ok (j + n) d"
proof (induction n arbitrary: j data)
  case (Suc n)
  obtain d where d: "measure_round (t j) data = Some d" "rounds_ok (Suc j) d"
    using measure_round_ok [OF Suc.prems(1)] Suc.prems(2) by auto
  have "[j..<j + Suc n] = j # [Suc j..<Suc j + n]" by (simp add: upt_conv_Cons)
  with d Suc.IH [OF d(2)] Suc.prems(2) show ?case by simp
qed simp

lemma one_effort_ok:
  assumes "length data = NTESTS" "list_all (\<lambda>x. length (res_v x) = TRIES) data"
  shows "\<exists>d. one_effort t data = Some d \<and> data_ok d"
proof -
  have "rounds_ok 0 (map insertinit data)"
    using assms by (auto simp: rounds_ok_def data_ok_def list_all_iff res_inv_insertinit [unfolded insertinit_def] insertinit_def)
  from measure_rounds_ok [OF this, of TRIES t] show ?thesis by (auto simp: one_effort_def rounds_ok_def)
qed

section \<open>Properties\<close>

text \<open>\<open>mode\<close> returns a most common value: rounded to MHz, no value of the array occurs more often than the result.
  The values are rates up to 2^30 MHz.\<close>

theorem mode_most_common:
  assumes "values \<noteq> []" "\<forall>v \<in> set values. rate_ok v"
  shows "\<exists>m. mode values = Some m \<and> (\<forall>k. count_list (map to_mhz values) k \<le> count_list (map to_mhz values) m)"
proof -
  obtain v vs where v: "map to_mhz (qsort double_compare values) = v # vs"
    using assms(1) double_cmp.length_qsort [of "values"] by (cases "qsort double_compare values") auto
  have "mode_inv [v] v 1 v 1" by (auto simp: mode_inv_def)
  moreover have "sorted ([v] @ vs)" using sorted_rates [OF assms(2)] v by simp
  ultimately have "\<forall>k. count_list ([v] @ vs) k \<le> count_list ([v] @ vs) (mode_loop vs v 1 v 1)" by (rule mode_loop_max)
  then have "\<forall>k. count_list (map to_mhz values) k \<le> count_list (map to_mhz values) (mode_loop vs v 1 v 1)"
    using v count_rates by (metis append_Cons append_Nil)
  then show ?thesis using v by (simp add: mode_def)
qed

theorem mode_most_common_witness:
  "\<exists>m. mode [Fin 120, Fin 60, Fin 120] = Some m
     \<and> count_list (map to_mhz [Fin 120, Fin 60, Fin 120]) 120 \<le> count_list (map to_mhz [Fin 120, Fin 60, Fin 120]) m"
proof -
  have "\<forall>v \<in> set [Fin 120, Fin 60, Fin 120]. rate_ok v" by (simp add: rate_ok_def)
  from mode_most_common [OF _ this] show ?thesis by blast
qed

text \<open>The analysis of \<open>mhz\<close> stays inside of its arrays: whatever the loops measure, the collection of the data fills nine well-formed result
  arrays, every subset of them is analysed without an access outside of \<open>data\<close>, \<open>x\<close>, \<open>y\<close> and \<open>results\<close>,
  and the only undefined read is that of \<open>mode\<close> on an empty array, when no subset has enough distinct points.\<close>

theorem mhz_in_bounds:
  assumes "length data = NTESTS" "list_all (\<lambda>x. length (res_v x) = TRIES) data"
  shows "\<exists>d rs0 rs1. one_effort t data = Some d \<and> data_ok d \<and> all_results d 0 = Some rs0 \<and> all_results d 1 = Some rs1
     \<and> (compute_mhz d = None \<longleftrightarrow> rs0 = [] \<or> rs1 = [])"
proof -
  obtain d where d: "one_effort t data = Some d" "data_ok d" using one_effort_ok [OF assms] by blast
  obtain rs0 rs1 where rs: "all_results d 0 = Some rs0" "all_results d 1 = Some rs1"
    using all_results_defined [OF d(2), of 0] all_results_defined [OF d(2), of 1] by auto
  have "compute_mhz d = None \<longleftrightarrow> rs0 = [] \<or> rs1 = []"
    using mode_None [of rs0] mode_None [of rs1] by (cases "mode rs0"; cases "mode rs1") (auto simp: compute_mhz_def rs rs(2) [unfolded One_nat_def] Let_def)
  with d rs show ?thesis by (intro exI [of _ d] exI [of _ rs0] exI [of _ rs1] conjI)
qed

definition demo_data :: "result_t list" where
  "demo_data = replicate 9 \<lparr>res_N = 0, res_v = replicate 11 \<lparr>val_u = 0, val_n = 0\<rparr>\<rparr>"

theorem mhz_in_bounds_witness:
  "\<exists>d rs0. one_effort (\<lambda>j k. (100, 1000)) demo_data = Some d \<and> data_ok d \<and> all_results d 0 = Some rs0"
proof -
  have "length demo_data = NTESTS" "list_all (\<lambda>x. length (res_v x) = TRIES) demo_data"
    by (simp_all add: demo_data_def NTESTS_def TRIES_def list_all_iff)
  from mhz_in_bounds [OF this] show ?thesis by blast
qed

end
