(* ===== verification/Lmdd_Args.thy ===== *)
theory Lmdd_Args
  imports Memchain
begin

text \<open>
  The command line of the copy program \<open>src/lmdd.c\<close>: \<open>chkarg\<close>, \<open>getarg\<close>, \<open>getfile\<close> and the options \<open>main\<close>
  derives from them. Numbers pass through \<open>uint64\<close> and, for most options, \<open>int\<close>, as in the code; an option
  that is not given is -1. The build is the one for QNX: \<open>FLUSH\<close> and \<open>O_SYNC\<close> are defined, \<open>DBG\<close>, \<open>RUSAGE\<close>, \<open>O_DIRECT\<close>,
  \<open>USE_BDS\<close>, \<open>sgi\<close> and \<open>hpux\<close> are not.
\<close>

section \<open>Arguments\<close>

definition cmds :: "string list" where
  "cmds = [''bs'', ''bufs'', ''count'', ''flush'', ''fork'', ''fsync'', ''if'', ''ipat'', ''label'', ''mismatch'',
     ''move'', ''of'', ''opat'', ''print'', ''rand'', ''poff'', ''skip'', ''sync'', ''touch'', ''usleep'', ''hash'',
     ''append'', ''rtmax'', ''wtmax'', ''rtmin'', ''wtmin'', ''realtime'', ''notrunc'', ''end'', ''start'', ''time'',
     ''srand'', ''padin'', ''norepeat'', ''timeopen'', ''nocreate'', ''osync'']"

text \<open>\<open>for (a = arg, b = cmds[i]; *a && *b && *a == *b; a++, b++);\<close>: what is left of the argument.\<close>

fun match_rest :: "string \<Rightarrow> string \<Rightarrow> string" where
  "match_rest (a # as) (b # bs) = (if a = b then match_rest as bs else a # as)"
| "match_rest as bs = as"

definition chkarg :: "string \<Rightarrow> bool" where
  "chkarg arg = list_ex (\<lambda>cmd. case match_rest arg cmd of [] \<Rightarrow> False | c # _ \<Rightarrow> c = CHR ''='') cmds"

text \<open>\<open>!strncmp(av[i], s, len)\<close>\<close>

definition starts_with :: "string \<Rightarrow> string \<Rightarrow> bool" where
  "starts_with s w = (take (length s) w = s)"

text \<open>The first argument with the prefix, its index counted from \<open>i\<close>.\<close>

fun find_arg :: "string \<Rightarrow> nat \<Rightarrow> string list \<Rightarrow> (nat \<times> string) option" where
  "find_arg s i [] = None"
| "find_arg s i (w # ws) = (if starts_with s w then Some (i, w) else find_arg s (Suc i) ws)"

text \<open>\<open>getarg\<close> returns the number after the prefix, and for the label its address; \<open>ptr i\<close> is \<open>av[i]\<close>.\<close>

definition getarg :: "(nat \<Rightarrow> u64) \<Rightarrow> string list \<Rightarrow> string \<Rightarrow> u64 option" where
  "getarg ptr av s =
     (case find_arg s 1 (tl av) of
        None \<Rightarrow> Some (- 1)
      | Some (i, w) \<Rightarrow>
          do { bs \<leftarrow> bytes (drop (length s) w);
               Some (if starts_with ''label='' w then ptr i + of_nat (length s) else bs) })"

section \<open>Options\<close>

text \<open>Assignment of a \<open>uint64\<close> to an \<open>int\<close>, and back in a comparison or division.\<close>

definition u_int :: "u64 \<Rightarrow> int" where
  "u_int w = sint (ucast w :: i32)"

definition int_u :: "int \<Rightarrow> u64" where
  "int_u x = of_int x"

text \<open>\<open>ALIGN(x, bs)\<close> in 64 bits; \<open>bs\<close> is an \<open>int\<close>.\<close>

definition ALIGN :: "u64 \<Rightarrow> int \<Rightarrow> u64" where
  "ALIGN x bs = (x + int_u (wrap32 (bs - 1))) AND NOT (int_u (wrap32 (bs - 1)))"

record lmdd_opts =
  o_mismatch :: int
  o_inpat :: int
  o_outpat :: int
  o_Bsize :: int
  o_slp :: int
  o_Fork :: int
  o_Fsync :: int
  o_Sync :: int
  o_Rand :: u64
  o_Start :: u64
  o_End :: u64
  o_time :: int
  o_poff :: bool
  o_Print :: int
  o_nbufs :: int
  o_Rtmax :: int
  o_Rtmin :: int
  o_Wtmax :: int
  o_Wtmin :: int
  o_timeopen :: int
  o_pad_in :: int
  o_touch :: bool
  o_hash :: bool
  o_Label :: u64
  o_count :: u64
  o_size :: u64
  o_Flush :: int
  o_skip :: u64
  o_norepeat :: bool

text \<open>\<open>if ((max != -1) && (max < 10)) max = 10;\<close> and \<open>if ((max != -1) && (min == -1)) min = 0;\<close>\<close>

definition hist_max :: "int \<Rightarrow> int" where
  "hist_max mx = (if mx \<noteq> - 1 \<and> mx < 10 then 10 else mx)"

definition hist_min :: "int \<Rightarrow> int \<Rightarrow> int" where
  "hist_min mx mn = (if mx \<noteq> - 1 \<and> mn = - 1 then 0 else mn)"

text \<open>The number of blocks: \<open>count=\<close>, or \<open>move=\<close> divided by the block size; and the size of the area for random
  offsets.\<close>

definition block_count :: "u64 \<Rightarrow> u64 \<Rightarrow> int \<Rightarrow> u64 option" where
  "block_count cnt sz bsize =
     (if sz = - 1 then Some cnt else if int_u bsize = 0 then None else Some (sz div int_u bsize))"

definition rand_size :: "u64 \<Rightarrow> u64 \<Rightarrow> int \<Rightarrow> u64" where
  "rand_size rnd_area sz bsize = (if rnd_area = - 1 then sz else ALIGN (rnd_area - int_u bsize) bsize)"

text \<open>The assignments of the first half of \<open>main\<close>, with \<open>count\<close> and \<open>size\<close> as they are on the command line.\<close>

definition read_options :: "(nat \<Rightarrow> u64) \<Rightarrow> string list \<Rightarrow> lmdd_opts option" where
  "read_options ptr av =
     (let arg = getarg ptr av in
      do { mismatch \<leftarrow> arg ''mismatch=''; inpat \<leftarrow> arg ''ipat=''; outpat \<leftarrow> arg ''opat='';
           bs \<leftarrow> arg ''bs='';
           let Bsize = (if u_int bs < 0 then 8192 else u_int bs);
           slp \<leftarrow> arg ''usleep=''; Fork \<leftarrow> arg ''fork=''; Fsync \<leftarrow> arg ''fsync=''; Sync \<leftarrow> arg ''sync='';
           Rand \<leftarrow> arg ''rand=''; Start \<leftarrow> arg ''start=''; End \<leftarrow> arg ''end=''; time \<leftarrow> arg ''time='';
           let End = (if End \<noteq> - 1 \<and> Rand \<noteq> - 1 \<and> End > Rand then Rand else End);
           poff \<leftarrow> arg ''poff=''; Print \<leftarrow> arg ''print=''; nbufs \<leftarrow> arg ''bufs='';
           rmax \<leftarrow> arg ''rtmax=''; rmin \<leftarrow> arg ''rtmin=''; wmax \<leftarrow> arg ''wtmax=''; wmin \<leftarrow> arg ''wtmin='';
           let Rtmax = hist_max (u_int rmax); let Wtmax = hist_max (u_int wmax);
           timeopen \<leftarrow> arg ''timeopen=''; pad_in \<leftarrow> arg ''padin='';
           touch \<leftarrow> arg ''touch=''; hsh \<leftarrow> arg ''hash=''; Label \<leftarrow> arg ''label='';
           cnt \<leftarrow> arg ''count=''; sz \<leftarrow> arg ''move='';
           Flush \<leftarrow> arg ''flush=''; skip \<leftarrow> arg ''skip=''; norepeat \<leftarrow> arg ''norepeat='';
           Some \<lparr>o_mismatch = u_int mismatch, o_inpat = u_int inpat, o_outpat = u_int outpat, o_Bsize = Bsize,
                 o_slp = u_int slp, o_Fork = u_int Fork, o_Fsync = u_int Fsync, o_Sync = u_int Sync, o_Rand = Rand,
                 o_Start = Start, o_End = End, o_time = u_int time, o_poff = (poff \<noteq> - 1), o_Print = u_int Print,
                 o_nbufs = (if u_int nbufs = - 1 then 1 else u_int nbufs),
                 o_Rtmax = Rtmax, o_Rtmin = hist_min Rtmax (u_int rmin),
                 o_Wtmax = Wtmax, o_Wtmin = hist_min Wtmax (u_int wmin),
                 o_timeopen = u_int timeopen, o_pad_in = (if u_int pad_in = - 1 then 0 else u_int pad_in),
                 o_touch = (touch \<noteq> - 1), o_hash = (hsh \<noteq> - 1), o_Label = Label, o_count = cnt,
                 o_size = sz, o_Flush = u_int Flush, o_skip = skip, o_norepeat = (norepeat \<noteq> - 1)\<rparr> })"

text \<open>The checks of \<open>main\<close>, each of which ends the program with status 1, in their order.\<close>

definition bad_range :: "lmdd_opts \<Rightarrow> bool" where
  "bad_range opt = (o_Rtmin opt \<noteq> 0 \<and> o_Rtmax opt = 0 \<or> o_Wtmin opt \<noteq> 0 \<and> o_Wtmax opt = 0
     \<or> o_Rtmax opt < o_Rtmin opt \<or> o_Wtmax opt < o_Wtmin opt)"

definition bad_block :: "lmdd_opts \<Rightarrow> bool" where
  "bad_block opt = ((o_inpat opt \<noteq> - 1 \<or> o_outpat opt \<noteq> - 1) \<and> o_Bsize opt AND 3 \<noteq> 0 \<or> drop_bit 2 (o_Bsize opt) = 0)"

definition lmdd_options :: "(nat \<Rightarrow> u64) \<Rightarrow> string list \<Rightarrow> lmdd_opts outcome" where
  "lmdd_options ptr av =
     (if \<not> list_all chkarg (tl av) then Exit 1
      else andthen (defined (read_options ptr av)) (\<lambda>opt.
             if bad_range opt \<or> 10 < o_nbufs opt then Exit 1
             else andthen (defined (block_count (o_count opt) (o_size opt) (o_Bsize opt))) (\<lambda>n.
                    let opt = opt\<lparr>o_count := n, o_size := rand_size (o_Rand opt) (o_size opt) (o_Bsize opt)\<rparr> in
                    if bad_block opt then Exit 1 else Done opt)))"

section \<open>Files\<close>

text \<open>What \<open>getfile\<close> does: a descriptor that is there already (-2 for none), or a call of \<open>open\<close>.\<close>

record open_flags =
  of_trunc :: bool
  of_creat :: bool
  of_append :: bool
  of_sync :: bool

datatype file_choice = Fd int | Open_out string open_flags | Open_in string

definition given :: "(nat \<Rightarrow> u64) \<Rightarrow> string list \<Rightarrow> string \<Rightarrow> bool" where
  "given ptr av s = (getarg ptr av s \<noteq> Some (- 1))"

definition choose_out :: "(nat \<Rightarrow> u64) \<Rightarrow> string list \<Rightarrow> string \<Rightarrow> file_choice" where
  "choose_out ptr av w =
     (if w = ''of=internal'' then Fd (- 2)
      else if w = ''of=stdout'' \<or> w = ''of=1'' \<or> w = ''of=-'' then Fd 1
      else if w = ''of=stderr'' \<or> w = ''of=2'' then Fd 2
      else let append = given ptr av ''append=''; notrunc = given ptr av ''notrunc='' in
           Open_out (drop 3 w) \<lparr>of_trunc = (\<not> (notrunc \<or> append)), of_creat = (\<not> given ptr av ''nocreate=''),
                                 of_append = append, of_sync = given ptr av ''osync=''\<rparr>)"

definition choose_in :: "string \<Rightarrow> file_choice" where
  "choose_in w =
     (if w = ''if=internal'' then Fd (- 2)
      else if w = ''if=stdin'' \<or> w = ''if=0'' \<or> w = ''if=-'' then Fd 0
      else Open_in (drop 3 w))"

text \<open>The result is the descriptor and the name kept in \<open>output\<close>; \<open>opened\<close> is what \<open>open\<close> returns.\<close>

definition getfile :: "(nat \<Rightarrow> u64) \<Rightarrow> string list \<Rightarrow> (file_choice \<Rightarrow> int) \<Rightarrow> string \<Rightarrow> string option \<Rightarrow> (int \<times> string option) outcome" where
  "getfile ptr av opened s output =
     (case find_arg s 1 (tl av) of
        None \<Rightarrow> Done (- 2, output)
      | Some (_, w) \<Rightarrow>
          let ch = (if take 1 w = ''o'' then choose_out ptr av w else choose_in w) in
          case ch of
            Fd fd \<Rightarrow> Done (fd, output)
          | Open_out path _ \<Rightarrow> if opened ch = - 1 then Exit 1 else Done (opened ch, Some path)
          | Open_in path \<Rightarrow> if opened ch = - 1 then Exit 1 else Done (opened ch, output))"

section \<open>Accepted arguments\<close>

definition cut_short :: "string \<Rightarrow> string \<Rightarrow> bool" where
  "cut_short arg cmd = (\<exists>p q r. cmd = p @ q \<and> arg = p @ CHR ''='' # r)"

lemma cut_short_Cons: "b \<noteq> CHR ''='' \<Longrightarrow> cut_short (a # as) (b # bs) \<longleftrightarrow> a = CHR ''='' \<or> a = b \<and> cut_short as bs"
proof
  assume "b \<noteq> CHR ''=''" "cut_short (a # as) (b # bs)"
  then obtain p q r where "b # bs = p @ q" "a # as = p @ CHR ''='' # r" by (auto simp: cut_short_def)
  then show "a = CHR ''='' \<or> a = b \<and> cut_short as bs" by (cases p) (auto simp: cut_short_def)
next
  assume "b \<noteq> CHR ''=''" and *: "a = CHR ''='' \<or> a = b \<and> cut_short as bs"
  from * show "cut_short (a # as) (b # bs)"
  proof
    assume "a = CHR ''=''"
    then have "b # bs = [] @ (b # bs) \<and> a # as = [] @ CHR ''='' # as" by simp
    then show ?thesis unfolding cut_short_def by blast
  next
    assume "a = b \<and> cut_short as bs"
    then obtain p q r where "b # bs = (b # p) @ q" "a # as = (b # p) @ CHR ''='' # r" by (auto simp: cut_short_def)
    then show ?thesis unfolding cut_short_def by blast
  qed
qed

lemma cut_short_simps: "\<not> cut_short [] cmd" "cut_short (a # as) [] \<longleftrightarrow> a = CHR ''=''"
  by (auto simp: cut_short_def)

lemma match_rest_eq:
  "CHR ''='' \<notin> set cmd \<Longrightarrow> (case match_rest arg cmd of [] \<Rightarrow> False | c # _ \<Rightarrow> c = CHR ''='') \<longleftrightarrow> cut_short arg cmd"
  by (induction arg cmd rule: match_rest.induct) (auto simp: cut_short_Cons cut_short_simps split: list.splits)

text \<open>\<open>chkarg\<close> accepts an argument that starts with any beginning of a command, even the empty one, and an equal sign, although \<open>getarg\<close> knows
  only the full names.\<close>

lemma chkarg_iff: "chkarg arg \<longleftrightarrow> (\<exists>cmd \<in> set cmds. cut_short arg cmd)"
proof -
  have "list_all (\<lambda>cmd. CHR ''='' \<notin> set cmd) cmds" by code_simp
  then show ?thesis unfolding chkarg_def list_ex_iff list_all_iff using match_rest_eq by blast
qed

lemma chkarg_abbreviated: "chkarg ''b=4k'' \<and> getarg ptr [''lmdd'', ''b=4k''] ''bs='' = Some (- 1)"
proof -
  have "chkarg ''b=4k''" "\<not> starts_with ''bs='' ''b=4k''" by code_simp+
  then show ?thesis by (simp add: getarg_def)
qed

text \<open>What is known of the options after the checks.\<close>

lemma read_options_block: "read_options ptr av = Some opt \<Longrightarrow> 0 \<le> o_Bsize opt"
  unfolding read_options_def Let_def by (clarsimp simp: bind_eq_Some_conv)

lemma options_block:
  assumes "lmdd_options ptr av = Done opt"
  shows "4 \<le> o_Bsize opt" "o_nbufs opt \<le> 10" "o_Rtmin opt \<le> o_Rtmax opt" "o_Wtmin opt \<le> o_Wtmax opt"
proof -
  from assms obtain opt0 where r: "read_options ptr av = Some opt0"
    by (auto simp: lmdd_options_def andthen_def defined_def split: if_splits option.splits)
  then have "\<not> bad_range opt0 \<and> o_nbufs opt0 \<le> 10"
    using assms by (auto simp: lmdd_options_def split: if_splits)
  moreover from this obtain n where n: "block_count (o_count opt0) (o_size opt0) (o_Bsize opt0) = Some n"
    using assms r by (auto simp: lmdd_options_def defined_def split: if_splits option.splits)
  ultimately have opt: "opt = opt0\<lparr>o_count := n, o_size := rand_size (o_Rand opt0) (o_size opt0) (o_Bsize opt0)\<rparr>" "\<not> bad_block opt"
    using assms r by (auto simp: lmdd_options_def Let_def split: if_splits)
  show "4 \<le> o_Bsize opt" using opt read_options_block [OF r] by (auto simp: bad_block_def drop_bit_eq_div)
  show "o_nbufs opt \<le> 10" "o_Rtmin opt \<le> o_Rtmax opt" "o_Wtmin opt \<le> o_Wtmax opt"
    using opt(1) \<open>\<not> bad_range opt0 \<and> o_nbufs opt0 \<le> 10\<close> by (auto simp: bad_range_def)
qed

end
