(* ===== verification/Lmdd.thy ===== *)
theory Lmdd
  imports Lmdd_Args Timing
begin

text \<open>
  The copy loop of \<open>src/lmdd.c\<close>. One pass of the endless loop of \<open>main\<close> is a function of the state and of what the
  operating system answers in it; the trace collects the seeks, the bytes read and written, and the reports of
  pattern mismatches. Progress marks, sleeping and the warnings about slow operations are left
  out, they change nothing. With \<open>time=\<close> an alarm calls \<open>done\<close> at any point of the loop; that is not modelled, and
  the theorems are about runs without it.
\<close>

type_synonym byte = "8 word"

section \<open>Patterns\<close>

text \<open>\<open>((uint *)buf)[j]\<close> on a little-endian machine.\<close>

definition get_word :: "byte list \<Rightarrow> nat \<Rightarrow> u32" where
  "get_word buf j = ucast (buf ! (4 * j)) OR push_bit 8 (ucast (buf ! (4 * j + 1)))
     OR push_bit 16 (ucast (buf ! (4 * j + 2))) OR push_bit 24 (ucast (buf ! (4 * j + 3)))"

definition set_word :: "nat \<Rightarrow> u32 \<Rightarrow> byte list \<Rightarrow> byte list" where
  "set_word j w buf = buf[4 * j := ucast w, 4 * j + 1 := ucast (drop_bit 8 w), 4 * j + 2 := ucast (drop_bit 16 w),
                          4 * j + 3 := ucast (drop_bit 24 w)]"

text \<open>\<open>(uint)(off + foo*sizeof(int))\<close>\<close>

definition pattern :: "u64 \<Rightarrow> nat \<Rightarrow> u32" where
  "pattern off foo = ucast (off + of_nat (4 * foo))"

fun write_words :: "u64 \<Rightarrow> nat list \<Rightarrow> byte list \<Rightarrow> byte list" where
  "write_words off [] buf = buf"
| "write_words off (j # js) buf = write_words off js (set_word j (pattern off j) buf)"

text \<open>\<open>for (foo = 0, cnt = moved/sizeof(int); cnt--; foo++) buf[foo] = ...\<close>\<close>

definition write_pattern :: "u64 \<Rightarrow> nat \<Rightarrow> byte list \<Rightarrow> byte list option" where
  "write_pattern off moved buf = (if length buf < 4 * (moved div 4) then None else Some (write_words off [0..<moved div 4] buf))"

text \<open>The mismatches that are reported, the value of \<open>misses\<close>, and whether \<open>done\<close> is called.\<close>

fun check_words :: "bool \<Rightarrow> u64 \<Rightarrow> byte list \<Rightarrow> nat list \<Rightarrow> int \<Rightarrow> (u32 \<times> u32) list \<times> int \<times> bool" where
  "check_words limited off buf [] misses = ([], misses, False)"
| "check_words limited off buf (j # js) misses =
     (if get_word buf j = pattern off j then check_words limited off buf js misses
      else
        let m = (pattern off j, get_word buf j); misses = (if limited then wrap32 (misses - 1) else misses)
        in if limited \<and> misses = 0 then ([m], misses, True)
           else let (ms, misses, stopped) = check_words limited off buf js misses in (m # ms, misses, stopped))"

definition check_pattern :: "int \<Rightarrow> u64 \<Rightarrow> nat \<Rightarrow> byte list \<Rightarrow> int \<Rightarrow> ((u32 \<times> u32) list \<times> int \<times> bool) option" where
  "check_pattern mismatch off moved buf misses =
     (if length buf < 4 * (moved div 4) then None
      else Some (check_words (mismatch \<noteq> - 1) off buf [0..<moved div 4] misses))"

text \<open>\<open>for (i = 0; i < moved; i += 4096) ((char *)buf)[i] = 0;\<close>\<close>

definition touch_buf :: "nat \<Rightarrow> byte list \<Rightarrow> byte list option" where
  "touch_buf moved buf =
     (if length buf < moved then None
      else Some (map (\<lambda>i. if i < moved \<and> i mod 4096 = 0 then 0 else buf ! i) [0..<length buf]))"

section \<open>Histograms\<close>

text \<open>The bucket of a time in milliseconds, between \<open>mn\<close> and \<open>mx\<close>; \<open>None\<close> when the loop finds none.\<close>

definition bucket :: "int \<Rightarrow> int \<Rightarrow> int \<Rightarrow> nat option" where
  "bucket mx mn mills =
     (if mx \<le> mills then Some 11
      else if mills < mn then Some 0
      else let stp = c_div (mx - mn) 10 in List.find (\<lambda>i. mills < int i * stp + mn) [1..<11])"

definition bump :: "int \<Rightarrow> int \<Rightarrow> u64 \<Rightarrow> int list \<Rightarrow> int list" where
  "bump mx mn mics hist =
     (if mx = - 1 \<and> mn = - 1 then hist
      else case bucket mx mn (c_div (u_int mics) 1000) of
             None \<Rightarrow> hist
           | Some i \<Rightarrow> hist[i := wrap32 (hist ! i + 1)])"

section \<open>State\<close>

datatype event = Seek_in u64 | Seek_out u64 | Got "byte list" | Put "byte list" | Mismatch "u32 \<times> u32"

record lmdd =
  ld_off :: u64
  ld_int_count :: u64
  ld_gotcnt :: bool
  ld_count :: u64
  ld_misses :: int
  ld_bufs :: "byte list list"
  ld_nextbuf :: nat
  ld_pad_in :: int
  ld_rthist :: "int list"
  ld_wthist :: "int list"
  ld_norepeat :: "u64 list option"
  ld_norepeats :: int
  ld_start :: u64
  ld_trace :: "event list"

text \<open>What happens in one pass: the answers of \<open>drand48\<close>, the result of \<open>read\<close> (\<open>None\<close> for -1), the two times in
  microseconds, the results of \<open>fork\<close> and \<open>write\<close>.\<close>

record pass_env =
  pv_drand :: "dbl list"
  pv_read :: "byte list option"
  pv_rmics :: u64
  pv_fork :: int
  pv_write :: int
  pv_wmics :: u64

text \<open>A pass ends with the next pass, with a call of \<open>done\<close>, or with the exit of the child that \<open>fork=\<close> created.\<close>

datatype pass_end = Again lmdd | Finished lmdd | Child_exit lmdd

definition lmdd_start :: "lmdd_opts \<Rightarrow> lmdd" where
  "lmdd_start opt =
     \<lparr>ld_off = (if o_skip opt = - 1 then 0 else o_skip opt * int_u (o_Bsize opt)), ld_int_count = 0,
      ld_gotcnt = (o_count opt \<noteq> - 1), ld_count = o_count opt, ld_misses = o_mismatch opt,
      ld_bufs = replicate (nat (o_nbufs opt)) (replicate (nat (o_Bsize opt)) 0), ld_nextbuf = 0,
      ld_pad_in = o_pad_in opt, ld_rthist = replicate 12 0, ld_wthist = replicate 12 0,
      ld_norepeat = (if o_norepeat opt
                     then Some (replicate (if o_count opt = - 1 then 10240 else unat (o_count opt)) 0) else None),
      ld_norepeats = - 1, ld_start = 0, ld_trace = []\<rparr>"

section \<open>Random offsets\<close>

fun been_loop :: "u64 list \<Rightarrow> u64 \<Rightarrow> nat list \<Rightarrow> bool option" where
  "been_loop arr off [] = Some False"
| "been_loop arr off (i # todo) = do { v \<leftarrow> arr_get arr i; if off = v then Some True else been_loop arr off todo }"

definition been_there :: "u64 list option \<Rightarrow> int \<Rightarrow> u64 \<Rightarrow> bool option" where
  "been_there norepeat norepeats off =
     (case norepeat of None \<Rightarrow> Some False | Some arr \<Rightarrow> been_loop arr off [0..<nat (norepeats + 1)])"

text \<open>The offset of one answer of \<open>drand48\<close>, with \<open>End\<close> and without.\<close>

definition end_offset :: "lmdd_opts \<Rightarrow> u64 \<Rightarrow> dbl \<Rightarrow> u64" where
  "end_offset opt st x =
     (let off = ALIGN (u64_of_dbl (d_mul x (d_of_u64 (o_End opt)))) (o_Bsize opt) + st
      in if o_Start opt \<noteq> - 1 then off + o_Start opt else off)"

definition rand_offset :: "lmdd_opts \<Rightarrow> dbl \<Rightarrow> u64" where
  "rand_offset opt x =
     (let off = u64_of_dbl (d_mul x (d_of_u64 (o_size opt - int_u (o_Bsize opt))));
          off = (if o_Start opt \<noteq> - 1 then off + o_Start opt else off)
      in ALIGN off (o_Bsize opt))"

text \<open>\<open>do { off = ... } while (norepeat && been_there(off));\<close>: \<open>None\<close> when the answers run out.\<close>

fun draw :: "(dbl \<Rightarrow> u64) \<Rightarrow> (u64 \<Rightarrow> bool option) \<Rightarrow> dbl list \<Rightarrow> u64 option" where
  "draw offset there [] = None"
| "draw offset there (x # xs) =
     do { again \<leftarrow> there (offset x); if again then draw offset there xs else Some (offset x) }"

text \<open>\<open>norepeat[norepeats++] = off;\<close> and the reset of the index.\<close>

definition remember :: "u64 \<Rightarrow> lmdd \<Rightarrow> lmdd option" where
  "remember off s =
     (case ld_norepeat s of
        None \<Rightarrow> Some s
      | Some arr \<Rightarrow>
          if ld_norepeats s < 0 then None
          else do { arr \<leftarrow> arr_set arr (nat (ld_norepeats s)) off;
                    let n = ld_norepeats s + 1;
                    Some (s\<lparr>ld_norepeat := Some arr, ld_norepeats := (if \<not> ld_gotcnt s \<and> n = 10240 then 0 else n)\<rparr>) })"

definition seeks :: "int \<Rightarrow> int \<Rightarrow> u64 \<Rightarrow> event list" where
  "seeks fin fout off = (if 0 \<le> fin then [Seek_in off] else []) @ (if 0 \<le> fout then [Seek_out off] else [])"

definition choose_offset :: "lmdd_opts \<Rightarrow> int \<Rightarrow> int \<Rightarrow> dbl list \<Rightarrow> lmdd \<Rightarrow> lmdd option" where
  "choose_offset opt fin fout xs s =
     (let there = been_there (ld_norepeat s) (ld_norepeats s) in
      if o_End opt \<noteq> - 1 then
        let st = (if ld_start s \<noteq> 0 then 0 else o_Rand opt - o_End opt) in
        do { off \<leftarrow> draw (end_offset opt st) there xs;
             s \<leftarrow> remember off (s\<lparr>ld_start := st\<rparr>);
             Some (s\<lparr>ld_off := off, ld_trace := ld_trace s @ seeks fin fout off\<rparr>) }
      else if o_Rand opt \<noteq> - 1 then
        do { off \<leftarrow> draw (rand_offset opt) there xs;
             s \<leftarrow> remember off s;
             Some (s\<lparr>ld_off := off, ld_trace := ld_trace s @ seeks fin fout off\<rparr>) }
      else Some s)"

section \<open>One pass\<close>

definition put_buf :: "nat \<Rightarrow> byte list \<Rightarrow> lmdd \<Rightarrow> lmdd" where
  "put_buf b buf s = s\<lparr>ld_bufs := (ld_bufs s)[b := buf]\<rparr>"

definition trace :: "event list \<Rightarrow> lmdd \<Rightarrow> lmdd" where
  "trace ev s = s\<lparr>ld_trace := ld_trace s @ ev\<rparr>"

text \<open>The end of a pass: \<open>off += moved; int_count += (moved >> 2);\<close>\<close>

definition advance :: "nat \<Rightarrow> lmdd \<Rightarrow> lmdd" where
  "advance moved s = s\<lparr>ld_off := ld_off s + of_nat moved, ld_int_count := ld_int_count s + of_nat (moved div 4)\<rparr>"

text \<open>The part of the pass after the check of the pattern: the output.\<close>

definition output_block :: "lmdd_opts \<Rightarrow> int \<Rightarrow> pass_env \<Rightarrow> nat \<Rightarrow> nat \<Rightarrow> lmdd \<Rightarrow> pass_end option" where
  "output_block opt fout e b moved s =
     (let finish = (\<lambda>s. if o_Fork opt \<noteq> - 1 then Child_exit (advance moved s) else Again (advance moved s)) in
      if fout < 0 then Some (finish s)
      else if o_Fork opt \<noteq> - 1 \<and> pv_fork e \<noteq> 0 then Some (Again (advance moved s))
      else
        do { buf \<leftarrow> arr_get (ld_bufs s) b;
             buf \<leftarrow> (if o_outpat opt \<noteq> - 1 then write_pattern (ld_off s) moved buf else Some buf);
             let s = trace [Put (take (nat (pv_write e)) buf)] (put_buf b buf s);
             if pv_write e \<noteq> int moved then Some (Finished s)
             else
               do { let s = s\<lparr>ld_wthist := bump (o_Wtmax opt) (o_Wtmin opt) (pv_wmics e) (ld_wthist s)\<rparr>;
                    buf \<leftarrow> (if o_touch opt then touch_buf moved buf else Some buf);
                    Some (finish (put_buf b buf s)) } })"

text \<open>The part after the input: the check of the pattern and touching the buffer.\<close>

definition handle_block :: "lmdd_opts \<Rightarrow> int \<Rightarrow> int \<Rightarrow> pass_env \<Rightarrow> nat \<Rightarrow> nat \<Rightarrow> lmdd \<Rightarrow> pass_end option" where
  "handle_block opt fin fout e b moved s =
     do { buf \<leftarrow> arr_get (ld_bufs s) b;
          (ms, misses, stopped) \<leftarrow> (if o_inpat opt \<noteq> - 1 then check_pattern (o_mismatch opt) (ld_off s) moved buf (ld_misses s)
                                     else Some ([], ld_misses s, False));
          let s = trace (map Mismatch ms) (s\<lparr>ld_misses := misses\<rparr>);
          if stopped then Some (Finished s)
          else
            do { buf \<leftarrow> (if 0 \<le> fin \<and> o_touch opt then touch_buf moved buf else Some buf);
                 output_block opt fout e b moved (put_buf b buf s) } }"

definition lmdd_pass :: "lmdd_opts \<Rightarrow> int \<Rightarrow> int \<Rightarrow> pass_env \<Rightarrow> lmdd \<Rightarrow> pass_end option" where
  "lmdd_pass opt fin fout e s =
     (if ld_gotcnt s \<and> ld_count s = 0 then Some (Finished (s\<lparr>ld_count := - 1\<rparr>))
      else
        do { let s = (if ld_gotcnt s then s\<lparr>ld_count := ld_count s - 1\<rparr> else s);
             s \<leftarrow> choose_offset opt fin fout (pv_drand e) s;
             let b = ld_nextbuf s;
             buf \<leftarrow> arr_get (ld_bufs s) b;
             let s = s\<lparr>ld_nextbuf := (if int (b + 1) = o_nbufs opt then 0 else b + 1)\<rparr>;
             if 0 \<le> fin then
               let bs = (case pv_read e of None \<Rightarrow> [] | Some bs \<Rightarrow> bs);
                   s = trace [Got bs] (put_buf b (bs @ drop (length bs) buf) s)
               in if ld_pad_in s \<noteq> 0 then Some (Again (s\<lparr>ld_pad_in := 0, ld_count := ld_count s + 1\<rparr>))
                  else
                    let s = s\<lparr>ld_rthist := bump (o_Rtmax opt) (o_Rtmin opt) (pv_rmics e) (ld_rthist s)\<rparr>
                    in if bs = [] then Some (Finished s) else handle_block opt fin fout e b (length bs) s
             else if o_Bsize opt \<le> 0 then Some (Finished s)
             else handle_block opt fin fout e b (nat (o_Bsize opt)) s })"

text \<open>The loop, for as long as there are answers; it ends when \<open>done\<close> or \<open>exit\<close> is called.\<close>

fun lmdd_loop :: "lmdd_opts \<Rightarrow> int \<Rightarrow> int \<Rightarrow> pass_env list \<Rightarrow> lmdd \<Rightarrow> pass_end option" where
  "lmdd_loop opt fin fout [] s = Some (Again s)"
| "lmdd_loop opt fin fout (e # es) s =
     do { r \<leftarrow> lmdd_pass opt fin fout e s;
          (case r of Again s \<Rightarrow> lmdd_loop opt fin fout es s | _ \<Rightarrow> Some r) }"

section \<open>done\<close>

datatype final = Do_sync | Do_fsync | Do_flush | Label_text | Report "out list" | Title string | Hist int int int

text \<open>The lines of a histogram: the title, then the lower and upper limit of a bucket and its count.\<close>

definition hist_lines :: "string \<Rightarrow> int \<Rightarrow> int \<Rightarrow> int list \<Rightarrow> final list" where
  "hist_lines title mx mn hist =
     (let stp = c_div (mx - mn) 10 in
      if mx = - 1 then []
      else [Title title] @ (if hist ! 0 \<noteq> 0 then [Hist mn mn (hist ! 0)] else [])
           @ concat (map (\<lambda>i. if hist ! i = 0 then [] else [Hist (mn + int (i - 1) * stp) (mn + int i * stp - 1) (hist ! i)]) [1..<11])
           @ (if hist ! 11 \<noteq> 0 then [Hist mx mx (hist ! 11)] else []))"

definition report_lines :: "int \<Rightarrow> u64 \<Rightarrow> int \<Rightarrow> timing \<Rightarrow> final list" where
  "report_lines print n bsize tm =
     (let xfers = n div int_u bsize in
      if print = 0 then []
      else if print = 1 then [Report (latency xfers (int_u bsize) tm)]
      else if print = 2 then [Report (micro '''' xfers tm)]
      else if print = 3 then [Report (kb n tm)]
      else if print = 4 then [Report (mb n tm)]
      else if print = 5 then [Report (bandwidth n 1 False tm)]
      else [Report (bandwidth n 1 True tm)])"

definition done_lmdd :: "lmdd_opts \<Rightarrow> timing \<Rightarrow> lmdd \<Rightarrow> final list" where
  "done_lmdd opt tm s =
     (if 0 < o_Sync opt then [Do_sync] else []) @ (if 0 < o_Fsync opt then [Do_fsync] else [])
     @ (if 0 < o_Flush opt then [Do_flush] else [])
     @ (let tm = snd (stop tm) in
        (if o_Label opt \<noteq> - 1 then [Label_text] else [])
        @ report_lines (o_Print opt) (push_bit 2 (ld_int_count s)) (o_Bsize opt) tm
        @ hist_lines ''READ'' (o_Rtmax opt) (o_Rtmin opt) (ld_rthist s) 
        @ hist_lines ''WRITE'' (o_Wtmax opt) (o_Wtmin opt) (ld_wthist s))"

section \<open>main\<close>

text \<open>The files, the checks that need them, and the seeks of \<open>skip=\<close>. \<open>opened\<close> is what \<open>open\<close> returns.\<close>

definition open_files :: "(nat \<Rightarrow> u64) \<Rightarrow> string list \<Rightarrow> (file_choice \<Rightarrow> int) \<Rightarrow> lmdd_opts \<Rightarrow> (int \<times> int) outcome" where
  "open_files ptr av opened opt =
     andthen (getfile ptr av opened ''if='' None) (\<lambda>(fin, output).
       andthen (getfile ptr av opened ''of='' output) (\<lambda>(fout, output).
         if o_Rtmax opt \<noteq> - 1 \<and> fin < 0 \<or> o_Wtmax opt \<noteq> - 1 \<and> fout < 0 then Exit 1 else Done (fin, fout)))"

definition skip_start :: "int \<Rightarrow> int \<Rightarrow> lmdd_opts \<Rightarrow> lmdd" where
  "skip_start fin fout opt =
     (let s = lmdd_start opt in if o_skip opt = - 1 then s else trace (seeks fin fout (ld_off s)) s)"

text \<open>The whole program up to the call of \<open>done\<close>, for the answers \<open>es\<close>.\<close>

definition lmdd_main :: "(nat \<Rightarrow> u64) \<Rightarrow> (file_choice \<Rightarrow> int) \<Rightarrow> string list \<Rightarrow> pass_env list \<Rightarrow> pass_end outcome" where
  "lmdd_main ptr opened av es =
     andthen (lmdd_options ptr av) (\<lambda>opt.
       andthen (open_files ptr av opened opt) (\<lambda>(fin, fout).
         defined (lmdd_loop opt fin fout es (skip_start fin fout opt))))"

section \<open>Patterns read back\<close>

lemma word_of_bytes:
  "(ucast (ucast w :: byte) :: u32) OR push_bit 8 (ucast (ucast (drop_bit 8 w) :: byte))
     OR push_bit 16 (ucast (ucast (drop_bit 16 w) :: byte)) OR push_bit 24 (ucast (ucast (drop_bit 24 w) :: byte)) = w"
proof (rule bit_word_eqI)
  fix n assume "n < LENGTH(32)"
  then have "n < 32" by simp
  then consider "n < 8" | "8 \<le> n" "n < 16" | "16 \<le> n" "n < 24" | "24 \<le> n" "n < 32" by linarith
  then show "bit ((ucast (ucast w :: byte) :: u32) OR push_bit 8 (ucast (ucast (drop_bit 8 w) :: byte))
     OR push_bit 16 (ucast (ucast (drop_bit 16 w) :: byte)) OR push_bit 24 (ucast (ucast (drop_bit 24 w) :: byte))) n \<longleftrightarrow> bit w n"
    by cases (auto simp: bit_simps)
qed

lemma get_set_word: "4 * j + 3 < length buf \<Longrightarrow> get_word (set_word j w buf) j = w"
  by (simp add: get_word_def set_word_def nth_list_update word_of_bytes)

lemma get_set_other: "i \<noteq> j \<Longrightarrow> get_word (set_word j w buf) i = get_word buf i"
proof -
  assume "i \<noteq> j"
  then have "4 * i + a \<noteq> 4 * j + b" if "a < 4" "b < 4" for a b using that by presburger
  from this [of 0 0] this [of 0 1] this [of 0 2] this [of 0 3] this [of 1 0] this [of 1 1] this [of 1 2] this [of 1 3]
    this [of 2 0] this [of 2 1] this [of 2 2] this [of 2 3] this [of 3 0] this [of 3 1] this [of 3 2] this [of 3 3]
  show ?thesis by (simp add: get_word_def set_word_def)
qed

lemma length_set_word [simp]: "length (set_word j w buf) = length buf"
  by (simp add: set_word_def)

lemma length_write_words [simp]: "length (write_words off js buf) = length buf"
  by (induction js arbitrary: buf) simp_all

lemma write_words_other: "i \<notin> set js \<Longrightarrow> get_word (write_words off js buf) i = get_word buf i"
  by (induction js arbitrary: buf) (simp_all add: get_set_other)

lemma write_words_get:
  "distinct js \<Longrightarrow> \<forall>j \<in> set js. 4 * j + 3 < length buf \<Longrightarrow> i \<in> set js \<Longrightarrow> get_word (write_words off js buf) i = pattern off i"
  by (induction js arbitrary: buf) (auto simp: write_words_other get_set_word)

lemma get_word_take: "4 * j + 3 < n \<Longrightarrow> n \<le> length buf \<Longrightarrow> get_word (take n buf @ rest) j = get_word buf j"
  by (simp add: get_word_def nth_append)

lemma check_words_none: "\<forall>j \<in> set js. get_word buf j = pattern off j \<Longrightarrow> check_words limited off buf js misses = ([], misses, False)"
  by (induction js) simp_all

text \<open>A block that was written with the pattern of its offset passes the check at that offset.\<close>

lemma pattern_reads_back:
  assumes "write_pattern off moved buf = Some buf'" "moved \<le> length buf"
  shows "check_pattern mismatch off moved (take moved buf' @ rest) misses = Some ([], misses, False)"
proof -
  have b: "buf' = write_words off [0..<moved div 4] buf" "length buf' = length buf"
    using assms(1) by (auto simp: write_pattern_def split: if_splits)
  have m: "4 * (moved div 4) \<le> moved" by simp
  have "get_word (take moved buf' @ rest) j = pattern off j" if "j < moved div 4" for j
  proof -
    have j: "4 * j + 3 < moved" using that by linarith
    have "\<forall>j \<in> set [0..<moved div 4]. 4 * j + 3 < length buf" using assms(2) by auto
    then have "get_word buf' j = pattern off j" unfolding b(1) using that by (intro write_words_get) auto
    with get_word_take [OF j] assms(2) b(2) show ?thesis by simp
  qed
  then have "check_words (mismatch \<noteq> - 1) off (take moved buf' @ rest) [0..<moved div 4] misses = ([], misses, False)"
    by (intro check_words_none) auto
  with m assms(2) b(2) show ?thesis by (simp add: check_pattern_def)
qed

section \<open>Histograms\<close>

text \<open>A time between the limits falls into no bucket exactly when it lies above the tenth step: the steps are a tenth of the
  range rounded down.\<close>

lemma bucket_None_iff:
  assumes "mn \<le> mx"
  shows "bucket mx mn mills = None \<longleftrightarrow> mn + 10 * ((mx - mn) div 10) \<le> mills \<and> mills < mx"
proof -
  have stp: "c_div (mx - mn) 10 = (mx - mn) div 10" "0 \<le> (mx - mn) div 10" using assms by simp_all
  have "List.find (\<lambda>i. mills < int i * ((mx - mn) div 10) + mn) [1..<11] = None
    \<longleftrightarrow> (\<forall>i \<in> {1..<11}. int i * ((mx - mn) div 10) + mn \<le> mills)"
    by (auto simp: find_None_iff not_less simp del: upt_rec_numeral)
  also have "\<dots> \<longleftrightarrow> 10 * ((mx - mn) div 10) + mn \<le> mills"
  proof
    assume "\<forall>i \<in> {1..<11}. int i * ((mx - mn) div 10) + mn \<le> mills"
    then show "10 * ((mx - mn) div 10) + mn \<le> mills" by (elim ballE [where x = 10]) auto
  next
    assume *: "10 * ((mx - mn) div 10) + mn \<le> mills"
    have "int i * ((mx - mn) div 10) \<le> 10 * ((mx - mn) div 10)" if "i \<in> {1..<11}" for i :: nat
      using that stp(2) by (intro mult_right_mono) auto
    with * show "\<forall>i \<in> {1..<11}. int i * ((mx - mn) div 10) + mn \<le> mills" by fastforce
  qed
  finally show ?thesis using stp(2) by (auto simp: bucket_def stp(1) Let_def)
qed

lemma find_step:
  fixes stp d :: int
  assumes "0 < stp" "0 \<le> d" "d < 10 * stp"
  shows "List.find (\<lambda>i. d < int i * stp) [1..<11] = Some (nat (d div stp) + 1)"
proof -
  define q where "q = d div stp"
  have "q * stp + d mod stp = d" unfolding q_def by simp
  then have q: "q * stp \<le> d" "d < (q + 1) * stp"
    unfolding distrib_right using pos_mod_bound [OF assms(1), of d] pos_mod_sign [OF assms(1), of d] by linarith+
  have "0 \<le> q" using assms by (simp add: q_def pos_imp_zdiv_nonneg_iff)
  have "q < 10" using q(1) assms(1,3) by (metis le_less_trans mult_less_cancel_right_pos)
  have *: "int i * stp \<le> d" if "i < nat q + 1" for i
  proof -
    have "int i * stp \<le> q * stp" using that \<open>0 \<le> q\<close> assms(1) by (intro mult_right_mono) auto
    with q(1) show ?thesis by linarith
  qed
  have "(1 + int j) * stp \<le> d" if "j < nat q" for j using * [of "Suc j"] that by simp
  then show ?thesis unfolding find_Some_iff q_def [symmetric]
    using q \<open>0 \<le> q\<close> \<open>q < 10\<close> by (intro exI [of _ "nat q"]) (auto simp: add.commute not_less simp del: upt_rec_numeral)
qed

lemma bucket_range: "bucket mx mn mills = Some i \<Longrightarrow> i < 12"
  by (auto simp: bucket_def Let_def find_Some_iff split: if_splits simp del: upt_rec_numeral)

section \<open>Copying\<close>

text \<open>Options of a plain copy: no random offsets, no patterns, no touching of the buffers and no fork. The sizes are those
  \<open>lmdd_options\<close> guarantees, and at least one buffer.\<close>

definition plain_copy :: "lmdd_opts \<Rightarrow> bool" where
  "plain_copy opt = (o_End opt = - 1 \<and> o_Rand opt = - 1 \<and> o_inpat opt = - 1 \<and> o_outpat opt = - 1 \<and> \<not> o_touch opt
     \<and> o_Fork opt = - 1 \<and> 1 \<le> o_nbufs opt \<and> 4 \<le> o_Bsize opt)"

definition bufs_ok :: "lmdd_opts \<Rightarrow> lmdd \<Rightarrow> bool" where
  "bufs_ok opt s = (length (ld_bufs s) = nat (o_nbufs opt) \<and> (\<forall>b \<in> set (ld_bufs s). length b = nat (o_Bsize opt))
     \<and> ld_nextbuf s < nat (o_nbufs opt))"

lemma bufs_ok_start: "1 \<le> o_nbufs opt \<Longrightarrow> bufs_ok opt (skip_start fin fout opt)"
  by (simp add: bufs_ok_def lmdd_start_def skip_start_def trace_def Let_def)

fun puts :: "event list \<Rightarrow> byte list" where
  "puts [] = []"
| "puts (Put bs # es) = bs @ puts es"
| "puts (_ # es) = puts es"

lemma puts_append [simp]: "puts (xs @ ys) = puts xs @ puts ys"
  by (induction xs rule: puts.induct) simp_all

lemma skip_start_simps:
  "ld_pad_in (skip_start fin fout opt) = o_pad_in opt" "ld_gotcnt (skip_start fin fout opt) \<longleftrightarrow> o_count opt \<noteq> - 1"
  "ld_count (skip_start fin fout opt) = o_count opt" "puts (ld_trace (skip_start fin fout opt)) = []"
  "ld_int_count (skip_start fin fout opt) = 0"
  by (simp_all add: skip_start_def lmdd_start_def trace_def seeks_def Let_def)

text \<open>The blocks that are read and written, one to a pass.\<close>

definition block_env :: "lmdd_opts \<Rightarrow> pass_env \<Rightarrow> byte list \<Rightarrow> bool" where
  "block_env opt e bs = (pv_read e = Some bs \<and> bs \<noteq> [] \<and> length bs \<le> nat (o_Bsize opt) \<and> pv_write e = int (length bs))"

text \<open>What a plain pass keeps of the state, apart from the trace and the counters of bytes.\<close>

definition same_frame :: "lmdd \<Rightarrow> lmdd \<Rightarrow> bool" where
  "same_frame s t = (ld_bufs t = ld_bufs s \<and> ld_nextbuf t = ld_nextbuf s \<and> ld_pad_in t = ld_pad_in s \<and> ld_gotcnt t = ld_gotcnt s
     \<and> ld_count t = ld_count s)"

lemma output_plain:
  assumes "plain_copy opt" "0 \<le> fout" "b < length (ld_bufs s)" "pv_write e = int moved"
  shows "\<exists>t. output_block opt fout e b moved s = Some (Again t) \<and> same_frame s t
    \<and> ld_trace t = ld_trace s @ [Put (take moved (ld_bufs s ! b))] \<and> ld_int_count t = ld_int_count s + of_nat (moved div 4)"
  using assms by (simp add: output_block_def plain_copy_def Let_def put_buf_def trace_def advance_def same_frame_def)

lemma handle_plain:
  assumes "plain_copy opt" "0 \<le> fout" "b < length (ld_bufs s)" "pv_write e = int moved"
  shows "\<exists>t. handle_block opt fin fout e b moved s = Some (Again t) \<and> same_frame s t
    \<and> ld_trace t = ld_trace s @ [Put (take moved (ld_bufs s ! b))] \<and> ld_int_count t = ld_int_count s + of_nat (moved div 4)"
proof -
  have "handle_block opt fin fout e b moved s = output_block opt fout e b moved s"
    using assms(1,3) by (simp add: handle_block_def plain_copy_def put_buf_def trace_def)
  then show ?thesis using output_plain [OF assms] by simp
qed

text \<open>The state when a block has been read.\<close>

definition after_read :: "lmdd_opts \<Rightarrow> pass_env \<Rightarrow> byte list \<Rightarrow> lmdd \<Rightarrow> lmdd" where
  "after_read opt e bs s =
     s\<lparr>ld_count := (if ld_gotcnt s then ld_count s - 1 else ld_count s),
       ld_nextbuf := (if int (ld_nextbuf s + 1) = o_nbufs opt then 0 else ld_nextbuf s + 1),
       ld_bufs := (ld_bufs s)[ld_nextbuf s := bs @ drop (length bs) (ld_bufs s ! ld_nextbuf s)],
       ld_trace := ld_trace s @ [Got bs], ld_rthist := bump (o_Rtmax opt) (o_Rtmin opt) (pv_rmics e) (ld_rthist s)\<rparr>"

lemma pass_reads:
  assumes "o_End opt = - 1" "o_Rand opt = - 1" "bufs_ok opt s" "ld_pad_in s = 0" "0 \<le> fin" "pv_read e = Some bs" "bs \<noteq> []"
    "\<not> (ld_gotcnt s \<and> ld_count s = 0)"
  shows "lmdd_pass opt fin fout e s = handle_block opt fin fout e (ld_nextbuf s) (length bs) (after_read opt e bs s)"
proof -
  have "ld_nextbuf s < length (ld_bufs s)" using assms(3) by (simp add: bufs_ok_def)
  then show ?thesis using assms by (auto simp: lmdd_pass_def choose_offset_def Let_def put_buf_def trace_def after_read_def)
qed

lemma bufs_ok_after_read:
  assumes "bufs_ok opt s" "length bs \<le> nat (o_Bsize opt)"
  shows "bufs_ok opt (after_read opt e bs s)" "ld_bufs (after_read opt e bs s) ! ld_nextbuf s
    = bs @ drop (length bs) (ld_bufs s ! ld_nextbuf s)" "length (ld_bufs s ! ld_nextbuf s) = nat (o_Bsize opt)"
proof -
  note ok = assms(1) [unfolded bufs_ok_def]
  show len: "length (ld_bufs s ! ld_nextbuf s) = nat (o_Bsize opt)" using ok by (metis nth_mem)
  have "\<forall>x \<in> set ((ld_bufs s)[ld_nextbuf s := bs @ drop (length bs) (ld_bufs s ! ld_nextbuf s)]). length x = nat (o_Bsize opt)"
    using ok assms(2) len by (intro ball_update) auto
  moreover have "(if int (ld_nextbuf s + 1) = o_nbufs opt then 0 else ld_nextbuf s + 1) < nat (o_nbufs opt)" using ok by auto
  moreover have f: "ld_bufs (after_read opt e bs s) = (ld_bufs s)[ld_nextbuf s := bs @ drop (length bs) (ld_bufs s ! ld_nextbuf s)]"
    "ld_nextbuf (after_read opt e bs s) = (if int (ld_nextbuf s + 1) = o_nbufs opt then 0 else ld_nextbuf s + 1)"
    by (simp_all add: after_read_def)
  ultimately show "bufs_ok opt (after_read opt e bs s)" unfolding bufs_ok_def f length_list_update using ok by blast
  show "ld_bufs (after_read opt e bs s) ! ld_nextbuf s = bs @ drop (length bs) (ld_bufs s ! ld_nextbuf s)"
    using ok by (simp add: after_read_def)
qed

lemma pass_copies:
  assumes "plain_copy opt" "bufs_ok opt s" "ld_pad_in s = 0" "0 \<le> fin" "0 \<le> fout" "block_env opt e bs"
    "\<not> (ld_gotcnt s \<and> ld_count s = 0)"
  shows "\<exists>s'. lmdd_pass opt fin fout e s = Some (Again s') \<and> bufs_ok opt s' \<and> ld_pad_in s' = 0 \<and> ld_gotcnt s' = ld_gotcnt s
    \<and> ld_count s' = (if ld_gotcnt s then ld_count s - 1 else ld_count s) \<and> puts (ld_trace s') = puts (ld_trace s) @ bs
    \<and> ld_int_count s' = ld_int_count s + of_nat (length bs div 4)"
proof -
  let ?s = "after_read opt e bs s" and ?b = "ld_nextbuf s"
  note e = assms(6) [unfolded block_env_def]
  have ok: "bufs_ok opt ?s" and buf: "ld_bufs ?s ! ?b = bs @ drop (length bs) (ld_bufs s ! ?b)"
    using bufs_ok_after_read [OF assms(2)] e by blast+
  have b: "?b < length (ld_bufs ?s)" using assms(2) by (simp add: bufs_ok_def after_read_def)
  obtain t where t: "handle_block opt fin fout e ?b (length bs) ?s = Some (Again t)" "same_frame ?s t"
      "ld_trace t = ld_trace ?s @ [Put (take (length bs) (ld_bufs ?s ! ?b))]"
      "ld_int_count t = ld_int_count ?s + of_nat (length bs div 4)"
    using handle_plain [OF assms(1,5) b] e by blast
  have "lmdd_pass opt fin fout e s = Some (Again t)"
    using t(1) pass_reads [OF _ _ assms(2,3,4) _ _ assms(7)] e assms(1) by (simp add: plain_copy_def)
  moreover have "bufs_ok opt t" using ok t(2) by (simp add: bufs_ok_def same_frame_def)
  ultimately show ?thesis using t assms(3) buf by (simp add: same_frame_def after_read_def)
qed

text \<open>The last pass: nothing is left to read, or the count is used up.\<close>

lemma pass_ends:
  assumes "plain_copy opt" "bufs_ok opt s" "ld_pad_in s = 0" "0 \<le> fin"
    "ld_gotcnt s \<and> ld_count s = 0 \<or> pv_read e = Some [] \<or> pv_read e = None"
  shows "\<exists>s'. lmdd_pass opt fin fout e s = Some (Finished s') \<and> puts (ld_trace s') = puts (ld_trace s) \<and> ld_int_count s' = ld_int_count s"
proof -
  have "ld_nextbuf s < length (ld_bufs s)" using assms(2) by (simp add: bufs_ok_def)
  then show ?thesis
    using assms(1,3,4,5) by (auto simp: lmdd_pass_def choose_offset_def plain_copy_def Let_def put_buf_def trace_def)
qed

lemma loop_copies:
  assumes "plain_copy opt" "0 \<le> fin" "0 \<le> fout" "list_all2 (block_env opt) es bss" "pv_read e = Some [] \<or> pv_read e = None"
    "bufs_ok opt s" "ld_pad_in s = 0"
  defines "k \<equiv> if ld_gotcnt s then min (unat (ld_count s)) (length bss) else length bss"
  shows "\<exists>s'. lmdd_loop opt fin fout (es @ [e]) s = Some (Finished s') \<and> puts (ld_trace s') = puts (ld_trace s) @ concat (take k bss)
    \<and> ld_int_count s' = ld_int_count s + (\<Sum>bs \<leftarrow> take k bss. of_nat (length bs div 4))"
  using assms(4,6,7) unfolding k_def
proof (induction es bss arbitrary: s rule: list_all2_induct)
  case Nil
  obtain s' where "lmdd_pass opt fin fout e s = Some (Finished s')" "puts (ld_trace s') = puts (ld_trace s)" "ld_int_count s' = ld_int_count s"
    using pass_ends [OF assms(1) Nil.prems assms(2)] assms(5) by blast
  then show ?case by simp
next
  case (Cons x xs bs bss)
  show ?case
  proof (cases "ld_gotcnt s \<and> ld_count s = 0")
    case True
    obtain s' where "lmdd_pass opt fin fout x s = Some (Finished s')" "puts (ld_trace s') = puts (ld_trace s)" "ld_int_count s' = ld_int_count s"
      using pass_ends [OF assms(1) Cons.prems assms(2)] True by blast
    with True show ?thesis by simp
  next
    case False
    obtain t where t: "lmdd_pass opt fin fout x s = Some (Again t)" "bufs_ok opt t" "ld_pad_in t = 0" "ld_gotcnt t = ld_gotcnt s"
      "ld_count t = (if ld_gotcnt s then ld_count s - 1 else ld_count s)" "puts (ld_trace t) = puts (ld_trace s) @ bs"
      "ld_int_count t = ld_int_count s + of_nat (length bs div 4)"
      using pass_copies [OF assms(1) Cons.prems assms(2,3) Cons.hyps(1) False] by blast
    have "unat (ld_count s) = Suc (unat (ld_count s - 1))" if "ld_gotcnt s"
      using False that by (simp add: unat_minus_one unat_gt_0)
    then have k: "(if ld_gotcnt s then min (unat (ld_count s)) (length (bs # bss)) else length (bs # bss))
        = Suc (if ld_gotcnt t then min (unat (ld_count t)) (length bss) else length bss)"
      using t(4,5) by simp
    from Cons.IH [OF t(2,3)] obtain s' where "lmdd_loop opt fin fout (xs @ [e]) t = Some (Finished s')"
      "puts (ld_trace s') = puts (ld_trace t) @ concat (take (if ld_gotcnt t then min (unat (ld_count t)) (length bss) else length bss) bss)"
      "ld_int_count s' = ld_int_count t + (\<Sum>bs \<leftarrow> take (if ld_gotcnt t then min (unat (ld_count t)) (length bss) else length bss) bss. of_nat (length bs div 4))"
      by blast
    then show ?thesis unfolding k using t by (simp add: add.assoc)
  qed
qed

section \<open>Random offsets\<close>

lemma int_u_mask: "k < 31 \<Longrightarrow> int_u (wrap32 (2 ^ k - 1)) = mask k"
proof -
  assume "k < 31"
  define p where "p = (2 :: int) ^ k"
  have "p \<le> 2 ^ 30" unfolding p_def using \<open>k < 31\<close> by (intro power_increasing) auto
  moreover have "1 \<le> p" unfolding p_def by (rule one_le_power) simp
  ultimately have "wrap32 (p - 1) = p - 1" by (intro wrap32_id) simp_all
  then have "wrap32 (2 ^ k - 1) = 2 ^ k - 1" by (simp only: p_def)
  then show ?thesis by (simp add: int_u_def mask_eq_exp_minus_1)
qed

lemma and_not_mask: "unat (x AND NOT (mask k) :: u64) = unat x div 2 ^ k * 2 ^ k"
proof -
  have "x AND NOT (mask k) = push_bit k (drop_bit k x)"
    by (rule bit_word_eqI) (auto simp: bit_simps)
  moreover have d: "unat (drop_bit k x) = drop_bit k (unat x)" by (rule unat_drop_bit_eq)
  moreover have "unat (push_bit k (drop_bit k x)) = unat x div 2 ^ k * 2 ^ k"
  proof -
    have "unat x div 2 ^ k * 2 ^ k \<le> unat x" by (rule div_times_less_eq_dividend)
    also have "\<dots> < 2 ^ 64" using unat64_less [of x] by simp
    finally have "unat x div 2 ^ k * 2 ^ k < 2 ^ 64" .
    then have "push_bit k (drop_bit k (unat x)) < 2 ^ 64" by (simp only: push_bit_eq_mult drop_bit_eq_div)
    then show ?thesis by (simp only: unsigned_push_bit_eq d take_bit_nat_eq_self len_num1 len_bit0 len_bit1)
        (simp add: take_bit_nat_eq_self push_bit_eq_mult drop_bit_eq_div)
  qed
  ultimately show ?thesis by simp
qed

text \<open>\<open>ALIGN\<close> rounds up to a multiple of a power of two.\<close>

lemma unat_ALIGN:
  assumes "k < 31" "unat x + 2 ^ k \<le> 2 ^ 64"
  shows "unat (ALIGN x (2 ^ k)) = (unat x + 2 ^ k - 1) div 2 ^ k * 2 ^ k"
proof -
  have "(2 :: nat) ^ k < 2 ^ 64" using assms(1) by (intro power_strict_increasing) auto
  then have "unat (mask k :: u64) = 2 ^ k - 1"
    by (metis mask_eq_exp_minus_1 unat_of_nat64 of_nat_mask_eq less_imp_diff_less mask_nat_def)
  then have "unat (x + mask k) = unat x + 2 ^ k - 1" using assms(2) by (simp add: unat_word_ariths)
  then show ?thesis by (simp add: ALIGN_def int_u_mask [OF assms(1)] and_not_mask)
qed

text \<open>With \<open>touch=\<close> the first byte of every page of the block is zero when it is written, not the byte that was read.\<close>

lemma touched_first: "touch_buf moved buf = Some buf' \<Longrightarrow> i < moved \<Longrightarrow> 4096 dvd i \<Longrightarrow> buf' ! i = 0"
  by (auto simp: touch_buf_def split: if_splits)

text \<open>A random fraction of a size below \<open>2 ^ 53\<close> does not exceed it.\<close>

lemma fraction_le:
  assumes "0 \<le> r" "r \<le> 1" "uint m \<le> 2 ^ 53"
  shows "unat (u64_of_dbl (d_mul (Fin r) (d_of_u64 m))) \<le> unat m"
proof -
  have le: "r * u2r m \<le> u2r m" using assms(1,2) u2r_bounds(1) by (intro mult_left_le_one_le) auto
  define y where "y = rnd (r * u2r m)"
  have y0: "0 \<le> y" unfolding y_def using assms(1) u2r_bounds(1) by (intro rnd.r_nonneg mult_nonneg_nonneg) auto
  have y1: "y \<le> of_int (uint m)"
    unfolding y_def using assms(3) le by (intro rnd.r_le_int) (simp_all only: u2r_def abs_of_nonneg unsigned_greater_eq)
  have "d_mul (Fin r) (d_of_u64 m) = to_dbl (r * u2r m)" by (simp add: d_of_u64_Fin rnd_u2r_exact [OF assms(3)])
  also have "\<dots> = Fin y"
    unfolding y_def using assms(1) u2r_bounds [of m] le by (intro to_dbl_finite [of _ 64]) auto
  finally have d: "d_mul (Fin r) (d_of_u64 m) = Fin y" .
  have f: "0 \<le> \<lfloor>y\<rfloor>" "\<lfloor>y\<rfloor> \<le> uint m" using y0 y1 by (simp, simp only: floor_le_iff)
  have "\<lfloor>y\<rfloor> < 2 ^ 64" by (rule le_less_trans [OF f(2)]) (use uint64_less [of m] in simp)
  then have u: "u64_of_dbl (d_mul (Fin r) (d_of_u64 m)) = of_int \<lfloor>y\<rfloor>" "uint (of_int \<lfloor>y\<rfloor> :: u64) = \<lfloor>y\<rfloor>"
    using f(1) y0 by (simp_all add: d d_trunc_def)
  then show ?thesis using f by (metis nat_mono unat_eq_nat_uint)
qed

text \<open>With \<open>norepeat=\<close> and random offsets the first pass is undefined: \<open>norepeats\<close> starts at -1, and the first offset is stored at that
  index.\<close>

lemma remember_first: "ld_norepeat s = Some arr \<Longrightarrow> ld_norepeats s = - 1 \<Longrightarrow> remember off s = None"
  by (simp add: remember_def)

lemma norepeat_undefined:
  assumes "o_norepeat opt" "o_Rand opt \<noteq> - 1 \<or> o_End opt \<noteq> - 1" "o_count opt \<noteq> 0"
  shows "lmdd_pass opt fin fout e (skip_start fin fout opt) = None"
proof -
  let ?s = "skip_start fin fout opt"
  have s: "\<not> (ld_gotcnt ?s \<and> ld_count ?s = 0)" "ld_norepeats ?s = - 1" "\<exists>arr. ld_norepeat ?s = Some arr"
    using assms(1,3) by (simp_all add: skip_start_simps skip_start_def lmdd_start_def trace_def Let_def)
  then have "choose_offset opt fin fout xs (t\<lparr>ld_count := n\<rparr>) = None" if "t = ?s" for xs n t
    using assms(2) that by (auto simp: choose_offset_def Let_def remember_first split: bind_splits)
  note none = this
  have "choose_offset opt fin fout xs ?s = None" for xs using none [of ?s xs "ld_count ?s"] by simp
  with none show ?thesis using s(1) by (auto simp: lmdd_pass_def)
qed

text \<open>Rounding up to a multiple of \<open>p\<close> stays below every multiple of \<open>p\<close> above.\<close>

lemma round_up_le:
  fixes p :: nat
  assumes "0 < p" "p dvd m" "x \<le> m"
  shows "(x + p - 1) div p * p \<le> m"
proof -
  from assms(2) obtain q where q: "m = q * p" by (metis dvd_def mult.commute)
  have "x + p - 1 < Suc q * p" using assms(1,3) q by simp
  then have "(x + p - 1) div p < Suc q" using assms(1) by (simp add: div_less_iff_less_mult)
  then show ?thesis using q by simp
qed

lemma round_up_bounds:
  fixes p :: nat
  assumes "0 < p"
  shows "x \<le> (x + p - 1) div p * p" "(x + p - 1) div p * p < x + p"
proof -
  have "(x + p - 1) div p * p + (x + p - 1) mod p = x + p - 1" "(x + p - 1) mod p < p" using assms by simp_all
  then show "x \<le> (x + p - 1) div p * p" "(x + p - 1) div p * p < x + p" using assms by linarith+
qed

text \<open>The size from which the offsets are drawn: a multiple of the block size, at least one block short of the area.\<close>

lemma area_size:
  assumes "o_Bsize opt = 2 ^ k" "k < 31" "o_size opt = rand_size (o_Rand opt) sz (o_Bsize opt)" "o_Rand opt \<noteq> - 1"
    "2 * 2 ^ k \<le> unat (o_Rand opt)" "unat (o_Rand opt) \<le> 2 ^ 53"
  shows "2 ^ k dvd unat (o_size opt - int_u (o_Bsize opt))"
    "2 ^ k dvd unat (o_Rand opt) \<Longrightarrow> unat (o_size opt - int_u (o_Bsize opt)) + 2 * 2 ^ k = unat (o_Rand opt)"
    "unat (o_size opt - int_u (o_Bsize opt)) + 2 ^ k < unat (o_Rand opt)"
proof -
  define p :: nat where "p = 2 ^ k"
  define n where "n = unat (o_Rand opt) - p"
  have p: "0 < p" "p \<le> 2 ^ 30" unfolding p_def using assms(2) by (simp, intro power_increasing) auto
  have pn: "p \<le> n" "n + p = unat (o_Rand opt)" using assms(5) by (simp_all add: n_def p_def)
  have up: "unat (int_u (o_Bsize opt)) = p"
    using p(2) unat_of_nat64 [of p] by (simp add: assms(1) int_u_def p_def)
  have sub: "unat (o_Rand opt - int_u (o_Bsize opt)) = n"
    using assms(5) up by (subst unat_sub) (simp_all add: word_le_nat_alt p_def n_def)
  have s: "unat (o_size opt) = (n + p - 1) div p * p"
    using unat_ALIGN [OF assms(2), of "o_Rand opt - int_u (o_Bsize opt)"] sub assms(1,3,4,6) pn p
    by (simp add: rand_size_def p_def [symmetric])
  note b = round_up_bounds [OF p(1), of n]
  have le: "int_u (o_Bsize opt) \<le> o_size opt" unfolding word_le_nat_alt up s using b(1) pn(1) by linarith
  have m: "unat (o_size opt - int_u (o_Bsize opt)) = (n + p - 1) div p * p - p"
    unfolding unat_sub [OF le] up s by (rule refl)
  then show "2 ^ k dvd unat (o_size opt - int_u (o_Bsize opt))" by (simp add: p_def)
  show "unat (o_size opt - int_u (o_Bsize opt)) + 2 ^ k < unat (o_Rand opt)"
    using m b pn p(1) by (simp add: p_def [symmetric])
  assume "2 ^ k dvd unat (o_Rand opt)"
  then have "p dvd n" using pn by (metis dvd_add_left_iff dvd_refl p_def)
  then have "(n + p - 1) div p * p \<le> n" using p(1) by (intro round_up_le) auto
  then show "unat (o_size opt - int_u (o_Bsize opt)) + 2 * 2 ^ k = unat (o_Rand opt)"
    using m b pn by (simp add: p_def [symmetric])
qed

section \<open>Properties\<close>

text \<open>C23. A plain copy is faithful: when the reads deliver the blocks \<open>bss\<close> and then the end of the file or an error, and every write is complete, \<open>lmdd\<close>
  ends by calling \<open>done\<close>, has written exactly the bytes it read (of the first \<open>count\<close> blocks when a count is given), in their order,
  for any number of buffers, and \<open>int_count\<close> is the number of whole words it moved. The alarm of \<open>time=\<close> does not come.\<close>

theorem lmdd_copies:
  assumes "plain_copy opt" "o_pad_in opt = 0" "0 \<le> fin" "0 \<le> fout" "list_all2 (block_env opt) es bss"
    "pv_read e = Some [] \<or> pv_read e = None"
  defines "k \<equiv> if o_count opt = - 1 then length bss else min (unat (o_count opt)) (length bss)"
  shows "\<exists>s. lmdd_loop opt fin fout (es @ [e]) (skip_start fin fout opt) = Some (Finished s) \<and> puts (ld_trace s) = concat (take k bss)
    \<and> ld_int_count s = (\<Sum>bs \<leftarrow> take k bss. of_nat (length bs div 4))"
proof -
  have ok: "bufs_ok opt (skip_start fin fout opt)" using assms(1) bufs_ok_start by (simp add: plain_copy_def)
  note g = skip_start_simps [of fin fout opt, unfolded assms(2)]
  have k: "(if o_count opt \<noteq> - 1 then min (unat (o_count opt)) (length bss) else length bss) = k" by (simp add: k_def)
  from loop_copies [OF assms(1,3,4,5,6) ok g(1), unfolded g k] show ?thesis by simp
qed

text \<open>Random offsets stay in the area. For a block size \<open>2 ^ k\<close> and an area of \<open>rand=\<close> bytes that holds two blocks and starts at a multiple
  of the block size (at 0 without \<open>start=\<close>), every offset is a multiple of the block size, at or after the start of the area, and the whole
  block lies within the area; in an area of whole blocks the last one is never reached.\<close>

theorem rand_offset_in_area:
  assumes "o_Bsize opt = 2 ^ k" "k < 31" "o_size opt = rand_size (o_Rand opt) sz (o_Bsize opt)" "o_Rand opt \<noteq> - 1"
    "2 * 2 ^ k \<le> unat (o_Rand opt)" "unat (o_Rand opt) \<le> 2 ^ 53" "0 \<le> r" "r \<le> 1"
  defines "st \<equiv> if o_Start opt = - 1 then 0 else o_Start opt"
  assumes "2 ^ k dvd unat st" "unat st \<le> 2 ^ 53"
  shows "2 ^ k dvd unat (rand_offset opt (Fin r)) \<and> unat st \<le> unat (rand_offset opt (Fin r))
    \<and> unat (rand_offset opt (Fin r)) + 2 ^ k < unat st + unat (o_Rand opt)
    \<and> (2 ^ k dvd unat (o_Rand opt) \<longrightarrow> unat (rand_offset opt (Fin r)) + 2 * 2 ^ k \<le> unat st + unat (o_Rand opt))"
proof -
  define p :: nat where "p = 2 ^ k"
  define m where "m = o_size opt - int_u (o_Bsize opt)"
  define off where "off = u64_of_dbl (d_mul (Fin r) (d_of_u64 m))"
  note size = area_size [OF assms(1-6), folded p_def m_def]
  have p: "0 < p" "p \<le> 2 ^ 30" unfolding p_def using assms(2) by (simp, intro power_increasing) auto
  have "unat m \<le> 2 ^ 53" using size(3) assms(6) by linarith
  then have "uint m \<le> 2 ^ 53" by (simp only: unat_eq_nat_uint nat_le_iff of_nat_power of_nat_numeral)
  then have o: "unat off \<le> unat m" unfolding off_def using assms(7,8) by (intro fraction_le)
  then have sum: "unat (off + st) = unat off + unat st" using assms(6,11) size(3) by (simp add: unat_word_ariths)
  have "rand_offset opt (Fin r) = ALIGN (off + st) (2 ^ k)"
    unfolding rand_offset_def Let_def off_def m_def st_def assms(1) by (simp del: u64_of_dbl.simps d_mul.simps)
  then have v: "unat (rand_offset opt (Fin r)) = (unat off + unat st + p - 1) div p * p"
    using unat_ALIGN [OF assms(2), of "off + st"] sum o size(3) assms(6,11) p by (simp add: p_def)
  moreover have "(unat off + unat st + p - 1) div p * p \<le> unat m + unat st"
    using assms(10) size(1) o p(1) by (intro round_up_le) (simp_all add: p_def)
  moreover have "unat off + unat st \<le> (unat off + unat st + p - 1) div p * p" by (rule round_up_bounds [OF p(1)])
  ultimately show ?thesis using size(2,3) p(1) unfolding p_def [symmetric] by auto
qed

text \<open>A time is counted in the bucket of its tenth of the range: below the minimum in bucket 0, from the maximum on in bucket 11, and in
  between in the bucket of its multiple of the step; exactly the times at or above ten steps (the remainder of the division by ten) are
  counted nowhere.\<close>

theorem bucket_spec:
  assumes "mn \<le> mx"
  defines "stp \<equiv> (mx - mn) div 10"
  shows "bucket mx mn mills =
    (if mx \<le> mills then Some 11 else if mills < mn then Some 0 else if mn + 10 * stp \<le> mills then None
     else Some (nat ((mills - mn) div stp) + 1))"
proof -
  consider "mx \<le> mills" | "mills < mn" "mills < mx" | "mn \<le> mills" "mills < mx" "mn + 10 * stp \<le> mills"
    | "mn \<le> mills" "mills < mx" "mills < mn + 10 * stp" by linarith
  then show ?thesis
  proof cases
    case 3
    then show ?thesis using bucket_None_iff [OF assms(1), of mills] by (auto simp: stp_def)
  next
    case 4
    have "(\<lambda>i. mills < int i * stp + mn) = (\<lambda>i. mills - mn < int i * stp)" by auto
    then have "bucket mx mn mills = List.find (\<lambda>i. mills - mn < int i * stp) [1..<11]"
      using 4 assms(1) by (simp add: bucket_def stp_def del: upt_rec_numeral)
    also have "\<dots> = Some (nat ((mills - mn) div stp) + 1)" using 4 by (intro find_step) auto
    finally show ?thesis using 4 by simp
  qed (simp_all add: bucket_def)
qed

theorem bucket_spec_witness: "bucket 15 0 9 = Some 10 \<and> bucket 15 0 12 = None"
  using bucket_spec [of 0 15 9] bucket_spec [of 0 15 12] by simp

text \<open>C24. Patterns read back: a block of \<open>moved\<close> bytes written with \<open>opat=\<close> at some offset passes the check of \<open>ipat=\<close> at that offset, whatever is
  in the rest of the buffer it is read into: nothing is reported and \<open>misses\<close> stays.\<close>

theorem pattern_roundtrip:
  assumes "moved \<le> length buf" "write_pattern off moved buf = Some buf'"
  shows "check_pattern mismatch off moved (take moved buf' @ rest) misses = Some ([], misses, False)"
  using assms by (intro pattern_reads_back)

theorem pattern_roundtrip_witness:
  "check_pattern 1 65536 8 (take 8 (write_words 65536 [0..<2] (replicate 12 0)) @ [7]) 1 = Some ([], 1, False)"
  by (rule pattern_roundtrip [of _ "replicate 12 0"]) (simp_all add: write_pattern_def numeral_2_eq_2)

definition demo_opts :: lmdd_opts where
  "demo_opts = \<lparr>o_mismatch = - 1, o_inpat = - 1, o_outpat = - 1, o_Bsize = 4, o_slp = - 1, o_Fork = - 1, o_Fsync = - 1, o_Sync = - 1,
     o_Rand = - 1, o_Start = - 1, o_End = - 1, o_time = - 1, o_poff = False, o_Print = - 1, o_nbufs = 2, o_Rtmax = - 1, o_Rtmin = - 1,
     o_Wtmax = - 1, o_Wtmin = - 1, o_timeopen = - 1, o_pad_in = 0, o_touch = False, o_hash = False, o_Label = - 1, o_count = - 1,
     o_size = - 1, o_Flush = - 1, o_skip = - 1, o_norepeat = False\<rparr>"

definition demo_env_of :: "byte list \<Rightarrow> pass_env" where
  "demo_env_of bs = \<lparr>pv_drand = [], pv_read = Some bs, pv_rmics = 0, pv_fork = 0, pv_write = int (length bs), pv_wmics = 0\<rparr>"

theorem rand_offset_in_area_witness:
  "\<exists>opt. o_Rand opt = 32768 \<and> 8192 dvd unat (rand_offset opt (Fin (3 / 4))) \<and> unat (rand_offset opt (Fin (3 / 4))) + 2 * 8192 \<le> 32768"
proof -
  let ?opt = "demo_opts\<lparr>o_Bsize := 2 ^ 13, o_Rand := 32768, o_size := rand_size 32768 (- 1) (2 ^ 13)\<rparr>"
  have f: "o_Bsize ?opt = 2 ^ 13" "o_Rand ?opt = 32768" "o_Start ?opt = - 1" "o_size ?opt = rand_size (o_Rand ?opt) (- 1) (o_Bsize ?opt)"
    by (simp_all add: demo_opts_def)
  from rand_offset_in_area [of ?opt 13 "- 1" "3 / 4"] f
  have "8192 dvd unat (rand_offset ?opt (Fin (3 / 4))) \<and> unat (rand_offset ?opt (Fin (3 / 4))) + 2 * 8192 \<le> 32768" by simp
  with f(2) show ?thesis by blast
qed

theorem lmdd_copies_witness:
  "\<exists>s. lmdd_loop demo_opts 0 1 [demo_env_of [1, 2, 3, 4], demo_env_of [5], demo_env_of []] (skip_start 0 1 demo_opts) = Some (Finished s)
     \<and> puts (ld_trace s) = [1, 2, 3, 4, 5]"
proof -
  have p: "plain_copy demo_opts" "o_pad_in demo_opts = 0" by (simp_all add: plain_copy_def demo_opts_def)
  have b: "list_all2 (block_env demo_opts) [demo_env_of [1, 2, 3, 4], demo_env_of [5]] [[1, 2, 3, 4], [5]]"
    by (simp add: block_env_def demo_env_of_def demo_opts_def)
  have e: "pv_read (demo_env_of []) = Some [] \<or> pv_read (demo_env_of []) = None" by (simp add: demo_env_of_def)
  have "o_count demo_opts = - 1" by (simp add: demo_opts_def)
  with lmdd_copies [OF p order_refl zero_le_one b e] show ?thesis by auto
qed

end
