(* ===== verification/Countdown.thy ===== *)
theory Countdown
  imports Main
begin

text \<open>
  Systems of processes that run to an end. The locale \<open>counted_run\<close> is the contract the token rings of the
  context switch programs provide: a predicate \<open>at s k\<close> that holds in state \<open>s\<close> when exactly \<open>k\<close> steps are left,
  whatever the scheduler chooses. Its lemmas say that no run is longer, that every run can be continued to the end,
  and that every run that cannot be continued has reached the end.
\<close>

locale counted_run =
  fixes step :: "'s \<Rightarrow> 's \<Rightarrow> bool" and left :: "'s \<Rightarrow> nat \<Rightarrow> bool"
  assumes step_left: "left s k \<Longrightarrow> step s t \<Longrightarrow> \<exists>j. k = Suc j \<and> left t j"
    and not_stuck: "left s (Suc k) \<Longrightarrow> \<exists>t. step s t"
begin

lemma run_left: "(step ^^ m) s t \<Longrightarrow> left s k \<Longrightarrow> m \<le> k \<and> left t (k - m)"
proof (induction m arbitrary: t)
  case 0
  then show ?case by simp
next
  case (Suc m)
  then obtain u where u: "(step ^^ m) s u" "step u t" by auto
  with Suc have "m \<le> k" "left u (k - m)" by blast+
  moreover from step_left [OF this(2) u(2)] obtain j where "k - m = Suc j" "left t j" by blast
  ultimately show ?case by (metis Suc_le_eq diff_Suc_eq_diff_pred diff_Suc_1 diff_commute zero_less_Suc zero_less_diff)
qed

lemma run_to_end: "left s k \<Longrightarrow> \<exists>t. (step ^^ k) s t \<and> left t 0"
proof (induction k arbitrary: s)
  case 0
  then show ?case by auto
next
  case (Suc k)
  from not_stuck [OF Suc.prems] obtain u where "step s u" by blast
  moreover from step_left [OF Suc.prems this] have "left u k" by auto
  then obtain t where "(step ^^ k) u t" "left t 0" using Suc.IH by blast
  ultimately show ?case using relpowp_Suc_I2 by metis
qed

lemma stopped_at_end:
  assumes "left s k" "(step ^^ m) s t" "\<nexists>u. step t u"
  shows "m = k \<and> left t 0"
proof -
  from run_left [OF assms(2,1)] have "m \<le> k" "left t (k - m)" by blast+
  moreover have "k - m = 0"
  proof (rule ccontr)
    assume "k - m \<noteq> 0"
    then obtain j where "k - m = Suc j" by (cases "k - m") auto
    with not_stuck \<open>left t (k - m)\<close> assms(3) show False by metis
  qed
  ultimately show ?thesis by auto
qed

lemma end_stops: "left t 0 \<Longrightarrow> \<not> step t u"
  using step_left by blast

text \<open>From every state a run has reached it can be continued to the end.\<close>

lemma run_extends:
  assumes "left s k" "(step ^^ m) s t"
  shows "\<exists>u. (step ^^ (k - m)) t u \<and> left u 0"
  using run_left [OF assms(2,1)] run_to_end by blast

end

end
