(* ===== verification/Msgring.thy ===== *)
theory Msgring
  imports Countdown Memory
begin

text \<open>
  The message ring of \<open>src/msgring.c\<close> on QNX: the loops \<open>iterator\<close> of the first process and \<open>jumper\<close> of the others,
  as steps of processes that meet in the kernel calls. The kernel's part is the documented behaviour of its
  synchronous messages: \<open>MsgSend\<close> blocks its caller until the message has been received from the channel it is
  connected to and the receiver has replied, \<open>MsgReceive\<close> waits for a sender and names it in its result, \<open>MsgReply\<close>
  releases the sender it names. Process \<open>i\<close> is connected to the channel of \<open>ring_to n i\<close>. A step may be taken by any process
  that can take one.
\<close>

section \<open>Processes\<close>

text \<open>Where a process is: before \<open>MsgSend\<close>, blocked in it before and after the message has been taken, before \<open>bread\<close>, before or blocked
  in \<open>MsgReceive\<close>, before \<open>MsgReply\<close>, or out of its loop.\<close>

datatype pc = At_send | Send_blocked | Reply_blocked | At_work | At_receive | At_reply | Ended

text \<open>\<open>r_rounds\<close> is the counter of \<open>iterator\<close>, \<open>r_buf\<close> the arrays \<open>msg_receive\<close>, \<open>r_rcvid\<close> the results of \<open>MsgReceive\<close>; \<open>r_trace\<close> lists
  the messages that were received, with their receivers.\<close>

record ring =
  r_pc :: "nat \<Rightarrow> pc"
  r_rounds :: int
  r_buf :: "nat \<Rightarrow> 8 word list"
  r_rcvid :: "nat \<Rightarrow> nat"
  r_trace :: "(nat \<times> 8 word list) list"

text \<open>The connections of a ring of \<open>n\<close> processes: each to the process that forked it, the first to the last.\<close>

definition ring_to :: "nat \<Rightarrow> nat \<Rightarrow> nat" where
  "ring_to n i = (if i = 0 then n - 1 else i - 1)"

definition set_pc :: "nat \<Rightarrow> pc \<Rightarrow> ring \<Rightarrow> ring" where
  "set_pc i p s = s\<lparr>r_pc := (r_pc s)(i := p)\<rparr>"

text \<open>\<open>while (rounds-- > 0)\<close> at the head of the loop of \<open>iterator\<close>.\<close>

definition loop_head :: "ring \<Rightarrow> ring" where
  "loop_head s = set_pc 0 (if 0 < r_rounds s then At_send else Ended) (s\<lparr>r_rounds := r_rounds s - 1\<rparr>)"

text \<open>What follows each call: in \<open>jumper\<close> receive, reply, work, send; in \<open>iterator\<close> send, work, receive, reply.\<close>

definition after_send :: "nat \<Rightarrow> ring \<Rightarrow> ring" where
  "after_send i s = set_pc i (if i = 0 then At_work else At_receive) s"

definition after_work :: "nat \<Rightarrow> ring \<Rightarrow> ring" where
  "after_work i s = set_pc i (if i = 0 then At_receive else At_send) s"

definition after_reply :: "nat \<Rightarrow> ring \<Rightarrow> ring" where
  "after_reply i s = (if i = 0 then loop_head s else set_pc i At_work s)"

text \<open>The bytes process \<open>j\<close> sends: \<open>iterator\<close> its array \<open>msg_transmit\<close>, \<open>jumper\<close> what it received.\<close>

definition message :: "nat \<Rightarrow> 8 word list \<Rightarrow> nat \<Rightarrow> ring \<Rightarrow> 8 word list" where
  "message nsend tx j s = take nsend (if j = 0 then tx else r_buf s j)"

definition deliver :: "nat \<Rightarrow> 8 word list \<Rightarrow> nat \<Rightarrow> nat \<Rightarrow> ring \<Rightarrow> ring" where
  "deliver nsend tx i j s =
     (let msg = message nsend tx j s
      in s\<lparr>r_pc := (r_pc s)(i := At_reply, j := Reply_blocked), r_buf := (r_buf s)(i := msg @ drop (length msg) (r_buf s i)),
           r_rcvid := (r_rcvid s)(i := j), r_trace := r_trace s @ [(i, msg)]\<rparr>)"

inductive ring_step :: "nat \<Rightarrow> nat \<Rightarrow> 8 word list \<Rightarrow> ring \<Rightarrow> ring \<Rightarrow> bool" for n :: nat and nsend :: nat and tx :: "8 word list" where
  MsgSend: "i < n \<Longrightarrow> r_pc s i = At_send \<Longrightarrow> ring_step n nsend tx s (set_pc i Send_blocked s)"
| MsgReceive: "i < n \<Longrightarrow> j < n \<Longrightarrow> r_pc s i = At_receive \<Longrightarrow> r_pc s j = Send_blocked \<Longrightarrow> ring_to n j = i
    \<Longrightarrow> ring_step n nsend tx s (deliver nsend tx i j s)"
| MsgReply: "i < n \<Longrightarrow> r_pc s i = At_reply \<Longrightarrow> r_pc s (r_rcvid s i) = Reply_blocked
    \<Longrightarrow> ring_step n nsend tx s (after_reply i (after_send (r_rcvid s i) s))"
| work: "i < n \<Longrightarrow> r_pc s i = At_work \<Longrightarrow> ring_step n nsend tx s (after_work i s)"

inductive_cases ring_stepE: "ring_step n nsend tx s t"

text \<open>The call of \<open>iterator(rounds, Nsend)\<close> when the others wait.\<close>

definition ring_start :: "int \<Rightarrow> ring \<Rightarrow> bool" where
  "ring_start rounds s = ((\<forall>i. i \<noteq> 0 \<longrightarrow> r_pc s i = At_receive) \<and> r_rounds s = rounds \<and> r_trace s = [])"

section \<open>The token\<close>

text \<open>The steps of one hop: the holder of the message works, sends, waits, and is replied to.\<close>

datatype phase = Work | Send | Wait | Reply

primrec ph_no :: "phase \<Rightarrow> nat" where
  "ph_no Work = 0" | "ph_no Send = 1" | "ph_no Wait = 2" | "ph_no Reply = 3"

text \<open>The holder is counted down from \<open>n\<close>, the first process with a new message, to 1; \<open>w\<close> says that the first process has still to do
  its own work in this round.\<close>

definition idle :: "bool \<Rightarrow> nat \<Rightarrow> pc" where
  "idle w = (\<lambda>i. At_receive)(0 := if w then At_work else At_receive)"

definition holder :: "nat \<Rightarrow> nat \<Rightarrow> nat" where
  "holder n h = (if h = n then 0 else h)"

fun shape :: "nat \<Rightarrow> nat \<Rightarrow> bool \<Rightarrow> phase \<Rightarrow> nat \<Rightarrow> pc" where
  "shape n h w Work = (idle w)(holder n h := At_work)"
| "shape n h w Send = (idle w)(holder n h := At_send)"
| "shape n h w Wait = (idle w)(holder n h := Send_blocked)"
| "shape n h w Reply = (idle w)(h - 1 := At_reply, holder n h := Reply_blocked)"

text \<open>One round of receivers, from process \<open>h - 1\<close> down.\<close>

definition hops :: "nat \<Rightarrow> 8 word list \<Rightarrow> (nat \<times> 8 word list) list" where
  "hops h m = map (\<lambda>i. (i, m)) (rev [0..<h])"

definition rounds_of :: "nat \<Rightarrow> nat \<Rightarrow> 8 word list \<Rightarrow> (nat \<times> 8 word list) list" where
  "rounds_of r n m = concat (replicate r (hops n m))"

lemma hops_simps [simp]: "hops 0 m = []" "hops (Suc h) m = (h, m) # hops h m"
  by (simp_all add: hops_def)

lemma length_rounds: "length (rounds_of r n m) = r * n"
  by (induction r) (simp_all add: rounds_of_def hops_def)

definition ph_ok :: "nat \<Rightarrow> nat \<Rightarrow> bool \<Rightarrow> phase \<Rightarrow> bool" where
  "ph_ok n h w ph = (1 \<le> h \<and> h \<le> n \<and> (h = n \<longrightarrow> w \<and> ph \<noteq> Work) \<and> (h = 1 \<and> ph = Reply \<longrightarrow> \<not> w))"

text \<open>\<open>k\<close> steps are left, and \<open>all\<close> is the trace at the end.\<close>

inductive ring_left :: "nat \<Rightarrow> nat \<Rightarrow> 8 word list \<Rightarrow> (nat \<times> 8 word list) list \<Rightarrow> ring \<Rightarrow> nat \<Rightarrow> bool"
  for n :: nat and nsend :: nat and tx :: "8 word list" and total_trace :: "(nat \<times> 8 word list) list" where
  hop: "r_pc s = shape n h w ph \<Longrightarrow> 2 \<le> n \<Longrightarrow> nsend \<le> length tx \<Longrightarrow> ph_ok n h w ph \<Longrightarrow> r_rounds s = int r
    \<Longrightarrow> (h < n \<Longrightarrow> take nsend (r_buf s h) = take nsend tx)
    \<Longrightarrow> (ph = Reply \<Longrightarrow> r_rcvid s (h - 1) = holder n h \<and> take nsend (r_buf s (h - 1)) = take nsend tx)
    \<Longrightarrow> r_trace s @ hops (if ph = Reply then h - 1 else h) (take nsend tx) @ rounds_of r n (take nsend tx) = total_trace
    \<Longrightarrow> k + ph_no ph = 4 * n * r + 4 * h + of_bool w
    \<Longrightarrow> ring_left n nsend tx total_trace s k"
| ended: "r_pc s = (idle False)(0 := Ended) \<Longrightarrow> r_rounds s = - 1 \<Longrightarrow> r_trace s = total_trace \<Longrightarrow> ring_left n nsend tx total_trace s 0"

inductive_cases ring_leftE: "ring_left n nsend tx total_trace s k"

lemmas shape_defs = idle_def holder_def ph_ok_def ring_to_def

text \<open>Which steps a hop allows: the one of the holder or of its receiver, and the work of the first process.\<close>

definition own_work :: "nat \<Rightarrow> nat \<Rightarrow> bool \<Rightarrow> phase \<Rightarrow> ring \<Rightarrow> ring \<Rightarrow> bool" where
  "own_work n h w ph s t = (w \<and> h < n \<and> t = set_pc 0 At_receive s)"

lemma steps_Work:
  assumes "ring_step n nsend tx s t" "r_pc s = shape n h w Work" "ph_ok n h w Work"
  shows "t = set_pc h At_send s \<or> own_work n h w Work s t"
  using assms by (cases rule: ring_step.cases) (auto simp: shape_defs after_work_def own_work_def split: if_splits)

lemma steps_Send:
  assumes "ring_step n nsend tx s t" "r_pc s = shape n h w Send" "ph_ok n h w Send"
  shows "t = set_pc (holder n h) Send_blocked s \<or> own_work n h w Send s t"
  using assms by (cases rule: ring_step.cases) (auto simp: shape_defs after_work_def own_work_def split: if_splits)

lemma steps_Wait:
  assumes "ring_step n nsend tx s t" "r_pc s = shape n h w Wait" "ph_ok n h w Wait" "2 \<le> n"
  shows "t = deliver nsend tx (h - 1) (holder n h) s \<and> (h = 1 \<longrightarrow> \<not> w) \<or> own_work n h w Wait s t"
  using assms by (cases rule: ring_step.cases) (auto simp: shape_defs after_work_def own_work_def split: if_splits)

lemma steps_Reply:
  assumes "ring_step n nsend tx s t" "r_pc s = shape n h w Reply" "ph_ok n h w Reply" "2 \<le> n" "r_rcvid s (h - 1) = holder n h"
  shows "t = after_reply (h - 1) (after_send (holder n h) s) \<or> own_work n h w Reply s t"
  using assms by (cases rule: ring_step.cases) (auto simp: shape_defs after_work_def own_work_def split: if_splits)

lemma pc_set [simp]: "r_pc (set_pc i p s) = (r_pc s)(i := p)" "r_rounds (set_pc i p s) = r_rounds s" "r_buf (set_pc i p s) = r_buf s"
  "r_rcvid (set_pc i p s) = r_rcvid s" "r_trace (set_pc i p s) = r_trace s"
  by (simp_all add: set_pc_def)

lemma own_work_left:
  assumes "own_work n h w ph s t" "r_pc s = shape n h w ph" "2 \<le> n" "nsend \<le> length tx" "ph_ok n h w ph" "r_rounds s = int r"
    "h < n \<Longrightarrow> take nsend (r_buf s h) = take nsend tx"
    "ph = Reply \<Longrightarrow> r_rcvid s (h - 1) = holder n h \<and> take nsend (r_buf s (h - 1)) = take nsend tx"
    "r_trace s @ hops (if ph = Reply then h - 1 else h) (take nsend tx) @ rounds_of r n (take nsend tx) = total_trace"
    "k + ph_no ph = 4 * n * r + 4 * h + of_bool w"
  shows "\<exists>j. k = Suc j \<and> ring_left n nsend tx total_trace t j"
proof -
  have w: "w" "h < n" and t: "t = set_pc 0 At_receive s" using assms(1) by (auto simp: own_work_def)
  have h: "1 \<le> h" "\<not> (h = 1 \<and> ph = Reply)" using assms(5) w by (auto simp: ph_ok_def)
  have pc: "r_pc t = shape n h False ph" unfolding t pc_set assms(2) using w h by (cases ph) (auto simp: shape_defs fun_eq_iff)
  have ok: "ph_ok n h False ph" using assms(5) w(2) h by (auto simp: ph_ok_def)
  have k: "k - 1 + ph_no ph = 4 * n * r + 4 * h + of_bool False" "0 < k"
    using assms(10) w(1) h(1) by (cases ph; simp)+
  have "ring_left n nsend tx total_trace t (k - 1)"
    using assms(3,4,6-9) ok k(1) unfolding t by (intro hop [OF pc [unfolded t]]) auto
  with k(2) show ?thesis by (intro exI [of _ "k - 1"]) simp
qed

lemma deliver_left:
  assumes "r_pc s = shape n h w Wait" "2 \<le> n" "nsend \<le> length tx" "ph_ok n h w Wait" "r_rounds s = int r"
    "h < n \<Longrightarrow> take nsend (r_buf s h) = take nsend tx" "h = 1 \<longrightarrow> \<not> w"
    "r_trace s @ hops h (take nsend tx) @ rounds_of r n (take nsend tx) = total_trace" "k + 2 = 4 * n * r + 4 * h + of_bool w"
  shows "\<exists>j. k = Suc j \<and> ring_left n nsend tx total_trace (deliver nsend tx (h - 1) (holder n h) s) j"
proof -
  let ?t = "deliver nsend tx (h - 1) (holder n h) s"
  have h: "1 \<le> h" "h \<le> n" using assms(4) by (auto simp: ph_ok_def)
  have m: "message nsend tx (holder n h) s = take nsend tx" using assms(6) h by (auto simp: message_def holder_def)
  have t: "r_pc ?t = (r_pc s)(h - 1 := At_reply, holder n h := Reply_blocked)"
    "r_buf ?t = (r_buf s)(h - 1 := take nsend tx @ drop nsend (r_buf s (h - 1)))" "r_rcvid ?t = (r_rcvid s)(h - 1 := holder n h)"
    "r_trace ?t = r_trace s @ [(h - 1, take nsend tx)]" "r_rounds ?t = r_rounds s"
    using assms(3) by (simp_all add: deliver_def m Let_def min_def)
  have pc: "r_pc ?t = shape n h w Reply" unfolding t(1) assms(1) using h assms(2) by (auto simp: shape_defs fun_eq_iff)
  have ok: "ph_ok n h w Reply" using assms(4,7) by (auto simp: ph_ok_def)
  have tr: "r_trace ?t @ hops (h - 1) (take nsend tx) @ rounds_of r n (take nsend tx) = total_trace"
    unfolding t(4) using assms(8) h(1) by (cases h) simp_all
  have k: "k - 1 + ph_no Reply = 4 * n * r + 4 * h + of_bool w" "0 < k" using assms(9) h(1) by auto
  have "ring_left n nsend tx total_trace ?t (k - 1)"
    using assms(2,3,5,6) ok k(1) tr t h by (intro hop [OF pc]) auto
  with k(2) show ?thesis by (intro exI [of _ "k - 1"]) simp
qed

lemma reply_left:
  assumes "r_pc s = shape n h w Reply" "2 \<le> n" "nsend \<le> length tx" "ph_ok n h w Reply" "r_rounds s = int r"
    "r_rcvid s (h - 1) = holder n h" "take nsend (r_buf s (h - 1)) = take nsend tx"
    "r_trace s @ hops (h - 1) (take nsend tx) @ rounds_of r n (take nsend tx) = total_trace" "k + 3 = 4 * n * r + 4 * h + of_bool w"
  shows "\<exists>j. k = Suc j \<and> ring_left n nsend tx total_trace (after_reply (h - 1) (after_send (holder n h) s)) j"
proof -
  let ?t = "after_reply (h - 1) (after_send (holder n h) s)"
  have h: "1 \<le> h" "h \<le> n" "h = n \<longrightarrow> w" using assms(4) by (auto simp: ph_ok_def)
  have k: "0 < k" using assms(9) h(1) by auto
  consider "1 < h" | "h = 1" "0 < r" | "h = 1" "r = 0" using h(1) by linarith
  then have "ring_left n nsend tx total_trace ?t (k - 1)"
  proof cases
    case 1
    then have t: "?t = set_pc (h - 1) At_work (set_pc (holder n h) (if h = n then At_work else At_receive) s)"
      using h by (auto simp: after_reply_def after_send_def holder_def)
    have pc: "r_pc ?t = shape n (h - 1) w Work" unfolding t pc_set assms(1) using 1 h assms(2) by (auto simp: shape_defs fun_eq_iff)
    have ok: "ph_ok n (h - 1) w Work" using 1 h by (auto simp: ph_ok_def)
    have "k - 1 + ph_no Work = 4 * n * r + 4 * (h - 1) + of_bool w" using assms(9) 1 by auto
    then show ?thesis using assms(2,3,5,7,8) ok t by (intro hop [OF pc]) auto
  next
    case 2
    then have t: "?t = loop_head (set_pc 1 At_receive s)" using assms(2) by (auto simp: after_reply_def after_send_def holder_def)
    have f: "r_rounds ?t = int (r - 1)" "r_trace ?t = r_trace s" using 2(2) assms(5) unfolding t by (simp_all add: loop_head_def)
    have pc: "r_pc ?t = shape n n True Send"
      unfolding t loop_head_def pc_set using 2 assms(1,2,5) by (auto simp: set_pc_def shape_defs fun_eq_iff)
    have ok: "ph_ok n n True Send" using assms(2) by (auto simp: ph_ok_def)
    obtain r' where r': "r = Suc r'" using 2(2) by (cases r) auto
    have "rounds_of r n (take nsend tx) = hops n (take nsend tx) @ rounds_of (r - 1) n (take nsend tx)"
      by (simp add: r' rounds_of_def)
    then have tr: "r_trace ?t @ hops n (take nsend tx) @ rounds_of (r - 1) n (take nsend tx) = total_trace"
      unfolding f(2) using assms(8) 2(1) by simp
    have "w = False" using assms(4) 2(1) by (auto simp: ph_ok_def)
    then have "k - 1 + ph_no Send = 4 * n * (r - 1) + 4 * n + of_bool True" using assms(9) 2(1) by (simp add: r')
    then show ?thesis using assms(2,3) ok tr f(1) by (intro hop [OF pc]) auto
  next
    case 3
    then have t: "?t = loop_head (set_pc 1 At_receive s)" using assms(2) by (auto simp: after_reply_def after_send_def holder_def)
    have "w = False" using assms(4) 3(1) by (auto simp: ph_ok_def)
    then have "k - 1 = 0" using assms(9) 3 by simp
    moreover have "r_pc ?t = (idle False)(0 := Ended)"
      unfolding t loop_head_def pc_set using 3 assms(1,2,5) by (auto simp: set_pc_def shape_defs fun_eq_iff)
    moreover have "r_rounds ?t = - 1" "r_trace ?t = total_trace"
      using 3 assms(5,8) unfolding t by (simp_all add: loop_head_def rounds_of_def)
    ultimately show ?thesis using ended by simp
  qed
  with k show ?thesis by (intro exI [of _ "k - 1"]) simp
qed

lemma ring_step_left:
  assumes "ring_left n nsend tx total_trace s k" "ring_step n nsend tx s t"
  shows "\<exists>j. k = Suc j \<and> ring_left n nsend tx total_trace t j"
  using assms(1)
proof (cases rule: ring_left.cases)
  case ended
  from assms(2) ended(2) show ?thesis by (cases rule: ring_step.cases) (auto simp: idle_def split: if_splits)
next
  case (hop h w ph r)
  have own: ?thesis if "own_work n h w ph s t"
    using that hop by (intro own_work_left [of n h w ph s t nsend tx r])
  show ?thesis
  proof (cases ph)
    case Work
    have t: "t = set_pc h At_send s \<or> own_work n h w ph s t" using steps_Work [OF assms(2)] hop Work by blast
    moreover have ?thesis if t: "t = set_pc h At_send s"
    proof -
      have n: "h < n" using hop(4) Work by (auto simp: ph_ok_def)
      have pc: "r_pc t = shape n h w Send" using hop(1) n by (simp add: t Work holder_def)
      have "ring_left n nsend tx total_trace t (k - 1)"
        using hop Work t by (intro ring_left.hop [OF pc]) (auto simp: ph_ok_def)
      then show ?thesis using hop(4,9) Work by (intro exI [of _ "k - 1"]) (auto simp: ph_ok_def)
    qed
    ultimately show ?thesis using own by blast
  next
    case Send
    have t: "t = set_pc (holder n h) Send_blocked s \<or> own_work n h w ph s t" using steps_Send [OF assms(2)] hop Send by blast
    moreover have ?thesis if t: "t = set_pc (holder n h) Send_blocked s"
    proof -
      have pc: "r_pc t = shape n h w Wait" using hop(1) by (simp add: t Send)
      have "ring_left n nsend tx total_trace t (k - 1)"
        using hop Send t by (intro ring_left.hop [OF pc]) (auto simp: ph_ok_def)
      then show ?thesis using hop(4,9) Send by (intro exI [of _ "k - 1"]) (auto simp: ph_ok_def)
    qed
    ultimately show ?thesis using own by blast
  next
    case Wait
    have "t = deliver nsend tx (h - 1) (holder n h) s \<and> (h = 1 \<longrightarrow> \<not> w) \<or> own_work n h w ph s t"
      using steps_Wait [OF assms(2)] hop Wait by blast
    then show ?thesis using own deliver_left [of s n h w nsend tx r total_trace k] hop Wait by auto
  next
    case Reply
    have "t = after_reply (h - 1) (after_send (holder n h) s) \<or> own_work n h w ph s t"
      using steps_Reply [OF assms(2)] hop Reply by blast
    then show ?thesis using own reply_left [of s n h w nsend tx r total_trace k] hop Reply by auto
  qed
qed

lemma ring_not_stuck:
  assumes "ring_left n nsend tx total_trace s (Suc k)"
  shows "\<exists>t. ring_step n nsend tx s t"
  using assms
proof (cases rule: ring_left.cases)
  case (hop h w ph r)
  have h: "1 \<le> h" "h \<le> n" "h = n \<longrightarrow> w \<and> ph \<noteq> Work" "h = 1 \<and> ph = Reply \<longrightarrow> \<not> w" using hop(4) by (auto simp: ph_ok_def)
  have i: "holder n h < n" "h - 1 < n" "ring_to n (holder n h) = h - 1" using h hop(2) by (auto simp: holder_def ring_to_def)
  show ?thesis
  proof (cases ph)
    case Work
    then show ?thesis using ring_step.work [of h n s] hop(1) h by (auto simp: holder_def)
  next
    case Send
    then show ?thesis using ring_step.MsgSend [OF i(1), of s] hop(1) by auto
  next
    case Wait
    show ?thesis
    proof (cases "h = 1 \<and> w")
      case True
      then show ?thesis using ring_step.work [of 0 n s] hop(1,2) Wait by (auto simp: shape_defs)
    next
      case False
      then have "r_pc s (h - 1) = At_receive" "r_pc s (holder n h) = Send_blocked"
        using hop(1,2) Wait h by (auto simp: idle_def holder_def)
      then show ?thesis using ring_step.MsgReceive [OF i(2,1)] i(3) by blast
    qed
  next
    case Reply
    then have "r_pc s (h - 1) = At_reply" "r_pc s (r_rcvid s (h - 1)) = Reply_blocked"
      using hop(1,2,7) h by (auto simp: holder_def)
    then show ?thesis using ring_step.MsgReply [OF i(2)] by blast
  qed
qed

interpretation msg_ring: counted_run "ring_step n nsend tx" "ring_left n nsend tx total_trace" for n nsend tx total_trace
  using ring_step_left ring_not_stuck by unfold_locales

lemma ring_start_left:
  assumes "ring_start (int r) s" "2 \<le> n" "nsend \<le> length tx"
  shows "ring_left n nsend tx (rounds_of r n (take nsend tx)) (loop_head s) (4 * n * r)"
proof (cases r)
  case 0
  have "r_pc (loop_head s) = (idle False)(0 := Ended)" using assms(1) 0 by (auto simp: ring_start_def loop_head_def idle_def set_pc_def fun_eq_iff)
  then have "ring_left n nsend tx [] (loop_head s) 0"
    using assms(1) 0 by (intro ended) (simp_all add: ring_start_def loop_head_def)
  then show ?thesis by (simp add: 0 rounds_of_def)
next
  case (Suc r')
  have pc: "r_pc (loop_head s) = shape n n True Send"
    using assms(1) Suc by (auto simp: ring_start_def loop_head_def shape_defs set_pc_def fun_eq_iff)
  have "rounds_of r n m = hops n m @ rounds_of r' n m" for m by (simp add: Suc rounds_of_def)
  then show ?thesis using assms Suc
    by (intro hop [OF pc, of _ _ r']) (simp_all add: ph_ok_def ring_start_def loop_head_def)
qed

lemma ring_left_0: "ring_left n nsend tx total_trace t 0 \<Longrightarrow> r_pc t = (idle False)(0 := Ended) \<and> r_trace t = total_trace"
proof (erule ring_left.cases)
  fix s h w ph r k
  assume "t = s" "0 = k" "ph_ok n h w ph" "k + ph_no ph = 4 * n * r + 4 * h + of_bool w"
  then show ?thesis by (cases ph) (auto simp: ph_ok_def)
qed simp

section \<open>Results\<close>

text \<open>\<open>print_result\<close>: the number of passes, the time per pass in microseconds, the access time and the switch time. \<open>None\<close> is the
  division by zero when the product wraps to zero.\<close>

definition print_result :: "int \<Rightarrow> int \<Rightarrow> int \<Rightarrow> int \<Rightarrow> (int \<times> dbl \<times> dbl \<times> dbl) option" where
  "print_result ns procs rounds ns_process_data =
     (let us = d_div (d_of_int ns) (Fin 1000); passes = wrap32 (procs * rounds)
      in if passes = 0 then None
         else Some (passes, d_div us (d_of_int passes), d_div (d_of_int ns_process_data) (Fin 1000),
                    d_div (d_of_int (wrap64 (c_div ns passes - ns_process_data))) (Fin 1000)))"

section \<open>Properties\<close>

text \<open>C17. The ring stops only when the work is done. However the processes are scheduled, a run of \<open>iterator\<close> with \<open>r\<close> rounds in a ring of
  \<open>n\<close> processes has at most \<open>4 * n * r\<close> steps, and when no process can move, it had exactly that many: \<open>iterator\<close> has left its loop, the
  others wait for the next message, and the messages that were received are, round after round, the one \<open>iterator\<close> sent, received by
  the processes \<open>n - 1\<close> down to 0 in this order.\<close>

theorem msgring_terminates:
  assumes "2 \<le> n" "nsend \<le> length tx" "ring_start (int r) s" "(ring_step n nsend tx ^^ m) (loop_head s) t"
  shows "m \<le> 4 * n * r \<and> ((\<nexists>u. ring_step n nsend tx t u) \<longrightarrow> m = 4 * n * r \<and> r_pc t = (\<lambda>i. if i = 0 then Ended else At_receive)
    \<and> r_trace t = concat (replicate r (map (\<lambda>i. (i, take nsend tx)) (rev [0..<n]))))"
proof -
  note l = ring_start_left [OF assms(3,1,2)]
  have "m \<le> 4 * n * r" using msg_ring.run_left [OF assms(4) l] by blast
  moreover have "m = 4 * n * r \<and> ring_left n nsend tx (rounds_of r n (take nsend tx)) t 0" if "\<nexists>u. ring_step n nsend tx t u"
    using msg_ring.stopped_at_end [OF l assms(4) that] .
  ultimately show ?thesis using ring_left_0 [of n nsend tx "rounds_of r n (take nsend tx)" t]
    by (auto simp: rounds_of_def hops_def idle_def fun_eq_iff)
qed

text \<open>C16. The ring does not deadlock: from every state that a run can reach, a continuation lets \<open>iterator\<close> leave its loop, with
  \<open>procs * rounds\<close> messages received, the number of passes \<open>print_result\<close> divides the time by.\<close>

theorem msgring_no_deadlock:
  assumes "2 \<le> n" "nsend \<le> length tx" "ring_start (int r) s" "(ring_step n nsend tx ^^ m) (loop_head s) t"
    "0 < r" "int n * int r < 2 ^ 31"
  shows "\<exists>u k. (ring_step n nsend tx ^^ k) t u \<and> r_pc u 0 = Ended
    \<and> map_option fst (print_result ns (int n) (int r) nd) = Some (int (length (r_trace u)))"
proof -
  obtain u where u: "(ring_step n nsend tx ^^ (4 * n * r - m)) t u" "ring_left n nsend tx (rounds_of r n (take nsend tx)) u 0"
    using msg_ring.run_extends [OF ring_start_left [OF assms(3,1,2)] assms(4)] by blast
  then have "r_pc u 0 = Ended" "length (r_trace u) = r * n" using ring_left_0 [OF u(2)] by (simp_all add: length_rounds)
  moreover have wrap: "wrap32 (int n * int r) = int n * int r"
  proof (rule wrap32_id)
    have "0 \<le> int n * int r" by simp
    then show "- (2 ^ 31) \<le> int n * int r" by (rule order_trans [rotated]) simp
  qed (rule assms(6))
  have "map_option fst (print_result ns (int n) (int r) nd) = Some (int n * int r)"
    using assms(1,5) wrap by (simp add: print_result_def Let_def)
  ultimately show ?thesis using u(1) by (metis mult.commute of_nat_mult)
qed

text \<open>C18. One message at a time: in every state of a run at most one process is sending, be it before, in or after the hand-over.\<close>

theorem msgring_one_sender:
  assumes "2 \<le> n" "nsend \<le> length tx" "ring_start (int r) s" "(ring_step n nsend tx ^^ m) (loop_head s) t"
    "r_pc t i \<in> {At_send, Send_blocked, Reply_blocked}" "r_pc t j \<in> {At_send, Send_blocked, Reply_blocked}"
  shows "i = j"
proof -
  from msg_ring.run_left [OF assms(4) ring_start_left [OF assms(3,1,2)]]
  have "ring_left n nsend tx (rounds_of r n (take nsend tx)) t (4 * n * r - m)" by blast
  then show ?thesis
  proof (cases rule: ring_left.cases)
    case (hop h w ph r')
    then show ?thesis using assms(5,6) by (cases ph) (auto simp: idle_def split: if_splits)
  next
    case ended
    then show ?thesis using assms(5) by (auto simp: idle_def split: if_splits)
  qed
qed

definition demo_ring :: ring where
  "demo_ring = \<lparr>r_pc = (\<lambda>_. At_receive), r_rounds = 2, r_buf = (\<lambda>_. [0]), r_rcvid = (\<lambda>_. 0), r_trace = []\<rparr>"

lemma demo_start: "ring_start (int 2) demo_ring"
  by (simp add: ring_start_def demo_ring_def)

theorem msgring_terminates_witness: "\<exists>t. (ring_step 3 1 [7] ^^ 24) (loop_head demo_ring) t \<and> r_pc t 0 = Ended
   \<and> r_trace t = [(2, [7]), (1, [7]), (0, [7]), (2, [7]), (1, [7]), (0, [7])]"
proof -
  obtain t where t: "(ring_step 3 1 [7] ^^ (4 * 3 * 2)) (loop_head demo_ring) t" "ring_left 3 1 [7] (rounds_of 2 3 (take 1 [7])) t 0"
    using msg_ring.run_to_end [OF ring_start_left [OF demo_start, of 3 1 "[7]"]] by auto
  from msgring_terminates [OF _ _ demo_start t(1)] msg_ring.end_stops [OF t(2)]
  have "r_pc t 0 = Ended \<and> r_trace t = [(2, [7]), (1, [7]), (0, [7]), (2, [7]), (1, [7]), (0, [7])]"
    by (simp add: numeral_3_eq_3 numeral_2_eq_2)
  then show ?thesis using t(1) by auto
qed

theorem msgring_no_deadlock_witness:
  "\<exists>u k. (ring_step 2 1 [7] ^^ k) (loop_head demo_ring) u \<and> r_pc u 0 = Ended \<and> length (r_trace u) = 4"
  using msgring_no_deadlock [of 2 1 "[7]" 2 demo_ring 0 "loop_head demo_ring" 0 0] demo_start by (auto simp: print_result_def Let_def)

theorem msgring_one_sender_witness: "\<forall>i. r_pc (loop_head demo_ring) i = At_send \<longleftrightarrow> i = 0"
proof -
  have z: "r_pc (loop_head demo_ring) 0 = At_send" by (simp add: loop_head_def demo_ring_def)
  have "i = 0" if "r_pc (loop_head demo_ring) i = At_send" for i
    by (rule msgring_one_sender [of 2 1 "[7]" 2 demo_ring 0 "loop_head demo_ring"]) (use that z demo_start in auto)
  with z show ?thesis by blast
qed

end
