(* ===== verification/Ctext.thy ===== *)
theory Ctext
  imports Util
begin

text \<open>
  The conversions of the C library between numbers and text that the programs rely on: \<open>%d\<close> of \<open>printf\<close> and \<open>atoi\<close>.
\<close>

section \<open>Numbers as text\<close>

text \<open>\<open>%d\<close>\<close>

fun show_nat :: "nat \<Rightarrow> string" where
  "show_nat n = (if n < 10 then [char_of (48 + n)] else show_nat (n div 10) @ [char_of (48 + n mod 10)])"

declare show_nat.simps [simp del]

definition show_int :: "int \<Rightarrow> string" where
  "show_int x = (if x < 0 then CHR ''-'' # show_nat (nat (- x)) else show_nat (nat x))"

text \<open>\<open>atoi\<close>: white space, a sign, digits. A value that is no \<open>long\<close> gives the nearest one, as \<open>strtol\<close>, before it is cut to an \<open>int\<close>.\<close>

definition clamp64 :: "int \<Rightarrow> int" where
  "clamp64 x = (if x < - (2 ^ 63) then - (2 ^ 63) else if 2 ^ 63 \<le> x then 2 ^ 63 - 1 else x)"

definition atoi :: "string \<Rightarrow> int" where
  "atoi str =
     (let t = dropWhile is_space str in
      wrap32 (clamp64 (case t of
        [] \<Rightarrow> 0
      | c # cs \<Rightarrow> if c = CHR ''-'' then - int (dec_val (takeWhile is_digit cs))
                  else if c = CHR ''+'' then int (dec_val (takeWhile is_digit cs)) else int (dec_val (takeWhile is_digit t)))))"

section \<open>Round trip\<close>

lemma digit_char: "d < 10 \<Longrightarrow> of_char (char_of (48 + d) :: char) = 48 + (d :: nat)"
  by simp

lemma is_digit_char [simp]: "d < 10 \<Longrightarrow> is_digit (char_of (48 + d))" "d < 10 \<Longrightarrow> digit_val (char_of (48 + d)) = d"
  by (simp_all add: is_digit_def digit_val_def digit_char)

lemma dec_val_snoc: "dec_val (ds @ [c]) = 10 * dec_val ds + digit_val c"
  by (simp add: dec_val_def)

lemma dec_val_single: "dec_val [c] = digit_val c"
  by (simp add: dec_val_def)

lemma show_nat_digits: "list_all is_digit (show_nat n) \<and> show_nat n \<noteq> [] \<and> dec_val (show_nat n) = n"
proof (induction n rule: show_nat.induct)
  case (1 n)
  show ?case
  proof (cases "n < 10")
    case True
    then show ?thesis by (simp add: show_nat.simps [of n] dec_val_single)
  next
    case False
    with 1 have ih: "list_all is_digit (show_nat (n div 10)) \<and> show_nat (n div 10) \<noteq> [] \<and> dec_val (show_nat (n div 10)) = n div 10"
      by blast
    have "show_nat n = show_nat (n div 10) @ [char_of (48 + n mod 10)]" using False by (subst show_nat.simps) simp
    with ih show ?thesis by (simp add: dec_val_snoc)
  qed
qed

lemma digit_not_space: "is_digit c \<Longrightarrow> \<not> is_space c \<and> c \<noteq> CHR ''-'' \<and> c \<noteq> CHR ''+''"
  by (auto simp: is_digit_def is_space_def)

lemma takeWhile_digits:
  "list_all is_digit ds \<Longrightarrow> rest = [] \<or> \<not> is_digit (hd rest) \<Longrightarrow> takeWhile is_digit (ds @ rest) = ds"
  by (cases rest) (auto simp: list_all_iff)

lemma atoi_digits:
  assumes "list_all is_digit ds" "ds \<noteq> []" "rest = [] \<or> \<not> is_digit (hd rest)"
  shows "atoi (ds @ rest) = wrap32 (clamp64 (int (dec_val ds)))" "atoi (CHR ''-'' # ds @ rest) = wrap32 (clamp64 (- int (dec_val ds)))"
proof -
  obtain c cs where c: "ds = c # cs" using assms(2) by (cases ds) auto
  have t: "takeWhile is_digit (ds @ rest) = ds" using takeWhile_digits [OF assms(1,3)] .
  have "\<not> is_space c \<and> c \<noteq> CHR ''-'' \<and> c \<noteq> CHR ''+''" using assms(1) c digit_not_space by simp
  with t c show "atoi (ds @ rest) = wrap32 (clamp64 (int (dec_val ds)))" by (simp add: atoi_def Let_def)
  have "\<not> is_space (CHR ''-'')" by (simp add: is_space_def)
  with t show "atoi (CHR ''-'' # ds @ rest) = wrap32 (clamp64 (- int (dec_val ds)))" by (simp add: atoi_def Let_def)
qed

text \<open>\<open>atoi\<close> reads back what \<open>%d\<close> prints, when no digit follows.\<close>

lemma atoi_show_int:
  assumes "- (2 ^ 31) \<le> x" "x < 2 ^ 31" "rest = [] \<or> \<not> is_digit (hd rest)"
  shows "atoi (show_int x @ rest) = x"
proof (cases "x < 0")
  case True
  have "clamp64 x = x" "wrap32 x = x" using assms(1,2) by (simp_all add: clamp64_def)
  then show ?thesis using True atoi_digits(2) [of "show_nat (nat (- x))" rest] show_nat_digits [of "nat (- x)"] assms(3)
    by (simp add: show_int_def)
next
  case False
  have "clamp64 x = x" "wrap32 x = x" using assms(1,2) by (simp_all add: clamp64_def)
  then show ?thesis using False atoi_digits(1) [of "show_nat (nat x)" rest] show_nat_digits [of "nat x"] assms(3)
    by (simp add: show_int_def)
qed

text \<open>A digit that follows is read as part of the number.\<close>

lemma atoi_run_on:
  assumes "0 \<le> x" "10 * x + int (digit_val d) < 2 ^ 31" "is_digit d" "rest = [] \<or> \<not> is_digit (hd rest)"
  shows "atoi (show_int x @ d # rest) = 10 * x + int (digit_val d)"
proof -
  let ?v = "10 * x + int (digit_val d)"
  have "dec_val (show_nat (nat x) @ [d]) = nat ?v" using show_nat_digits [of "nat x"] assms(1) by (simp add: dec_val_snoc nat_add_distrib nat_mult_distrib)
  moreover have "clamp64 ?v = ?v" "wrap32 ?v = ?v" using assms(1,2) by (simp_all add: clamp64_def)
  ultimately show ?thesis using atoi_digits(1) [of "show_nat (nat x) @ [d]" rest] show_nat_digits [of "nat x"] assms
    by (simp add: show_int_def)
qed

lemma length_show_nat: "n < 10 ^ k \<Longrightarrow> 0 < k \<Longrightarrow> length (show_nat n) \<le> k"
proof (induction k arbitrary: n)
  case (Suc k)
  show ?case
  proof (cases "n < 10")
    case False
    then have "n div 10 < 10 ^ k" "0 < k" using Suc.prems by (auto simp: less_mult_imp_div_less mult.commute intro!: gr0I)
    then have "length (show_nat (n div 10)) \<le> k" by (rule Suc.IH)
    then show ?thesis using False by (simp add: show_nat.simps [of n])
  qed (simp add: show_nat.simps [of n])
qed simp

lemma length_show_int:
  assumes "- (2 ^ 31) \<le> x" "x < 2 ^ 31"
  shows "length (show_int x) \<le> 11"
proof -
  have "nat x < 10 ^ 10" "nat (- x) < 10 ^ 10" using assms by simp_all
  from this [THEN length_show_nat] show ?thesis by (simp add: show_int_def)
qed

lemma show_int_chars: "c \<in> set (show_int x) \<Longrightarrow> is_digit c \<or> c = CHR ''-''"
  using show_nat_digits by (auto simp: show_int_def list_all_iff split: if_splits)

lemma show_int_not_Nil: "show_int x \<noteq> []"
  using show_nat_digits by (simp add: show_int_def)

end
