(* ===== verification/Msgring_Setup.thy ===== *)
theory Msgring_Setup
  imports Msgring Memchain Ctext
begin

text \<open>
  How \<open>src/msgring.c\<close> builds its ring: the options (\<open>get_opts\<close>), the chain of processes \<open>fork_msgring\<close> forks, the file with which
  the last process tells the first its channel (\<open>writefile\<close>, \<open>readfile\<close>), and the table of pipes that stands in for the
  kernel's channels on other systems. What \<open>getopt\<close>, \<open>fork\<close>, the file calls and the kernel answer are arguments.
\<close>

section \<open>Options\<close>

datatype sched_policy = Sched_default | SCHED_RR | SCHED_FIFO

record ring_opts =
  ro_procs :: int
  ro_rounds :: int
  ro_warmup :: int
  ro_policy :: sched_policy
  ro_priority :: int
  ro_verbose :: int
  ro_process_size :: int

definition ring_defaults :: ring_opts where
  "ring_defaults = \<lparr>ro_procs = 4, ro_rounds = 5, ro_warmup = 1, ro_policy = Sched_default, ro_priority = 1, ro_verbose = 0,
     ro_process_size = 0\<rparr>"

text \<open>One round of the \<open>switch\<close>. \<open>print_usage\<close> exits with status 0; a missing argument is undefined in \<open>atoi\<close>.\<close>

definition atleast :: "int \<Rightarrow> string option \<Rightarrow> (int \<Rightarrow> ring_opts) \<Rightarrow> ring_opts outcome" where
  "atleast bound arg f = andthen (defined arg) (\<lambda>a. if atoi a < bound then Exit 0 else Done (f (atoi a)))"

definition ring_opt :: "char \<Rightarrow> string option \<Rightarrow> ring_opts \<Rightarrow> ring_opts outcome" where
  "ring_opt c arg opt =
     (if c = CHR ''W'' then atleast 0 arg (\<lambda>x. opt\<lparr>ro_warmup := x\<rparr>)
      else if c = CHR ''N'' then atleast 1 arg (\<lambda>x. opt\<lparr>ro_rounds := x\<rparr>)
      else if c = CHR ''P'' then atleast 2 arg (\<lambda>x. opt\<lparr>ro_procs := x\<rparr>)
      else if c = CHR ''R'' then atleast 1 arg (\<lambda>x. opt\<lparr>ro_priority := x, ro_policy := SCHED_RR\<rparr>)
      else if c = CHR ''F'' then atleast 1 arg (\<lambda>x. opt\<lparr>ro_priority := x, ro_policy := SCHED_FIFO\<rparr>)
      else if c = CHR ''s'' then atleast 1 arg (\<lambda>x. opt\<lparr>ro_process_size := wrap32 (x * 1024)\<rparr>)
      else if c = CHR ''v'' then Done (opt\<lparr>ro_verbose := ro_verbose opt + 1\<rparr>)
      else Exit 0)"

text \<open>The loop over what \<open>getopt\<close> returns until \<open>EOF\<close>: the letters, each with \<open>optarg\<close>.\<close>

fun get_opts :: "(char \<times> string option) list \<Rightarrow> ring_opts \<Rightarrow> ring_opts outcome" where
  "get_opts [] opt = Done opt"
| "get_opts ((c, arg) # rs) opt = andthen (ring_opt c arg opt) (get_opts rs)"

section \<open>The file\<close>

definition ring_text :: "int \<Rightarrow> int \<Rightarrow> string" where
  "ring_text pid chid = show_int pid @ '' '' @ show_int chid"

text \<open>\<open>writefile\<close> for what \<open>open\<close>, \<open>write\<close> and \<open>close\<close> return: its result, and the text that is in the new file.\<close>

definition writefile :: "int \<Rightarrow> (string \<Rightarrow> int) \<Rightarrow> int \<Rightarrow> int \<Rightarrow> int \<Rightarrow> int \<times> string" where
  "writefile opened written shut pid chid =
     (let txt = ring_text pid chid in
      if opened < 0 then (- 1, [])
      else if written txt < 0 then (- 1, [])
      else (if shut < 0 then - 1 else written txt, take (nat (written txt)) txt))"

text \<open>\<open>strtok\<close> with the delimiters \<open>"\t ,"\<close> on the memory from some address on: the token and the memory after it, \<open>Some None\<close> for a null
  pointer, \<open>None\<close> when it runs out of the array.\<close>

definition is_delim :: "char \<Rightarrow> bool" where
  "is_delim c = (c \<in> {CHR 0x09, CHR '' '', CHR '',''})"

fun token :: "string \<Rightarrow> (string \<times> string) option" where
  "token [] = None"
| "token (c # cs) =
     (if c = CHR 0x00 then Some ([], c # cs)
      else if is_delim c then Some ([], cs)
      else do { (t, rest) \<leftarrow> token cs; Some (c # t, rest) })"

definition strtok :: "string \<Rightarrow> (string \<times> string) option option" where
  "strtok mem =
     (case dropWhile is_delim mem of
        [] \<Rightarrow> None
      | c # cs \<Rightarrow> if c = CHR 0x00 then Some None else map_option Some (token (c # cs)))"

definition MAXRETRY :: nat where
  "MAXRETRY = 30"

text \<open>\<open>readfile\<close>: \<open>opened k\<close> is what \<open>open\<close> returns in try \<open>k\<close>, \<open>nread\<close> the bytes of \<open>read\<close> (\<open>None\<close> for -1), \<open>old\<close> the 64 characters \<open>txt\<close> holds
  before. The result is -1, or the process and the channel; \<open>None\<close> is an access outside of \<open>txt\<close> or through a null pointer.\<close>

definition readfile :: "(nat \<Rightarrow> int) \<Rightarrow> string option \<Rightarrow> int \<Rightarrow> string \<Rightarrow> (int + int \<times> int) option" where
  "readfile opened got shut old =
     (if List.find (\<lambda>k. 0 < opened k) [0..<MAXRETRY] = None then Some (Inl (- 1))
      else case got of
        None \<Rightarrow> Some (Inl (- 1))
      | Some bs \<Rightarrow>
          if shut < 0 then Some (Inl (- 1))
          else do { t1 \<leftarrow> strtok (bs @ drop (length bs) old);
                    (ppid, rest) \<leftarrow> t1;
                    t2 \<leftarrow> strtok rest;
                    (chid, rest) \<leftarrow> t2;
                    Some (Inr (atoi ppid, atoi chid)) })"

section \<open>The processes\<close>

record state_t =
  st_run :: int
  st_pid :: int
  st_ppid :: int
  st_chid :: int
  st_coid :: int

text \<open>A process: its number and its parent's, its copies of \<open>state\<close> and \<open>fork_pids\<close>, the process and the channel its connection leads to, what it wrote to the
  file, and whether it has called \<open>exit(1)\<close>.\<close>

record proc =
  pr_pid :: int
  pr_ppid :: int
  pr_state :: state_t
  pr_fork_pids :: "int list"
  pr_peer :: "(int \<times> int) option"
  pr_file :: "(int \<times> int) option"
  pr_exit :: bool

text \<open>The answers of the kernel for process \<open>ix\<close> of the chain: its number (-1 when \<open>fork\<close> fails), its channel and its connection.\<close>

record ring_os =
  os_pid :: "nat \<Rightarrow> int"
  os_chid :: "nat \<Rightarrow> int"
  os_coid :: "nat \<Rightarrow> int"

definition MAXPROCS :: nat where
  "MAXPROCS = 1000"

definition init_state :: "ring_os \<Rightarrow> proc outcome" where
  "init_state os =
     (if os_chid os 0 = - 1 then Exit 1
      else Done \<lparr>pr_pid = os_pid os 0, pr_ppid = 0,
                 pr_state = \<lparr>st_run = 1, st_pid = os_pid os 0, st_ppid = 0, st_chid = os_chid os 0, st_coid = 0\<rparr>,
                 pr_fork_pids = replicate MAXPROCS 0, pr_peer = None, pr_file = None, pr_exit = False\<rparr>)"

text \<open>The branch of the child: a channel of its own, a connection to the channel it inherited, and for the last process the file.\<close>

definition ring_child :: "ring_os \<Rightarrow> nat \<Rightarrow> nat \<Rightarrow> proc \<Rightarrow> proc option" where
  "ring_child os ix fork_count p =
     do { pids \<leftarrow> arr_set (pr_fork_pids p) ix (os_pid os ix);
          let st = (pr_state p)\<lparr>st_pid := os_pid os ix, st_ppid := pr_pid p\<rparr>;
          let c = p\<lparr>pr_pid := os_pid os ix, pr_ppid := pr_pid p, pr_fork_pids := pids, pr_state := st\<rparr>;
          if os_chid os ix = - 1 \<or> os_coid os ix = - 1 then Some (c\<lparr>pr_exit := True\<rparr>)
          else Some (c\<lparr>pr_state := st\<lparr>st_chid := os_chid os ix, st_coid := os_coid os ix\<rparr>,
                       pr_peer := Some (st_ppid st, st_chid st),
                       pr_file := (if fork_count = 0 then Some (os_pid os ix, os_chid os ix) else pr_file p)\<rparr>) }"

text \<open>The loop, for a process that enters it at \<open>ix\<close> with the given \<open>fork_count\<close>: all the processes that come of it. After a
  fork both go on with the loop.\<close>

fun fork_loop :: "ring_os \<Rightarrow> nat \<Rightarrow> nat \<Rightarrow> proc \<Rightarrow> proc list option" where
  "fork_loop os ix 0 p = Some [p]"
| "fork_loop os ix (Suc fork_count) p =
     do { prev \<leftarrow> arr_get (pr_fork_pids p) (ix - 1);
          if pr_pid p = prev then
            if os_pid os ix = - 1 then Some [p\<lparr>pr_exit := True\<rparr>]
            else do { c \<leftarrow> ring_child os ix fork_count p;
                      cs \<leftarrow> (if pr_exit c then Some [c] else fork_loop os (ix + 1) fork_count c);
                      ps \<leftarrow> fork_loop os (ix + 1) fork_count p;
                      Some (ps @ cs) }
          else fork_loop os (ix + 1) fork_count p }"

definition fork_msgring :: "ring_os \<Rightarrow> int \<Rightarrow> proc \<Rightarrow> proc list option" where
  "fork_msgring os procs p =
     do { pids \<leftarrow> arr_set (pr_fork_pids p) 0 (pr_pid p);
          fork_loop os 1 (nat (procs - 1)) (p\<lparr>pr_fork_pids := pids\<rparr>) }"

text \<open>The connection of the first process, in \<open>run_iterator\<close>: to what it reads from the file. When that fails it kills its process group and
  exits with status 1.\<close>

definition connect_first :: "(int + int \<times> int) \<Rightarrow> int \<Rightarrow> proc \<Rightarrow> proc outcome" where
  "connect_first file coid p =
     (case file of
        Inl _ \<Rightarrow> Exit 1
      | Inr peer \<Rightarrow> if coid = - 1 then Exit 1
                    else Done (p\<lparr>pr_peer := Some peer, pr_state := (pr_state p)\<lparr>st_coid := coid\<rparr>\<rparr>))"

text \<open>The process a process sends to.\<close>

definition sends_to :: "proc list \<Rightarrow> nat \<Rightarrow> nat option" where
  "sends_to ps i = List.find (\<lambda>j. pr_peer (ps ! i) = Some (pr_pid (ps ! j), st_chid (pr_state (ps ! j)))) [0..<length ps]"

section \<open>The table of pipes\<close>

text \<open>The emulation of channels on other systems: an entry of \<open>pipetable\<close>, and the calls on the table. \<open>piped\<close> is what \<open>pipe\<close> returns with its two
  descriptors, \<open>rand\<close> the number of \<open>random\<close>.\<close>

record msgpipe_t =
  mp_pid :: int
  mp_fd0 :: int
  mp_fd1 :: int
  mp_chid :: int

definition MAXPIPES :: nat where
  "MAXPIPES = 100"

definition ChannelCreate :: "int \<times> int \<times> int \<Rightarrow> int \<Rightarrow> int \<Rightarrow> msgpipe_t list \<Rightarrow> int \<times> msgpipe_t list" where
  "ChannelCreate piped rand pid table =
     (if MAXPIPES \<le> length table then (- 1, table)
      else let (err, fd0, fd1) = piped; chid = rand AND 0x7fffffff
           in if err \<noteq> 0 then (- 1, table)
              else (chid, table @ [\<lparr>mp_pid = pid, mp_fd0 = fd0, mp_fd1 = fd1, mp_chid = chid\<rparr>]))"

definition ConnectAttach :: "int \<Rightarrow> int \<Rightarrow> msgpipe_t list \<Rightarrow> int" where
  "ConnectAttach pid chid table =
     (case List.find (\<lambda>e. pid = mp_pid e \<and> chid = mp_chid e) table of None \<Rightarrow> - 1 | Some e \<Rightarrow> mp_chid e)"

fun find_from :: "int \<Rightarrow> int \<Rightarrow> msgpipe_t list \<Rightarrow> int" where
  "find_from ix chid [] = - 1"
| "find_from ix chid (e # es) = (if mp_chid e = chid then ix else find_from (ix + 1) chid es)"

definition find_pipetable_ix :: "int \<Rightarrow> msgpipe_t list \<Rightarrow> int" where
  "find_pipetable_ix chid table = find_from 0 chid table"

text \<open>\<open>MsgSend\<close> and \<open>MsgReceive\<close> of the emulation; \<open>wr\<close> and \<open>rd\<close> are what \<open>write\<close> and \<open>read\<close> return for a descriptor.\<close>

definition MsgSend_pipe :: "(int \<Rightarrow> int) \<Rightarrow> (int \<Rightarrow> int) \<Rightarrow> int \<Rightarrow> msgpipe_t list \<Rightarrow> int" where
  "MsgSend_pipe wr rd coid table =
     (let ix = find_pipetable_ix coid table in
      if ix < 0 then - 1
      else let fd = mp_fd0 (table ! nat ix) in if wr fd < 0 then - 1 else if rd fd < 0 then - 1 else 0)"

definition MsgReceive_pipe :: "(int \<Rightarrow> int) \<Rightarrow> int \<Rightarrow> msgpipe_t list \<Rightarrow> int" where
  "MsgReceive_pipe rd chid table =
     (let ix = find_pipetable_ix chid table in
      if ix < 0 then - 1 else if rd (mp_fd1 (table ! nat ix)) < 0 then - 1 else 0)"

lemma find_from_less: "find_from ix chid es \<noteq> - 1 \<Longrightarrow> 0 \<le> ix \<Longrightarrow> ix \<le> find_from ix chid es \<and> find_from ix chid es < ix + int (length es)
    \<and> mp_chid (es ! nat (find_from ix chid es - ix)) = chid"
proof (induction es arbitrary: ix)
  case (Cons e es)
  show ?case
  proof (cases "mp_chid e = chid")
    case False
    with Cons.prems have "ix + 1 \<le> find_from (ix + 1) chid es \<and> find_from (ix + 1) chid es < ix + 1 + int (length es)
      \<and> mp_chid (es ! nat (find_from (ix + 1) chid es - (ix + 1))) = chid" by (intro Cons.IH) auto
    moreover from this have "nat (find_from (ix + 1) chid es - ix) = Suc (nat (find_from (ix + 1) chid es - (ix + 1)))" by linarith
    ultimately show ?thesis using False by simp
  qed simp
qed simp

lemma find_pipetable_in: "find_pipetable_ix chid table \<noteq> - 1 \<Longrightarrow> 0 \<le> find_pipetable_ix chid table
    \<and> find_pipetable_ix chid table < int (length table) \<and> mp_chid (table ! nat (find_pipetable_ix chid table)) = chid"
  using find_from_less [of 0 chid table] by (simp add: find_pipetable_ix_def)

text \<open>A channel that was created can be connected to by its process and number.\<close>

lemma channel_connects:
  assumes "ChannelCreate piped rand pid table = (chid, table')" "chid \<noteq> - 1"
  shows "ConnectAttach pid chid table' = chid" "length table' \<le> MAXPIPES"
proof -
  have t: "\<exists>e. table' = table @ [e] \<and> mp_pid e = pid \<and> mp_chid e = chid" "length table < MAXPIPES"
    using assms by (auto simp: ChannelCreate_def Let_def split: if_splits prod.splits)
  then have "List.find (\<lambda>e. pid = mp_pid e \<and> chid = mp_chid e) table' \<noteq> None" by (auto simp: find_None_iff)
  then obtain e where e: "List.find (\<lambda>e. pid = mp_pid e \<and> chid = mp_chid e) table' = Some e" by blast
  then have "mp_chid e = chid" by (auto simp: find_Some_iff)
  with e show "ConnectAttach pid chid table' = chid" by (simp add: ConnectAttach_def)
  show "length table' \<le> MAXPIPES" using t by auto
qed

text \<open>\<open>MsgSend\<close> writes to \<open>fd[0]\<close>, the end of a pipe that can only be read: it fails whenever such a write does.\<close>

lemma MsgSend_pipe_fails: "(\<And>fd. fd \<in> mp_fd0 ` set table \<Longrightarrow> wr fd = - 1) \<Longrightarrow> MsgSend_pipe wr rd coid table = - 1"
  using find_pipetable_in [of coid table] by (force simp: MsgSend_pipe_def Let_def)

section \<open>The chain\<close>

text \<open>Process \<open>i\<close> of a chain of \<open>n\<close>, when every call succeeds.\<close>

definition link :: "ring_os \<Rightarrow> nat \<Rightarrow> nat \<Rightarrow> proc" where
  "link os n i =
     \<lparr>pr_pid = os_pid os i, pr_ppid = (if i = 0 then 0 else os_pid os (i - 1)),
      pr_state = \<lparr>st_run = 1, st_pid = os_pid os i, st_ppid = (if i = 0 then 0 else os_pid os (i - 1)), st_chid = os_chid os i,
                  st_coid = (if i = 0 then 0 else os_coid os i)\<rparr>,
      pr_fork_pids = map (\<lambda>j. if j \<le> i then os_pid os j else 0) [0..<MAXPROCS],
      pr_peer = (if i = 0 then None else Some (os_pid os (i - 1), os_chid os (i - 1))),
      pr_file = (if i = n - 1 \<and> i \<noteq> 0 then Some (os_pid os i, os_chid os i) else None), pr_exit = False\<rparr>"

definition calls_succeed :: "ring_os \<Rightarrow> nat \<Rightarrow> bool" where
  "calls_succeed os n = (\<forall>i < n. os_pid os i \<noteq> 0 \<and> os_pid os i \<noteq> - 1 \<and> os_chid os i \<noteq> - 1 \<and> os_coid os i \<noteq> - 1)"

text \<open>A process whose number is not in the rest of the table forks no more.\<close>

lemma fork_loop_idle:
  assumes "\<forall>j. ix - 1 \<le> j \<and> j < ix - 1 + fork_count \<longrightarrow> j < length (pr_fork_pids p) \<and> pr_fork_pids p ! j \<noteq> pr_pid p" "1 \<le> ix"
  shows "fork_loop os ix fork_count p = Some [p]"
  using assms
proof (induction fork_count arbitrary: ix)
  case (Suc fork_count)
  have "fork_loop os (ix + 1) fork_count p = Some [p]" using Suc.prems by (intro Suc.IH) auto
  moreover have "ix - 1 < length (pr_fork_pids p)" "pr_fork_pids p ! (ix - 1) \<noteq> pr_pid p" using Suc.prems by auto
  ultimately show ?case by simp
qed simp

lemma ring_child_link:
  assumes "calls_succeed os n" "1 \<le> ix" "ix < n" "ix < MAXPROCS"
  shows "ring_child os ix (n - 1 - ix) (link os n (ix - 1)) = Some (link os n ix)"
proof -
  have "(map (\<lambda>j. if j \<le> ix - 1 then os_pid os j else 0) [0..<MAXPROCS])[ix := os_pid os ix]
      = map (\<lambda>j. if j \<le> ix then os_pid os j else 0) [0..<MAXPROCS]"
    using assms(2,4) by (intro nth_equalityI) (auto simp: nth_list_update)
  then show ?thesis using assms by (auto simp: ring_child_def link_def calls_succeed_def)
qed

lemma fork_loop_chain:
  assumes "calls_succeed os n" "1 \<le> ix" "ix + fork_count = n" "n \<le> MAXPROCS"
  shows "fork_loop os ix fork_count (link os n (ix - 1)) = Some (map (link os n) [ix - 1..<n])"
  using assms
proof (induction fork_count arbitrary: ix)
  case 0
  then have "n = Suc (ix - 1)" by simp
  then have "[ix - 1..<n] = [ix - 1]" by (metis upt_rec le_refl lessI upt_conv_Nil)
  then show ?case by simp
next
  case (Suc fork_count)
  let ?p = "link os n (ix - 1)"
  have ix: "ix < n" "fork_count = n - 1 - ix" "ix - 1 < MAXPROCS" using Suc.prems by auto
  have prev: "arr_get (pr_fork_pids ?p) (ix - 1) = Some (pr_pid ?p)" using ix(3) by (simp add: link_def)
  have ok: "os_pid os ix \<noteq> - 1" "os_pid os (ix - 1) \<noteq> 0" using Suc.prems(1) ix(1) by (auto simp: calls_succeed_def)
  have child: "ring_child os ix fork_count ?p = Some (link os n ix)" using ring_child_link [OF Suc.prems(1,2) ix(1)] Suc.prems(4) ix by simp
  have cs: "fork_loop os (ix + 1) fork_count (link os n ix) = Some (map (link os n) [ix..<n])"
    using Suc.IH [of "ix + 1"] Suc.prems by simp
  have ps: "fork_loop os (ix + 1) fork_count ?p = Some [?p]"
    using ok(2) Suc.prems(2-4) by (intro fork_loop_idle) (auto simp: link_def)
  have "[ix - 1..<n] = (ix - 1) # [ix..<n]" using Suc.prems(2) ix(1) by (simp add: upt_conv_Cons)
  then show ?case using prev ok(1) child cs ps by (simp add: link_def)
qed

lemma fork_msgring_first:
  assumes "init_state os = Done p"
  shows "fork_msgring os (int n) p = fork_loop os 1 (n - 1) (link os n 0)"
proof -
  have "(replicate MAXPROCS 0)[0 := os_pid os 0] = map (\<lambda>j. if j \<le> 0 then os_pid os j else 0) [0..<MAXPROCS]"
    by (intro nth_equalityI) (auto simp: nth_list_update MAXPROCS_def)
  then have "p\<lparr>pr_fork_pids := (pr_fork_pids p)[0 := pr_pid p]\<rparr> = link os n 0" "pr_fork_pids p = replicate MAXPROCS 0"
    using assms by (auto simp: init_state_def link_def split: if_splits)
  moreover have "nat (int n - 1) = n - 1" by simp
  ultimately show ?thesis by (simp add: fork_msgring_def MAXPROCS_def)
qed

lemma fork_msgring_chain:
  assumes "calls_succeed os n" "2 \<le> n" "n \<le> MAXPROCS" "init_state os = Done p"
  shows "fork_msgring os (int n) p = Some (map (link os n) [0..<n])"
  using fork_loop_chain [OF assms(1), of 1 "n - 1"] assms(2,3) fork_msgring_first [OF assms(4)] by simp

text \<open>With more processes than the table has entries, a store lies outside of it.\<close>

lemma fork_loop_overflow:
  assumes "calls_succeed os n" "MAXPROCS < n" "1 \<le> ix" "ix \<le> MAXPROCS"
  shows "fork_loop os ix (n - ix) (link os n (ix - 1)) = None"
  using assms(3,4)
proof (induction "MAXPROCS - ix" arbitrary: ix)
  case 0
  then have ix: "ix = MAXPROCS" by simp
  obtain m where m: "n - MAXPROCS = Suc m" using assms(2) by (cases "n - MAXPROCS") auto
  have "ring_child os MAXPROCS m (link os n (MAXPROCS - 1)) = None" by (simp add: ring_child_def link_def arr_set_def)
  moreover have "arr_get (pr_fork_pids (link os n (MAXPROCS - 1))) (MAXPROCS - 1) = Some (pr_pid (link os n (MAXPROCS - 1)))"
    by (simp add: link_def MAXPROCS_def)
  moreover have "os_pid os MAXPROCS \<noteq> - 1" using assms(1,2) by (auto simp: calls_succeed_def)
  ultimately show ?case unfolding ix m by simp
next
  case (Suc d)
  have lt: "ix < MAXPROCS" "ix < n" using Suc.hyps(2) assms(2) by simp_all
  have step: "n - ix = Suc (n - (ix + 1))" "n - 1 - ix = n - (ix + 1)" using lt by simp_all
  have "fork_loop os (ix + 1) (n - (ix + 1)) (link os n ix) = None" using Suc.hyps(1) [of "ix + 1"] Suc.hyps(2) lt by simp
  moreover have "ring_child os ix (n - (ix + 1)) (link os n (ix - 1)) = Some (link os n ix)"
    using ring_child_link [OF assms(1) Suc.prems(1) lt(2,1)] step(2) by simp
  moreover have "arr_get (pr_fork_pids (link os n (ix - 1))) (ix - 1) = Some (pr_pid (link os n (ix - 1)))" "os_pid os ix \<noteq> - 1"
    using Suc.prems lt assms(1) by (auto simp: link_def calls_succeed_def)
  moreover have "\<not> pr_exit (link os n ix)" by (simp add: link_def)
  ultimately show ?case unfolding step(1) by simp
qed

lemma fork_msgring_overflow:
  "calls_succeed os n \<Longrightarrow> MAXPROCS < n \<Longrightarrow> init_state os = Done p \<Longrightarrow> fork_msgring os (int n) p = None"
  using fork_loop_overflow [of os n 1] fork_msgring_first [of os p n] by (simp add: MAXPROCS_def)

section \<open>Reading the file back\<close>

lemma show_int_plain: "c \<in> set (show_int x) \<Longrightarrow> c \<noteq> CHR 0x00 \<and> \<not> is_delim c"
  using show_int_chars [of c x] by (auto simp: is_digit_def is_delim_def)

lemma token_append:
  assumes "\<forall>c \<in> set t. c \<noteq> CHR 0x00 \<and> \<not> is_delim c"
  shows "token (t @ rest) = map_option (\<lambda>(u, r). (t @ u, r)) (token rest)"
  using assms by (induction t) (auto simp: option.map_comp comp_def case_prod_unfold map_option_case split: option.splits)

lemma strtok_number:
  "strtok (show_int x @ rest) = map_option (\<lambda>(u, r). Some (show_int x @ u, r)) (token rest)"
proof -
  obtain c cs where c: "show_int x = c # cs" using show_int_not_Nil by (cases "show_int x") auto
  then have "c \<noteq> CHR 0x00" "\<not> is_delim c" using show_int_plain [of c x] by auto
  then have "strtok (show_int x @ rest) = map_option Some (token (show_int x @ rest))" by (simp add: strtok_def c)
  then show ?thesis using token_append [of "show_int x" rest] show_int_plain [of _ x]
    by (auto simp: option.map_comp comp_def case_prod_unfold)
qed

lemma token_ends: "\<exists>c \<in> set mem. c = CHR 0x00 \<or> is_delim c \<Longrightarrow> \<exists>u r. token mem = Some (u, r) \<and> (u = [] \<or> hd u = hd mem)"
proof (induction mem)
  case (Cons c cs)
  show ?case
  proof (cases "c = CHR 0x00 \<or> is_delim c")
    case False
    with Cons obtain u r where "token cs = Some (u, r)" by auto
    with False show ?thesis by simp
  qed auto
qed simp

definition int32 :: "int \<Rightarrow> bool" where
  "int32 x = (- (2 ^ 31) \<le> x \<and> x < 2 ^ 31)"

lemma ring_text_fits: "int32 pid \<Longrightarrow> int32 chid \<Longrightarrow> length (ring_text pid chid) < 64"
  using length_show_int [of pid] length_show_int [of chid] by (simp add: ring_text_def int32_def)

lemma readfile_text:
  assumes "k < MAXRETRY" "0 < opened k" "0 \<le> shut"
  shows "readfile opened (Some (ring_text pid chid)) shut old =
    do { (u, r) \<leftarrow> token (drop (length (ring_text pid chid)) old); Some (Inr (atoi (show_int pid), atoi (show_int chid @ u))) }"
proof -
  have "List.find (\<lambda>k. 0 < opened k) [0..<MAXRETRY] \<noteq> None" using assms(1,2) by (auto simp: find_None_iff)
  moreover have "strtok (ring_text pid chid @ mem) = Some (Some (show_int pid, show_int chid @ mem))" for mem
    using strtok_number [of pid "CHR '' '' # show_int chid @ mem"] by (simp add: ring_text_def is_delim_def)
  ultimately show ?thesis using assms(3) by (auto simp: readfile_def strtok_number split: bind_splits option.splits)
qed

section \<open>The options\<close>

text \<open>The reference for the options: the least value a letter accepts, and the last option for a field.\<close>

definition opt_bound :: "char \<Rightarrow> int option" where
  "opt_bound c = (if c = CHR ''W'' then Some 0 else if c = CHR ''P'' then Some 2 else if c \<in> set ''NRFs'' then Some 1 else None)"

definition opt_legal :: "char \<times> string option \<Rightarrow> bool" where
  "opt_legal = (\<lambda>(c, arg). c = CHR ''v'' \<or> (case (opt_bound c, arg) of (Some b, Some a) \<Rightarrow> b \<le> atoi a | _ \<Rightarrow> False))"

definition last_opt :: "string \<Rightarrow> (char \<times> string option) list \<Rightarrow> (char \<times> string option) option" where
  "last_opt cs rs = List.find (\<lambda>(c, _). c \<in> set cs) (rev rs)"

definition last_arg :: "string \<Rightarrow> (char \<times> string option) list \<Rightarrow> int \<Rightarrow> int" where
  "last_arg cs rs d = (case last_opt cs rs of Some (_, Some a) \<Rightarrow> atoi a | _ \<Rightarrow> d)"

definition options_from :: "ring_opts \<Rightarrow> (char \<times> string option) list \<Rightarrow> ring_opts" where
  "options_from opt rs = \<lparr>ro_procs = last_arg ''P'' rs (ro_procs opt), ro_rounds = last_arg ''N'' rs (ro_rounds opt),
     ro_warmup = last_arg ''W'' rs (ro_warmup opt),
     ro_policy = (case last_opt ''RF'' rs of None \<Rightarrow> ro_policy opt | Some (c, _) \<Rightarrow> if c = CHR ''R'' then SCHED_RR else SCHED_FIFO),
     ro_priority = last_arg ''RF'' rs (ro_priority opt),
     ro_verbose = ro_verbose opt + int (length (filter (\<lambda>(c, _). c = CHR ''v'') rs)),
     ro_process_size = (case last_opt ''s'' rs of None \<Rightarrow> ro_process_size opt | Some _ \<Rightarrow> wrap32 (last_arg ''s'' rs 0 * 1024))\<rparr>"

lemma find_append: "List.find P (xs @ ys) = (case List.find P xs of None \<Rightarrow> List.find P ys | Some x \<Rightarrow> Some x)"
  by (induction xs) auto

lemma last_opt_Cons: "last_opt cs (r # rs) = (case last_opt cs rs of None \<Rightarrow> if fst r \<in> set cs then Some r else None | Some x \<Rightarrow> Some x)"
  by (auto simp: last_opt_def find_append split: option.splits)

lemma last_opt_arg: "last_opt cs rs = Some (c, arg) \<Longrightarrow> \<forall>r \<in> set rs. opt_legal r \<Longrightarrow> CHR ''v'' \<notin> set cs \<Longrightarrow> \<exists>a. arg = Some a"
proof -
  assume "last_opt cs rs = Some (c, arg)" and legal: "\<forall>r \<in> set rs. opt_legal r" "CHR ''v'' \<notin> set cs"
  then obtain i where i: "i < length (rev rs)" "rev rs ! i = (c, arg)" "c \<in> set cs" by (auto simp: last_opt_def find_Some_iff)
  then have "(c, arg) \<in> set rs" using nth_mem [of i "rev rs"] by simp
  with legal i(3) show ?thesis by (auto simp: opt_legal_def split: option.splits)
qed

lemma last_opt_single [simp]: "last_opt cs [r] = (if fst r \<in> set cs then Some r else None)" "last_opt cs [] = None"
  by (auto simp: last_opt_def)

text \<open>One option, and then the others.\<close>

lemma ring_opt_step:
  "ring_opt c arg opt = (if opt_legal (c, arg) then Done (options_from opt [(c, arg)])
     else if opt_bound c \<noteq> None \<and> arg = None then Undefined else Exit 0)"
  by (cases arg) (auto simp: ring_opt_def atleast_def opt_legal_def opt_bound_def options_from_def last_arg_def last_opt_def defined_def)

lemma options_from_Cons:
  assumes "\<forall>r \<in> set rs. opt_legal r"
  shows "options_from (options_from opt [r]) rs = options_from opt (r # rs)"
proof -
  have "last_arg cs rs (last_arg cs [r] d) = last_arg cs (r # rs) d" if "CHR ''v'' \<notin> set cs" for cs d
    using last_opt_arg [OF _ assms that] by (auto simp: last_arg_def last_opt_Cons [of _ _ rs] split: option.splits)
  then show ?thesis
    using last_opt_arg [OF _ assms, of "''s''"]
    by (auto simp: options_from_def last_opt_Cons [of _ _ rs] last_arg_def [of "''s''"] split: option.splits)
qed

lemma get_opts_from:
  "get_opts rs opt = (case List.find (\<lambda>r. \<not> opt_legal r) rs of
     None \<Rightarrow> Done (options_from opt rs)
   | Some (c, arg) \<Rightarrow> if opt_bound c \<noteq> None \<and> arg = None then Undefined else Exit 0)"
proof (induction rs arbitrary: opt)
  case Nil
  then show ?case by (simp add: options_from_def last_arg_def last_opt_def)
next
  case (Cons r rs)
  obtain c arg where r: "r = (c, arg)" by (cases r)
  have "\<forall>x \<in> set rs. opt_legal x" if "List.find (\<lambda>r. \<not> opt_legal r) rs = None" using that by (auto simp: find_None_iff)
  then show ?case using Cons.IH options_from_Cons [of rs opt r] by (auto simp: r ring_opt_step split: option.splits)
qed

section \<open>Properties\<close>

text \<open>C40. The options in full: \<open>get_opts\<close> stops at the first letter it does not accept, with the usage and status 0, or undefined when the argument is missing; when there is none, each
  field has the value of the last option for it, or its default, the verbosity counts the \<open>-v\<close>, and the last of \<open>-R\<close> and \<open>-F\<close> gives policy and priority. What is
  accepted is bounded from below only (\<open>opt_bound\<close>): more than \<open>MAXPROCS\<close> processes pass, and the size in bytes is cut down to an \<open>int\<close>.\<close>

theorem get_opts_correct:
  "get_opts rs ring_defaults =
     (case List.find (\<lambda>r. \<not> opt_legal r) rs of
        None \<Rightarrow> Done \<lparr>ro_procs = last_arg ''P'' rs 4, ro_rounds = last_arg ''N'' rs 5, ro_warmup = last_arg ''W'' rs 1,
                  ro_policy = (case last_opt ''RF'' rs of None \<Rightarrow> Sched_default | Some (c, _) \<Rightarrow> if c = CHR ''R'' then SCHED_RR else SCHED_FIFO),
                  ro_priority = last_arg ''RF'' rs 1, ro_verbose = int (length (filter (\<lambda>(c, _). c = CHR ''v'') rs)),
                  ro_process_size = (case last_opt ''s'' rs of None \<Rightarrow> 0 | Some _ \<Rightarrow> wrap32 (last_arg ''s'' rs 0 * 1024))\<rparr>
      | Some (c, arg) \<Rightarrow> if opt_bound c \<noteq> None \<and> arg = None then Undefined else Exit 0)"
  unfolding get_opts_from options_from_def ring_defaults_def ring_opts.simps add_0 ..

text \<open>C20. The file: what the last process writes fits into its array and \<open>readfile\<close> returns the same numbers, provided the array it
  reads into happens to hold, right after the text, a character that is no digit, and a zero or a delimiter from there on: \<open>readfile\<close> does not end the text
  itself.\<close>

theorem ring_file_roundtrip:
  assumes "int32 pid" "int32 chid" "k < MAXRETRY" "0 < opened k" "0 \<le> shut"
    "writefile 3 (\<lambda>txt. int (length txt)) 0 pid chid = (n, txt)"
    "length txt < length old \<and> \<not> is_digit (old ! length txt)" "\<exists>c \<in> set (drop (length txt) old). c = CHR 0x00 \<or> is_delim c"
  shows "n = int (length txt) \<and> length txt < 64 \<and> readfile opened (Some txt) shut old = Some (Inr (pid, chid))"
proof -
  have w: "txt = ring_text pid chid" "n = int (length txt)" using assms(6) by (auto simp: writefile_def Let_def)
  let ?mem = "drop (length txt) old"
  obtain u r where u: "token ?mem = Some (u, r)" "u = [] \<or> hd u = hd ?mem" using token_ends [OF assms(8)] by blast
  have "hd ?mem = old ! length txt" using assms(7) by (simp add: hd_drop_conv_nth)
  then have "atoi (show_int chid @ u) = chid" using u(2) assms(2,7) by (intro atoi_show_int) (auto simp: int32_def)
  moreover have "atoi (show_int pid) = pid" using atoi_show_int [of pid "[]"] assms(1) by (simp add: int32_def)
  ultimately have "readfile opened (Some txt) shut old = Some (Inr (pid, chid))"
    unfolding w(1) using readfile_text [of k opened shut] assms(3-5) u(1) w(1) by simp
  then show ?thesis using w ring_text_fits [OF assms(1,2)] by simp
qed

theorem ring_file_roundtrip_witness:
  "readfile (\<lambda>_. 3) (Some (ring_text 4711 1)) 0 (replicate 64 CHR 0x00) = Some (Inr (4711, 1))"
proof -
  have len: "length (ring_text 4711 1) = 6" by (simp add: ring_text_def show_int_def show_nat.simps)
  have "writefile 3 (\<lambda>txt. int (length txt)) 0 4711 1 = (6, ring_text 4711 1)" by (simp add: writefile_def Let_def len)
  from ring_file_roundtrip [OF _ _ _ _ _ this, of 0 "\<lambda>_. 3" 0 "replicate 64 CHR 0x00"] show ?thesis
    by (simp add: len int32_def MAXRETRY_def is_digit_def)
qed

text \<open>C19. The ring is closed: when every call succeeds, \<open>fork_msgring\<close> makes \<open>n\<close> processes, of which only the last has written the file; once the first process
  has connected to the process and channel of the file, process \<open>i\<close> is connected to process \<open>ring_to n i\<close>, the ring in which \<open>iterator\<close> and \<open>jumper\<close>
  pass their messages. The table \<open>fork_pids\<close> allows 1000 processes; the options allow more.\<close>

theorem ring_formed:
  assumes "calls_succeed os n" "inj_on (os_pid os) {..<n}" "2 \<le> n" "n \<le> MAXPROCS" "init_state os = Done p" "coid \<noteq> - 1"
  shows "\<exists>ps file q. fork_msgring os (int n) p = Some ps \<and> length ps = n \<and> (\<forall>i < n. \<not> pr_exit (ps ! i) \<and> (pr_file (ps ! i) \<noteq> None \<longleftrightarrow> i = n - 1))
    \<and> pr_file (ps ! (n - 1)) = Some file \<and> connect_first (Inr file) coid (ps ! 0) = Done q
    \<and> (\<forall>i < n. sends_to (ps[0 := q]) i = Some (ring_to n i))"
proof -
  let ?ps = "map (link os n) [0..<n]" and ?file = "(os_pid os (n - 1), os_chid os (n - 1))"
  let ?q = "(link os n 0)\<lparr>pr_peer := Some ?file, pr_state := (pr_state (link os n 0))\<lparr>st_coid := coid\<rparr>\<rparr>"
  have id: "pr_pid (?ps[0 := ?q] ! i) = os_pid os i" "st_chid (pr_state (?ps[0 := ?q] ! i)) = os_chid os i"
    "pr_peer (?ps[0 := ?q] ! i) = Some (os_pid os (ring_to n i), os_chid os (ring_to n i))" if "i < n" for i
    using that by (auto simp: nth_list_update link_def ring_to_def)
  have "sends_to (?ps[0 := ?q]) i = Some (ring_to n i)" if "i < n" for i
  proof -
    have r: "ring_to n i < n" using that assms(3) by (auto simp: ring_to_def)
    have "os_pid os (ring_to n i) = os_pid os j \<longleftrightarrow> j = ring_to n i" if "j < n" for j
      using inj_onD [OF assms(2)] r that by auto
    then have "\<exists>k < n. [0..<n] ! k = ring_to n i \<and> (\<forall>j < k. os_pid os (ring_to n i) \<noteq> os_pid os j)"
      using r by (intro exI [of _ "ring_to n i"]) auto
    then show ?thesis unfolding sends_to_def find_Some_iff using r id that
      by (intro exI [of _ "ring_to n i"]) (auto dest: inj_onD [OF assms(2)])
  qed
  moreover have "fork_msgring os (int n) p = Some ?ps" by (rule fork_msgring_chain [OF assms(1,3,4,5)])
  moreover have "connect_first (Inr ?file) coid (?ps ! 0) = Done ?q" using assms(3,6) by (simp add: connect_first_def)
  moreover have "\<forall>i < n. \<not> pr_exit (?ps ! i) \<and> (pr_file (?ps ! i) \<noteq> None \<longleftrightarrow> i = n - 1)" using assms(3) by (auto simp: link_def)
  moreover have "pr_file (?ps ! (n - 1)) = Some ?file" using assms(3) by (simp add: link_def)
  ultimately show ?thesis by (intro exI [of _ ?ps] exI [of _ ?file] exI [of _ ?q]) simp
qed

definition demo_os :: ring_os where
  "demo_os = \<lparr>os_pid = (\<lambda>i. 100 + int i), os_chid = (\<lambda>_. 1), os_coid = (\<lambda>_. 3)\<rparr>"

theorem ring_formed_witness:
  "\<exists>ps q. fork_msgring demo_os 3 (link demo_os 3 0\<lparr>pr_fork_pids := replicate MAXPROCS 0\<rparr>) = Some ps \<and> sends_to (ps[0 := q]) 0 = Some 2"
proof -
  have p: "init_state demo_os = Done (link demo_os 3 0\<lparr>pr_fork_pids := replicate MAXPROCS 0\<rparr>)" by (simp add: init_state_def demo_os_def link_def)
  have c: "calls_succeed demo_os 3" "inj_on (os_pid demo_os) {..<3}" by (auto simp: calls_succeed_def demo_os_def inj_on_def)
  from ring_formed [OF c _ _ p, of 3] obtain ps q where
    "fork_msgring demo_os (int 3) (link demo_os 3 0\<lparr>pr_fork_pids := replicate MAXPROCS 0\<rparr>) = Some ps"
    "\<forall>i < 3. sends_to (ps[0 := q]) i = Some (ring_to 3 i)" by (auto simp: MAXPROCS_def)
  then have "fork_msgring demo_os 3 (link demo_os 3 0\<lparr>pr_fork_pids := replicate MAXPROCS 0\<rparr>) = Some ps \<and> sends_to (ps[0 := q]) 0 = Some 2"
    by (simp add: ring_to_def)
  then show ?thesis by blast
qed

text \<open>When the array holds a digit there, the channel is another one.\<close>

lemma readfile_run_on: "readfile (\<lambda>_. 3) (Some (ring_text 4711 1)) 0 (replicate 6 CHR ''x'' @ CHR ''7'' # replicate 57 CHR 0x00) = Some (Inr (4711, 17))"
proof -
  have "length (ring_text 4711 1) = 6" by (simp add: ring_text_def show_int_def show_nat.simps)
  then have "token (drop (length (ring_text 4711 1)) (replicate 6 CHR ''x'' @ CHR ''7'' # replicate 57 CHR 0x00)) = Some (''7'', replicate 57 CHR 0x00)"
    by (simp add: is_delim_def numeral_eq_Suc)
  moreover have "atoi (show_int 1 @ ''7'') = 17" using atoi_run_on [of 1 "CHR ''7''" "[]"] by (simp add: is_digit_def digit_val_def)
  moreover have "atoi (show_int 4711) = 4711" using atoi_show_int [of 4711 "[]"] by simp
  ultimately show ?thesis using readfile_text [of 0 "\<lambda>_. 3" 0] by (simp add: MAXRETRY_def)
qed

end
