(* ===== verification/Ctx_Ring.thy ===== *)
theory Ctx_Ring
  imports Countdown Memchain
begin

text \<open>
  The context switch benchmark of \<open>src/lat_ctx.c\<close> and \<open>src/lat_ctx_qnx.c\<close>: the pipes, the processes that pass a
  token around them (\<open>create_daemons\<close>, \<open>doit\<close>, \<open>benchmark\<close>), and their removal (\<open>cleanup\<close>). The ring is a system of
  processes that block on pipes; a message is the four bytes of an \<open>int\<close>, which a pipe takes and gives whole. What \<open>fork\<close> and
  \<open>PIPE\<close> return are arguments. \<open>PIPE\<close>, \<open>READ\<close> and \<open>WRITE\<close> of \<open>src/PIPE.c\<close>, their replacement on QNX, are modelled too.
\<close>

section \<open>Pipes and processes\<close>

text \<open>\<open>create_pipes\<close>: the descriptors of the pipes made before \<open>PIPE\<close> fails, and the number it returns. The memory of \<open>p\<close> is not initialised: \<open>None\<close>
  is a pair that no call has set.\<close>

fun create_pipes :: "(nat \<Rightarrow> (int \<times> int) option) \<Rightarrow> nat \<Rightarrow> nat \<Rightarrow> (int \<times> int) option list \<Rightarrow> (int \<times> int) option list \<times> nat" where
  "create_pipes made i 0 p = (p, i)"
| "create_pipes made i (Suc todo) p = (case made i of None \<Rightarrow> (p, i) | Some fds \<Rightarrow> create_pipes made (i + 1) todo (p[i := Some fds]))"

text \<open>\<open>cleanup_overhead(0, cookie)\<close>: the descriptors it closes. Closing a pair that was not set is undefined.\<close>

definition cleanup_overhead :: "(int \<times> int) option list \<Rightarrow> int list option" where
  "cleanup_overhead p = map_option (\<lambda>ps. concat (map (\<lambda>(r, w). [r, w]) ps)) (those p)"

definition initialize_overhead :: "(nat \<Rightarrow> (int \<times> int) option) \<Rightarrow> nat \<Rightarrow> (int \<times> int) option list outcome" where
  "initialize_overhead made procs =
     (let (p, n) = create_pipes made 0 procs (replicate procs None)
      in if n < procs then andthen (defined (cleanup_overhead p)) (\<lambda>_. Exit 1) else Done p)"

text \<open>The loop of \<open>create_daemons\<close>: \<open>forked i\<close> is what \<open>fork\<close> returns to the parent for daemon \<open>i\<close>. Each daemon runs \<open>doit\<close> on the pipes
  of \<open>daemon_ends\<close>.\<close>

fun fork_daemons :: "(nat \<Rightarrow> int) \<Rightarrow> nat \<Rightarrow> nat \<Rightarrow> int list \<Rightarrow> int list \<times> nat" where
  "fork_daemons forked i 0 pids = (pids, i)"
| "fork_daemons forked i (Suc todo) pids =
     (let pids = pids[i := forked i] in if forked i = - 1 then (pids, i) else fork_daemons forked (i + 1) todo pids)"

definition daemon_ends :: "nat \<Rightarrow> nat \<times> nat" where
  "daemon_ends i = (i - 1, i)"

text \<open>\<open>cleanup\<close>: the processes that are killed and waited for.\<close>

definition cleanup_kills :: "int list \<Rightarrow> nat \<Rightarrow> int list" where
  "cleanup_kills pids procs = filter (\<lambda>pid. 0 < pid) (map (\<lambda>i. pids ! i) [1..<procs])"

text \<open>\<open>initialize\<close>: the pipes and the daemons, or the processes killed before it exits.\<close>

definition initialize_ctx :: "(nat \<Rightarrow> (int \<times> int) option) \<Rightarrow> (nat \<Rightarrow> int) \<Rightarrow> nat \<Rightarrow> (int list + int list) outcome" where
  "initialize_ctx made forked procs =
     andthen (initialize_overhead made procs) (\<lambda>p.
       let (pids, n) = fork_daemons forked 1 (procs - 1) (replicate procs 0)
       in Done (if n < procs then Inl (cleanup_kills pids procs) else Inr pids))"

section \<open>The replacement on QNX\<close>

text \<open>\<open>PIPE\<close>: \<open>chid\<close> and \<open>pid\<close> are what \<open>ChannelCreate\<close> and \<open>getpid\<close> return, \<open>cookie\<close> the \<open>int\<close>s at the address it gets. It writes the first two of them and
  the first descriptor; the second is left alone.\<close>

definition PIPE_qnx :: "int \<Rightarrow> int \<Rightarrow> int \<times> int \<Rightarrow> int list \<Rightarrow> int \<times> (int \<times> int) \<times> int list" where
  "PIPE_qnx chid pid fds cookie =
     (let cookie = cookie[1 := pid, 0 := chid]
      in if chid = - 1 then (- 1, fds, cookie) else (0, (chid, snd fds), cookie))"

text \<open>\<open>READ\<close> and \<open>WRITE\<close>: whatever was received, the count that was asked for is returned.\<close>

definition READ_qnx :: "int \<Rightarrow> int \<Rightarrow> int" where
  "READ_qnx reply cnt = (if reply = - 1 then - 1 else cnt)"

definition WRITE_qnx :: "int \<Rightarrow> int \<Rightarrow> int" where
  "WRITE_qnx sent cnt = (if sent = - 1 then - 1 else cnt)"

section \<open>Passing the token\<close>

datatype cpc = At_read | At_sum | At_write | Left_loop

text \<open>\<open>c_pipe i\<close> holds the messages in pipe \<open>i\<close>, \<open>c_msg i\<close> the variable \<open>msg\<close> of process \<open>i\<close>; \<open>c_trace\<close> lists the reads.\<close>

record ctx =
  c_pc :: "nat \<Rightarrow> cpc"
  c_iterations :: u64
  c_pipe :: "nat \<Rightarrow> i32 list"
  c_msg :: "nat \<Rightarrow> i32"
  c_trace :: "(nat \<times> i32) list"

text \<open>The pipe a process reads: \<open>p[procs-1]\<close> in \<open>benchmark\<close>, \<open>p[i-1]\<close> in \<open>doit\<close>. Process \<open>i\<close> writes to \<open>p[i]\<close>.\<close>

definition reads_from :: "nat \<Rightarrow> nat \<Rightarrow> nat" where
  "reads_from n i = (if i = 0 then n - 1 else fst (daemon_ends i))"

definition writes_to :: "nat \<Rightarrow> nat" where
  "writes_to i = (if i = 0 then 0 else snd (daemon_ends i))"

text \<open>\<open>while (iterations-- > 0)\<close>\<close>

definition ctx_head :: "ctx \<Rightarrow> ctx" where
  "ctx_head s = s\<lparr>c_pc := (c_pc s)(0 := if 0 < c_iterations s then At_write else Left_loop), c_iterations := c_iterations s - 1\<rparr>"

definition do_write :: "nat \<Rightarrow> ctx \<Rightarrow> ctx" where
  "do_write i s = s\<lparr>c_pc := (c_pc s)(i := At_read), c_pipe := (c_pipe s)(writes_to i := c_pipe s (writes_to i) @ [c_msg s i])\<rparr>"

definition do_read :: "nat \<Rightarrow> nat \<Rightarrow> ctx \<Rightarrow> ctx" where
  "do_read n i s =
     (let q = reads_from n i; m = hd (c_pipe s q)
      in s\<lparr>c_pc := (c_pc s)(i := At_sum), c_pipe := (c_pipe s)(q := tl (c_pipe s q)), c_msg := (c_msg s)(i := m),
           c_trace := c_trace s @ [(i, m)]\<rparr>)"

definition do_sum :: "nat \<Rightarrow> ctx \<Rightarrow> ctx" where
  "do_sum i s = (if i = 0 then ctx_head s else s\<lparr>c_pc := (c_pc s)(i := At_write)\<rparr>)"

text \<open>A write waits while the pipe holds as many messages as it can, a read while it holds none.\<close>

inductive ctx_step :: "nat \<Rightarrow> nat \<Rightarrow> ctx \<Rightarrow> ctx \<Rightarrow> bool" for n :: nat and cap :: nat where
  pipe_write: "i < n \<Longrightarrow> c_pc s i = At_write \<Longrightarrow> length (c_pipe s (writes_to i)) < cap \<Longrightarrow> ctx_step n cap s (do_write i s)"
| pipe_read: "i < n \<Longrightarrow> c_pc s i = At_read \<Longrightarrow> c_pipe s (reads_from n i) \<noteq> [] \<Longrightarrow> ctx_step n cap s (do_read n i s)"
| sum_up: "i < n \<Longrightarrow> c_pc s i = At_sum \<Longrightarrow> ctx_step n cap s (do_sum i s)"

text \<open>The call of \<open>benchmark(iterations, cookie)\<close>: the daemons wait and the pipes are empty.\<close>

definition ctx_start :: "u64 \<Rightarrow> ctx \<Rightarrow> bool" where
  "ctx_start iters s = ((\<forall>i. i \<noteq> 0 \<longrightarrow> c_pc s i = At_read) \<and> (\<forall>i. c_pipe s i = []) \<and> c_iterations s = iters \<and> c_trace s = [])"

section \<open>Where the token is\<close>

datatype place = Writer | Pipe | Summer

text \<open>Position \<open>h\<close> counts the pipes the token has passed in this round; process \<open>n\<close> stands for process 0 at the end of it.\<close>

definition wrap_pos :: "nat \<Rightarrow> nat \<Rightarrow> nat" where
  "wrap_pos n h = (if h = n then 0 else h)"

definition reads_after :: "nat \<Rightarrow> nat \<Rightarrow> i32 \<Rightarrow> (nat \<times> i32) list" where
  "reads_after n h m = map (\<lambda>i. (wrap_pos n i, m)) [h + 1..<n + 1]"

definition ctx_rounds :: "nat \<Rightarrow> nat \<Rightarrow> i32 \<Rightarrow> (nat \<times> i32) list" where
  "ctx_rounds r n m = concat (replicate r (reads_after n 0 m))"

fun ctx_pcs :: "nat \<Rightarrow> nat \<Rightarrow> place \<Rightarrow> nat \<Rightarrow> cpc" where
  "ctx_pcs n h Writer = (\<lambda>_. At_read)(h := At_write)"
| "ctx_pcs n h Pipe = (\<lambda>_. At_read)"
| "ctx_pcs n h Summer = (\<lambda>_. At_read)(wrap_pos n h := At_sum)"

definition ctx_pipes :: "nat \<Rightarrow> place \<Rightarrow> i32 \<Rightarrow> nat \<Rightarrow> i32 list" where
  "ctx_pipes h pl m = (\<lambda>_. [])(h := if pl = Pipe then [m] else [])"

definition steps_in :: "nat \<Rightarrow> nat \<Rightarrow> place \<Rightarrow> nat" where
  "steps_in n h pl = (case pl of Writer \<Rightarrow> 3 * n - 3 * h | Pipe \<Rightarrow> 3 * n - 3 * h - 1 | Summer \<Rightarrow> 3 * n + 1 - 3 * h)"

inductive ctx_left :: "nat \<Rightarrow> i32 \<Rightarrow> (nat \<times> i32) list \<Rightarrow> ctx \<Rightarrow> nat \<Rightarrow> bool"
  for n :: nat and m :: i32 and total_trace :: "(nat \<times> i32) list" where
  pass: "c_pc s = ctx_pcs n h pl \<Longrightarrow> c_pipe s = ctx_pipes h pl m \<Longrightarrow> (if pl = Summer then 1 \<le> h \<and> h \<le> n else h < n)
    \<Longrightarrow> (pl \<noteq> Pipe \<Longrightarrow> c_msg s (wrap_pos n h) = m)
    \<Longrightarrow> c_trace s @ reads_after n h m @ ctx_rounds (unat (c_iterations s)) n m = total_trace
    \<Longrightarrow> k = 3 * n * unat (c_iterations s) + steps_in n h pl \<Longrightarrow> ctx_left n m total_trace s k"
| passed: "c_pc s = (\<lambda>_. At_read)(0 := Left_loop) \<Longrightarrow> (\<And>i. c_pipe s i = []) \<Longrightarrow> c_trace s = total_trace \<Longrightarrow> ctx_left n m total_trace s 0"

lemmas ctx_defs = reads_from_def writes_to_def daemon_ends_def wrap_pos_def ctx_pipes_def

text \<open>The end of a round: the first process starts the next one or leaves its loop.\<close>

lemma ctx_round_end:
  assumes "c_pc s = (\<lambda>_. At_read)(0 := At_sum)" "c_pipe s = (\<lambda>_. [])" "c_msg s 0 = m" "1 \<le> n"
    "c_trace s @ ctx_rounds (unat (c_iterations s)) n m = total_trace" "k = 3 * n * unat (c_iterations s) + 1"
  shows "\<exists>j. k = Suc j \<and> ctx_left n m total_trace (ctx_head s) j"
proof (cases "c_iterations s = 0")
  case True
  have "c_pc (ctx_head s) = (\<lambda>_. At_read)(0 := Left_loop)" using assms(1) True by (simp add: ctx_head_def)
  then have "ctx_left n m total_trace (ctx_head s) 0"
    using assms(2,5) True by (intro passed) (simp_all add: ctx_rounds_def ctx_head_def)
  then show ?thesis using assms(6) True by simp
next
  case False
  then obtain r where r: "unat (c_iterations s) = Suc r" by (metis not0_implies_Suc unat_eq_zero)
  then have it: "unat (c_iterations (ctx_head s)) = r" using False by (simp add: ctx_head_def unat_minus_one)
  have pc: "c_pc (ctx_head s) = ctx_pcs n 0 Writer" "c_pipe (ctx_head s) = ctx_pipes 0 Writer m"
    using assms(1,2) False by (auto simp: ctx_head_def ctx_pipes_def word_gt_0)
  have "c_trace (ctx_head s) = c_trace s" "c_msg (ctx_head s) 0 = m" using assms(3) by (simp_all add: ctx_head_def)
  then have "ctx_left n m total_trace (ctx_head s) (3 * n * r + 3 * n)"
    using assms(4,5) by (intro ctx_left.pass [OF pc]) (simp_all add: it wrap_pos_def steps_in_def r ctx_rounds_def)
  then show ?thesis using assms(6) r by (intro exI [of _ "3 * n * r + 3 * n"]) simp
qed

lemma ctx_step_left:
  assumes "ctx_left n m total_trace s k" "ctx_step n cap s t"
  shows "\<exists>j. k = Suc j \<and> ctx_left n m total_trace t j"
  using assms(1)
proof (cases rule: ctx_left.cases)
  case passed
  from assms(2) passed(2,3) show ?thesis by (cases rule: ctx_step.cases) (auto split: if_splits)
next
  case (pass h pl)
  show ?thesis
  proof (cases pl)
    case Writer
    have h: "h < n" using pass(3) Writer by simp
    have t: "t = do_write h s" using assms(2) pass(1,2) Writer by (cases rule: ctx_step.cases) (auto simp: ctx_defs split: if_splits)
    have pc: "c_pc t = ctx_pcs n h Pipe" "c_pipe t = ctx_pipes h Pipe m" "c_iterations t = c_iterations s" "c_trace t = c_trace s"
      using pass(1,2,4) Writer h by (auto simp: t do_write_def ctx_defs fun_eq_iff)
    have k: "k = Suc (3 * n * unat (c_iterations t) + steps_in n h Pipe)" using pass(6) Writer h by (simp add: pc(3) steps_in_def)
    show ?thesis using k pass(5) h by (intro exI [of _ "3 * n * unat (c_iterations t) + steps_in n h Pipe"] conjI ctx_left.pass [OF pc(1,2)]) (simp_all add: pc)
  next
    case Pipe
    have h: "h < n" using pass(3) Pipe by simp
    have t: "t = do_read n (wrap_pos n (h + 1)) s"
      using assms(2) pass(1,2) Pipe h by (cases rule: ctx_step.cases) (auto simp: ctx_defs split: if_splits)
    have src: "reads_from n (wrap_pos n (Suc h)) = h" using h by (auto simp: ctx_defs)
    have pc: "c_pc t = ctx_pcs n (h + 1) Summer" "c_pipe t = ctx_pipes (h + 1) Summer m" "c_iterations t = c_iterations s"
      "c_trace t = c_trace s @ [(wrap_pos n (h + 1), m)]" "c_msg t (wrap_pos n (h + 1)) = m"
      using pass(1,2) Pipe h by (auto simp: t do_read_def src ctx_pipes_def Let_def fun_eq_iff)
    have tr: "reads_after n h m = (wrap_pos n (h + 1), m) # reads_after n (h + 1) m" using h by (simp add: reads_after_def upt_conv_Cons del: upt_Suc)
    have k: "k = Suc (3 * n * unat (c_iterations t) + steps_in n (h + 1) Summer)" using pass(6) Pipe h by (simp add: pc(3) steps_in_def)
    show ?thesis using k pass(5) h pc(5)
      by (intro exI [of _ "3 * n * unat (c_iterations t) + steps_in n (h + 1) Summer"] conjI ctx_left.pass [OF pc(1,2)]) (simp_all add: pc tr)
  next
    case Summer
    have h: "1 \<le> h" "h \<le> n" using pass(3) Summer by simp_all
    have t: "t = do_sum (wrap_pos n h) s"
      using assms(2) pass(1,2) Summer h by (cases rule: ctx_step.cases) (auto simp: ctx_pipes_def split: if_splits)
    show ?thesis
    proof (cases "h = n")
      case False
      then have h: "h < n" "wrap_pos n h = h" using h by (simp_all add: wrap_pos_def)
      have pc: "c_pc t = ctx_pcs n h Writer" "c_pipe t = ctx_pipes h Writer m" "c_iterations t = c_iterations s" "c_trace t = c_trace s" "c_msg t h = m"
        using pass(1,2,4) Summer h \<open>1 \<le> h\<close> by (auto simp: t do_sum_def ctx_pipes_def fun_eq_iff)
      have k: "k = Suc (3 * n * unat (c_iterations t) + steps_in n h Writer)" using pass(6) Summer h by (simp add: pc(3) steps_in_def)
      show ?thesis using k pass(5) h pc(5)
        by (intro exI [of _ "3 * n * unat (c_iterations t) + steps_in n h Writer"] conjI ctx_left.pass [OF pc(1,2)]) (simp_all add: pc)
    next
      case True
      then have t: "t = ctx_head s" using t by (simp add: wrap_pos_def do_sum_def)
      have "c_trace s @ ctx_rounds (unat (c_iterations s)) n m = total_trace" using pass(5) True by (simp add: reads_after_def)
      moreover have "k = 3 * n * unat (c_iterations s) + 1" using pass(6) True Summer by (simp add: steps_in_def)
      ultimately show ?thesis unfolding t using pass(1,2,4) h True Summer
        by (intro ctx_round_end) (auto simp: wrap_pos_def ctx_pipes_def fun_eq_iff)
    qed
  qed
qed

lemma ctx_not_stuck:
  assumes "ctx_left n m total_trace s (Suc k)" "0 < cap"
  shows "\<exists>t. ctx_step n cap s t"
  using assms(1)
proof (cases rule: ctx_left.cases)
  case (pass h pl)
  show ?thesis
  proof (cases pl)
    case Writer
    then show ?thesis using ctx_step.pipe_write [of h n s cap] pass(1,2,3) assms(2) by (auto simp: ctx_defs)
  next
    case Pipe
    then have "h < n" using pass(3) by simp
    then have "wrap_pos n (Suc h) < n" "reads_from n (wrap_pos n (Suc h)) = h" by (auto simp: ctx_defs)
    then show ?thesis using ctx_step.pipe_read [of "wrap_pos n (Suc h)" n s cap] pass(1,2) Pipe by (auto simp: ctx_pipes_def)
  next
    case Summer
    then have "wrap_pos n h < n" using pass(3) by (auto simp: wrap_pos_def)
    then show ?thesis using ctx_step.sum_up [of "wrap_pos n h" n s cap] pass(1) Summer by auto
  qed
qed

interpretation pipe_ring: counted_run "ctx_step n (Suc cap)" "ctx_left n m total_trace" for n cap m total_trace
  using ctx_step_left ctx_not_stuck by unfold_locales auto

lemma ctx_start_left:
  assumes "ctx_start iters s" "1 \<le> n" "c_msg s 0 = m"
  shows "ctx_left n m (ctx_rounds (unat iters) n m) (ctx_head s) (3 * n * unat iters)"
proof -
  have f: "c_pc (s\<lparr>c_pc := (c_pc s)(0 := At_sum)\<rparr>) = (\<lambda>_. At_read)(0 := At_sum)" "c_pipe s = (\<lambda>_. [])" "c_trace s = []" "c_iterations s = iters"
    using assms(1) by (auto simp: ctx_start_def fun_eq_iff)
  have "\<exists>j. 3 * n * unat iters + 1 = Suc j \<and> ctx_left n m (ctx_rounds (unat iters) n m) (ctx_head (s\<lparr>c_pc := (c_pc s)(0 := At_sum)\<rparr>)) j"
    using f assms(2,3) by (intro ctx_round_end) simp_all
  then show ?thesis by (simp add: ctx_head_def)
qed

lemma ctx_left_0: "ctx_left n m total_trace t 0 \<Longrightarrow> c_pc t = (\<lambda>_. At_read)(0 := Left_loop) \<and> c_trace t = total_trace"
proof (erule ctx_left.cases)
  fix s h pl k
  assume "0 = k" "if pl = Summer then 1 \<le> h \<and> h \<le> n else h < n" "k = 3 * n * unat (c_iterations s) + steps_in n h pl"
  then show ?thesis by (cases pl) (auto simp: steps_in_def)
qed simp

section \<open>Forking and killing\<close>

lemma fork_daemons_result:
  assumes "fork_daemons forked i todo pids = (pids', n)" "i + todo \<le> length pids"
  shows "i \<le> n \<and> n \<le> i + todo \<and> length pids' = length pids \<and> (\<forall>j. i \<le> j \<and> j < n \<longrightarrow> pids' ! j = forked j \<and> forked j \<noteq> - 1)
    \<and> (\<forall>j. j < i \<or> n < j \<longrightarrow> pids' ! j = pids ! j) \<and> (n < i + todo \<longrightarrow> forked n = - 1 \<and> pids' ! n = - 1)"
  using assms
proof (induction todo arbitrary: i pids)
  case (Suc todo)
  show ?case
  proof (cases "forked i = - 1")
    case True
    with Suc.prems show ?thesis by (auto simp: Let_def)
  next
    case False
    with Suc.prems have "fork_daemons forked (i + 1) todo (pids[i := forked i]) = (pids', n)" by (simp add: Let_def)
    from Suc.IH [OF this] Suc.prems(2) have ih: "i + 1 \<le> n \<and> n \<le> i + 1 + todo \<and> length pids' = length pids
      \<and> (\<forall>j. i + 1 \<le> j \<and> j < n \<longrightarrow> pids' ! j = forked j \<and> forked j \<noteq> - 1)
      \<and> (\<forall>j. j < i + 1 \<or> n < j \<longrightarrow> pids' ! j = pids[i := forked i] ! j) \<and> (n < i + 1 + todo \<longrightarrow> forked n = - 1 \<and> pids' ! n = - 1)" by simp
    then have "pids' ! i = forked i" using Suc.prems(2) by simp
    then have "\<forall>j. i \<le> j \<and> j < n \<longrightarrow> pids' ! j = forked j \<and> forked j \<noteq> - 1" using ih False by (metis Suc_eq_plus1 le_antisym not_less_eq_eq)
    then show ?thesis using ih by auto
  qed
qed auto

lemma create_pipes_all: "\<forall>j < i + todo. made j \<noteq> None \<Longrightarrow> snd (create_pipes made i todo p) = i + todo"
proof (induction todo arbitrary: i p)
  case (Suc todo)
  from Suc.prems have "made i \<noteq> None" by auto
  then obtain fds where "made i = Some fds" by blast
  then show ?case using Suc.IH [of "i + 1" "p[i := Some fds]"] Suc.prems by simp
qed simp

lemma initialize_overhead_ok:
  assumes "\<forall>i < procs. made i \<noteq> None"
  shows "\<exists>p. initialize_overhead made procs = Done p"
  using create_pipes_all [of 0 procs made "replicate procs None"] assms
  by (simp add: initialize_overhead_def Let_def case_prod_unfold)

section \<open>Properties\<close>

text \<open>C21. The benchmark of \<open>lat_ctx\<close> ends: however the processes are scheduled and whatever the pipes can hold, a call of \<open>benchmark\<close> on a ring of \<open>n\<close> processes takes at most
  \<open>3 * n * iterations\<close> steps, and when nothing can move it took exactly that many, the first process has left its loop and the daemons
  wait; in every round the token was read by the processes 1 to \<open>n - 1\<close> and then by 0, always with the same value.\<close>

theorem ctx_terminates:
  assumes "1 \<le> n" "ctx_start iters s" "(ctx_step n (Suc cap) ^^ k) (ctx_head s) t"
  shows "k \<le> 3 * n * unat iters \<and> ((\<nexists>u. ctx_step n (Suc cap) t u) \<longrightarrow> k = 3 * n * unat iters \<and> c_pc t = (\<lambda>i. if i = 0 then Left_loop else At_read)
    \<and> c_trace t = concat (replicate (unat iters) (map (\<lambda>i. (i, c_msg s 0)) ([1..<n] @ [0]))))"
proof -
  note l = ctx_start_left [OF assms(2,1) refl]
  have m: "reads_after n 0 (c_msg s 0) = map (\<lambda>i. (i, c_msg s 0)) ([1..<n] @ [0])" using assms(1) by (auto simp: reads_after_def wrap_pos_def)
  have "k \<le> 3 * n * unat iters" using pipe_ring.run_left [OF assms(3) l] by blast
  moreover have "k = 3 * n * unat iters \<and> ctx_left n (c_msg s 0) (ctx_rounds (unat iters) n (c_msg s 0)) t 0" if "\<nexists>u. ctx_step n (Suc cap) t u"
    using pipe_ring.stopped_at_end [OF l assms(3) that] .
  ultimately show ?thesis using ctx_left_0 [of n "c_msg s 0" "ctx_rounds (unat iters) n (c_msg s 0)" t] m
    by (auto simp: ctx_rounds_def fun_eq_iff)
qed

text \<open>It does not deadlock: from every state a run of \<open>benchmark\<close> can reach, a continuation lets the first process leave its loop.\<close>

theorem ctx_no_deadlock:
  assumes "1 \<le> n" "ctx_start iters s" "(ctx_step n (Suc cap) ^^ k) (ctx_head s) t"
  shows "\<exists>u j. (ctx_step n (Suc cap) ^^ j) t u \<and> c_pc u 0 = Left_loop \<and> k + j = 3 * n * unat iters"
proof -
  note l = ctx_start_left [OF assms(2,1) refl]
  obtain u where "(ctx_step n (Suc cap) ^^ (3 * n * unat iters - k)) t u" "ctx_left n (c_msg s 0) (ctx_rounds (unat iters) n (c_msg s 0)) u 0"
    using pipe_ring.run_extends [OF l assms(3)] by blast
  moreover have "k \<le> 3 * n * unat iters" using pipe_ring.run_left [OF assms(3) l] by blast
  ultimately show ?thesis using ctx_left_0 by (metis fun_upd_same le_add_diff_inverse)
qed

text \<open>C22. No daemon is left behind: when \<open>fork\<close> fails for daemon \<open>k\<close>, \<open>initialize\<close> kills and waits for exactly the daemons before it.\<close>

theorem failed_fork_reaped:
  assumes "\<forall>i < procs. made i \<noteq> None" "1 \<le> k" "k < procs" "forked k = - 1" "\<forall>i. 1 \<le> i \<and> i < k \<longrightarrow> 0 < forked i"
  shows "initialize_ctx made forked procs = Done (Inl (map forked [1..<k]))"
proof -
  obtain pids n where f: "fork_daemons forked 1 (procs - 1) (replicate procs 0) = (pids, n)" by (cases "fork_daemons forked 1 (procs - 1) (replicate procs 0)")
  note r = fork_daemons_result [OF f]
  have n: "n = k"
  proof (rule ccontr)
    assume "n \<noteq> k"
    then consider "n < k" | "k < n" by linarith
    then show False
    proof cases
      case 1
      then have "forked n = - 1" "1 \<le> n" using r assms(3) by auto
      with 1 assms(5) show False by force
    next
      case 2
      then show False using r assms(2,3,4) by auto
    qed
  qed
  have head: "map (\<lambda>i. pids ! i) [1..<k] = map forked [1..<k]" using r n assms(3) by auto
  have rest: "\<forall>i \<in> set [k..<procs]. \<not> 0 < pids ! i"
  proof
    fix i assume "i \<in> set [k..<procs]"
    then have "i = k \<or> k < i \<and> i < procs" by auto
    then show "\<not> 0 < pids ! i" using r n assms(3) by auto
  qed
  have "[1..<procs] = [1..<k] @ [k..<procs]" using assms(2,3) by (metis le_add_diff_inverse less_imp_le upt_add_eq_append)
  then have "cleanup_kills pids procs = filter (\<lambda>pid. 0 < pid) (map forked [1..<k])"
    using rest by (simp only: cleanup_kills_def map_append filter_append head) (simp add: filter_empty_conv)
  also have "\<dots> = map forked [1..<k]" using assms(5) by (auto simp: filter_id_conv)
  finally have "cleanup_kills pids procs = map forked [1..<k]" .
  then show ?thesis using initialize_overhead_ok [OF assms(1)] f n assms(3) by (auto simp: initialize_ctx_def)
qed

definition demo_ctx :: ctx where
  "demo_ctx = \<lparr>c_pc = (\<lambda>_. At_read), c_iterations = 2, c_pipe = (\<lambda>_. []), c_msg = (\<lambda>_. 9), c_trace = []\<rparr>"

lemma demo_ctx_start: "ctx_start 2 demo_ctx"
  by (simp add: ctx_start_def demo_ctx_def)

theorem ctx_terminates_witness:
  "\<exists>t. (ctx_step 3 1 ^^ 18) (ctx_head demo_ctx) t \<and> c_trace t = [(1, 9), (2, 9), (0, 9), (1, 9), (2, 9), (0, 9)]"
proof -
  have m: "c_msg demo_ctx 0 = 9" by (simp add: demo_ctx_def)
  obtain t where t: "(ctx_step 3 (Suc 0) ^^ (3 * 3 * unat (2 :: u64))) (ctx_head demo_ctx) t" "ctx_left 3 9 (ctx_rounds (unat (2 :: u64)) 3 9) t 0"
    using pipe_ring.run_to_end [OF ctx_start_left [OF demo_ctx_start _ m, of 3]] by auto
  from ctx_terminates [OF _ demo_ctx_start t(1)] pipe_ring.end_stops [OF t(2)] m
  have "c_trace t = concat (replicate (unat (2 :: u64)) (map (\<lambda>i. (i, 9)) ([1..<3] @ [0])))" by auto
  moreover have "replicate (unat (2 :: u64)) xs = [xs, xs]" for xs :: "(nat \<times> i32) list"
  proof -
    have "unat (2 :: u64) = Suc (Suc 0)" by simp
    then show ?thesis by (simp only: replicate.simps)
  qed
  moreover have "[1..<3] = [1, 2 :: nat]" by (simp add: upt_rec)
  ultimately have "c_trace t = [(1, 9), (2, 9), (0, 9), (1, 9), (2, 9), (0, 9)]" by simp
  then show ?thesis using t(1) by auto
qed

theorem ctx_no_deadlock_witness: "\<exists>u j. (ctx_step 3 1 ^^ j) (ctx_head demo_ctx) u \<and> c_pc u 0 = Left_loop \<and> j = 18"
  using ctx_no_deadlock [OF _ demo_ctx_start, of 3 0 0 "ctx_head demo_ctx"] by auto

theorem failed_fork_reaped_witness:
  "initialize_ctx (\<lambda>_. Some (3, 4)) (\<lambda>i. if i = 3 then - 1 else 100 + int i) 4 = Done (Inl [101, 102])"
  using failed_fork_reaped [of 4 "\<lambda>_. Some (3, 4)" 3 "\<lambda>i. if i = 3 then - 1 else 100 + int i"] by (simp add: upt_rec)

text \<open>When a pipe cannot be made, the clean-up closes descriptors that were never set.\<close>

lemma failed_pipe_undefined: "initialize_overhead (\<lambda>i. if i = 1 then None else Some (3, 4)) 2 = Undefined"
  by (simp add: initialize_overhead_def cleanup_overhead_def numeral_2_eq_2)

text \<open>The replacement of \<open>pipe\<close> on QNX leaves the descriptor the benchmark writes to unset, and overwrites the first \<open>int\<close> of its argument, which is the
  \<open>process_size\<close> of the benchmark's state, with the channel.\<close>

lemma PIPE_qnx_effects:
  assumes "chid \<noteq> - 1" "PIPE_qnx chid pid fds (process_size # pad # more_state) = (r, fds', cookie')"
  shows "r = 0 \<and> snd fds' = snd fds \<and> fst fds' = chid \<and> cookie' = chid # pid # more_state"
  using assms by (auto simp: PIPE_qnx_def Let_def)

end
