(* ===== verification/Cache_Pages.thy ===== *)
theory Cache_Pages
  imports Memory Interval
begin

text \<open>
  The search for pages that collide in the cache, of \<open>src/cache.c\<close>: \<open>remove_chunk\<close>, \<open>test_chunk\<close>, \<open>fixup_chunk\<close> and \<open>pagesort\<close>. They reorder
  \<open>state->pages\<close>, the list of the offsets of the pages. A call of \<open>measure\<close> follows the chain over the first pages of the list; its
  times are arguments, and it is undefined where its stores lie outside of the arrays of pages or lines. Sizes are natural numbers
  below \<open>2^64\<close>; differences that the code takes of them are defined only where they are not negative.
\<close>

section \<open>Measurements\<close>

text \<open>The page size, the line size, \<open>state->maxlen\<close>, and the time and the count that \<open>gettime\<close> and \<open>get_n\<close> return in measurement number \<open>k\<close>, first for the median and then for
  the minimum of its runs.\<close>

record cache_env =
  ce_page :: nat
  ce_line :: nat
  ce_maxlen :: nat
  ce_runs :: "nat \<Rightarrow> (u64 \<times> u64) \<times> (u64 \<times> u64)"

text \<open>\<open>(1000. * (double)gettime()) / (100. * (double)get_n())\<close>, for the median and for the minimum; the result is the median and the variation.\<close>

definition per_load :: "u64 \<times> u64 \<Rightarrow> dbl" where
  "per_load run = d_div (d_mul (Fin 1000) (d_of_u64 (fst run))) (d_mul (Fin 100) (d_of_u64 (snd run)))"

definition ce_time :: "cache_env \<Rightarrow> nat \<Rightarrow> dbl \<times> dbl" where
  "ce_time e k =
     (let median = per_load (fst (ce_runs e k)); time = per_load (snd (ce_runs e k))
      in (median, if \<not> d_eq time (Fin 0) then d_div median time else Fin (- 1)))"

text \<open>\<open>state->pages\<close>, the static \<open>available_index\<close>, and the number of measurements so far.\<close>

record cache_state =
  ch_pages :: "nat list"
  ch_avail :: nat
  ch_clock :: nat

definition pages_of :: "cache_env \<Rightarrow> nat \<Rightarrow> nat" where
  "pages_of e len = (len + ce_page e - 1) div ce_page e"

definition measure_ok :: "cache_env \<Rightarrow> nat \<Rightarrow> cache_state \<Rightarrow> bool" where
  "measure_ok e len s = (0 < pages_of e len \<and> pages_of e len \<le> length (ch_pages s)
     \<and> (len mod ce_page e = 0 \<or> ce_line e \<le> len mod ce_page e))"

definition measure_len :: "cache_env \<Rightarrow> nat \<Rightarrow> cache_state \<Rightarrow> ((dbl \<times> dbl) \<times> cache_state) option" where
  "measure_len e len s = (if measure_ok e len s then Some (ce_time e (ch_clock s), s\<lparr>ch_clock := ch_clock s + 1\<rparr>) else None)"

section \<open>Exchanging\<close>

text \<open>\<open>SWAP(xs[a], xs[b])\<close>\<close>

definition swap_at :: "nat \<Rightarrow> nat \<Rightarrow> 'a list \<Rightarrow> 'a list option" where
  "swap_at a b xs = do { x \<leftarrow> arr_get xs a; y \<leftarrow> arr_get xs b; Some (xs[a := y, b := x]) }"

fun swaps :: "(nat \<times> nat) list \<Rightarrow> 'a list \<Rightarrow> 'a list option" where
  "swaps [] xs = Some xs"
| "swaps ((a, b) # ps) xs = do { xs \<leftarrow> swap_at a b xs; swaps ps xs }"

text \<open>\<open>pagesort\<close> on the elements from \<open>po\<close> and \<open>lo\<close> on. With \<open>n = 0\<close>, which \<open>fixup_chunk\<close> passes when it keeps every page, the bound \<open>n - 1\<close> is the largest
  \<open>size_t\<close>, and the \<open>int\<close> counter reaches it only as -1: it counts up, overflows (the model has it wrap around, as everywhere; C leaves it undefined) and ends the loop
  after \<open>2 ^ 32 - 1\<close> rounds. The inner loop is empty in every one of them.\<close>

fun exchanges :: "nat \<Rightarrow> nat \<Rightarrow> (nat \<times> nat) list \<Rightarrow> nat list \<times> dbl list \<Rightarrow> (nat list \<times> dbl list) option" where
  "exchanges po lo [] x = Some x"
| "exchanges po lo ((i, j) # todo) (pages, lat) =
     do { a \<leftarrow> arr_get lat (lo + i); b \<leftarrow> arr_get lat (lo + j);
          if d_gt a b then do { lat \<leftarrow> swap_at (lo + i) (lo + j) lat; pages \<leftarrow> swap_at (po + i) (po + j) pages;
                                exchanges po lo todo (pages, lat) }
          else exchanges po lo todo (pages, lat) }"

definition sort_rounds :: "nat \<Rightarrow> nat" where
  "sort_rounds n = (if n = 0 then 2 ^ 32 - 1 else n - 1)"

definition pagesort :: "nat \<Rightarrow> nat \<Rightarrow> nat \<Rightarrow> nat list \<times> dbl list \<Rightarrow> (nat list \<times> dbl list) option" where
  "pagesort n po lo x = exchanges po lo (concat (map (\<lambda>i. map (Pair i) [i + 1..<n]) [0..<sort_rounds n])) x"

section \<open>remove_chunk\<close>

definition mirror_swaps :: "nat \<Rightarrow> nat \<Rightarrow> nat \<Rightarrow> (nat \<times> nat) list" where
  "mirror_swaps i chunk npages = (if i + chunk < npages then map (\<lambda>j. (i + j, npages - 1 - j)) [0..<chunk] else [])"

definition set_pages :: "nat list \<Rightarrow> cache_state \<Rightarrow> cache_state" where
  "set_pages pages s = s\<lparr>ch_pages := pages\<rparr>"

definition remove_chunk :: "cache_env \<Rightarrow> nat \<Rightarrow> nat \<Rightarrow> nat \<Rightarrow> nat \<Rightarrow> cache_state \<Rightarrow> (dbl \<times> cache_state) option" where
  "remove_chunk e i chunk npages len s =
     do { pages \<leftarrow> swaps (mirror_swaps i chunk npages) (ch_pages s);
          ((t, var), s) \<leftarrow> (if len < chunk * ce_page e then None else measure_len e (len - chunk * ce_page e) (set_pages pages s));
          pages \<leftarrow> swaps (mirror_swaps i chunk npages) (ch_pages s);
          Some (t, set_pages pages s) }"

section \<open>fixup_chunk\<close>

text \<open>The exchange with the end of the list, forth and back.\<close>

definition end_swaps :: "nat \<Rightarrow> nat \<Rightarrow> nat \<Rightarrow> (nat \<times> nat) list" where
  "end_swaps i chunk npages = (if i + chunk < npages then map (\<lambda>j. (i + j, npages - chunk + j)) [0..<chunk] else [])"

text \<open>\<open>bcopy(saved_pages, pages, sizeof(int) * ntotalpages)\<close> on arrays of 8-byte numbers, \<open>saved\<close> having been copied in the same way: the first half of
  the entries, and of an odd one the lower half.\<close>

definition restore_pages :: "nat \<Rightarrow> nat list \<Rightarrow> nat list \<Rightarrow> nat list" where
  "restore_pages ntotal saved pages =
     map (\<lambda>k. if k < ntotal div 2 then saved ! k
              else if k = ntotal div 2 \<and> odd ntotal then pages ! k div 2 ^ 32 * 2 ^ 32 + saved ! k mod 2 ^ 32
              else pages ! k) [0..<length pages]"

text \<open>The first loop, with \<open>d\<close> = \<open>k - j\<close> pages to try: the pages to keep come first.\<close>

fun keep_loop :: "cache_env \<Rightarrow> nat \<Rightarrow> nat \<Rightarrow> dbl \<Rightarrow> nat \<Rightarrow> nat \<Rightarrow> dbl list \<Rightarrow> cache_state \<Rightarrow> (nat \<times> dbl list \<times> cache_state) option" where
  "keep_loop e npages chunk base 0 j lat s = Some (j, lat, s)"
| "keep_loop e npages chunk base (Suc d) j lat s =
     do { ((t, var), s) \<leftarrow> measure_len e ((npages - chunk + j + 1) * ce_page e) s;
          if d_le (d_mul (lit (995 / 1000)) t) base then
            do { lat \<leftarrow> arr_set lat j t; keep_loop e npages chunk base d (j + 1) lat s }
          else
            do { lat \<leftarrow> arr_set lat (j + d) t;
                 pages \<leftarrow> swap_at (npages - chunk + j) (npages - chunk + (j + d)) (ch_pages s);
                 keep_loop e npages chunk base d j lat (set_pages pages s) } }"

text \<open>The second loop: pages beyond the used ones are tried in place of the bad ones. \<open>todo\<close> counts the rounds up to \<open>2 * npages\<close>.\<close>

definition substitute :: "nat \<Rightarrow> nat \<Rightarrow> nat option" where
  "substitute nspare k = (if nspare < 2 then None else Some (nspare - 1 - k mod (nspare - 1)))"

fun subst_loop :: "cache_env \<Rightarrow> nat \<Rightarrow> nat \<Rightarrow> nat \<Rightarrow> dbl \<Rightarrow> nat \<Rightarrow> nat \<Rightarrow> nat \<Rightarrow> nat \<Rightarrow> nat \<Rightarrow> dbl list \<Rightarrow> cache_state
    \<Rightarrow> (nat \<times> nat \<times> cache_state) option" where
  "subst_loop e npages chunk len base nspare 0 k j swapped lat s = Some (k, swapped, s)"
| "subst_loop e npages chunk len base nspare (Suc todo) k j swapped lat s =
     (if chunk \<le> j then Some (k, swapped, s)
      else
        do { let original = npages - chunk + j;
             sub \<leftarrow> substitute nspare (k + ch_avail s);
             let subset_len = (if j = chunk - 1 \<and> len mod ce_page e \<noteq> 0 then len else (original + 1) * ce_page e);
             pages \<leftarrow> swap_at original (npages + sub) (ch_pages s);
             ((t, var), s) \<leftarrow> measure_len e subset_len (set_pages pages s);
             pages \<leftarrow> swap_at original (npages + sub) (ch_pages s);
             worst \<leftarrow> arr_get lat (chunk - 1);
             (pages, lat) \<leftarrow> (if d_lt t worst
                then do { lat \<leftarrow> arr_set lat (chunk - 1) t;
                          pages \<leftarrow> swap_at (npages - 1) (npages + sub) pages;
                          pagesort (chunk - j) (npages - chunk + j) j (pages, lat) }
                else Some (pages, lat));
             best \<leftarrow> arr_get lat j;
             if d_le (d_mul (lit (995 / 1000)) best) base
             then subst_loop e npages chunk len base nspare todo (k + 1) (j + 1) (swapped + 1) lat (set_pages pages s)
             else subst_loop e npages chunk len base nspare todo (k + 1) j swapped lat (set_pages pages s) })"

text \<open>When the whole list is one chunk and fewer than half of its pages are good, half of them are kept.\<close>

definition at_least_half :: "cache_env \<Rightarrow> nat \<Rightarrow> nat \<Rightarrow> nat \<Rightarrow> dbl \<Rightarrow> cache_state \<Rightarrow> (nat \<times> dbl \<times> cache_state) option" where
  "at_least_half e npages chunk j base s =
     (if npages \<le> chunk \<and> j < chunk div 2 then
        do { ((t, var), s) \<leftarrow> measure_len e ((npages - chunk + chunk div 2 + 1) * ce_page e) s; Some (chunk div 2, t, s) }
      else Some (j, base, s))"

text \<open>The end: the new order is kept when it is faster, and otherwise undone. The result is \<open>swapped\<close>, the baseline and the state.\<close>

definition settle :: "cache_env \<Rightarrow> nat \<Rightarrow> nat \<Rightarrow> nat \<Rightarrow> nat \<Rightarrow> nat \<Rightarrow> dbl \<Rightarrow> nat list \<Rightarrow> nat \<Rightarrow> cache_state \<Rightarrow> (nat \<times> dbl \<times> cache_state) option" where
  "settle e i chunk npages ntotal len baseline saved swapped s =
     (if swapped = 0 then Some (0, baseline, s)
      else
        do { ((t, var), s) \<leftarrow> measure_len e len s;
             if d_ge t (d_mul (lit (999 / 1000)) baseline)
             then Some (0, baseline, set_pages (restore_pages ntotal saved (ch_pages s)) s)
             else do { pages \<leftarrow> swaps (end_swaps i chunk npages) (ch_pages s); Some (swapped, t, set_pages pages s) } })"

definition fixup_chunk :: "cache_env \<Rightarrow> nat \<Rightarrow> nat \<Rightarrow> nat \<Rightarrow> nat \<Rightarrow> dbl \<Rightarrow> dbl \<Rightarrow> cache_state \<Rightarrow> (nat \<times> dbl \<times> cache_state) option" where
  "fixup_chunk e i chunk npages len baseline base s =
     do { let ntotal = pages_of e (ce_maxlen e);
          let nspare = ntotal - npages;
          let saved = ch_pages s;
          pages \<leftarrow> swaps (end_swaps i chunk npages) (ch_pages s);
          let s = (set_pages pages s)\<lparr>ch_avail := (if nspare \<le> ch_avail s then 0 else ch_avail s)\<rparr>;
          (j, lat, s) \<leftarrow> keep_loop e npages chunk base chunk 0 (replicate 20 NaN) s;
          (pages, lat) \<leftarrow> pagesort (chunk - j) (npages - chunk + j) j (ch_pages s, lat);
          (j, base, s) \<leftarrow> at_least_half e npages chunk j base (set_pages pages s);
          (k, swapped, s) \<leftarrow> subst_loop e npages chunk len base nspare (2 * npages) 0 j 0 lat s;
          avail \<leftarrow> (if nspare < 2 then None else Some ((k + ch_avail s) mod (nspare - 1)));
          settle e i chunk npages ntotal len baseline saved swapped (s\<lparr>ch_avail := avail\<rparr>) }"

section \<open>test_chunk\<close>

definition no_gain :: "dbl \<Rightarrow> dbl \<Rightarrow> dbl \<Rightarrow> bool" where
  "no_gain t baseline nodiff = (d_ge t (d_mul (lit (99 / 100)) baseline) \<or> d_ge t (d_mul (lit (999 / 1000)) nodiff))"

text \<open>\<open>if (tt > t) t = tt;\<close>\<close>

definition slower :: "dbl \<Rightarrow> dbl \<Rightarrow> dbl" where
  "slower tt t = (if d_gt tt t then tt else t)"

text \<open>The loop over the parts of a chunk, for at most \<open>rounds\<close> rounds; \<open>again\<close> is the call of \<open>test_chunk\<close> in it.\<close>

primrec parts_loop :: "nat \<Rightarrow> (nat \<Rightarrow> nat \<Rightarrow> dbl \<Rightarrow> dbl \<Rightarrow> cache_state \<Rightarrow> (bool \<times> dbl \<times> cache_state) option) \<Rightarrow> cache_env \<Rightarrow> nat \<Rightarrow> nat
    \<Rightarrow> nat \<Rightarrow> nat \<Rightarrow> nat \<Rightarrow> dbl \<Rightarrow> dbl \<Rightarrow> bool \<Rightarrow> cache_state \<Rightarrow> (bool \<times> dbl \<times> cache_state) option" where
  "parts_loop 0 again e npages len j till sub baseline nodiff modified s = None"
| "parts_loop (Suc rounds) again e npages len j till sub baseline nodiff modified s =
     (if till \<le> j then Some (modified, baseline, s)
      else
        let sub = (if till < j + sub then till - j else sub) in
        case remove_chunk e j sub npages len s of
          None \<Rightarrow> None
        | Some (t, s) \<Rightarrow>
            if no_gain t baseline nodiff then parts_loop rounds again e npages len (j + sub) till sub baseline nodiff modified s
            else
              case remove_chunk e j sub npages len s of
                None \<Rightarrow> None
              | Some (tt, s) \<Rightarrow>
                  let t = slower tt t in
                  if no_gain t baseline nodiff then parts_loop rounds again e npages len (j + sub) till sub baseline nodiff modified s
                  else
                    case again j sub baseline t s of
                      None \<Rightarrow> None
                    | Some (changed, baseline, s) \<Rightarrow>
                        parts_loop rounds again e npages len (j + sub) till sub baseline (if changed then nodiff else t) (modified \<or> changed) s)"

text \<open>\<open>test_chunk\<close>; the fuel bounds the depth of the recursion, for which the size of the chunk is enough.\<close>

primrec test_chunk :: "nat \<Rightarrow> cache_env \<Rightarrow> nat \<Rightarrow> nat \<Rightarrow> nat \<Rightarrow> nat \<Rightarrow> dbl \<Rightarrow> dbl \<Rightarrow> cache_state \<Rightarrow> (bool \<times> dbl \<times> cache_state) option" where
  "test_chunk 0 e npages len i chunk baseline base s = None"
| "test_chunk (Suc fuel) e npages len i chunk baseline base s =
     (if chunk \<le> 20 \<and> chunk < npages then
        map_option (\<lambda>(swapped, baseline, s). (swapped \<noteq> 0, baseline, s)) (fixup_chunk e i chunk npages len baseline base s)
      else parts_loop (Suc chunk) (test_chunk fuel e npages len) e npages len i (i + chunk) ((chunk + 19) div 20) baseline baseline False s)"

section \<open>Exchanging, proved\<close>

lemma swap_at_Some [simp]: "a < length xs \<Longrightarrow> b < length xs \<Longrightarrow> swap_at a b xs = Some (xs[a := xs ! b, b := xs ! a])"
  by (simp add: swap_at_def)

lemma swap_at_mset: "swap_at a b xs = Some ys \<Longrightarrow> mset ys = mset xs \<and> length ys = length xs"
  by (auto simp: swap_at_def arr_get_def split: if_splits intro!: Multiset.mset_swap)

lemma swaps_mset: "swaps ps xs = Some ys \<Longrightarrow> mset ys = mset xs \<and> length ys = length xs"
proof (induction ps xs rule: swaps.induct)
  case (2 a b ps xs)
  then obtain zs where "swap_at a b xs = Some zs" "swaps ps zs = Some ys" by (auto simp: bind_eq_Some_conv)
  then show ?case using 2 swap_at_mset by metis
qed simp

lemma swaps_total: "\<forall>(a, b) \<in> set ps. a < length xs \<and> b < length xs \<Longrightarrow> \<exists>ys. swaps ps xs = Some ys"
  by (induction ps xs rule: swaps.induct) auto

lemma swaps_append: "swaps (ps @ qs) xs = do { ys \<leftarrow> swaps ps xs; swaps qs ys }"
proof (induction ps xs rule: swaps.induct)
  case (2 a b ps xs)
  then show ?case by (cases "swap_at a b xs") simp_all
qed simp

text \<open>Two exchanges of the same or of separate pairs commute, and twice the same one is nothing.\<close>

lemma swap_commute:
  assumes "{a, b} = {c, d} \<or> {a, b} \<inter> {c, d} = {}" "a < length xs" "b < length xs" "c < length xs" "d < length xs"
  shows "do { ys \<leftarrow> swap_at a b xs; swap_at c d ys } = do { ys \<leftarrow> swap_at c d xs; swap_at a b ys }"
  using assms by (auto simp: doubleton_eq_iff nth_list_update intro!: nth_equalityI)

lemma swap_twice: "a < length xs \<Longrightarrow> b < length xs \<Longrightarrow> do { ys \<leftarrow> swap_at a b xs; swap_at a b ys } = Some xs"
  by (auto simp: nth_list_update intro!: nth_equalityI)

definition apart :: "nat \<times> nat \<Rightarrow> nat \<times> nat \<Rightarrow> bool" where
  "apart p q = ({fst p, snd p} = {fst q, snd q} \<or> {fst p, snd p} \<inter> {fst q, snd q} = {})"

definition fits :: "nat \<Rightarrow> nat \<times> nat \<Rightarrow> bool" where
  "fits n p = (fst p < n \<and> snd p < n)"

lemma swaps_commute:
  assumes "\<forall>q \<in> set ps. apart (a, b) q" "\<forall>q \<in> set ps. fits (length xs) q" "fits (length xs) (a, b)"
  shows "do { ys \<leftarrow> swaps ps xs; swap_at a b ys } = do { ys \<leftarrow> swap_at a b xs; swaps ps ys }"
  using assms
proof (induction ps arbitrary: xs)
  case (Cons q ps)
  obtain c d where q: "q = (c, d)" by (cases q)
  have r: "a < length xs" "b < length xs" "c < length xs" "d < length xs" using Cons.prems q by (auto simp: fits_def)
  define zs where "zs = xs[c := xs ! d, d := xs ! c]"
  have "do { ys \<leftarrow> swaps (q # ps) xs; swap_at a b ys } = do { ys \<leftarrow> swaps ps zs; swap_at a b ys }"
    using r by (simp add: q zs_def)
  also have "\<dots> = do { ys \<leftarrow> swap_at a b zs; swaps ps ys }" using Cons.prems by (intro Cons.IH) (auto simp: zs_def)
  also have "\<dots> = do { ys \<leftarrow> do { ys \<leftarrow> swap_at c d xs; swap_at a b ys }; swaps ps ys }" using r by (simp add: zs_def)
  also have "do { ys \<leftarrow> swap_at c d xs; swap_at a b ys } = do { ys \<leftarrow> swap_at a b xs; swap_at c d ys }"
    using Cons.prems(1) r q by (intro swap_commute) (auto simp: apart_def)
  finally show ?case using r by (simp add: q)
next
  case Nil
  then show ?case by (cases "swap_at a b xs") simp_all
qed

text \<open>A sequence of such exchanges undoes itself.\<close>

lemma swaps_twice:
  assumes "\<forall>p \<in> set ps. \<forall>q \<in> set ps. apart p q" "\<forall>q \<in> set ps. fits (length xs) q"
  shows "do { ys \<leftarrow> swaps ps xs; swaps ps ys } = Some xs"
  using assms
proof (induction ps arbitrary: xs)
  case (Cons p ps)
  obtain a b where p: "p = (a, b)" by (cases p)
  have r: "a < length xs" "b < length xs" using Cons.prems p by (auto simp: fits_def)
  define zs where "zs = xs[a := xs ! b, b := xs ! a]"
  have "do { ys \<leftarrow> swaps (p # ps) xs; swaps (p # ps) ys } = do { us \<leftarrow> do { ys \<leftarrow> swaps ps zs; swap_at a b ys }; swaps ps us }"
    using r by (simp add: p zs_def)
  also have "do { ys \<leftarrow> swaps ps zs; swap_at a b ys } = do { ys \<leftarrow> swap_at a b zs; swaps ps ys }"
    using Cons.prems p by (intro swaps_commute) (auto simp: fits_def zs_def)
  also have "swap_at a b zs = Some xs" using swap_twice [OF r] r by (simp add: zs_def)
  finally show ?case using Cons.IH [of xs] Cons.prems by simp
qed simp

lemma mirror_apart:
  assumes "p \<in> set (mirror_swaps i chunk npages)" "q \<in> set (mirror_swaps i chunk npages)"
  shows "apart p q"
proof -
  obtain j k where p: "p = (i + j, npages - 1 - j)" "q = (i + k, npages - 1 - k)" "j < chunk" "k < chunk" "i + chunk < npages"
    using assms by (auto simp: mirror_swaps_def split: if_splits)
  then have "j = k \<or> i + j = npages - 1 - k \<and> i + k = npages - 1 - j \<or> {i + j, npages - 1 - j} \<inter> {i + k, npages - 1 - k} = {}" by auto
  then show ?thesis unfolding apart_def p by auto
qed

lemma mirror_fits: "npages \<le> n \<Longrightarrow> q \<in> set (mirror_swaps i chunk npages) \<Longrightarrow> fits n q"
  by (auto simp: mirror_swaps_def fits_def split: if_splits)

section \<open>Measuring whole pages and parts\<close>

text \<open>The sizes for which the search is called: \<open>len\<close> needs \<open>npages\<close> pages, its last page holds at least a line, and two pages are left over.\<close>

definition fitting :: "cache_env \<Rightarrow> nat \<Rightarrow> nat \<Rightarrow> nat \<Rightarrow> bool" where
  "fitting e npages len n = (0 < ce_page e \<and> pages_of e (ce_maxlen e) = n \<and> npages + 2 \<le> n \<and> 2 \<le> npages \<and> pages_of e len = npages
     \<and> (len mod ce_page e = 0 \<or> ce_line e \<le> len mod ce_page e))"

lemma pages_of_bounds:
  assumes "0 < ce_page e" "pages_of e len = n" "0 < n"
  shows "len \<le> n * ce_page e" "(n - 1) * ce_page e < len"
proof -
  let ?p = "ce_page e"
  have d: "n * ?p + (len + ?p - 1) mod ?p = len + ?p - 1" using assms(2) div_mult_mod_eq [of "len + ?p - 1" ?p] by (simp only: pages_of_def)
  have m: "(len + ?p - 1) mod ?p < ?p" using assms(1) by simp
  have n: "n * ?p = (n - 1) * ?p + ?p" using assms(3) by (cases n) simp_all
  show "len \<le> n * ?p" "(n - 1) * ?p < len" using d m n assms(1) by linarith+
qed

lemma pages_of_eqI:
  assumes "0 < ce_page e" "len \<le> n * ce_page e" "(n - 1) * ce_page e < len" "0 < n"
  shows "pages_of e len = n"
  unfolding pages_of_def
proof (rule div_nat_eqI)
  have n: "n * ce_page e = (n - 1) * ce_page e + ce_page e" using assms(4) by (cases n) simp_all
  show "ce_page e * n \<le> len + ce_page e - 1" using n assms(3) by (simp add: mult.commute)
  show "len + ce_page e - 1 < ce_page e * Suc n" using assms(1,2) by (simp add: mult.commute)
qed

lemma measure_pages: "0 < ce_page e \<Longrightarrow> 0 < n \<Longrightarrow> n \<le> length (ch_pages s) \<Longrightarrow> measure_ok e (n * ce_page e) s"
  using pages_of_eqI [of e "n * ce_page e" n] by (cases n) (auto simp: measure_ok_def)

lemma measure_whole: "fitting e npages len n \<Longrightarrow> length (ch_pages s) = n \<Longrightarrow> measure_ok e len s"
  by (auto simp: measure_ok_def fitting_def)

lemma measure_part:
  assumes "fitting e npages len n" "length (ch_pages s) = n" "chunk < npages"
  shows "chunk * ce_page e \<le> len \<and> measure_ok e (len - chunk * ce_page e) s"
proof -
  let ?p = "ce_page e"
  have p: "0 < ?p" and n: "pages_of e len = npages" "0 < npages" using assms(1) by (auto simp: fitting_def)
  note b = pages_of_bounds [OF p n]
  have c: "chunk * ?p \<le> (npages - 1) * ?p" using assms(3) by (intro mult_right_mono) auto
  then have le: "chunk * ?p \<le> len" using b(2) by linarith
  have "len - chunk * ?p \<le> (npages - chunk) * ?p" "(npages - chunk - 1) * ?p < len - chunk * ?p"
    using b c by (auto simp: diff_mult_distrib)
  then have "pages_of e (len - chunk * ?p) = npages - chunk" using p assms(3) by (intro pages_of_eqI) auto
  moreover have "(len - chunk * ?p) mod ?p = len mod ?p"
  proof -
    from le obtain d where "len = chunk * ?p + d" using le_Suc_ex by blast
    then show ?thesis by simp
  qed
  ultimately show ?thesis using assms le by (auto simp: measure_ok_def fitting_def)
qed

lemma remove_chunk_step:
  assumes "fitting e npages len n" "length (ch_pages s) = n" "chunk < npages"
  shows "remove_chunk e i chunk npages len s = Some (fst (ce_time e (ch_clock s)), s\<lparr>ch_clock := ch_clock s + 1\<rparr>)"
proof -
  let ?ps = "mirror_swaps i chunk npages"
  have "npages \<le> n" using assms(1) by (simp add: fitting_def)
  then have twice: "do { ys \<leftarrow> swaps ?ps (ch_pages s); swaps ?ps ys } = Some (ch_pages s)"
    using mirror_apart mirror_fits assms(2) by (intro swaps_twice) blast+
  then obtain ys where ys: "swaps ?ps (ch_pages s) = Some ys" "swaps ?ps ys = Some (ch_pages s)" by (auto simp: bind_eq_Some_conv)
  have "length ys = n" using swaps_mset [OF ys(1)] assms(2) by simp
  then have "chunk * ce_page e \<le> len \<and> measure_ok e (len - chunk * ce_page e) (set_pages ys s)"
    using assms(1,3) by (intro measure_part) (auto simp: set_pages_def)
  then show ?thesis using ys by (simp add: remove_chunk_def measure_len_def set_pages_def case_prod_unfold)
qed

section \<open>Sorting\<close>

lemma exchanges_total:
  assumes "\<forall>(i, j) \<in> set ps. po + i < length pages \<and> po + j < length pages \<and> lo + i < length lat \<and> lo + j < length lat"
  shows "\<exists>pages' lat'. exchanges po lo ps (pages, lat) = Some (pages', lat') \<and> mset pages' = mset pages \<and> mset lat' = mset lat
    \<and> length pages' = length pages \<and> length lat' = length lat"
  using assms
proof (induction ps arbitrary: pages lat)
  case (Cons q ps)
  obtain i j where q: "q = (i, j)" by (cases q)
  have r: "po + i < length pages" "po + j < length pages" "lo + i < length lat" "lo + j < length lat" using Cons.prems q by auto
  show ?case
  proof (cases "d_gt (lat ! (lo + i)) (lat ! (lo + j))")
    case False
    then show ?thesis using r Cons.IH [of pages lat] Cons.prems by (simp add: q)
  next
    case True
    obtain pages1 lat1 where s: "swap_at (po + i) (po + j) pages = Some pages1" "swap_at (lo + i) (lo + j) lat = Some lat1"
      using r by simp
    note m = swap_at_mset [OF s(1)] swap_at_mset [OF s(2)]
    have "\<exists>pages' lat'. exchanges po lo ps (pages1, lat1) = Some (pages', lat') \<and> mset pages' = mset pages1 \<and> mset lat' = mset lat1
      \<and> length pages' = length pages1 \<and> length lat' = length lat1"
      using Cons.prems m by (intro Cons.IH) simp
    then show ?thesis using True r s m by (simp add: q)
  qed
qed simp

lemma pagesort_pairs:
  "pagesort n po lo x = exchanges po lo (concat (map (\<lambda>i. map (Pair i) [i + 1..<n]) [0..<n - 1])) x"
proof (cases "n = 0")
  case True
  have "concat (map (\<lambda>i. map (Pair i) [i + 1..<0 :: nat]) xs) = []" for xs :: "nat list" by simp
  with True show ?thesis by (simp only: pagesort_def)
qed (simp add: pagesort_def sort_rounds_def)

lemma pagesort_total:
  assumes "po + n \<le> length pages" "lo + n \<le> length lat"
  shows "\<exists>pages' lat'. pagesort n po lo (pages, lat) = Some (pages', lat') \<and> mset pages' = mset pages
    \<and> length pages' = length pages \<and> length lat' = length lat"
proof -
  have "\<exists>pages' lat'. exchanges po lo (concat (map (\<lambda>i. map (Pair i) [i + 1..<n]) [0..<n - 1])) (pages, lat) = Some (pages', lat')
    \<and> mset pages' = mset pages \<and> mset lat' = mset lat \<and> length pages' = length pages \<and> length lat' = length lat"
    using assms by (intro exchanges_total) auto
  then show ?thesis unfolding pagesort_pairs by blast
qed

section \<open>fixup_chunk is defined\<close>

lemma keep_loop_total:
  assumes "0 < ce_page e" "npages \<le> length (ch_pages s)" "chunk \<le> npages" "j + d = k" "k \<le> chunk" "chunk \<le> length lat"
  shows "\<exists>j' lat' s'. keep_loop e npages chunk base d j lat s = Some (j', lat', s') \<and> j \<le> j' \<and> j' \<le> k
    \<and> mset (ch_pages s') = mset (ch_pages s) \<and> length lat' = length lat \<and> ch_avail s' = ch_avail s"
  using assms
proof (induction d arbitrary: j k lat s)
  case (Suc d)
  let ?s = "s\<lparr>ch_clock := ch_clock s + 1\<rparr>" and ?t = "fst (ce_time e (ch_clock s))"
  have "npages - chunk + j + 1 \<le> npages" using Suc.prems by linarith
  then have ms: "measure_ok e ((npages - chunk + j + 1) * ce_page e) s" using Suc.prems(1,2) by (intro measure_pages) auto
  obtain v where "ce_time e (ch_clock s) = (?t, v)" by (metis prod.collapse)
  then have m: "measure_len e ((npages - chunk + j + 1) * ce_page e) s = Some ((?t, v), ?s)" using ms by (simp add: measure_len_def)
  show ?case
  proof (cases "d_le (d_mul (lit (995 / 1000)) ?t) base")
    case True
    have "\<exists>j' lat' s'. keep_loop e npages chunk base d (j + 1) (lat[j := ?t]) ?s = Some (j', lat', s') \<and> j + 1 \<le> j' \<and> j' \<le> k
      \<and> mset (ch_pages s') = mset (ch_pages ?s) \<and> length lat' = length (lat[j := ?t]) \<and> ch_avail s' = ch_avail ?s"
      using Suc.prems by (intro Suc.IH) auto
    then show ?thesis using m True Suc.prems by auto
  next
    case False
    have r: "npages - chunk + j < length (ch_pages s)" "npages - chunk + (j + d) < length (ch_pages s)" "j + d < length lat"
      using Suc.prems by linarith+
    then obtain pages where p: "swap_at (npages - chunk + j) (npages - chunk + (j + d)) (ch_pages ?s) = Some pages" by simp
    note pm = swap_at_mset [OF p]
    have "\<exists>j' lat' s'. keep_loop e npages chunk base d j (lat[j + d := ?t]) (set_pages pages ?s) = Some (j', lat', s') \<and> j \<le> j' \<and> j' \<le> j + d
      \<and> mset (ch_pages s') = mset (ch_pages (set_pages pages ?s)) \<and> length lat' = length (lat[j + d := ?t])
      \<and> ch_avail s' = ch_avail (set_pages pages ?s)"
      using Suc.prems pm by (intro Suc.IH) (auto simp: set_pages_def)
    moreover have "arr_set lat (j + d) ?t = Some (lat[j + d := ?t])" using r(3) by simp
    ultimately show ?thesis using m False p pm Suc.prems(4) by (auto simp: set_pages_def)
  qed
qed auto

lemma substitute_less: "2 \<le> nspare \<Longrightarrow> \<exists>sub. substitute nspare k = Some sub \<and> sub < nspare"
  by (auto simp: substitute_def)

text \<open>One round of the second loop: the pages and latencies it goes on with.\<close>

lemma subst_round:
  assumes "j < chunk" "chunk \<le> npages" "npages + nspare = length pages" "sub < nspare" "chunk \<le> length lat"
  shows "\<exists>pages' lat'. (if d_lt t (lat ! (chunk - 1))
      then do { lat \<leftarrow> arr_set lat (chunk - 1) t; pages \<leftarrow> swap_at (npages - 1) (npages + sub) pages;
                pagesort (chunk - j) (npages - chunk + j) j (pages, lat) }
      else Some (pages, lat)) = Some (pages', lat') \<and> mset pages' = mset pages \<and> length pages' = length pages \<and> length lat' = length lat"
proof (cases "d_lt t (lat ! (chunk - 1))")
  case True
  obtain pages1 where p: "swap_at (npages - 1) (npages + sub) pages = Some pages1" using assms by simp
  note pm = swap_at_mset [OF p]
  have "\<exists>pages' lat'. pagesort (chunk - j) (npages - chunk + j) j (pages1, lat[chunk - 1 := t]) = Some (pages', lat') \<and> mset pages' = mset pages1
    \<and> length pages' = length pages1 \<and> length lat' = length (lat[chunk - 1 := t])"
    using assms pm by (intro pagesort_total) auto
  moreover have "arr_set lat (chunk - 1) t = Some (lat[chunk - 1 := t])" using assms by simp
  ultimately show ?thesis using True p pm by auto
qed simp

lemma subst_loop_total:
  assumes "fitting e npages len n" "length (ch_pages s) = n" "chunk \<le> npages" "nspare = n - npages" "chunk \<le> length lat"
  shows "\<exists>k' swapped' s'. subst_loop e npages chunk len base nspare todo k j swapped lat s = Some (k', swapped', s')
    \<and> mset (ch_pages s') = mset (ch_pages s)"
  using assms
proof (induction todo arbitrary: k j swapped lat s)
  case (Suc todo)
  show ?case
  proof (cases "chunk \<le> j")
    case False
    let ?o = "npages - chunk + j" and ?size = "if j = chunk - 1 \<and> len mod ce_page e \<noteq> 0 then len else (npages - chunk + j + 1) * ce_page e"
    have g: "npages + 2 \<le> n" "0 < ce_page e" using Suc.prems(1) by (auto simp: fitting_def)
    have "2 \<le> nspare" using g(1) Suc.prems(4) by linarith
    obtain sub where sub: "substitute nspare (k + ch_avail s) = Some sub" "sub < nspare" using substitute_less [of nspare "k + ch_avail s"] \<open>2 \<le> nspare\<close> by auto
    have o: "?o < length (ch_pages s)" "npages + sub < length (ch_pages s)" "npages + nspare = length (ch_pages s)"
      using Suc.prems g sub(2) False by linarith+
    then obtain pages where p: "swap_at ?o (npages + sub) (ch_pages s) = Some pages" by simp
    note pm = swap_at_mset [OF p]
    have undo: "swap_at ?o (npages + sub) pages = Some (ch_pages s)" using swap_twice [OF o(1,2)] p by simp
    let ?s = "(set_pages pages s)\<lparr>ch_clock := ch_clock s + 1\<rparr>" and ?t = "fst (ce_time e (ch_clock s))"
    have "npages - chunk + j + 1 \<le> n" using Suc.prems(3) False g by linarith
    then have "measure_ok e ?size (set_pages pages s)"
      using measure_whole [OF Suc.prems(1), of "set_pages pages s"] measure_pages [OF g(2), of "npages - chunk + j + 1" "set_pages pages s"] pm Suc.prems(2)
      by (simp add: set_pages_def)
    moreover obtain v where "ce_time e (ch_clock s) = (?t, v)" by (metis prod.collapse)
    ultimately have m: "measure_len e ?size (set_pages pages s) = Some ((?t, v), ?s)" by (simp add: measure_len_def set_pages_def)
    obtain pages2 lat2 where r: "(if d_lt ?t (lat ! (chunk - 1))
        then do { lat \<leftarrow> arr_set lat (chunk - 1) ?t; pages \<leftarrow> swap_at (npages - 1) (npages + sub) (ch_pages s);
                  pagesort (chunk - j) (npages - chunk + j) j (pages, lat) }
        else Some (ch_pages s, lat)) = Some (pages2, lat2)" "mset pages2 = mset (ch_pages s)" "length pages2 = length (ch_pages s)" "length lat2 = length lat"
      using subst_round [of j chunk npages nspare "ch_pages s" sub lat ?t] Suc.prems(3,5) o(3) sub(2) False by fastforce
    have a: "arr_get lat (chunk - 1) = Some (lat ! (chunk - 1))" "arr_get lat2 j = Some (lat2 ! j)" using Suc.prems(5) r(4) False by auto
    have ih: "\<exists>k' swapped' s'. subst_loop e npages chunk len base nspare todo k1 j1 sw1 lat2 (set_pages pages2 ?s) = Some (k', swapped', s')
      \<and> mset (ch_pages s') = mset (ch_pages s)" for k1 j1 sw1
      using Suc.IH [of "set_pages pages2 ?s" lat2 k1 j1 sw1] Suc.prems r(2,3,4) by (simp add: set_pages_def)
    have "subst_loop e npages chunk len base nspare (Suc todo) k j swapped lat s
      = (if d_le (d_mul (lit (995 / 1000)) (lat2 ! j)) base
         then subst_loop e npages chunk len base nspare todo (k + 1) (j + 1) (swapped + 1) lat2 (set_pages pages2 ?s)
         else subst_loop e npages chunk len base nspare todo (k + 1) j swapped lat2 (set_pages pages2 ?s))"
      using False sub(1) p m undo r(1) a by (simp add: set_pages_def)
    then show ?thesis using ih by presburger
  qed simp
qed simp

lemma end_swaps_total:
  assumes "npages \<le> length xs" "chunk \<le> npages"
  shows "\<exists>ys. swaps (end_swaps i chunk npages) xs = Some ys \<and> mset ys = mset xs \<and> length ys = length xs"
proof -
  have "\<exists>ys. swaps (end_swaps i chunk npages) xs = Some ys"
    using assms by (intro swaps_total) (auto simp: end_swaps_def split: if_splits)
  then show ?thesis using swaps_mset by blast
qed

lemma settle_total:
  assumes "fitting e npages len n" "length (ch_pages s) = n" "chunk \<le> npages"
  shows "\<exists>r b s'. settle e i chunk npages ntotal len baseline saved swapped s = Some (r, b, s') \<and> length (ch_pages s') = n
    \<and> (r \<noteq> 0 \<longrightarrow> mset (ch_pages s') = mset (ch_pages s)) \<and> (r = 0 \<longrightarrow> b = baseline)"
proof (cases "swapped = 0")
  case False
  let ?s = "s\<lparr>ch_clock := ch_clock s + 1\<rparr>" and ?t = "fst (ce_time e (ch_clock s))"
  obtain v where "ce_time e (ch_clock s) = (?t, v)" by (metis prod.collapse)
  then have m: "measure_len e len s = Some ((?t, v), ?s)" using measure_whole [OF assms(1,2)] by (simp add: measure_len_def)
  have "npages \<le> length (ch_pages s)" using assms(1,2) by (simp add: fitting_def)
  then obtain pages where p: "swaps (end_swaps i chunk npages) (ch_pages s) = Some pages" "mset pages = mset (ch_pages s)" "length pages = n"
    using end_swaps_total [of npages "ch_pages s" chunk i] assms(2,3) by auto
  show ?thesis
  proof (cases "d_ge ?t (d_mul (lit (999 / 1000)) baseline)")
    case True
    then show ?thesis using False m assms(2) by (simp add: settle_def set_pages_def restore_pages_def)
  next
    case nf: False
    then show ?thesis using False m p by (simp add: settle_def set_pages_def)
  qed
qed (use assms in \<open>simp add: settle_def\<close>)

lemma fixup_total:
  assumes "fitting e npages len n" "length (ch_pages s) = n" "chunk \<le> 20" "chunk < npages"
  shows "\<exists>r b s'. fixup_chunk e i chunk npages len baseline base s = Some (r, b, s') \<and> length (ch_pages s') = n
    \<and> (r \<noteq> 0 \<longrightarrow> mset (ch_pages s') = mset (ch_pages s)) \<and> (r = 0 \<longrightarrow> b = baseline)"
proof -
  have g: "0 < ce_page e" "npages + 2 \<le> n" "pages_of e (ce_maxlen e) = n" using assms(1) by (auto simp: fitting_def)
  obtain pages1 where p1: "swaps (end_swaps i chunk npages) (ch_pages s) = Some pages1" "mset pages1 = mset (ch_pages s)" "length pages1 = n"
    using end_swaps_total [of npages "ch_pages s" chunk i] assms(2,4) g by auto
  define s1 where "s1 = (set_pages pages1 s)\<lparr>ch_avail := (if n - npages \<le> ch_avail s then 0 else ch_avail s)\<rparr>"
  have "\<exists>j' lat' s'. keep_loop e npages chunk base chunk 0 (replicate 20 NaN) s1 = Some (j', lat', s') \<and> 0 \<le> j' \<and> j' \<le> chunk
    \<and> mset (ch_pages s') = mset (ch_pages s1) \<and> length lat' = length (replicate 20 NaN) \<and> ch_avail s' = ch_avail s1"
    using g p1 assms(3,4) by (intro keep_loop_total) (auto simp: s1_def set_pages_def)
  then obtain j lat s2 where k: "keep_loop e npages chunk base chunk 0 (replicate 20 NaN) s1 = Some (j, lat, s2)" "j \<le> chunk"
    "mset (ch_pages s2) = mset (ch_pages s)" "length lat = 20" using p1 by (auto simp: s1_def set_pages_def)
  have l2: "length (ch_pages s2) = n" using k(3) assms(2) by (metis size_mset)
  obtain pages3 lat3 where q: "pagesort (chunk - j) (npages - chunk + j) j (ch_pages s2, lat) = Some (pages3, lat3)" "mset pages3 = mset (ch_pages s2)"
    "length pages3 = n" "length lat3 = 20"
    using pagesort_total [of "npages - chunk + j" "chunk - j" "ch_pages s2" j lat] k(2,4) l2 assms(3,4) g by auto
  have h: "at_least_half e npages chunk j base (set_pages pages3 s2) = Some (j, base, set_pages pages3 s2)"
    using assms(4) by (simp add: at_least_half_def)
  obtain kk sw s4 where sl: "subst_loop e npages chunk len base (n - npages) (2 * npages) 0 j 0 lat3 (set_pages pages3 s2) = Some (kk, sw, s4)"
    "mset (ch_pages s4) = mset pages3"
    using subst_loop_total [OF assms(1), of "set_pages pages3 s2" chunk "n - npages" lat3 base "2 * npages" 0 j 0] q assms(3,4) by (auto simp: set_pages_def)
  have l4: "length (ch_pages s4) = n" "mset (ch_pages s4) = mset (ch_pages s)" using sl(2) q(2,3) k(3) by (metis size_mset) (simp add: sl(2) q(2) k(3))
  have spare: "\<not> n - npages < 2" using g(2) by linarith
  have "fixup_chunk e i chunk npages len baseline base s
    = settle e i chunk npages n len baseline (ch_pages s) sw (s4\<lparr>ch_avail := (kk + ch_avail s4) mod (n - npages - 1)\<rparr>)"
    using p1(1) k(1) q(1) h sl(1) g(3) spare by (simp add: fixup_chunk_def Let_def s1_def)
  then show ?thesis using settle_total [OF assms(1), of "s4\<lparr>ch_avail := (kk + ch_avail s4) mod (n - npages - 1)\<rparr>" chunk] l4 assms(4) by fastforce
qed

section \<open>test_chunk returns\<close>

lemma parts_loop_total:
  assumes "fitting e npages len n" "length (ch_pages s) = n" "till - j < rounds" "till \<le> npages" "1 \<le> sub" "sub < npages" "sub \<le> top_sub"
    and again: "\<And>j sub baseline t s. length (ch_pages s) = n \<Longrightarrow> 1 \<le> sub \<Longrightarrow> sub \<le> top_sub \<Longrightarrow> j + sub \<le> npages
      \<Longrightarrow> \<exists>c b s'. again j sub baseline t s = Some (c, b, s') \<and> length (ch_pages s') = n"
  shows "\<exists>c b s'. parts_loop rounds again e npages len j till sub baseline nodiff modified s = Some (c, b, s') \<and> length (ch_pages s') = n"
  using assms(2,3,5,6,7)
proof (induction rounds arbitrary: j sub baseline nodiff modified s)
  case (Suc rounds)
  show ?case
  proof (cases "till \<le> j")
    case False
    define sub' where "sub' = (if till < j + sub then till - j else sub)"
    have sub': "1 \<le> sub'" "sub' < npages" "sub' \<le> top_sub" "j + sub' \<le> npages" "till - (j + sub') < rounds"
      using False Suc.prems assms(4) by (auto simp: sub'_def)
    let ?s = "\<lambda>s. s\<lparr>ch_clock := ch_clock s + 1\<rparr>" and ?t = "\<lambda>s. fst (ce_time e (ch_clock s))"
    have rm: "remove_chunk e j sub' npages len u = Some (?t u, ?s u)" if "length (ch_pages u) = n" for u
      using remove_chunk_step [OF assms(1) that sub'(2)] .
    have go: "\<exists>c b s'. parts_loop rounds again e npages len (j + sub') till sub' b1 d1 m1 u = Some (c, b, s') \<and> length (ch_pages s') = n"
      if "length (ch_pages u) = n" for b1 d1 m1 u using Suc.IH [OF that sub'(5,1,2,3)] .
    define t where "t = slower (?t (?s s)) (?t s)"
    obtain c b u where a: "again j sub' baseline t (?s (?s s)) = Some (c, b, u)" "length (ch_pages u) = n"
      using again [of "?s (?s s)" sub' j baseline t] Suc.prems(1) sub' by auto
    have "parts_loop (Suc rounds) again e npages len j till sub baseline nodiff modified s =
      (if no_gain (?t s) baseline nodiff then parts_loop rounds again e npages len (j + sub') till sub' baseline nodiff modified (?s s)
       else if no_gain t baseline nodiff then parts_loop rounds again e npages len (j + sub') till sub' baseline nodiff modified (?s (?s s))
       else parts_loop rounds again e npages len (j + sub') till sub' b (if c then nodiff else t) (modified \<or> c) u)"
      using False rm [of s] rm [of "?s s"] Suc.prems(1) a(1) by (simp add: Let_def sub'_def [symmetric] t_def)
    then show ?thesis using go Suc.prems(1) a(2) by simp
  qed (use Suc.prems in simp)
qed simp

lemma test_chunk_returns:
  assumes "fitting e npages len n" "length (ch_pages s) = n" "1 \<le> chunk" "chunk \<le> fuel" "i + chunk \<le> npages"
  shows "\<exists>c b s'. test_chunk fuel e npages len i chunk baseline base s = Some (c, b, s') \<and> length (ch_pages s') = n"
  using assms(2-5)
proof (induction fuel arbitrary: i chunk baseline base s)
  case (Suc fuel)
  show ?case
  proof (cases "chunk \<le> 20 \<and> chunk < npages")
    case True
    then show ?thesis using fixup_total [OF assms(1) Suc.prems(1), of chunk i baseline base] by auto
  next
    case False
    have "2 \<le> npages" using assms(1) by (simp add: fitting_def)
    with False Suc.prems have c: "2 \<le> chunk" "chunk \<le> npages" by auto
    define sub where "sub = (chunk + 19) div 20"
    have sub: "1 \<le> sub" "sub < chunk" using c(1) by (auto simp: sub_def)
    have "\<exists>c b s'. parts_loop (Suc chunk) (test_chunk fuel e npages len) e npages len i (i + chunk) sub baseline baseline False s = Some (c, b, s')
      \<and> length (ch_pages s') = n"
      using assms(1) Suc.prems sub c Suc.IH by (intro parts_loop_total [of e npages len n s "i + chunk" i "Suc chunk" sub fuel]) auto
    then show ?thesis using False by (auto simp: sub_def)
  qed
qed simp

section \<open>pagesort sorts\<close>

text \<open>What the rounds of the sort keep: the entries outside of a range of the latencies, and a lower bound of those in it.\<close>

definition outside_same :: "nat \<Rightarrow> nat \<Rightarrow> dbl list \<Rightarrow> dbl list \<Rightarrow> bool" where
  "outside_same a b lat lat' = (length lat' = length lat \<and> (\<forall>k. k < a \<or> b \<le> k \<longrightarrow> lat' ! k = lat ! k))"

definition all_from :: "nat \<Rightarrow> nat \<Rightarrow> dbl list \<Rightarrow> (dbl \<Rightarrow> bool) \<Rightarrow> bool" where
  "all_from a b lat P = (\<forall>k. a \<le> k \<and> k < b \<longrightarrow> P (lat ! k))"

lemma exchanges_Cons:
  assumes "exchanges po lo ((i, j) # ps) (pages, lat) = Some r" "lo + i < length lat" "lo + j < length lat"
  obtains pages1 where "exchanges po lo ps (pages1, if d_gt (lat ! (lo + i)) (lat ! (lo + j))
      then lat[lo + i := lat ! (lo + j), lo + j := lat ! (lo + i)] else lat) = Some r"
  using assms by (auto simp: bind_eq_Some_conv split: if_splits)

text \<open>A round: the element at \<open>i\<close> becomes the least of those from \<open>i\<close> on.\<close>

lemma row_least:
  assumes "exchanges po lo (map (Pair i) [j..<n]) (pages, lat) = Some (pages', lat')" "i < j" "lo + n \<le> length lat"
    "all_from (lo + i) (lo + n) lat (\<lambda>x. x \<noteq> NaN)" "all_from (lo + i) (lo + n) lat P"
    "all_from (lo + i + 1) (lo + j) lat (d_le (lat ! (lo + i)))"
  shows "outside_same (lo + i) (lo + n) lat lat' \<and> all_from (lo + i) (lo + n) lat' (\<lambda>x. x \<noteq> NaN) \<and> all_from (lo + i) (lo + n) lat' P
    \<and> (i < n \<longrightarrow> all_from (lo + i + 1) (lo + n) lat' (d_le (lat' ! (lo + i))))"
  using assms
proof (induction "n - j" arbitrary: j pages lat)
  case 0
  then show ?case by (auto simp: outside_same_def all_from_def)
next
  case (Suc m)
  have j: "j < n" using Suc.hyps(2) by linarith
  define lat1 where "lat1 = (if d_gt (lat ! (lo + i)) (lat ! (lo + j)) then lat[lo + i := lat ! (lo + j), lo + j := lat ! (lo + i)] else lat)"
  have r: "lo + i < length lat" "lo + j < length lat" "lo + i \<noteq> lo + j" using j Suc.prems(2,3) by auto
  obtain pages1 where e: "exchanges po lo (map (Pair i) [Suc j..<n]) (pages1, lat1) = Some (pages', lat')"
    using exchanges_Cons [of po lo i j "map (Pair i) [Suc j..<n]" pages lat] Suc.prems(1) r j by (auto simp: upt_conv_Cons lat1_def)
  have l1: "length lat1 = length lat" "\<And>k. k \<noteq> lo + i \<Longrightarrow> k \<noteq> lo + j \<Longrightarrow> lat1 ! k = lat ! k"
    "lat1 ! (lo + i) = lat ! (lo + i) \<and> lat1 ! (lo + j) = lat ! (lo + j) \<and> d_le (lat ! (lo + i)) (lat ! (lo + j))
     \<or> lat1 ! (lo + i) = lat ! (lo + j) \<and> lat1 ! (lo + j) = lat ! (lo + i) \<and> d_le (lat ! (lo + j)) (lat ! (lo + i))"
    using r Suc.prems(2,4) j d_not_lt d_lt_imp_le by (auto simp: lat1_def all_from_def)
  have keep: "all_from (lo + i) (lo + n) lat1 Q" if "all_from (lo + i) (lo + n) lat Q" for Q
    unfolding all_from_def
  proof (intro allI impI)
    fix k assume k: "lo + i \<le> k \<and> k < lo + n"
    have ij: "Q (lat ! (lo + i))" "Q (lat ! (lo + j))" using that j Suc.prems(2) by (simp_all add: all_from_def)
    consider "k = lo + i" | "k = lo + j" | "k \<noteq> lo + i" "k \<noteq> lo + j" by blast
    then show "Q (lat1 ! k)"
    proof cases
      case 3
      then show ?thesis using that l1(2) k by (simp add: all_from_def)
    qed (use l1(3) ij in auto)
  qed
  have "d_le (lat1 ! (lo + i)) (lat1 ! k)" if "lo + i + 1 \<le> k" "k < lo + Suc j" for k
  proof (cases "k = lo + j")
    case False
    then have "d_le (lat ! (lo + i)) (lat ! k)" "lat1 ! k = lat ! k" using that Suc.prems(6) l1(2) by (auto simp: all_from_def)
    then show ?thesis using l1(3) d_le_trans by metis
  qed (use l1(3) in auto)
  then have least: "all_from (lo + i + 1) (lo + Suc j) lat1 (d_le (lat1 ! (lo + i)))" by (simp add: all_from_def)
  have "m = n - Suc j" "i < Suc j" "lo + n \<le> length lat1" using Suc.hyps(2) Suc.prems(2,3) l1(1) by simp_all
  then have "outside_same (lo + i) (lo + n) lat1 lat' \<and> all_from (lo + i) (lo + n) lat' (\<lambda>x. x \<noteq> NaN) \<and> all_from (lo + i) (lo + n) lat' P
    \<and> (i < n \<longrightarrow> all_from (lo + i + 1) (lo + n) lat' (d_le (lat' ! (lo + i))))"
    using Suc.hyps(1) [of "Suc j" pages1 lat1] e keep [OF Suc.prems(4)] keep [OF Suc.prems(5)] least by blast
  moreover have "outside_same (lo + i) (lo + n) lat lat1" using l1 j Suc.prems(2) by (auto simp: outside_same_def)
  ultimately show ?case by (auto simp: outside_same_def)
qed

lemma exchanges_append: "exchanges po lo (ps @ qs) x = do { y \<leftarrow> exchanges po lo ps x; exchanges po lo qs y }"
proof (induction ps arbitrary: x)
  case (Cons q ps)
  obtain i j where q: "q = (i, j)" by (cases q)
  obtain pages lat where x: "x = (pages, lat)" by (cases x)
  show ?case unfolding q x
    by (cases "arr_get lat (lo + i)"; cases "arr_get lat (lo + j)"; cases "swap_at (lo + i) (lo + j) lat";
        cases "swap_at (po + i) (po + j) pages") (simp_all add: Cons.IH)
qed simp

text \<open>After the rounds up to \<open>i\<close> the elements before \<open>i\<close> are in order and not above the others.\<close>

definition sorted_upto :: "nat \<Rightarrow> nat \<Rightarrow> nat \<Rightarrow> dbl list \<Rightarrow> bool" where
  "sorted_upto lo n i lat = (\<forall>a b. a < i \<and> a < b \<and> b < n \<longrightarrow> d_le (lat ! (lo + a)) (lat ! (lo + b)))"

lemma rows_sort:
  assumes "exchanges po lo (concat (map (\<lambda>i. map (Pair i) [i + 1..<n]) [i..<m])) (pages, lat) = Some (pages', lat')" "i \<le> m" "m \<le> n"
    "lo + n \<le> length lat" "all_from lo (lo + n) lat (\<lambda>x. x \<noteq> NaN)" "sorted_upto lo n i lat"
  shows "sorted_upto lo n m lat' \<and> all_from lo (lo + n) lat' (\<lambda>x. x \<noteq> NaN)"
  using assms
proof (induction "m - i" arbitrary: i pages lat)
  case (Suc d)
  have i: "i < m" "i < n" using Suc.hyps(2) Suc.prems(3) by linarith+
  obtain pages1 lat1 where e: "exchanges po lo (map (Pair i) [i + 1..<n]) (pages, lat) = Some (pages1, lat1)"
    "exchanges po lo (concat (map (\<lambda>i. map (Pair i) [i + 1..<n]) [i + 1..<m])) (pages1, lat1) = Some (pages', lat')"
    using Suc.prems(1) i(1) by (auto simp: upt_conv_Cons exchanges_append bind_eq_Some_conv)
  have row: "outside_same (lo + i) (lo + n) lat lat1 \<and> all_from (lo + i) (lo + n) lat1 (\<lambda>x. x \<noteq> NaN)
      \<and> all_from (lo + i) (lo + n) lat1 (\<lambda>x. \<forall>a < i. d_le (lat ! (lo + a)) x)
      \<and> (i < n \<longrightarrow> all_from (lo + i + 1) (lo + n) lat1 (d_le (lat1 ! (lo + i))))"
  proof (rule row_least [OF e(1)])
    show "all_from (lo + i) (lo + n) lat (\<lambda>x. \<forall>a < i. d_le (lat ! (lo + a)) x)"
      unfolding all_from_def
    proof (intro allI impI)
      fix k a assume k: "lo + i \<le> k \<and> k < lo + n" and "a < i"
      then obtain b where "k = lo + b" using le_Suc_ex [of lo k] by auto
      then show "d_le (lat ! (lo + a)) (lat ! k)" using Suc.prems(6) k \<open>a < i\<close> by (simp add: sorted_upto_def)
    qed
  qed (use Suc.prems in \<open>auto simp: all_from_def\<close>)
  have low: "lat1 ! (lo + a) = lat ! (lo + a)" if "a < i" for a using row that by (simp add: outside_same_def)
  have "sorted_upto lo n (i + 1) lat1"
    unfolding sorted_upto_def
  proof (intro allI impI)
    fix a b assume ab: "a < i + 1 \<and> a < b \<and> b < n"
    consider "a = i" | "a < i" "b < i" | "a < i" "i \<le> b" using ab by linarith
    then show "d_le (lat1 ! (lo + a)) (lat1 ! (lo + b))"
    proof cases
      case 1
      then show ?thesis using row ab i(2) by (auto simp: all_from_def)
    next
      case 2
      then show ?thesis using low Suc.prems(6) ab by (simp add: sorted_upto_def)
    next
      case 3
      then show ?thesis using low row ab by (simp add: all_from_def)
    qed
  qed
  moreover have "all_from lo (lo + n) lat1 (\<lambda>x. x \<noteq> NaN)"
  proof -
    have "lat1 ! k \<noteq> NaN" if "lo \<le> k" "k < lo + n" for k
      using row Suc.prems(5) that by (cases "k < lo + i") (auto simp: outside_same_def all_from_def)
    then show ?thesis by (simp add: all_from_def)
  qed
  ultimately show ?case using Suc.hyps(2) e(2) Suc.prems row i by (intro Suc.hyps(1)) (auto simp: outside_same_def)
qed simp

section \<open>Properties\<close>

text \<open>C26. The search for colliding pages ends and stays within its arrays, under the conditions of \<open>fitting\<close>: the size needs at least two pages and has a line in its last
  page, and at least two pages of the area are not used by it (with one spare page the code divides by zero). Then \<open>test_chunk\<close> on any part of the used pages
  returns, whatever the measurements are, with a depth of recursion of at most the size of the part, and the list of pages keeps its length. A signed counter that
  overflows in \<open>pagesort\<close> wraps around.\<close>

theorem test_chunk_total:
  assumes "fitting e npages len (length (ch_pages s))" "1 \<le> chunk" "i + chunk \<le> npages"
  shows "\<exists>c b s'. test_chunk chunk e npages len i chunk baseline base s = Some (c, b, s') \<and> length (ch_pages s') = length (ch_pages s)"
  using assms by (intro test_chunk_returns) auto

text \<open>Trying without a part leaves no trace: \<open>remove_chunk\<close> exchanges the part with the end of the list, also when the two overlap, measures, and restores the list; the
  result is the time of that one measurement.\<close>

theorem remove_chunk_restores:
  assumes "fitting e npages len (length (ch_pages s))" "chunk < npages"
  shows "remove_chunk e i chunk npages len s = Some (fst (ce_time e (ch_clock s)), s\<lparr>ch_clock := ch_clock s + 1\<rparr>)"
  using assms by (intro remove_chunk_step) auto

text \<open>C27. A change that \<open>fixup_chunk\<close> reports is an exchange: the list holds the same pages as before, in another order; and the baseline changes only together with
  such a report.\<close>

theorem fixup_chunk_permutes:
  assumes "fitting e npages len (length (ch_pages s))" "chunk \<le> 20" "chunk < npages"
  shows "\<exists>r b s'. fixup_chunk e i chunk npages len baseline base s = Some (r, b, s')
    \<and> (r \<noteq> 0 \<longrightarrow> mset (ch_pages s') = mset (ch_pages s)) \<and> (r = 0 \<longrightarrow> b = baseline)"
  using fixup_total [OF assms(1) refl assms(2,3)] by blast

text \<open>\<open>pagesort\<close> on \<open>n\<close> pages and latencies, none of them not a number, sorts the latencies and exchanges pages only among themselves.\<close>

theorem pagesort_sorts:
  assumes "po + n \<le> length pages" "lo + n \<le> length lat" "\<forall>k. lo \<le> k \<and> k < lo + n \<longrightarrow> lat ! k \<noteq> NaN"
  shows "\<exists>pages' lat'. pagesort n po lo (pages, lat) = Some (pages', lat') \<and> mset pages' = mset pages
    \<and> (\<forall>a b. a < b \<and> b < n \<longrightarrow> d_le (lat' ! (lo + a)) (lat' ! (lo + b)))"
proof -
  obtain pages' lat' where p: "pagesort n po lo (pages, lat) = Some (pages', lat')" "mset pages' = mset pages"
    using pagesort_total [OF assms(1,2)] by blast
  have "sorted_upto lo n (n - 1) lat'"
    using rows_sort [of po lo n 0 "n - 1" pages lat pages' lat'] p(1) assms(2,3) by (simp add: pagesort_pairs all_from_def sorted_upto_def)
  then have "\<forall>a b. a < b \<and> b < n \<longrightarrow> d_le (lat' ! (lo + a)) (lat' ! (lo + b))" by (auto simp: sorted_upto_def)
  then show ?thesis using p by blast
qed

definition demo_cache :: cache_env where
  "demo_cache = \<lparr>ce_page = 4096, ce_line = 64, ce_maxlen = 8 * 4096, ce_runs = (\<lambda>_. ((1, 10), (1, 10)))\<rparr>"

definition demo_pages :: cache_state where
  "demo_pages = \<lparr>ch_pages = map (\<lambda>k. k * 4096) [0..<8], ch_avail = 0, ch_clock = 0\<rparr>"

lemma demo_fitting: "fitting demo_cache 3 (3 * 4096) (length (ch_pages demo_pages))"
  by (simp add: fitting_def demo_cache_def demo_pages_def pages_of_def)

theorem test_chunk_total_witness: "\<exists>c b s'. test_chunk 3 demo_cache 3 (3 * 4096) 0 3 (Fin 1) (Fin 0) demo_pages = Some (c, b, s')"
  using test_chunk_total [OF demo_fitting, of 3 0 "Fin 1" "Fin 0"] by auto

theorem remove_chunk_restores_witness: "remove_chunk demo_cache 0 2 3 (3 * 4096) demo_pages = Some (fst (ce_time demo_cache 0), demo_pages\<lparr>ch_clock := 1\<rparr>)"
  using remove_chunk_restores [OF demo_fitting, of 2 0] by (simp add: demo_cache_def demo_pages_def)

theorem fixup_chunk_permutes_witness: "\<exists>r b s'. fixup_chunk demo_cache 0 1 3 (3 * 4096) (Fin 1) (Fin 0) demo_pages = Some (r, b, s')"
  using fixup_chunk_permutes [OF demo_fitting, of 1 0 "Fin 1" "Fin 0"] by auto

theorem pagesort_sorts_witness:
  "\<exists>pages' lat'. pagesort 2 0 0 ([4096, 0], [Fin 2, Fin 1]) = Some (pages', lat') \<and> d_le (lat' ! 0) (lat' ! 1)"
proof -
  have "\<forall>k. 0 \<le> k \<and> k < 0 + 2 \<longrightarrow> [Fin 2, Fin 1] ! k \<noteq> NaN" by (auto simp: nth_Cons')
  with pagesort_sorts [of 0 2 "[4096, 0]" 0 "[Fin 2, Fin 1]"] obtain pages' lat'
    where "pagesort 2 0 0 ([4096, 0], [Fin 2, Fin 1]) = Some (pages', lat')" "\<forall>a b. a < b \<and> b < 2 \<longrightarrow> d_le (lat' ! (0 + a)) (lat' ! (0 + b))" by auto
  then show ?thesis by (metis add_0 one_less_numeral_iff semiring_norm(76) zero_less_one)
qed

text \<open>Undoing a change restores only the first half of the list: a page of it can then be there twice and another not at all.\<close>

lemma restore_duplicates: "restore_pages 4 [0, 4096, 8192, 12288] [8192, 4096, 0, 12288] = [0, 4096, 0, 12288]"
  by (simp add: restore_pages_def upt_rec)

end
