(* ===== verification/Cache.thy ===== *)
theory Cache
  imports Cache_Pages Memchain
begin

text \<open>
  The analysis of cache sizes of \<open>src/cache.c\<close>: the sizes that are sampled and the collection of the samples (\<open>collect_data\<close>, \<open>search\<close>,
  \<open>collect_sample\<close>), the search for a step in the latencies (\<open>find_cache\<close>) and the list of levels in \<open>main\<close>. Measurements are as in
  \<open>Cache_Pages\<close>. The memory is there: \<open>mem_initialize\<close> ends the program when it is not.
\<close>

section \<open>Samples\<close>

record cache_results =
  cr_len :: nat
  cr_maxlen :: nat
  cr_line :: nat
  cr_latency :: dbl
  cr_variation :: dbl
  cr_ratio :: dbl
  cr_slope :: dbl

text \<open>\<open>for (i = 0; i < 4 && len <= maxlen; ++i, len += incr)\<close>, for \<open>k\<close> more rounds: the sizes and the last \<open>len\<close>.\<close>

fun row :: "nat \<Rightarrow> nat \<Rightarrow> nat \<Rightarrow> nat \<Rightarrow> nat list \<times> nat" where
  "row maxlen incr 0 len = ([], len)"
| "row maxlen incr (Suc k) len =
     (if len \<le> maxlen then let (ls, l) = row maxlen incr k (len + incr) in (len # ls, l) else ([], len))"

lemma row_end: "snd (row maxlen incr k len) = len \<or> len + incr \<le> snd (row maxlen incr k len)"
  by (induction maxlen incr k len rule: row.induct) (auto simp: case_prod_unfold Let_def)

lemma row_grows: "len \<le> maxlen \<Longrightarrow> 0 < incr \<Longrightarrow> len < snd (row maxlen incr (Suc k) len)"
  using row_end [of maxlen incr k "len + incr"] by (auto simp: case_prod_unfold Let_def)

text \<open>\<open>for (len = start, incr = start / 4; len <= maxlen; incr<<=1)\<close>; the loop does not end for an increment of zero, which a start of 512 excludes.\<close>

function sizes :: "nat \<Rightarrow> nat \<Rightarrow> nat \<Rightarrow> nat list" where
  "sizes maxlen len incr =
     (if len \<le> maxlen \<and> 0 < incr then fst (row maxlen incr 4 len) @ sizes maxlen (snd (row maxlen incr 4 len)) (2 * incr) else [])"
  by pat_completeness auto
termination
proof (relation "measure (\<lambda>(maxlen, len, incr). Suc maxlen - len)", goal_cases)
  case (2 maxlen len incr)
  then show ?case using row_grows [of len maxlen incr 3] by (simp del: row.simps) linarith
qed simp

declare sizes.simps [simp del]

definition new_sample :: "nat \<Rightarrow> nat \<Rightarrow> nat \<Rightarrow> cache_results" where
  "new_sample maxlen line len =
     \<lparr>cr_len = len, cr_maxlen = maxlen, cr_line = line, cr_latency = Fin (- 1), cr_variation = NaN, cr_ratio = Fin (- 1), cr_slope = Fin (- 1)\<rparr>"

section \<open>collect_sample and search\<close>

text \<open>\<open>for (i = 0, modified = 1; i < 8 && modified; ++i)\<close>\<close>

primrec sample_loop :: "nat \<Rightarrow> cache_env \<Rightarrow> nat \<Rightarrow> nat \<Rightarrow> dbl \<Rightarrow> cache_state \<Rightarrow> (dbl \<times> cache_state) option" where
  "sample_loop 0 e npages len baseline s = Some (baseline, s)"
| "sample_loop (Suc n) e npages len baseline s =
     (case test_chunk npages e npages len 0 npages baseline (Fin 0) s of
        None \<Rightarrow> None
      | Some (modified, baseline, s) \<Rightarrow> if modified then sample_loop n e npages len baseline s else Some (baseline, s))"

definition collect_sample :: "cache_env \<Rightarrow> cache_results \<Rightarrow> cache_state \<Rightarrow> (cache_results \<times> cache_state) option" where
  "collect_sample e r s =
     do { let npages = pages_of e (cr_len r);
          ((baseline, var), s) \<leftarrow> measure_len e (cr_len r) s;
          (baseline, s) \<leftarrow> (if 1 < npages then sample_loop 8 e npages (cr_len r) baseline s else Some (baseline, s));
          Some (r\<lparr>cr_variation := var, cr_latency := baseline\<rparr>, s) }"

text \<open>The ratio and the slope of a sample against the one \<open>d\<close> places to the right.\<close>

definition rate :: "nat \<Rightarrow> cache_results \<Rightarrow> cache_results \<Rightarrow> cache_results" where
  "rate d right_r left_r =
     (let ratio = d_div (cr_latency right_r) (cr_latency left_r) in
      if d_lt ratio (lit (98 / 100)) then left_r\<lparr>cr_latency := cr_latency right_r, cr_ratio := Fin 1, cr_slope := Fin 0\<rparr>
      else left_r\<lparr>cr_ratio := ratio, cr_slope := d_div (d_sub ratio (Fin 1)) (d_of_int (int d))\<rparr>)"

definition rate_left :: "nat \<Rightarrow> nat \<Rightarrow> cache_results list \<Rightarrow> cache_results list option" where
  "rate_left lft rgt p =
     do { l \<leftarrow> arr_get p lft; r \<leftarrow> arr_get p rgt;
          Some (if d_gt (cr_latency l) (Fin 0) then p[lft := rate (rgt - lft) r l] else p) }"

text \<open>\<open>search\<close>; the fuel bounds the depth of the recursion, for which the distance is enough.\<close>

primrec search :: "nat \<Rightarrow> cache_env \<Rightarrow> nat \<Rightarrow> nat \<Rightarrow> cache_results list \<Rightarrow> cache_state \<Rightarrow> (cache_results list \<times> cache_state) option" where
  "search 0 e lft rgt p s = None"
| "search (Suc fuel) e lft rgt p s =
     (let middle = lft + (rgt - lft) div 2 in
      case rate_left lft rgt p of
        None \<Rightarrow> None
      | Some p \<Rightarrow>
          if middle = lft \<or> middle = rgt then Some (p, s)
          else if d_gt (cr_ratio (p ! lft)) (lit (135 / 100)) \<or> d_lt (cr_ratio (p ! lft)) (lit (97 / 100)) then
            case collect_sample e (p ! middle) s of
              None \<Rightarrow> None
            | Some (m, s) \<Rightarrow>
                (case search fuel e middle rgt (p[middle := m]) s of
                   None \<Rightarrow> None
                 | Some (p, s) \<Rightarrow> search fuel e lft middle p s)
          else Some (p, s))"

section \<open>collect_data\<close>

definition measure_at :: "cache_env \<Rightarrow> nat \<Rightarrow> cache_results list \<Rightarrow> cache_state \<Rightarrow> (cache_results list \<times> cache_state) option" where
  "measure_at e k p s =
     do { r \<leftarrow> arr_get p k; ((t, var), s) \<leftarrow> measure_len e (cr_len r) s; Some (p[k := r\<lparr>cr_latency := t, cr_variation := var\<rparr>], s) }"

text \<open>\<open>while (p[samples-1].latency <= 0.0)\<close>: a sample is measured again and given up. With no sample left the access is to \<open>p[-1]\<close>.\<close>

fun shrink :: "cache_env \<Rightarrow> nat \<Rightarrow> cache_results list \<Rightarrow> cache_state \<Rightarrow> (nat \<times> cache_results list \<times> cache_state) option" where
  "shrink e 0 p s = None"
| "shrink e (Suc k) p s =
     (case arr_get p k of
        None \<Rightarrow> None
      | Some r \<Rightarrow>
          if d_le (cr_latency r) (Fin 0) then
            (case measure_at e k p s of None \<Rightarrow> None | Some (p, s) \<Rightarrow> shrink e k p s)
          else Some (Suc k, p, s))"

definition collect_data :: "cache_env \<Rightarrow> nat \<Rightarrow> cache_state \<Rightarrow> (nat \<times> cache_results list \<times> cache_state) option" where
  "collect_data e start_len s =
     do { let p = map (new_sample (ce_maxlen e) (ce_line e)) (sizes (ce_maxlen e) start_len (start_len div 4));
          let s = set_pages (map (\<lambda>i. i * ce_page e) [0..<length (ch_pages s)]) s;
          let samples = length p;
          (p, s) \<leftarrow> (if samples = 0 then None else measure_at e (samples - 1) p s);
          (samples, p, s) \<leftarrow> shrink e samples p s;
          (p, s) \<leftarrow> measure_at e 0 p s;
          (p, s) \<leftarrow> search samples e 0 (samples - 1) p s;
          Some (samples, p, s) }"

section \<open>find_cache and the levels\<close>

definition THRESHOLD :: dbl where
  "THRESHOLD = lit (15 / 10)"

text \<open>The loop over the samples from \<open>start\<close> to \<open>n - 1\<close>; \<open>j\<close> is \<open>None\<close> for -1. The result is \<open>None\<close> when it returns -1; reading \<open>p[-1]\<close> is undefined.\<close>

fun find_scan :: "cache_results list \<Rightarrow> nat list \<Rightarrow> nat option \<Rightarrow> dbl \<Rightarrow> nat option option" where
  "find_scan p [] j mx = Some None"
| "find_scan p (i # todo) j mx =
     (case arr_get p i of
        None \<Rightarrow> None
      | Some r \<Rightarrow>
          if d_lt (cr_latency r) (Fin 0) then find_scan p todo j mx
          else
            let mx = (if d_lt mx (cr_ratio r) then cr_ratio r else mx);
                j = (if d_lt THRESHOLD (cr_ratio r) then Some i else j)
            in if d_lt THRESHOLD mx then
                 (case j of
                    None \<Rightarrow> None
                  | Some k \<Rightarrow> if cr_len (p ! k) * 2 \<le> cr_len r then Some (Some k) else find_scan p todo j mx)
               else find_scan p todo j mx)"

definition find_cache :: "nat \<Rightarrow> nat \<Rightarrow> cache_results list \<Rightarrow> nat option option" where
  "find_cache from_i n p = find_scan p [from_i..<n] None (Fin (- 1))"

text \<open>\<open>for (c = r[i].len; c > 0x7; c >>= 1);\<close>\<close>

function top_bits :: "int \<Rightarrow> int" where
  "top_bits c = (if 7 < c then top_bits (c div 2) else c)"
  by pat_completeness auto
termination by (relation "measure nat") auto

declare top_bits.simps [simp del]

definition legal_size :: "nat \<Rightarrow> bool" where
  "legal_size len = (top_bits (c_int len) \<noteq> 5 \<and> top_bits (c_int len) \<noteq> 7)"

text \<open>The loop of \<open>main\<close> that fills \<open>levels\<close>, for at most \<open>fuel\<close> levels. \<open>prev_lat\<close>, which no one uses, is read from the sample before \<open>start\<close> when
  that one has no positive latency, for the first sample from \<open>r[-1]\<close>.\<close>

primrec level_loop :: "nat \<Rightarrow> nat \<Rightarrow> cache_results list \<Rightarrow> nat \<Rightarrow> nat list option" where
  "level_loop 0 n p from_i = None"
| "level_loop (Suc fuel) n p from_i =
     (case find_cache from_i n p of
        None \<Rightarrow> None
      | Some None \<Rightarrow> Some []
      | Some (Some i) \<Rightarrow>
          if d_gt (d_div (cr_latency (p ! i)) (cr_latency (p ! (n - 1)))) (lit (5 / 10)) then Some []
          else let i = (if legal_size (cr_len (p ! i)) then i else i + 1) in
               if n \<le> i then Some []
               else if from_i = 0 \<and> \<not> d_gt (cr_latency (p ! 0)) (Fin 0) then None
               else map_option (Cons i) (level_loop fuel n p (i + 1)))"

section \<open>The sizes\<close>

text \<open>Four steps to every power of two.\<close>

definition quarter_step :: "nat \<Rightarrow> nat \<Rightarrow> bool" where
  "quarter_step c x = (\<exists>k i. i < 4 \<and> x = (4 + i) * (c * 2 ^ k))"

lemma row_four: "row maxlen c 4 (4 * c) = (filter (\<lambda>x. x \<le> maxlen) (map (\<lambda>i. (4 + i) * c) [0..<4]), if 7 * c \<le> maxlen then 8 * c else snd (row maxlen c 4 (4 * c)))"
  by (simp add: eval_nat_numeral)

lemma row_stop: "\<not> 7 * c \<le> maxlen \<Longrightarrow> maxlen < snd (row maxlen c 4 (4 * c))"
  by (simp add: eval_nat_numeral)

lemma quarter_step_split: "quarter_step c x \<longleftrightarrow> (\<exists>i < 4. x = (4 + i) * c) \<or> quarter_step (2 * c) x"
proof
  assume "quarter_step c x"
  then obtain k i where k: "i < 4" "x = (4 + i) * (c * 2 ^ k)" by (auto simp: quarter_step_def)
  show "(\<exists>i < 4. x = (4 + i) * c) \<or> quarter_step (2 * c) x"
  proof (cases k)
    case 0
    then show ?thesis using k by auto
  next
    case (Suc k')
    then have "x = (4 + i) * (2 * c * 2 ^ k')" using k(2) by simp
    then show ?thesis using k(1) unfolding quarter_step_def by blast
  qed
next
  assume "(\<exists>i < 4. x = (4 + i) * c) \<or> quarter_step (2 * c) x"
  then show "quarter_step c x"
  proof
    assume "\<exists>i < 4. x = (4 + i) * c"
    then obtain i where "i < 4" "x = (4 + i) * (c * 2 ^ 0)" by auto
    then show ?thesis unfolding quarter_step_def by blast
  next
    assume "quarter_step (2 * c) x"
    then obtain k i where "i < 4" "x = (4 + i) * (2 * c * 2 ^ k)" by (auto simp: quarter_step_def)
    then have "i < 4" "x = (4 + i) * (c * 2 ^ Suc k)" by simp_all
    then show ?thesis unfolding quarter_step_def by blast
  qed
qed

lemma quarter_step_ge: "quarter_step c x \<Longrightarrow> 4 * c \<le> x"
proof -
  assume "quarter_step c x"
  then obtain k i where x: "x = (4 + i) * (c * 2 ^ k)" by (auto simp: quarter_step_def)
  have "c * 1 \<le> c * 2 ^ k" by (rule mult_le_mono2) simp
  then have "4 * (c * 1) \<le> (4 + i) * (c * 2 ^ k)" by (intro mult_le_mono) auto
  with x show ?thesis by simp
qed

lemma sizes_spec: "0 < c \<Longrightarrow> sorted_wrt (<) (sizes maxlen (4 * c) c) \<and> set (sizes maxlen (4 * c) c) = {x. x \<le> maxlen \<and> quarter_step c x}"
proof (induction "Suc maxlen - c" arbitrary: c rule: less_induct)
  case less
  let ?row = "filter (\<lambda>x. x \<le> maxlen) (map (\<lambda>i. (4 + i) * c) [0..<4])"
  have row: "fst (row maxlen c 4 (4 * c)) = ?row" by (simp add: row_four)
  have srow: "sorted_wrt (<) ?row" using less.prems by (simp add: eval_nat_numeral)
  have mem: "x \<in> set ?row \<longleftrightarrow> x \<le> maxlen \<and> (\<exists>i < 4. x = (4 + i) * c)" for x by auto
  show ?case
  proof (cases "4 * c \<le> maxlen")
    case False
    then show ?thesis using quarter_step_ge [of c] by (subst (1 2) sizes.simps) fastforce
  next
    case True
    have s: "sizes maxlen (4 * c) c = ?row @ sizes maxlen (snd (row maxlen c 4 (4 * c))) (2 * c)"
      using True less.prems row by (subst sizes.simps) simp
    show ?thesis
    proof (cases "7 * c \<le> maxlen")
      case True
      have r: "snd (row maxlen c 4 (4 * c)) = 4 * (2 * c)" using True by (simp add: eval_nat_numeral)
      have ih: "sorted_wrt (<) (sizes maxlen (4 * (2 * c)) (2 * c)) \<and> set (sizes maxlen (4 * (2 * c)) (2 * c)) = {x. x \<le> maxlen \<and> quarter_step (2 * c) x}"
        using True less.prems by (intro less.hyps) auto
      have "\<forall>x \<in> set ?row. \<forall>y \<in> set (sizes maxlen (4 * (2 * c)) (2 * c)). x < y"
      proof (intro ballI)
        fix x y assume "x \<in> set ?row" "y \<in> set (sizes maxlen (4 * (2 * c)) (2 * c))"
        then obtain i where i: "i < 4" "x = (4 + i) * c" "quarter_step (2 * c) y" using ih by auto
        have "(4 + i) * c < 8 * c" using i(1) less.prems by (intro mult_less_mono1) auto
        also have "8 * c \<le> y" using quarter_step_ge [OF i(3)] by simp
        finally show "x < y" using i(2) by simp
      qed
      then have "sorted_wrt (<) (?row @ sizes maxlen (4 * (2 * c)) (2 * c))" using srow ih by (simp only: sorted_wrt_append)
      moreover have "set (?row @ sizes maxlen (4 * (2 * c)) (2 * c)) = {x. x \<le> maxlen \<and> quarter_step c x}"
        using mem ih quarter_step_split [of c] by (simp only: set_append) blast
      ultimately show ?thesis unfolding s r by blast
    next
      case False
      have "sizes maxlen (snd (row maxlen c 4 (4 * c))) (2 * c) = []" using row_stop [OF False] by (subst sizes.simps) simp
      moreover have "\<not> quarter_step (2 * c) x" if "x \<le> maxlen" for x using quarter_step_ge [of "2 * c" x] that False by auto
      ultimately show ?thesis unfolding s using srow mem quarter_step_split [of c] by auto
    qed
  qed
qed

section \<open>search returns\<close>

definition sample_ok :: "cache_env \<Rightarrow> nat \<Rightarrow> nat \<Rightarrow> bool" where
  "sample_ok e n len = (0 < ce_page e \<and> pages_of e (ce_maxlen e) = n \<and> (len mod ce_page e = 0 \<or> ce_line e \<le> len mod ce_page e)
     \<and> (pages_of e len = 1 \<and> 1 \<le> n \<or> 2 \<le> pages_of e len \<and> pages_of e len + 2 \<le> n))"

lemma sample_loop_total:
  assumes "fitting e npages len n" "length (ch_pages s) = n"
  shows "\<exists>b s'. sample_loop k e npages len baseline s = Some (b, s') \<and> length (ch_pages s') = n"
  using assms(2)
proof (induction k arbitrary: baseline s)
  case (Suc k)
  obtain c b u where t: "test_chunk npages e npages len 0 npages baseline (Fin 0) s = Some (c, b, u)" "length (ch_pages u) = n"
    using test_chunk_returns [OF assms(1) Suc.prems, of npages npages 0 baseline "Fin 0"] assms(1) by (auto simp: fitting_def)
  then show ?case using Suc.IH [OF t(2)] by (cases c) auto
qed simp

lemma collect_sample_total:
  assumes "sample_ok e n (cr_len r)" "length (ch_pages s) = n"
  shows "\<exists>m s'. collect_sample e r s = Some (m, s') \<and> cr_len m = cr_len r \<and> length (ch_pages s') = n"
proof -
  let ?np = "pages_of e (cr_len r)" and ?s = "s\<lparr>ch_clock := ch_clock s + 1\<rparr>"
  have "measure_ok e (cr_len r) s" using assms by (auto simp: measure_ok_def sample_ok_def)
  then obtain t v where m: "measure_len e (cr_len r) s = Some ((t, v), ?s)" by (cases "ce_time e (ch_clock s)") (auto simp: measure_len_def)
  show ?thesis
  proof (cases "1 < ?np")
    case True
    then have "fitting e ?np (cr_len r) n" using assms(1) by (auto simp: sample_ok_def fitting_def)
    then obtain b u where "sample_loop 8 e ?np (cr_len r) t ?s = Some (b, u)" "length (ch_pages u) = n"
      using sample_loop_total [of e ?np "cr_len r" n ?s 8 t] assms(2) by auto
    then show ?thesis using True m by (simp add: collect_sample_def Let_def)
  next
    case False
    then show ?thesis using m assms(2) by (simp add: collect_sample_def Let_def)
  qed
qed

lemma rate_left_total:
  assumes "lft < length p" "rgt < length p"
  shows "\<exists>q. rate_left lft rgt p = Some q \<and> map cr_len q = map cr_len p"
proof -
  have "cr_len (rate d r l) = cr_len l" for d r l by (simp add: rate_def Let_def)
  then have "map cr_len (p[lft := rate d r (p ! lft)]) = map cr_len p" for d r using assms(1) by (simp add: map_update list_update_same_conv)
  then show ?thesis using assms by (auto simp: rate_left_def)
qed

lemma search_returns:
  assumes "lft \<le> rgt" "rgt < length p" "rgt - lft < fuel" "\<forall>k. lft < k \<and> k < rgt \<longrightarrow> sample_ok e n (cr_len (p ! k))" "length (ch_pages s) = n"
  shows "\<exists>q s'. search fuel e lft rgt p s = Some (q, s') \<and> map cr_len q = map cr_len p \<and> length (ch_pages s') = n"
  using assms
proof (induction fuel arbitrary: lft rgt p s)
  case (Suc fuel)
  define mid where "mid = lft + (rgt - lft) div 2"
  obtain p1 where p1: "rate_left lft rgt p = Some p1" "map cr_len p1 = map cr_len p" using rate_left_total [of lft p rgt] Suc.prems by auto
  have l1: "length p1 = length p" using p1(2) by (metis length_map)
  have len: "cr_len (q ! k) = cr_len (p ! k)" if "map cr_len q = map cr_len p" "k < length p" for q k
    using that by (metis length_map nth_map)
  consider "mid = lft \<or> mid = rgt \<or> \<not> (d_gt (cr_ratio (p1 ! lft)) (lit (135 / 100)) \<or> d_lt (cr_ratio (p1 ! lft)) (lit (97 / 100)))"
    | "lft < mid" "mid < rgt" "d_gt (cr_ratio (p1 ! lft)) (lit (135 / 100)) \<or> d_lt (cr_ratio (p1 ! lft)) (lit (97 / 100))"
    using Suc.prems(1) unfolding mid_def by (cases "lft = rgt") force+
  then show ?case
  proof cases
    case 1
    then have "search (Suc fuel) e lft rgt p s = Some (p1, s)" using p1(1) by (auto simp: Let_def mid_def)
    then show ?thesis using p1(2) Suc.prems(5) by simp
  next
    case 2
    have "sample_ok e n (cr_len (p1 ! mid))" using Suc.prems(2,4) 2 len [OF p1(2), of mid] by simp
    then obtain m s1 where m: "collect_sample e (p1 ! mid) s = Some (m, s1)" "cr_len m = cr_len (p1 ! mid)" "length (ch_pages s1) = n"
      using collect_sample_total Suc.prems(5) by blast
    define p2 where "p2 = p1[mid := m]"
    have p2: "map cr_len p2 = map cr_len p" using m(2) 2 Suc.prems(2) l1 p1(2) len [OF p1(2), of mid] by (simp add: p2_def map_update list_update_same_conv)
    have l2: "length p2 = length p" using l1 by (simp add: p2_def)
    have "\<exists>q s'. search fuel e mid rgt p2 s1 = Some (q, s') \<and> map cr_len q = map cr_len p2 \<and> length (ch_pages s') = n"
      using 2 Suc.prems m(3) l2 len [OF p2] by (intro Suc.IH) auto
    then obtain p3 s3 where p3: "search fuel e mid rgt p2 s1 = Some (p3, s3)" "map cr_len p3 = map cr_len p" "length (ch_pages s3) = n" using p2 by auto
    have l3: "length p3 = length p" using p3(2) by (metis length_map)
    have "\<exists>q s'. search fuel e lft mid p3 s3 = Some (q, s') \<and> map cr_len q = map cr_len p3 \<and> length (ch_pages s') = n"
      using 2 Suc.prems p3(3) l3 len [OF p3(2)] by (intro Suc.IH) auto
    moreover have "search (Suc fuel) e lft rgt p s = search fuel e lft mid p3 s3"
      using p1(1) m(1) p3(1) 2 by (simp add: Let_def mid_def [symmetric] p2_def [symmetric])
    ultimately show ?thesis using p3(2) by simp
  qed
qed simp

section \<open>find_cache\<close>

definition measured :: "cache_results list \<Rightarrow> nat \<Rightarrow> bool" where
  "measured p i = (\<not> d_lt (cr_latency (p ! i)) (Fin 0))"

definition steep :: "cache_results list \<Rightarrow> nat \<Rightarrow> bool" where
  "steep p i = (measured p i \<and> d_lt THRESHOLD (cr_ratio (p ! i)))"

text \<open>What is known when sample \<open>i\<close> is next: \<open>j\<close> is the last steep sample so far, and \<open>mx\<close> is above the threshold only if there is one.\<close>

definition scan_inv :: "cache_results list \<Rightarrow> nat \<Rightarrow> nat \<Rightarrow> nat option \<Rightarrow> dbl \<Rightarrow> bool" where
  "scan_inv p from_i i j mx = ((d_lt THRESHOLD mx \<longrightarrow> j \<noteq> None)
     \<and> (case j of None \<Rightarrow> \<forall>k. from_i \<le> k \<and> k < i \<longrightarrow> \<not> steep p k
        | Some k \<Rightarrow> from_i \<le> k \<and> k < i \<and> steep p k \<and> (\<forall>l. k < l \<and> l < i \<longrightarrow> \<not> steep p l)))"

definition found :: "cache_results list \<Rightarrow> nat \<Rightarrow> nat \<Rightarrow> nat \<Rightarrow> bool" where
  "found p from_i n k = (from_i \<le> k \<and> k < n \<and> steep p k
     \<and> (\<exists>i. k \<le> i \<and> i < n \<and> measured p i \<and> cr_len (p ! k) * 2 \<le> cr_len (p ! i) \<and> (\<forall>l. k < l \<and> l \<le> i \<longrightarrow> \<not> steep p l)))"

lemma find_scan_spec:
  assumes "scan_inv p from_i i j mx" "n \<le> length p" "from_i \<le> i"
  shows "\<exists>r. find_scan p [i..<n] j mx = Some r \<and> (\<forall>k. r = Some k \<longrightarrow> found p from_i n k)"
  using assms
proof (induction "n - i" arbitrary: i j mx)
  case (Suc d)
  have i: "i < n" "[i..<n] = i # [Suc i..<n]" using Suc.hyps(2) by (simp_all add: upt_conv_Cons)
  define mx' where "mx' = (if d_lt mx (cr_ratio (p ! i)) then cr_ratio (p ! i) else mx)"
  define j' where "j' = (if d_lt THRESHOLD (cr_ratio (p ! i)) then Some i else j)"
  have go: "\<exists>r. find_scan p [Suc i..<n] j1 mx1 = Some r \<and> (\<forall>k. r = Some k \<longrightarrow> found p from_i n k)" if "scan_inv p from_i (Suc i) j1 mx1" for j1 mx1
    using Suc.hyps(1) [of "Suc i" j1 mx1] Suc.hyps(2) Suc.prems that by auto
  show ?case
  proof (cases "measured p i")
    case False
    then have "scan_inv p from_i (Suc i) j mx" using Suc.prems(1) by (auto simp: scan_inv_def steep_def less_Suc_eq split: option.splits)
    moreover have "find_scan p [i..<n] j mx = find_scan p [Suc i..<n] j mx" using False i Suc.prems(2) by (simp add: measured_def)
    ultimately show ?thesis using go by simp
  next
    case True
    have inv: "scan_inv p from_i (Suc i) j' mx'"
      using Suc.prems(1,3) True by (auto simp: scan_inv_def steep_def j'_def mx'_def less_Suc_eq split: option.splits if_splits)
    have step: "find_scan p [i..<n] j mx = (if d_lt THRESHOLD mx' then
        (case j' of None \<Rightarrow> None | Some k \<Rightarrow> if cr_len (p ! k) * 2 \<le> cr_len (p ! i) then Some (Some k) else find_scan p [Suc i..<n] j' mx')
        else find_scan p [Suc i..<n] j' mx')"
      using True i Suc.prems(2) by (simp add: measured_def Let_def mx'_def [symmetric] j'_def [symmetric])
    show ?thesis
    proof (cases "d_lt THRESHOLD mx'")
      case False
      then show ?thesis using step go [OF inv] by simp
    next
      case thr: True
      then obtain k where k: "j' = Some k" using inv by (auto simp: scan_inv_def)
      have "found p from_i n k" if "cr_len (p ! k) * 2 \<le> cr_len (p ! i)"
        using inv k True that i(1) unfolding scan_inv_def found_def by (auto intro!: exI [of _ i])
      then show ?thesis using step go [OF inv] thr k by auto
    qed
  qed
qed simp

lemma threshold_pos: "\<not> d_lt THRESHOLD (Fin (- 1))"
proof
  assume "d_lt THRESHOLD (Fin (- 1))"
  moreover have "d_le (Fin 0) THRESHOLD" unfolding THRESHOLD_def lit_def by (rule to_dbl_nonneg) simp
  ultimately have "d_lt (Fin 0) (Fin (- 1))" using d_le_lt_trans by blast
  then show False by simp
qed

lemma find_cache_spec: "n \<le> length p \<Longrightarrow> \<exists>r. find_cache from_i n p = Some r \<and> (\<forall>k. r = Some k \<longrightarrow> found p from_i n k)"
  unfolding find_cache_def by (rule find_scan_spec) (auto simp: scan_inv_def threshold_pos)

section \<open>Levels\<close>

lemma level_loop_returns:
  assumes "n \<le> length p" "d_gt (cr_latency (p ! 0)) (Fin 0)" "n < from_i + fuel" "from_i \<le> n"
  shows "\<exists>ls. level_loop fuel n p from_i = Some ls \<and> sorted_wrt (<) ls \<and> (\<forall>i \<in> set ls. from_i \<le> i \<and> i < n)"
  using assms(3,4)
proof (induction fuel arbitrary: from_i)
  case (Suc fuel)
  obtain r where r: "find_cache from_i n p = Some r" "\<forall>k. r = Some k \<longrightarrow> found p from_i n k" using find_cache_spec [OF assms(1)] by blast
  show ?case
  proof (cases r)
    case None
    then show ?thesis using r(1) by simp
  next
    case (Some i)
    then have i: "from_i \<le> i" "i < n" using r(2) by (auto simp: found_def)
    define i' where "i' = (if legal_size (cr_len (p ! i)) then i else i + 1)"
    show ?thesis
    proof (cases "d_gt (d_div (cr_latency (p ! i)) (cr_latency (p ! (n - 1)))) (lit (5 / 10)) \<or> n \<le> i'")
      case True
      then show ?thesis using r(1) Some by (auto simp: Let_def i'_def [symmetric])
    next
      case False
      have "\<exists>ls. level_loop fuel n p (i' + 1) = Some ls \<and> sorted_wrt (<) ls \<and> (\<forall>k \<in> set ls. i' + 1 \<le> k \<and> k < n)"
        using Suc.prems i False by (intro Suc.IH) (auto simp: i'_def)
      then obtain ls where ls: "level_loop fuel n p (i' + 1) = Some ls" "sorted_wrt (<) ls" "\<forall>k \<in> set ls. i' + 1 \<le> k \<and> k < n" by blast
      have "level_loop (Suc fuel) n p from_i = Some (i' # ls)" using r(1) Some False ls(1) assms(2) by (simp add: Let_def i'_def [symmetric])
      moreover have "from_i \<le> i'" using i by (simp add: i'_def)
      ultimately show ?thesis using ls(2,3) False by fastforce
    qed
  qed
qed simp

section \<open>Properties\<close>

text \<open>The samples: \<open>collect_data(512, ...)\<close> takes exactly the sizes of the form \<open>(4 + i) * 128 * 2^k\<close> with \<open>i < 4\<close> up to \<open>maxlen\<close>, in increasing order and each once.\<close>

theorem sampled_sizes:
  "sorted_wrt (<) (sizes maxlen 512 128) \<and> set (sizes maxlen 512 128) = {x. x \<le> maxlen \<and> (\<exists>k i. i < 4 \<and> x = (4 + i) * (128 * 2 ^ k))}"
  using sizes_spec [of 128 maxlen] by (simp add: quarter_step_def)

text \<open>\<open>search\<close> returns: between two samples it refines without an access outside of the array of samples or of the pages, whatever the measurements are, when every sample between them leaves two
  pages to spare; the recursion is at most as deep as the samples are apart, and the sizes of the samples stay.\<close>

theorem search_total:
  assumes "lft \<le> rgt" "rgt < length p" "\<forall>k. lft < k \<and> k < rgt \<longrightarrow> sample_ok e (length (ch_pages s)) (cr_len (p ! k))"
  shows "\<exists>q s'. search (Suc (rgt - lft)) e lft rgt p s = Some (q, s') \<and> map cr_len q = map cr_len p \<and> length (ch_pages s') = length (ch_pages s)"
  using assms by (intro search_returns) auto

text \<open>\<open>find_cache\<close> reads no sample before the first: it returns -1 or the last sample, up to one of at least twice its size, at which the latency rises by more than the threshold.\<close>

theorem find_cache_correct:
  assumes "n \<le> length p"
  shows "\<exists>r. find_cache from_i n p = Some r \<and> (\<forall>k. r = Some k \<longrightarrow> from_i \<le> k \<and> k < n \<and> steep p k
    \<and> (\<exists>i. k \<le> i \<and> i < n \<and> measured p i \<and> cr_len (p ! k) * 2 \<le> cr_len (p ! i) \<and> (\<forall>l. k < l \<and> l \<le> i \<longrightarrow> \<not> steep p l)))"
  using find_cache_spec [OF assms] by (simp add: found_def)

text \<open>The levels: when the first sample has a positive latency, the loop of \<open>main\<close> ends after at most \<open>n\<close> levels with increasing indices below \<open>n\<close>, so that
  the array of \<open>n\<close> levels is never overrun.\<close>

theorem levels_in_bounds:
  assumes "n \<le> length p" "d_gt (cr_latency (p ! 0)) (Fin 0)"
  shows "\<exists>ls. level_loop (Suc n) n p 0 = Some ls \<and> sorted_wrt (<) ls \<and> (\<forall>i \<in> set ls. i < n) \<and> length ls \<le> n"
proof -
  obtain ls where ls: "level_loop (Suc n) n p 0 = Some ls" "sorted_wrt (<) ls" "\<forall>i \<in> set ls. 0 \<le> i \<and> i < n"
    using level_loop_returns [OF assms, of 0 "Suc n"] by auto
  have "distinct ls" using ls(2) by (simp add: strict_sorted_iff)
  moreover have "set ls \<subseteq> {..<n}" using ls(3) by auto
  ultimately have "length ls \<le> n" by (metis card_lessThan card_mono distinct_card finite_lessThan)
  with ls show ?thesis by auto
qed

text \<open>A first measurement that is not positive is fatal: when the largest sample measures no positive latency, the loop that gives samples up runs through all of
  them, as the others have not been measured, and reads the sample before the first.\<close>

theorem shrink_underruns:
  assumes "\<forall>r \<in> set p. d_le (cr_latency r) (Fin 0)"
  shows "shrink e (length p) p s = None"
proof -
  have "shrink e k p s = None" if "k \<le> length p" "\<forall>i < k. d_le (cr_latency (p ! i)) (Fin 0)" for k p s
    using that
  proof (induction k arbitrary: p s)
    case (Suc k)
    have "shrink e k (p[k := r]) u = None" for r u using Suc.prems by (intro Suc.IH) auto
    then show ?case using Suc.prems by (auto simp: measure_at_def split: option.splits bind_splits)
  qed simp
  then show ?thesis using assms by simp
qed

definition demo_samples :: "cache_results list" where
  "demo_samples = map (\<lambda>len. (new_sample 32768 64 len)\<lparr>cr_latency := Fin 1, cr_ratio := Fin 2\<rparr>) [512, 640, 768]"

theorem search_total_witness: "\<exists>q s'. search 3 demo_cache 0 2 demo_samples demo_pages = Some (q, s') \<and> map cr_len q = [512, 640, 768]"
proof -
  have "\<forall>k. 0 < k \<and> k < 2 \<longrightarrow> sample_ok demo_cache (length (ch_pages demo_pages)) (cr_len (demo_samples ! k))"
  proof (intro allI impI)
    fix k :: nat assume "0 < k \<and> k < 2"
    then have "k = 1" by linarith
    then show "sample_ok demo_cache (length (ch_pages demo_pages)) (cr_len (demo_samples ! k))"
      by (simp add: demo_samples_def new_sample_def sample_ok_def demo_cache_def demo_pages_def pages_of_def)
  qed
  moreover have "length demo_samples = 3" "map cr_len demo_samples = [512, 640, 768]" by (simp_all add: demo_samples_def new_sample_def)
  moreover have "Suc (2 - 0) = (3 :: nat)" by simp
  ultimately show ?thesis using search_total [of 0 2 demo_samples demo_cache demo_pages] by (metis less_add_one zero_le one_add_one numeral_Bit1 add.assoc numeral_One lessI numeral_3_eq_3 numeral_2_eq_2)
qed

theorem find_cache_correct_witness: "\<exists>r. find_cache 0 3 demo_samples = Some r"
  using find_cache_correct [of 3 demo_samples 0] by (auto simp: demo_samples_def)

theorem levels_in_bounds_witness: "\<exists>ls. level_loop 4 3 demo_samples 0 = Some ls \<and> length ls \<le> 3"
  using levels_in_bounds [of 3 demo_samples] by (auto simp: demo_samples_def)

theorem shrink_underruns_witness: "shrink demo_cache 2 (map (new_sample 32768 64) [512, 640]) demo_pages = None"
  using shrink_underruns [of "map (new_sample 32768 64) [512, 640]" demo_cache demo_pages] by (simp add: new_sample_def numeral_2_eq_2 del: shrink.simps)

end
