(* ===== verification/Cache_Report.thy ===== *)
theory Cache_Report
  imports Cache
begin

text \<open>
  The report of \<open>src/cache.c\<close>, the second half of \<open>main\<close>: for every level the sample with the flattest curve, the line size and the parallelism, and at the end the smallest
  sample that is as slow as the memory. The answers of \<open>line_find\<close> and \<open>par_mem\<close>, which \<open>Memtest\<close> models, are arguments here, by level and by sample.
\<close>

definition ABS_d :: "dbl \<Rightarrow> dbl" where
  "ABS_d a = (if d_lt a (Fin 0) then d_neg a else a)"

text \<open>\<open>for (j = min = prev + 1; j < levels[i]; ++j)\<close>\<close>

fun flattest :: "cache_results list \<Rightarrow> nat list \<Rightarrow> nat \<Rightarrow> nat" where
  "flattest p [] m = m"
| "flattest p (j # todo) m =
     (if d_le (cr_latency (p ! j)) (Fin 0) then flattest p todo m
      else if d_le (cr_latency (p ! m)) (Fin 0) \<or> d_lt (ABS_d (cr_slope (p ! j))) (ABS_d (cr_slope (p ! m))) then flattest p todo j
      else flattest p todo m)"

text \<open>\<open>for (line = -1; line <= 0 && j < n; ++j)\<close>, over the samples \<open>j\<close>; the line size is stored in the sample as well.\<close>

fun line_scan :: "(nat \<Rightarrow> int) \<Rightarrow> nat list \<Rightarrow> int \<Rightarrow> cache_results list \<Rightarrow> int \<times> cache_results list" where
  "line_scan find_line [] line p = (line, p)"
| "line_scan find_line (j # todo) line p =
     (if line \<le> 0 then line_scan find_line todo (find_line j) (p[j := (p ! j)\<lparr>cr_line := nat (find_line j mod 2 ^ 64)\<rparr>]) else (line, p))"

record level_report =
  lr_len :: nat
  lr_latency :: dbl
  lr_line :: int
  lr_par :: dbl

text \<open>One round of the loop over the levels, \<open>i\<close> being the round; \<open>par_mem\<close> is asked for the sample before the level.\<close>

definition report_level ::
  "(nat \<Rightarrow> int) \<Rightarrow> (nat \<Rightarrow> dbl) \<Rightarrow> nat \<Rightarrow> nat list \<Rightarrow> nat \<Rightarrow> cache_results list \<Rightarrow> (level_report \<times> cache_results list) option" where
  "report_level find_line par_at n levels i p =
     do { let from_j = (if 0 < i then levels ! (i - 1) + 1 else 0);
          let m = flattest p [from_j..<levels ! i] from_j;
          let (line, p) = (if i = length levels - 1 then (sint (word_of_nat (cr_line (p ! (n - 1))) :: 64 word), p)
                           else line_scan find_line [(levels ! i + levels ! (i + 1)) div 2..<n] (- 1) p);
          k \<leftarrow> (if levels ! i = 0 then None else Some (levels ! i - 1));
          Some (\<lparr>lr_len = cr_len (p ! (levels ! i)), lr_latency = cr_latency (p ! m), lr_line = line, lr_par = par_at (cr_len (p ! k))\<rparr>, p) }"

fun report_levels ::
  "(nat \<Rightarrow> nat \<Rightarrow> int) \<Rightarrow> (nat \<Rightarrow> nat \<Rightarrow> dbl) \<Rightarrow> nat \<Rightarrow> nat list \<Rightarrow> nat list \<Rightarrow> cache_results list \<Rightarrow> (level_report list \<times> cache_results list) option" where
  "report_levels find_line par_at n levels [] p = Some ([], p)"
| "report_levels find_line par_at n levels (i # todo) p =
     do { (r, p) \<leftarrow> report_level (find_line i) (par_at i) n levels i p;
          (rs, p) \<leftarrow> report_levels find_line par_at n levels todo p;
          Some (r # rs, p) }"

text \<open>\<open>for (i = n - 1; i >= 0; i--)\<close>, over the indices that are left.\<close>

fun memory_scan :: "cache_results list \<Rightarrow> dbl \<Rightarrow> nat list \<Rightarrow> nat \<Rightarrow> nat" where
  "memory_scan p slowest [] j = j"
| "memory_scan p slowest (i # todo) j =
     (if d_lt (cr_latency (p ! i)) (Fin 0) then memory_scan p slowest todo j
      else memory_scan p slowest todo (if d_gt (cr_latency (p ! i)) (d_mul (lit (99 / 100)) slowest) then i else j))"

definition memory_index :: "nat \<Rightarrow> cache_results list \<Rightarrow> nat" where
  "memory_index n p = memory_scan p (cr_latency (p ! (n - 1))) (rev [0..<n]) (n - 1)"

text \<open>The program after \<open>collect_data\<close>: the levels, their reports, and the latency and parallelism of the memory.\<close>

definition report_cache ::
  "(nat \<Rightarrow> nat \<Rightarrow> int) \<Rightarrow> (nat \<Rightarrow> nat \<Rightarrow> dbl) \<Rightarrow> nat \<Rightarrow> cache_results list \<Rightarrow> (level_report list \<times> dbl \<times> dbl) option" where
  "report_cache find_line par_at n p =
     do { levels \<leftarrow> level_loop (Suc n) n p 0;
          (rs, p) \<leftarrow> report_levels find_line par_at n levels [0..<length levels] p;
          Some (rs, cr_latency (p ! (n - 1)), par_at (length levels) (cr_len (p ! memory_index n p))) }"

section \<open>The report returns\<close>

lemma line_scan_keeps:
  "map cr_len (snd (line_scan f js line p)) = map cr_len p \<and> map cr_latency (snd (line_scan f js line p)) = map cr_latency p"
proof (induction f js line p rule: line_scan.induct)
  case (2 f j js line p)
  have "map cr_len (p[j := (p ! j)\<lparr>cr_line := v\<rparr>]) = map cr_len p \<and> map cr_latency (p[j := (p ! j)\<lparr>cr_line := v\<rparr>]) = map cr_latency p" for v
    by (cases "j < length p") (simp_all add: map_update list_update_same_conv list_update_beyond)
  then show ?case using 2 by simp
qed simp

lemma report_level_returns:
  assumes "levels ! i < length p" "0 < levels ! i"
  shows "\<exists>r q. report_level f g n levels i p = Some (r, q) \<and> lr_len r = cr_len (p ! (levels ! i)) \<and> map cr_len q = map cr_len p"
proof -
  define x where "x = (if i = length levels - 1 then (sint (word_of_nat (cr_line (p ! (n - 1))) :: 64 word), p)
      else line_scan f [(levels ! i + levels ! (i + 1)) div 2..<n] (- 1) p)"
  have x: "map cr_len (snd x) = map cr_len p" by (simp add: x_def line_scan_keeps)
  then have "cr_len (snd x ! (levels ! i)) = cr_len (p ! (levels ! i))" using assms(1) by (metis length_map nth_map)
  then show ?thesis using x assms(2) unfolding report_level_def Let_def x_def [symmetric] by (simp add: case_prod_unfold)
qed

lemma report_levels_return:
  assumes "\<forall>i \<in> set is. levels ! i < length p \<and> 0 < levels ! i"
  shows "\<exists>rs q. report_levels f g n levels is p = Some (rs, q) \<and> map lr_len rs = map (\<lambda>i. cr_len (p ! (levels ! i))) is \<and> map cr_len q = map cr_len p"
  using assms
proof (induction "is" arbitrary: p)
  case (Cons i "is")
  obtain r q where r: "report_level (f i) (g i) n levels i p = Some (r, q)" "lr_len r = cr_len (p ! (levels ! i))" "map cr_len q = map cr_len p"
    using report_level_returns [of levels i p] Cons.prems by fastforce
  have len: "length q = length p" using r(3) by (metis length_map)
  have same: "cr_len (q ! (levels ! k)) = cr_len (p ! (levels ! k))" if "k \<in> set is" for k
    using that Cons.prems r(3) len by (metis list.set_intros(2) nth_map)
  obtain rs u where "report_levels f g n levels is q = Some (rs, u)" "map lr_len rs = map (\<lambda>i. cr_len (q ! (levels ! i))) is" "map cr_len u = map cr_len q"
    using Cons.IH [of q] Cons.prems len by auto
  then show ?case using r same by simp
qed simp

section \<open>The sample of the memory\<close>

definition slow :: "cache_results list \<Rightarrow> dbl \<Rightarrow> nat \<Rightarrow> bool" where
  "slow p slowest i = (measured p i \<and> d_gt (cr_latency (p ! i)) (d_mul (lit (99 / 100)) slowest))"

lemma memory_scan_spec:
  "memory_scan p slowest (rev [0..<k]) j = (if \<exists>i < k. slow p slowest i then LEAST i. slow p slowest i else j)"
proof (induction k arbitrary: j)
  case (Suc k)
  have s: "memory_scan p slowest (rev [0..<Suc k]) j = memory_scan p slowest (rev [0..<k]) (if slow p slowest k then k else j)"
    by (simp add: slow_def measured_def)
  show ?case
  proof (cases "\<exists>i < k. slow p slowest i")
    case True
    then show ?thesis unfolding s Suc.IH by (auto simp: less_Suc_eq)
  next
    case False
    then have "(LEAST i. slow p slowest i) = k" if "slow p slowest k" using that by (intro Least_equality) (auto simp: not_less [symmetric])
    then show ?thesis unfolding s Suc.IH using False by (auto simp: less_Suc_eq)
  qed
qed simp

lemma flattest_spec:
  "flattest p js m \<in> set js \<union> {m} \<and> ((\<exists>j \<in> set js \<union> {m}. \<not> d_le (cr_latency (p ! j)) (Fin 0)) \<longrightarrow> \<not> d_le (cr_latency (p ! flattest p js m)) (Fin 0))"
  by (induction p js m rule: flattest.induct) auto

section \<open>Properties\<close>

text \<open>C30. The report, under the hypothesis that the first sample has a positive latency (without it the loop over the levels may read the sample before the first): the search for
  levels ends with ascending samples; the program then reports every level it found, with the size of the sample of the level, unless the first level is the first sample, for
  which the report reads the sample before the first.\<close>

theorem report_outcome:
  assumes "n \<le> length p" "d_gt (cr_latency (p ! 0)) (Fin 0)"
  shows "\<exists>ls. level_loop (Suc n) n p 0 = Some ls \<and> sorted_wrt (<) ls
    \<and> (if ls \<noteq> [] \<and> hd ls = 0 then report_cache f g n p = None
       else \<exists>rs lat par. report_cache f g n p = Some (rs, lat, par) \<and> map lr_len rs = map (\<lambda>l. cr_len (p ! l)) ls)"
proof -
  obtain ls where ls: "level_loop (Suc n) n p 0 = Some ls" "sorted_wrt (<) ls" "\<forall>i \<in> set ls. 0 \<le> i \<and> i < n"
    using level_loop_returns [OF assms, of 0 "Suc n"] by auto
  show ?thesis
  proof (cases "ls \<noteq> [] \<and> hd ls = 0")
    case True
    then obtain us where "ls = 0 # us" by (cases ls) auto
    then have "report_cache f g n p = None" using ls(1) by (simp add: report_cache_def upt_conv_Cons report_level_def Let_def case_prod_unfold del: upt_Suc)
    then show ?thesis using ls True by auto
  next
    case False
    have "0 < l" if "l \<in> set ls" for l using False that ls(2) by (cases ls) auto
    then have "\<forall>i \<in> set [0..<length ls]. ls ! i < length p \<and> 0 < ls ! i" using ls(3) assms(1) by (auto intro: order.strict_trans2)
    from report_levels_return [OF this, of f g n] obtain rs q where
      rs: "report_levels f g n ls [0..<length ls] p = Some (rs, q)" "map lr_len rs = map (\<lambda>i. cr_len (p ! (ls ! i))) [0..<length ls]" by blast
    have "map (\<lambda>i. cr_len (p ! (ls ! i))) [0..<length ls] = map (\<lambda>l. cr_len (p ! l)) ls" by (rule nth_equalityI) auto
    then have "\<exists>rs lat par. report_cache f g n p = Some (rs, lat, par) \<and> map lr_len rs = map (\<lambda>l. cr_len (p ! l)) ls" using rs ls(1) by (simp add: report_cache_def)
    then show ?thesis using ls False by auto
  qed
qed

text \<open>The memory: the sample whose parallelism stands for the memory is the smallest measured one with more than 99 percent of the latency of the largest, and the largest if there is none.\<close>

theorem memory_index_smallest:
  "memory_index n p =
     (if \<exists>i < n. \<not> d_lt (cr_latency (p ! i)) (Fin 0) \<and> d_gt (cr_latency (p ! i)) (d_mul (lit (99 / 100)) (cr_latency (p ! (n - 1))))
      then LEAST i. \<not> d_lt (cr_latency (p ! i)) (Fin 0) \<and> d_gt (cr_latency (p ! i)) (d_mul (lit (99 / 100)) (cr_latency (p ! (n - 1)))) else n - 1)"
  unfolding memory_index_def memory_scan_spec slow_def measured_def ..

text \<open>The latency of a level is that of a sample of the level, and of a measured one if there is one.\<close>

theorem flattest_measured:
  assumes "prev < level"
  shows "flattest p [prev + 1..<level] (prev + 1) \<in> {prev + 1..level}
    \<and> ((\<exists>j \<in> {prev + 1..<level}. \<not> d_le (cr_latency (p ! j)) (Fin 0)) \<longrightarrow> \<not> d_le (cr_latency (p ! flattest p [prev + 1..<level] (prev + 1))) (Fin 0))"
  using flattest_spec [of p "[prev + 1..<level]" "prev + 1"] assms by auto

text \<open>Four samples with a step after the second one: one level, of 1024 bytes.\<close>

definition demo_levels :: "cache_results list" where
  "demo_levels = map (\<lambda>(len, lat, ratio). (new_sample 32768 64 len)\<lparr>cr_latency := Fin lat, cr_ratio := Fin ratio\<rparr>)
     [(512, 1, 1), (1024, 1, 10), (2048, 10, 1), (4096, 10, 1)]"

lemma demo_threshold: "THRESHOLD = Fin (3 / 2)"
  using rnd_dyadic [of 3 1] to_dbl_finite [of "3 / 2" 1] by (simp add: THRESHOLD_def lit_def)

lemma demo_levels_found: "level_loop 5 4 demo_levels 0 = Some [1]"
proof -
  have c0: "find_cache 0 4 demo_levels = Some (Some 1)"
    by (simp add: find_cache_def demo_levels_def new_sample_def demo_threshold arr_get_def upt_rec)
  have c2: "find_cache 2 4 demo_levels = Some None"
    by (simp add: find_cache_def demo_levels_def new_sample_def demo_threshold arr_get_def upt_rec)
  have "d_le (to_dbl (1 / 10)) (lit (5 / 10))" unfolding lit_def by (rule to_dbl_mono) simp
  then have far: "\<not> d_gt (d_div (cr_latency (demo_levels ! 1)) (cr_latency (demo_levels ! (4 - 1)))) (lit (5 / 10))"
    using d_lt_le_trans [of "lit (5 / 10)" "to_dbl (1 / 10)" "lit (5 / 10)"] by (auto simp: demo_levels_def)
  have legal: "legal_size (cr_len (demo_levels ! 1))"
    by (simp add: demo_levels_def new_sample_def legal_size_def c_int_def top_bits.simps)
  have pos: "d_gt (cr_latency (demo_levels ! 0)) (Fin 0)" by (simp add: demo_levels_def)
  show ?thesis
    using c0 c2 far legal pos by (simp add: numeral_eq_Suc Let_def)
qed

theorem report_outcome_witness:
  "level_loop 5 4 demo_levels 0 = Some [1]
   \<and> (\<exists>rs lat par. report_cache (\<lambda>i j. 64) (\<lambda>i j. Fin 1) 4 demo_levels = Some (rs, lat, par) \<and> map lr_len rs = [1024])"
proof -
  have "4 \<le> length demo_levels" "d_gt (cr_latency (demo_levels ! 0)) (Fin 0)" by (simp_all add: demo_levels_def)
  from report_outcome [OF this, of "\<lambda>i j. 64" "\<lambda>i j. Fin 1"] show ?thesis
    using demo_levels_found by (auto simp: demo_levels_def new_sample_def simp del: level_loop.simps)
qed

theorem flattest_measured_witness: "\<not> d_le (cr_latency (demo_samples ! flattest demo_samples [1..<2] 1)) (Fin 0)"
proof -
  have "\<not> d_le (cr_latency (demo_samples ! 1)) (Fin 0)" by (simp add: demo_samples_def d_le_def d_eq_def)
  then show ?thesis using flattest_measured [of 0 2 demo_samples] by (auto simp: numeral_2_eq_2)
qed

end
