(* ===== verification/Tlb.thy ===== *)
theory Tlb
  imports Cache_Pages Overhead
begin

text \<open>
  The search for the size of the TLB of \<open>src/tlb.c\<close>: \<open>compute_times\<close> compares a chain with one word on each page to a chain with as many lines side by side, and \<open>find_tlb\<close> doubles
  the number of pages until the first is slower and then halves the interval. The chains are those of \<open>tlb_initialize\<close> and \<open>mem_initialize\<close>; here the times and counts
  \<open>BENCH1\<close> measures on them are arguments, by the number of the call and the number of pages, with an empty list where a chain could not be built.
\<close>

section \<open>compute_times\<close>

text \<open>The measurements, and the addresses and the contents of the two result arrays on the stack.\<close>

record tlb_env =
  te_tlb :: "nat \<Rightarrow> int \<Rightarrow> (u64 \<times> u64) list"
  te_cache :: "nat \<Rightarrow> int \<Rightarrow> (u64 \<times> u64) list"
  te_tlb_results :: nat
  te_cache_results :: nat
  te_raw :: result_t

fun insert_runs :: "(u64 \<times> u64) list \<Rightarrow> result_t \<Rightarrow> result_t option" where
  "insert_runs [] r = Some r"
| "insert_runs ((u, n) # runs) r = do { r \<leftarrow> insertsort u n r; insert_runs runs r }"

definition compute_times :: "tlb_env \<Rightarrow> nat \<Rightarrow> int \<Rightarrow> timing \<Rightarrow> ((dbl \<times> dbl) \<times> timing) option" where
  "compute_times e k pages tm =
     do { let r_save = get_results tm;
          tlb \<leftarrow> insert_runs (te_tlb e k pages) (insertinit (te_raw e));
          cache \<leftarrow> insert_runs (te_cache e k pages) (insertinit (te_raw e));
          let tm = tm\<lparr>result_objs := (result_objs tm)(te_tlb_results e := tlb, te_cache_results e := cache)\<rparr>;
          tm \<leftarrow> set_results (te_tlb_results e) tm;
          let tlb_time = per_load (gettime tm, get_n tm);
          tm \<leftarrow> set_results (te_cache_results e) tm;
          let cache_time = per_load (gettime tm, get_n tm);
          tm \<leftarrow> set_results r_save tm;
          Some ((tlb_time, cache_time), tm) }"

section \<open>find_tlb\<close>

definition TLB_THRESHOLD :: dbl where
  "TLB_THRESHOLD = lit (115 / 100)"

definition tlb_misses :: "dbl \<times> dbl \<Rightarrow> bool" where
  "tlb_misses ts = d_gt (d_div (fst ts) (snd ts)) TLB_THRESHOLD"

text \<open>\<open>for (i = start; i <= maxpages; i<<=1)\<close>: the interval it leaves with, if it leaves by \<open>break\<close>. Doubling past the largest \<open>int\<close> is undefined, and with 0 the loop
  would not end.\<close>

function find_up :: "tlb_env \<Rightarrow> int \<Rightarrow> int \<Rightarrow> nat \<Rightarrow> timing \<Rightarrow> ((int \<times> int) option \<times> nat \<times> timing) option" where
  "find_up e maxpages i k tm =
     (if i \<le> 0 then None
      else if maxpages < i then Some (None, k, tm)
      else case compute_times e k i tm of
             None \<Rightarrow> None
           | Some (ts, tm) \<Rightarrow>
               if tlb_misses ts then Some (Some (i div 2, i), k + 1, tm)
               else if 2 ^ 31 \<le> 2 * i then None else find_up e maxpages (2 * i) (k + 1) tm)"
  by pat_completeness auto
termination by (relation "measure (\<lambda>(e, maxpages, i, k, tm). nat (maxpages + 1 - i))") auto

declare find_up.simps [simp del]

text \<open>\<open>while (lower + 1 < upper)\<close>\<close>

function bisect :: "tlb_env \<Rightarrow> int \<Rightarrow> int \<Rightarrow> nat \<Rightarrow> timing \<Rightarrow> (int \<times> nat \<times> timing) option" where
  "bisect e lower upper k tm =
     (if lower + 1 < upper then
        let i = lower + (upper - lower) div 2 in
        case compute_times e k i tm of
          None \<Rightarrow> None
        | Some (ts, tm) \<Rightarrow> if tlb_misses ts then bisect e lower i (k + 1) tm else bisect e i upper (k + 1) tm
      else Some (lower, k, tm))"
  by pat_completeness auto
termination by (relation "measure (\<lambda>(e, lower, upper, k, tm). nat (upper - lower))") auto

declare bisect.simps [simp del]

definition find_tlb :: "tlb_env \<Rightarrow> int \<Rightarrow> int \<Rightarrow> timing \<Rightarrow> (int \<times> nat \<times> timing) option" where
  "find_tlb e start_i maxpages tm =
     do { (found, k, tm) \<leftarrow> find_up e maxpages start_i 0 tm;
          case found of
            None \<Rightarrow> Some (0, k, tm)
          | Some (lower, upper) \<Rightarrow>
              if maxpages \<le> lower + (upper - lower) div 2 then Some (0, k, tm) else bisect e lower upper k tm }"

text \<open>The rest of \<open>main\<close>: the number of pages that is printed, and with \<open>-c\<close> the cost of a miss.\<close>

definition tlb_main :: "tlb_env \<Rightarrow> bool \<Rightarrow> int \<Rightarrow> timing \<Rightarrow> (int \<times> dbl option) option option" where
  "tlb_main e print_cost maxpages tm =
     do { (tlb, k, tm) \<leftarrow> find_tlb e 8 maxpages tm;
          if tlb \<le> 0 then Some None
          else if print_cost then
            do { ((tlb_time, cache_time), tm) \<leftarrow> compute_times e k (tlb * 2) tm; Some (Some (tlb, Some (d_sub tlb_time cache_time))) }
          else Some (Some (tlb, None)) }"

section \<open>compute_times returns\<close>

definition tlb_env_ok :: "tlb_env \<Rightarrow> bool" where
  "tlb_env_ok e = (length (res_v (te_raw e)) = TRIES \<and> (\<forall>k i. length (te_tlb e k i) \<le> TRIES \<and> length (te_cache e k i) \<le> TRIES))"

definition tlb_timing_ok :: "tlb_env \<Rightarrow> timing \<Rightarrow> bool" where
  "tlb_timing_ok e tm = (res_inv (cur_results tm) \<and> results tm \<noteq> te_tlb_results e \<and> results tm \<noteq> te_cache_results e
     \<and> te_tlb_results e \<noteq> te_cache_results e)"

lemma insert_runs_total:
  "res_inv r \<Longrightarrow> res_N r + length runs \<le> length (res_v r) \<Longrightarrow> \<exists>r'. insert_runs runs r = Some r' \<and> res_inv r'"
proof (induction runs arbitrary: r)
  case (Cons x runs)
  obtain u n where x: "x = (u, n)" by force
  obtain r' where "insertsort u n r = Some r'" "res_inv r'" "res_N r' + length runs \<le> length (res_v r')"
    using insertsort_room [of r "length runs" u n] Cons.prems by auto
  then show ?case using Cons.IH x by auto
qed simp


text \<open>The time and the count that \<open>set_results\<close> leaves for a result array.\<close>

definition median_of :: "result_t \<Rightarrow> (u64 \<times> u64) option" where
  "median_of r =
     (let i = res_N r div 2 in
      if res_N r = 0 then Some (0, 1)
      else if res_N r mod 2 \<noteq> 0 then do { x \<leftarrow> arr_get (res_v r) i; Some (val_u x, val_n x) }
      else do { x \<leftarrow> arr_get (res_v r) i; y \<leftarrow> arr_get (res_v r) (i - 1); Some ((val_u x + val_u y) div 2, (val_n x + val_n y) div 2) })"

lemma set_results_value:
  assumes "res_inv (result_objs tm p)"
  shows "\<exists>tm'. set_results p tm = Some tm' \<and> result_objs tm' = result_objs tm \<and> results tm' = p \<and> median_of (result_objs tm p) = Some (gettime tm', get_n tm')"
  using res_v_index [of "result_objs tm p" "res_N (result_objs tm p) div 2"] res_v_index [of "result_objs tm p" "res_N (result_objs tm p) div 2 - 1"] assms
  by (auto simp: set_results_def save_median_def median_of_def Let_def)

text \<open>The answer of call \<open>k\<close> for \<open>i\<close> pages.\<close>

definition time_of :: "result_t \<Rightarrow> (u64 \<times> u64) list \<Rightarrow> dbl option" where
  "time_of raw runs = do { r \<leftarrow> insert_runs runs (insertinit raw); x \<leftarrow> median_of r; Some (per_load x) }"

definition tlb_effect :: "tlb_env \<Rightarrow> nat \<Rightarrow> int \<Rightarrow> bool" where
  "tlb_effect e k i = (case (time_of (te_raw e) (te_tlb e k i), time_of (te_raw e) (te_cache e k i)) of (Some a, Some b) \<Rightarrow> tlb_misses (a, b) | _ \<Rightarrow> False)"

lemma compute_times_value:
  assumes "tlb_env_ok e" "tlb_timing_ok e tm"
  shows "\<exists>ts tm'. compute_times e k i tm = Some (ts, tm') \<and> tlb_timing_ok e tm' \<and> results tm' = results tm \<and> tlb_misses ts = tlb_effect e k i"
proof -
  let ?raw = "insertinit (te_raw e)" and ?a = "te_tlb_results e" and ?b = "te_cache_results e"
  have raw: "res_inv ?raw" "res_N ?raw = 0" "length (res_v ?raw) = TRIES" using assms(1) by (simp_all only: res_inv_insertinit) (simp_all add: insertinit_def tlb_env_ok_def)
  have len: "length (te_tlb e k i) \<le> TRIES" "length (te_cache e k i) \<le> TRIES" using assms(1) by (simp_all add: tlb_env_ok_def)
  obtain t where t: "insert_runs (te_tlb e k i) ?raw = Some t" "res_inv t" using insert_runs_total [OF raw(1), of "te_tlb e k i"] raw len by auto
  obtain c where c: "insert_runs (te_cache e k i) ?raw = Some c" "res_inv c" using insert_runs_total [OF raw(1), of "te_cache e k i"] raw len by auto
  let ?tm = "tm\<lparr>result_objs := (result_objs tm)(?a := t, ?b := c)\<rparr>"
  have d: "?a \<noteq> ?b" "results tm \<noteq> ?a" "results tm \<noteq> ?b" "res_inv (cur_results tm)" using assms(2) by (simp_all add: tlb_timing_ok_def)
  obtain tm1 where tm1: "set_results ?a ?tm = Some tm1" "result_objs tm1 = result_objs ?tm" "median_of t = Some (gettime tm1, get_n tm1)"
    using set_results_value [of ?tm ?a] t(2) d by auto
  obtain tm2 where tm2: "set_results ?b tm1 = Some tm2" "result_objs tm2 = result_objs ?tm" "median_of c = Some (gettime tm2, get_n tm2)"
    using set_results_value [of tm1 ?b] c(2) d tm1(2) by auto
  obtain tm3 where tm3: "set_results (results tm) tm2 = Some tm3" "result_objs tm3 = result_objs ?tm" "results tm3 = results tm"
    using set_results_value [of tm2 "results tm"] d tm2(2) by auto
  have "compute_times e k i tm = Some ((per_load (gettime tm1, get_n tm1), per_load (gettime tm2, get_n tm2)), tm3)"
    using t(1) c(1) tm1(1) tm2(1) tm3(1) by (simp add: compute_times_def get_results_def)
  moreover have "tlb_effect e k i = tlb_misses (per_load (gettime tm1, get_n tm1), per_load (gettime tm2, get_n tm2))"
    using t(1) c(1) tm1(3) tm2(3) by (simp add: tlb_effect_def time_of_def)
  moreover have "tlb_timing_ok e tm3" using d tm3(2,3) by (simp add: tlb_timing_ok_def)
  ultimately show ?thesis using tm3(3) by blast
qed

section \<open>The search\<close>

text \<open>The measurements depend on the number of pages only.\<close>

definition steady :: "tlb_env \<Rightarrow> bool" where
  "steady e = (\<forall>k i. tlb_effect e k i = tlb_effect e 0 i)"

lemma compute_times_steady:
  assumes "tlb_env_ok e" "tlb_timing_ok e tm" "steady e"
  shows "\<exists>ts tm'. compute_times e k i tm = Some (ts, tm') \<and> tlb_timing_ok e tm' \<and> results tm' = results tm \<and> tlb_misses ts = tlb_effect e 0 i"
  using compute_times_value [OF assms(1,2), of k i] assms(3) unfolding steady_def by metis

lemma bisect_spec:
  assumes "tlb_env_ok e" "steady e" "lower < upper" "tlb_timing_ok e tm"
  shows "\<exists>l k' tm'. bisect e lower upper k tm = Some (l, k', tm') \<and> tlb_timing_ok e tm' \<and> results tm' = results tm \<and> lower \<le> l \<and> l < upper
    \<and> (l = lower \<or> \<not> tlb_effect e 0 l) \<and> (l + 1 = upper \<or> tlb_effect e 0 (l + 1))"
  using assms(3,4)
proof (induction "nat (upper - lower)" arbitrary: lower upper k tm rule: less_induct)
  case less
  show ?case
  proof (cases "lower + 1 < upper")
    case False
    then show ?thesis using less.prems by (subst bisect.simps) auto
  next
    case True
    define i where "i = lower + (upper - lower) div 2"
    have i: "lower < i" "i < upper" using True by (auto simp: i_def)
    obtain ts tm1 where c: "compute_times e k i tm = Some (ts, tm1)" "tlb_timing_ok e tm1" "results tm1 = results tm" "tlb_misses ts = tlb_effect e 0 i"
      using compute_times_steady [OF assms(1) less.prems(2) assms(2)] by blast
    have step: "bisect e lower upper k tm = (if tlb_effect e 0 i then bisect e lower i (k + 1) tm1 else bisect e i upper (k + 1) tm1)"
      using True c(1,4) by (subst bisect.simps) (simp add: Let_def i_def [symmetric])
    show ?thesis
    proof (cases "tlb_effect e 0 i")
      case True
      then show ?thesis using less.hyps [of i lower tm1 "k + 1"] i c(2,3) step by force
    next
      case False
      then show ?thesis using less.hyps [of upper i tm1 "k + 1"] i c(2,3) step by force
    qed
  qed
qed

lemma find_up_spec:
  assumes "tlb_env_ok e" "steady e" "maxpages < 2 ^ 30" "0 < i" "tlb_timing_ok e tm"
  shows "\<exists>f k' tm'. find_up e maxpages i k tm = Some (f, k', tm') \<and> tlb_timing_ok e tm' \<and> results tm' = results tm
    \<and> (case f of None \<Rightarrow> \<forall>j. i * 2 ^ j \<le> maxpages \<longrightarrow> \<not> tlb_effect e 0 (i * 2 ^ j)
       | Some (lower, upper) \<Rightarrow> \<exists>j. upper = i * 2 ^ j \<and> lower = upper div 2 \<and> upper \<le> maxpages \<and> tlb_effect e 0 upper \<and> (j = 0 \<or> \<not> tlb_effect e 0 lower))"
  using assms(4,5)
proof (induction "nat (maxpages + 1 - i)" arbitrary: i k tm rule: less_induct)
  case less
  have pow: "i \<le> i * 2 ^ j" for j :: nat using less.prems(1) by simp
  show ?case
  proof (cases "maxpages < i")
    case True
    then have "\<not> i * 2 ^ j \<le> maxpages" for j using pow [of j] by linarith
    then show ?thesis using True less.prems by (subst find_up.simps) auto
  next
    case False
    obtain ts tm1 where c: "compute_times e k i tm = Some (ts, tm1)" "tlb_timing_ok e tm1" "results tm1 = results tm" "tlb_misses ts = tlb_effect e 0 i"
      using compute_times_steady [OF assms(1) less.prems(2) assms(2)] by blast
    show ?thesis
    proof (cases "tlb_effect e 0 i")
      case True
      then have "find_up e maxpages i k tm = Some (Some (i div 2, i), k + 1, tm1)" using False less.prems(1) c(1,4) by (subst find_up.simps) simp
      then show ?thesis using True False c(2,3) by (auto intro!: exI [of _ "0 :: nat"])
    next
      case no: False
      have step: "find_up e maxpages i k tm = find_up e maxpages (2 * i) (k + 1) tm1" using False no less.prems(1) c(1,4) assms(3) by (subst find_up.simps) simp
      obtain f k' tm' where f: "find_up e maxpages (2 * i) (k + 1) tm1 = Some (f, k', tm')" "tlb_timing_ok e tm'" "results tm' = results tm1"
        "case f of None \<Rightarrow> \<forall>j. 2 * i * 2 ^ j \<le> maxpages \<longrightarrow> \<not> tlb_effect e 0 (2 * i * 2 ^ j)
         | Some (lower, upper) \<Rightarrow> \<exists>j. upper = 2 * i * 2 ^ j \<and> lower = upper div 2 \<and> upper \<le> maxpages \<and> tlb_effect e 0 upper \<and> (j = 0 \<or> \<not> tlb_effect e 0 lower)"
        using less.hyps [of "2 * i" tm1 "k + 1"] False less.prems(1) c(2) by auto
      show ?thesis
      proof (cases f)
        case None
        have "\<not> tlb_effect e 0 (i * 2 ^ j)" if "i * 2 ^ j \<le> maxpages" for j
          using that no f(4) None by (cases j) (auto simp: mult.assoc mult.left_commute [of i])
        then show ?thesis using step f(1-3) c(3) None by auto
      next
        case (Some lu)
        obtain lower upper where lu1: "lu = (lower, upper)" by force
        obtain j where lu2: "upper = 2 * i * 2 ^ j" "lower = upper div 2" "upper \<le> maxpages" "tlb_effect e 0 upper" "j = 0 \<or> \<not> tlb_effect e 0 lower"
          using f(4) unfolding Some lu1 option.case prod.case by blast
        note lu = lu1 lu2
        have "\<not> tlb_effect e 0 lower" using lu(2,3,6) no by (cases "j = 0") auto
        moreover have "upper = i * 2 ^ Suc j" using lu(2) by simp
        ultimately have "\<exists>j. upper = i * 2 ^ j \<and> lower = upper div 2 \<and> upper \<le> maxpages \<and> tlb_effect e 0 upper \<and> (j = 0 \<or> \<not> tlb_effect e 0 lower)" using lu by blast
        then show ?thesis using step f(1-3) c(3) Some lu1 by simp
      qed
    qed
  qed
qed

text \<open>A boundary of a monotone effect is the only one.\<close>

lemma boundary:
  fixes l :: int and P :: "int \<Rightarrow> bool"
  assumes "4 \<le> l" "P (l + 1)" "l = 4 \<or> \<not> P l"
  shows "(\<forall>i i'. 4 < i \<and> i \<le> i' \<and> P i \<longrightarrow> P i') \<longrightarrow> (\<forall>i > 4. P i \<longleftrightarrow> l < i)"
proof (intro impI allI iffI)
  fix i :: int assume mono: "\<forall>i i'. 4 < i \<and> i \<le> i' \<and> P i \<longrightarrow> P i'" and i: "4 < i"
  show "l < i" if "P i"
  proof (rule ccontr)
    assume "\<not> l < i"
    with mono i that have "P l" by (meson not_less)
    with assms(3) i \<open>\<not> l < i\<close> show False by simp
  qed
  have up: "4 < l + 1" using assms(1) by simp
  show "P i" if "l < i"
  proof -
    have "l + 1 \<le> i" using that by simp
    with mono up assms(2) show ?thesis by blast
  qed
qed

section \<open>Properties\<close>

text \<open>C39. The search is right for measurements that depend on the number of pages only (\<open>steady\<close>): \<open>find_tlb\<close>, started at 8 pages, returns and keeps the current results. When no doubled number
  of pages from 8 up to \<open>maxpages\<close> shows an effect, the answer is 0. Otherwise it is a number of pages, at least 4, with an effect for one more page and, unless it is 4, none for
  itself; and if more pages never take an effect away, it is the boundary: beyond 4 pages exactly the numbers above the answer show an effect.\<close>

theorem find_tlb_correct:
  assumes "tlb_env_ok e" "steady e" "maxpages < 2 ^ 30" "tlb_timing_ok e tm"
  shows "\<exists>l k tm'. find_tlb e 8 maxpages tm = Some (l, k, tm') \<and> results tm' = results tm
    \<and> (if \<exists>j. 8 * 2 ^ j \<le> maxpages \<and> tlb_effect e 0 (8 * 2 ^ j)
       then 4 \<le> l \<and> l < maxpages \<and> tlb_effect e 0 (l + 1) \<and> (l = 4 \<or> \<not> tlb_effect e 0 l)
         \<and> ((\<forall>i i'. 4 < i \<and> i \<le> i' \<and> tlb_effect e 0 i \<longrightarrow> tlb_effect e 0 i') \<longrightarrow> (\<forall>i > 4. tlb_effect e 0 i \<longleftrightarrow> l < i))
       else l = 0)"
proof -
  obtain f k tm1 where f: "find_up e maxpages 8 0 tm = Some (f, k, tm1)" "tlb_timing_ok e tm1" "results tm1 = results tm"
    "case f of None \<Rightarrow> \<forall>j. 8 * 2 ^ j \<le> maxpages \<longrightarrow> \<not> tlb_effect e 0 (8 * 2 ^ j)
     | Some (lower, upper) \<Rightarrow> \<exists>j. upper = 8 * 2 ^ j \<and> lower = upper div 2 \<and> upper \<le> maxpages \<and> tlb_effect e 0 upper \<and> (j = 0 \<or> \<not> tlb_effect e 0 lower)"
    using find_up_spec [OF assms(1,2,3) _ assms(4), of 8 0] by auto
  show ?thesis
  proof (cases f)
    case None
    then show ?thesis using f by (auto simp: find_tlb_def)
  next
    case (Some lu)
    obtain lower upper where lu1: "lu = (lower, upper)" by force
    obtain j where lu2: "upper = 8 * 2 ^ j" "lower = upper div 2" "upper \<le> maxpages" "tlb_effect e 0 upper" "j = 0 \<or> \<not> tlb_effect e 0 lower"
      using f(4) unfolding Some lu1 option.case prod.case by blast
    note lu = lu1 lu2
    have lo: "lower = 4 * 2 ^ j" "4 \<le> lower" "lower < upper" using lu(2,3) by auto
    obtain l k' tm' where b: "bisect e lower upper k tm1 = Some (l, k', tm')" "results tm' = results tm1" "lower \<le> l" "l < upper"
      "l = lower \<or> \<not> tlb_effect e 0 l" "l + 1 = upper \<or> tlb_effect e 0 (l + 1)"
      using bisect_spec [OF assms(1,2) lo(3) f(2), of k] by blast
    have "lower + (upper - lower) div 2 < maxpages" using lo lu(4) by linarith
    then have found: "find_tlb e 8 maxpages tm = Some (l, k', tm')" using f(1) Some lu(1) b(1) by (simp add: find_tlb_def)
    have self: "l = 4 \<or> \<not> tlb_effect e 0 l" using b(5) lu(6) lo(1) by auto
    have some: "\<exists>j. 8 * 2 ^ j \<le> maxpages \<and> tlb_effect e 0 (8 * 2 ^ j)" using lu(2,4,5) by blast
    have l: "4 \<le> l" "l < maxpages" "tlb_effect e 0 (l + 1)" using b(3,4,6) lo(2) lu(4,5) by auto
    have res: "results tm' = results tm" using b(2) f(3) by simp
    show ?thesis
      unfolding if_P [OF some] using found res l self boundary [OF l(1,3) self] by (intro exI conjI)
  qed
qed

text \<open>Measurements that show an effect from 12 pages on.\<close>

definition demo_tlb :: tlb_env where
  "demo_tlb = \<lparr>te_tlb = (\<lambda>k i. [(if 12 \<le> i then 2 else 1, 10)]), te_cache = (\<lambda>k i. [(1, 10)]), te_tlb_results = 1, te_cache_results = 2,
     te_raw = \<lparr>res_N = 0, res_v = replicate TRIES \<lparr>val_u = 0, val_n = 0\<rparr>\<rparr>\<rparr>"

definition demo_tlb_tm :: timing where
  "demo_tlb_tm = timing_init (\<lambda>_. \<lparr>tv_sec = 0, tv_usec = 0\<rparr>)"

lemma demo_effect: "tlb_effect demo_tlb k i \<longleftrightarrow> 12 \<le> i"
proof -
  have rec: "insertsort u n (insertinit (te_raw demo_tlb))
      = Some \<lparr>res_N = 1, res_v = \<lparr>val_u = u, val_n = n\<rparr> # replicate (TRIES - 1) \<lparr>val_u = 0, val_n = 0\<rparr>\<rparr>" if "u \<noteq> 0" for u n
    using that by (simp add: insertsort_def find_slot.simps insertinit_def demo_tlb_def arr_set_def TRIES_def numeral_eq_Suc)
  have d: "to_dbl 2 = Fin 2" "to_dbl 1 = Fin 1" "to_dbl 1000 = Fin 1000" "to_dbl 2000 = Fin 2000" "rnd 10 = 10" "rnd 2 = 2" "rnd 1 = 1"
    using to_dbl_of_int [of 2] to_dbl_of_int [of 1] to_dbl_of_int [of 1000] to_dbl_of_int [of 2000] rnd_of_int [of 10] rnd_of_int [of 2] rnd_of_int [of 1]
    by simp_all
  have t: "time_of (te_raw demo_tlb) [(u, 10)] = Some (per_load (u, 10))" if "u \<noteq> 0" for u
    using rec [OF that] by (simp add: time_of_def median_of_def arr_get_def)
  have p: "per_load (2, 10) = Fin 2" "per_load (1, 10) = Fin 1" using d by (simp_all add: per_load_def d_of_u64_Fin u2r_def)
  have thr: "TLB_THRESHOLD = Fin (rnd (115 / 100))" using to_dbl_finite [of "115 / 100" 1] by (simp add: TLB_THRESHOLD_def lit_def)
  have "1 \<le> rnd (115 / 100)" using rnd.r_ge_int [of 1 "115 / 100"] by simp
  moreover have "rnd (115 / 100) \<le> 3 / 2" using rnd_le_dyadic [of 3 1 "115 / 100"] by simp
  ultimately have "tlb_misses (Fin 2, Fin 1)" "\<not> tlb_misses (Fin 1, Fin 1)" unfolding tlb_misses_def thr using d by simp_all
  then show ?thesis using t [of 1] t [of 2] p by (simp add: tlb_effect_def demo_tlb_def)
qed

theorem find_tlb_correct_witness: "\<exists>k tm'. find_tlb demo_tlb 8 64 demo_tlb_tm = Some (11, k, tm') \<and> results tm' = results demo_tlb_tm"
proof -
  have "tlb_env_ok demo_tlb" by (simp add: tlb_env_ok_def demo_tlb_def TRIES_def)
  moreover have "steady demo_tlb" by (simp add: steady_def demo_effect)
  moreover have "tlb_timing_ok demo_tlb demo_tlb_tm"
    by (simp add: tlb_timing_ok_def demo_tlb_def demo_tlb_tm_def timing_init_def res_inv_def res_list_def desc_sorted_def)
  moreover have "\<exists>j. 8 * 2 ^ j \<le> (64 :: int) \<and> tlb_effect demo_tlb 0 (8 * 2 ^ j)" by (rule exI [of _ 1]) (simp add: demo_effect)
  ultimately obtain l k tm' where l: "find_tlb demo_tlb 8 64 demo_tlb_tm = Some (l, k, tm')" "results tm' = results demo_tlb_tm"
    "4 \<le> l" "tlb_effect demo_tlb 0 (l + 1)" "l = 4 \<or> \<not> tlb_effect demo_tlb 0 l"
    using find_tlb_correct [of demo_tlb 64 demo_tlb_tm] by auto
  have "l = 11" using l(3-5) by (auto simp: demo_effect)
  with l(1,2) show ?thesis by auto
qed

end
