(* ===== verification/Memsize.thy ===== *)
theory Memsize
  imports Prelude
begin

text \<open>
  The program of \<open>src/memsize.c\<close> that looks for the amount of usable memory: the search for the largest block that can be allocated in \<open>main\<close>, \<open>test_malloc\<close>, and \<open>timeit\<close>, which touches
  growing parts of the block until a pass takes too long. The answers of \<open>malloc\<close> and the times of the passes are arguments. Sizes are natural numbers: a block that
  can be allocated is far below \<open>2^63\<close>.
\<close>

section \<open>Allocation\<close>

text \<open>What happens in a call of \<open>test_malloc\<close>: whether \<open>pipe\<close>, \<open>fork\<close> and the child's answer succeed, and whether \<open>malloc\<close> finds the memory, here and in the child.\<close>

record malloc_env =
  me_pipe :: bool
  me_own :: bool
  me_fork :: bool
  me_child :: bool
  me_answer :: bool

text \<open>Without a child nobody writes to the pipe, and \<open>read\<close> returns 0.\<close>

definition test_malloc :: "malloc_env \<Rightarrow> bool" where
  "test_malloc e = (if \<not> me_pipe e then me_own e else if me_fork e \<and> me_answer e then me_child e else False)"

text \<open>\<open>for (where = 0; !test_malloc(size); size >>= 1) max = size;\<close> for at most \<open>fuel\<close> calls; \<open>ok\<close> is the answer by call and size.\<close>

primrec search_down :: "nat \<Rightarrow> (nat \<Rightarrow> nat \<Rightarrow> bool) \<Rightarrow> nat \<Rightarrow> nat \<Rightarrow> nat \<Rightarrow> (nat \<times> nat \<times> nat) option" where
  "search_down 0 ok k size_b mx = None"
| "search_down (Suc fuel) ok k size_b mx = (if ok k size_b then Some (size_b, mx, k + 1) else search_down fuel ok (k + 1) (size_b div 2) size_b)"

text \<open>\<open>for (delta = (size >> 21); delta > 0; delta >>= 1)\<close>; \<open>size_t\<close> has 64 bits, so that \<open>check < sz\<close> is false.\<close>

function search_up :: "(nat \<Rightarrow> nat \<Rightarrow> bool) \<Rightarrow> nat \<Rightarrow> nat \<Rightarrow> nat \<Rightarrow> nat \<Rightarrow> nat" where
  "search_up ok k delta_m size_b mx =
     (if delta_m = 0 then size_b
      else let sz = size_b + delta_m * 2 ^ 20 in
           if mx < sz then search_up ok k (delta_m div 2) size_b mx
           else if \<not> ok k sz then size_b
           else search_up ok (k + 1) (delta_m div 2) sz mx)"
  by pat_completeness auto
termination by (relation "measure (\<lambda>(ok, k, delta_m, size_b, mx). delta_m)") auto

declare search_up.simps [simp del]

text \<open>\<open>main\<close> up to the last \<open>malloc\<close>; \<open>arg\<close> is the size in bytes given on the command line, 0 without one.\<close>

definition find_size :: "nat \<Rightarrow> (nat \<Rightarrow> nat \<Rightarrow> bool) \<Rightarrow> nat \<Rightarrow> nat option" where
  "find_size fuel ok arg =
     (let size_b = (if arg < 2 ^ 20 then 2 ^ 30 else arg) in
      map_option (\<lambda>(size_b, mx, k). search_up ok k (size_b div 2 ^ 21) size_b mx) (search_down fuel ok 0 size_b size_b))"

section \<open>Touching\<close>

text \<open>\<open>touchRange\<close>: the offsets that are written. The alarm comes after \<open>left\<close> writes, if it comes. With a stride of 0 the bound \<open>delta - 1\<close> is the largest \<open>size_t\<close>.\<close>

function touch_down :: "int \<Rightarrow> nat option \<Rightarrow> int \<Rightarrow> nat \<Rightarrow> int list" where
  "touch_down stride left_w tmp range_b =
     (if 0 < nat \<bar>stride\<bar> \<and> nat \<bar>stride\<bar> \<le> range_b \<and> left_w \<noteq> Some 0
      then tmp # touch_down stride (map_option (\<lambda>n. n - 1) left_w) (tmp + stride) (range_b - nat \<bar>stride\<bar>) else [])"
  by pat_completeness auto
termination by (relation "measure (\<lambda>(stride, left_w, tmp, range_b). range_b)") auto

declare touch_down.simps [simp del]

definition touchRange :: "nat option \<Rightarrow> nat \<Rightarrow> int \<Rightarrow> int list" where
  "touchRange left_w range_b stride = touch_down stride left_w (if 0 < stride then 0 else int range_b - 1) range_b"

section \<open>timeit\<close>

definition TOO_LONG :: nat where
  "TOO_LONG = 10"

text \<open>\<open>for (s = 8 * 1024 * 1024; s <= range; s_prev = s, s *= 2) if (s < s_prev) break;\<close> with \<open>s_prev\<close> as the pass before left it, at first not set.\<close>

function grow :: "nat \<Rightarrow> nat \<Rightarrow> nat \<Rightarrow> nat \<times> nat" where
  "grow range_b s s_prev = (if 0 < s \<and> s \<le> range_b \<and> \<not> s < s_prev then grow range_b (2 * s) s else (s, s_prev))"
  by pat_completeness auto
termination by (relation "measure (\<lambda>(range_b, s, s_prev). Suc range_b - s)") auto

declare grow.simps [simp del]

definition next_incr :: "nat \<Rightarrow> nat \<Rightarrow> nat \<Rightarrow> nat \<times> nat" where
  "next_incr size_b range_b s_prev =
     (let (s, s_prev) = grow range_b (8 * 2 ^ 20) s_prev; incr = s div 8
      in (if range_b < size_b \<and> size_b < range_b + incr then size_b - range_b else incr, s_prev))"

text \<open>The loop over the ranges. A pass is the value of \<open>sum\<close>, as a \<open>size_t\<close>, and whether the alarm was triggered; the result is the size and the areas touched, as offset and length.\<close>

fun timeit_loop :: "nat \<Rightarrow> nat \<Rightarrow> (nat \<times> bool) list \<Rightarrow> nat \<Rightarrow> nat \<Rightarrow> nat \<Rightarrow> (nat \<times> (nat \<times> nat) list) option" where
  "timeit_loop pagesize size_b passes range_b incr s_prev =
     (if size_b < range_b then Some (size_b, [])
      else case passes of
             [] \<Rightarrow> None
           | (t, alarm) # passes \<Rightarrow>
               let n = range_b div pagesize; touched = [(range_b - incr, incr), (0, range_b)] in
               if n = 0 then None
               else if TOO_LONG < t div n \<or> alarm then Some (range_b - incr, touched)
               else let (incr, s_prev) = next_incr size_b range_b s_prev in
                    map_option (\<lambda>(r, ts). (r, touched @ ts)) (timeit_loop pagesize size_b passes (range_b + incr) incr s_prev))"

declare timeit_loop.simps [simp del]

text \<open>\<open>timeit\<close>: the number of megabytes it prints, unless the size is bad, and the areas touched.\<close>

definition timeit :: "nat \<Rightarrow> nat \<Rightarrow> (nat \<times> bool) list \<Rightarrow> nat \<Rightarrow> (nat option \<times> (nat \<times> nat) list) option" where
  "timeit pagesize size_b passes s_prev =
     (if size_b < 2 ^ 20 - 16 * 1024 then Some (None, [])
      else map_option (\<lambda>(r, ts). (Some (r div 2 ^ 20), (0, 2 ^ 20) # ts)) (timeit_loop pagesize size_b passes (2 ^ 20 + 2 ^ 20) (2 ^ 20) s_prev))"

section \<open>The search\<close>

abbreviation fits :: "nat \<Rightarrow> nat \<Rightarrow> nat \<Rightarrow> bool" where
  "fits cap k size_b \<equiv> size_b \<le> cap"

lemma search_down_spec:
  "size_b < 2 ^ fuel \<Longrightarrow> \<exists>s mx' k'. search_down (Suc fuel) (fits cap) k size_b mx = Some (s, mx', k') \<and> s \<le> cap
     \<and> (size_b \<le> cap \<and> s = size_b \<and> mx' = mx \<or> cap < mx' \<and> mx' \<le> size_b \<and> s = mx' div 2)"
proof (induction fuel arbitrary: k size_b mx)
  case (Suc fuel)
  show ?case
  proof (cases "size_b \<le> cap")
    case False
    have "size_b div 2 < 2 ^ fuel" using Suc.prems by auto
    from Suc.IH [OF this, of "k + 1" size_b] show ?thesis using False by (auto simp del: search_down.simps(2) simp: search_down.simps(2) [of "Suc fuel"])
  qed auto
qed simp

lemma search_up_spec:
  "s \<le> cap \<Longrightarrow> s \<le> mx \<Longrightarrow> s \<le> search_up (fits cap) k d s mx \<and> search_up (fits cap) k d s mx \<le> cap \<and> search_up (fits cap) k d s mx \<le> mx"
proof (induction "fits cap" k d s mx rule: search_up.induct)
  case (1 k d s mx)
  then show ?case by (subst (1 2 3) search_up.simps) (auto simp: Let_def)
qed

lemma search_up_top: "search_up ok k d s s = s"
proof (induction d arbitrary: k rule: less_induct)
  case (less d)
  then show ?case by (subst search_up.simps) (auto simp: Let_def)
qed

section \<open>Touching\<close>

lemma touch_down_bounds:
  "x \<in> set (touch_down stride left_w tmp r) \<Longrightarrow>
   (0 < stride \<longrightarrow> tmp \<le> x \<and> x + stride \<le> tmp + int r) \<and> (stride < 0 \<longrightarrow> x \<le> tmp \<and> tmp - int r < x + stride + 1)"
proof (induction stride left_w tmp r rule: touch_down.induct)
  case (1 stride left_w tmp r)
  show ?case
  proof (cases "0 < nat \<bar>stride\<bar> \<and> nat \<bar>stride\<bar> \<le> r \<and> left_w \<noteq> Some 0")
    case True
    then have "x = tmp \<or> x \<in> set (touch_down stride (map_option (\<lambda>n. n - 1) left_w) (tmp + stride) (r - nat \<bar>stride\<bar>))"
      using 1(2) by (subst (asm) touch_down.simps) auto
    then show ?thesis
    proof
      assume "x = tmp"
      then show ?thesis using True by auto
    next
      assume "x \<in> set (touch_down stride (map_option (\<lambda>n. n - 1) left_w) (tmp + stride) (r - nat \<bar>stride\<bar>))"
      moreover have "int (r - nat \<bar>stride\<bar>) = int r - \<bar>stride\<bar>" using True by simp
      ultimately show ?thesis using 1(1) [OF True] by (cases "0 < stride") auto
    qed
  next
    case False
    then show ?thesis using 1(2) by (subst (asm) touch_down.simps) auto
  qed
qed

section \<open>timeit\<close>

lemma grow_ge: "a \<le> s \<Longrightarrow> a \<le> fst (grow r s q)"
proof (induction r s q rule: grow.induct)
  case (1 r s q)
  then show ?case by (subst grow.simps) auto
qed

lemma next_incr_pos:
  assumes "next_incr size_b range_b s_prev = (incr, p)" "range_b \<le> size_b"
  shows "0 < incr \<and> (range_b + incr \<le> size_b \<or> range_b = size_b)"
proof -
  have "8 \<le> fst (grow range_b (8 * 2 ^ 20) s_prev)" using grow_ge [of 8 "8 * 2 ^ 20" range_b s_prev] by simp
  then have "0 < fst (grow range_b (8 * 2 ^ 20) s_prev) div 8" by (simp add: div_greater_zero_iff)
  then show ?thesis using assms by (auto simp: next_incr_def case_prod_unfold Let_def split: if_splits)
qed

lemma takeWhile_full:
  assumes "length rs \<le> length passes"
  shows "length (takeWhile P (zip rs passes)) = length rs \<longleftrightarrow> (\<forall>x \<in> set (zip rs passes). P x)"
proof -
  have "length (takeWhile P (zip rs passes)) = length (zip rs passes) \<longleftrightarrow> takeWhile P (zip rs passes) = zip rs passes"
    by (metis length_takeWhile_le takeWhile_eq_take take_all order_refl)
  also have "\<dots> \<longleftrightarrow> (\<forall>x \<in> set (zip rs passes). P x)" by (metis takeWhile_eq_all_conv)
  finally show ?thesis using assms by (simp add: min_absorb1)
qed

text \<open>The reference: the ranges that are touched as long as no pass is slow, from \<open>range\<close> up to the size, and when a pass over a range is slow, by the time for a page.\<close>

function ranges :: "nat \<Rightarrow> nat \<Rightarrow> nat \<Rightarrow> nat list" where
  "ranges size_b range_b s_prev =
     (if size_b < range_b then [] else range_b # ranges size_b (range_b + fst (next_incr size_b range_b s_prev)) (snd (next_incr size_b range_b s_prev)))"
  by pat_completeness auto
termination
proof (relation "measure (\<lambda>(size_b, range_b, s_prev). Suc size_b - range_b)")
  fix size_b range_b s_prev assume "\<not> size_b < (range_b :: nat)"
  then show "((size_b, range_b + fst (next_incr size_b range_b s_prev), snd (next_incr size_b range_b s_prev)), size_b, range_b, s_prev)
      \<in> measure (\<lambda>(size_b, range_b, s_prev). Suc size_b - range_b)"
    using next_incr_pos [of size_b range_b s_prev, OF surjective_pairing] by simp linarith
qed simp

declare ranges.simps [simp del]

definition fast_pass :: "nat \<Rightarrow> nat \<times> nat \<times> bool \<Rightarrow> bool" where
  "fast_pass pagesize = (\<lambda>(range_b, t, alarm). t < (TOO_LONG + 1) * (range_b div pagesize) \<and> \<not> alarm)"

definition fast_passes :: "nat \<Rightarrow> nat list \<Rightarrow> (nat \<times> bool) list \<Rightarrow> nat" where
  "fast_passes pagesize rs passes = length (takeWhile (fast_pass pagesize) (zip rs passes))"

lemma fast_pass_iff: "0 < range_b div pagesize \<Longrightarrow> fast_pass pagesize (range_b, t, alarm) \<longleftrightarrow> \<not> (TOO_LONG < t div (range_b div pagesize) \<or> alarm)"
proof -
  assume n: "0 < range_b div pagesize"
  then have "TOO_LONG < t div (range_b div pagesize) \<longleftrightarrow> (TOO_LONG + 1) * (range_b div pagesize) \<le> t"
    using less_eq_div_iff_mult_less_eq [OF n, of "TOO_LONG + 1" t] by linarith
  then show ?thesis by (auto simp: fast_pass_def)
qed

lemma timeit_loop_spec:
  assumes "0 < pagesize"
  shows "pagesize \<le> range_b \<Longrightarrow> incr \<le> range_b \<Longrightarrow> range_b - incr \<le> size_b \<Longrightarrow> length (ranges size_b range_b s_prev) \<le> length passes \<Longrightarrow>
    \<exists>ts. timeit_loop pagesize size_b passes range_b incr s_prev
        = Some (if fast_passes pagesize (ranges size_b range_b s_prev) passes = length (ranges size_b range_b s_prev) then size_b
                else ((range_b - incr) # ranges size_b range_b s_prev) ! fast_passes pagesize (ranges size_b range_b s_prev) passes, ts)
      \<and> (\<forall>(off, len) \<in> set ts. off + len \<le> size_b)"
proof (induction passes arbitrary: range_b incr s_prev)
  case Nil
  then have "size_b < range_b" by (subst (asm) ranges.simps) (simp split: if_splits)
  then show ?case by (simp add: timeit_loop.simps ranges.simps fast_passes_def)
next
  case (Cons x passes)
  obtain t alarm where x: "x = (t, alarm)" by force
  let ?n = "range_b div pagesize"
  show ?case
  proof (cases "size_b < range_b")
    case True
    then show ?thesis by (simp add: timeit_loop.simps ranges.simps fast_passes_def)
  next
    case False
    have n: "0 < ?n" using assms(1) Cons.prems(1) by (simp add: div_greater_zero_iff)
    note fast = fast_pass_iff [OF n, of t alarm]
    obtain i p where i: "next_incr size_b range_b s_prev = (i, p)" by force
    let ?rs = "ranges size_b (range_b + i) p"
    have rs: "ranges size_b range_b s_prev = range_b # ?rs" using False i by (subst ranges.simps) simp
    show ?thesis
    proof (cases "fast_pass pagesize (range_b, t, alarm)")
      case slow: False
      then have "timeit_loop pagesize size_b (x # passes) range_b incr s_prev = Some (range_b - incr, [(range_b - incr, incr), (0, range_b)])"
        using fast False n x by (simp add: timeit_loop.simps Let_def)
      moreover have "fast_passes pagesize (range_b # ?rs) (x # passes) = 0" using slow by (simp add: fast_passes_def x)
      ultimately show ?thesis using False Cons.prems unfolding rs by auto
    next
      case True
      note pos = next_incr_pos [OF i] False
      have k: "fast_passes pagesize (range_b # ?rs) (x # passes) = Suc (fast_passes pagesize ?rs passes)"
        using True by (simp add: fast_passes_def x)
      obtain ts where ts: "timeit_loop pagesize size_b passes (range_b + i) i p
          = Some (if fast_passes pagesize ?rs passes = length ?rs then size_b else (range_b # ?rs) ! fast_passes pagesize ?rs passes, ts)"
        "\<forall>(off, len) \<in> set ts. off + len \<le> size_b"
        using Cons.IH [of "range_b + i" i p] Cons.prems pos unfolding rs by auto
      have "timeit_loop pagesize size_b (x # passes) range_b incr s_prev
          = map_option (\<lambda>(r, ts). (r, [(range_b - incr, incr), (0, range_b)] @ ts)) (timeit_loop pagesize size_b passes (range_b + i) i p)"
        unfolding timeit_loop.simps [of pagesize size_b "x # passes"] using False fast True n x i by (simp add: Let_def)
      then show ?thesis unfolding rs k ts(1) using ts(2) False Cons.prems(2) by auto
    qed
  qed
qed

text \<open>The ranges grow from the first one up to the size, the last one being the size itself.\<close>

lemma ranges_sorted:
  "sorted_wrt (<) (ranges size_b range_b s_prev) \<and> (\<forall>r \<in> set (ranges size_b range_b s_prev). range_b \<le> r \<and> r \<le> size_b)
   \<and> (range_b \<le> size_b \<longrightarrow> last (ranges size_b range_b s_prev) = size_b)"
proof (induction size_b range_b s_prev rule: ranges.induct)
  case (1 size_b range_b s_prev)
  show ?case
  proof (cases "size_b < range_b")
    case True
    then show ?thesis by (simp add: ranges.simps)
  next
    case False
    obtain i p where i: "next_incr size_b range_b s_prev = (i, p)" by force
    note pos = next_incr_pos [OF i] and IH = "1.IH" [OF False]
    have "ranges size_b (range_b + i) p = [] \<longleftrightarrow> size_b < range_b + i" by (subst ranges.simps) simp
    then show ?thesis using pos IH False i by (subst (1 2 3) ranges.simps) fastforce
  qed
qed

section \<open>Properties\<close>

text \<open>The search for a block: when exactly the blocks of up to \<open>cap\<close> bytes can be allocated, the search ends after at most 65 calls on the way down with a size that can be allocated and
  is no larger than the one asked for; it is that one if it can be allocated, and otherwise at least half of what could be allocated.\<close>

theorem find_size_half:
  assumes "arg < 2 ^ 64"
  defines "start_b \<equiv> if arg < 2 ^ 20 then 2 ^ 30 else arg"
  shows "\<exists>r. find_size 65 (\<lambda>k size_b. size_b \<le> cap) arg = Some r \<and> r \<le> cap \<and> r \<le> start_b \<and> (if start_b \<le> cap then r = start_b else cap \<le> 2 * r)"
proof -
  have "start_b < 2 ^ 64" using assms(1) by (simp add: start_b_def)
  then obtain s mx k where d: "search_down 65 (fits cap) 0 start_b start_b = Some (s, mx, k)" "s \<le> cap"
    "start_b \<le> cap \<and> s = start_b \<and> mx = start_b \<or> cap < mx \<and> mx \<le> start_b \<and> s = mx div 2"
    using search_down_spec [of start_b 64 cap 0 start_b] by (auto simp del: search_down.simps)
  have "find_size 65 (fits cap) arg = Some (search_up (fits cap) k (s div 2 ^ 21) s mx)"
    using d(1) unfolding find_size_def Let_def start_b_def [symmetric] by simp
  moreover have "s \<le> mx" using d(3) by auto
  moreover define q where "q = search_up (fits cap) k (s div 2 ^ 21) s mx"
  moreover have "s = start_b \<and> q = start_b" if "start_b \<le> cap" using that d(3) by (auto simp: q_def search_up_top)
  moreover have "cap \<le> 2 * s" if "\<not> start_b \<le> cap" using that d(3) by linarith
  ultimately show ?thesis using search_up_spec [OF d(2), of mx k "s div 2 ^ 21"] d(3) by fastforce
qed

text \<open>The search up ends at the first size that cannot be allocated: when the first step up fails, it is over, although smaller steps are left.\<close>

lemma search_up_gives_up: "0 < d \<Longrightarrow> s + d * 2 ^ 20 \<le> mx \<Longrightarrow> \<not> ok k (s + d * 2 ^ 20) \<Longrightarrow> search_up ok k d s mx = s"
  by (subst search_up.simps) (simp add: Let_def)

text \<open>\<open>touchRange\<close> writes inside of the range, in both directions.\<close>

lemma touchRange_bounds:
  assumes "x \<in> set (touchRange left_w r stride)"
  shows "0 \<le> x \<and> x < int r"
proof (cases "stride = 0")
  case True
  then show ?thesis using assms by (simp add: touchRange_def touch_down.simps)
next
  case False
  show ?thesis
  proof (cases "0 < stride")
    case True
    then show ?thesis using touch_down_bounds [of x stride left_w 0 r] assms by (simp add: touchRange_def)
  next
    case neg: False
    then show ?thesis using touch_down_bounds [of x stride left_w "int r - 1" r] assms False by (simp add: touchRange_def)
  qed
qed

text \<open>C29. \<open>timeit\<close> on a block of at least a megabyte stays inside of the block and prints the megabytes of the last range before the first slow pass (the first megabyte when the first
  pass is slow), and of the whole block when no pass over its ranges is slow. A pass is slow when it takes more than \<open>TOO_LONG\<close> microseconds for a page of the range, that is at
  least \<open>TOO_LONG + 1\<close> times the number of pages, or when the alarm was triggered. The ranges grow from two megabytes to the size.\<close>

theorem timeit_in_bounds:
  assumes "2 ^ 20 \<le> size_b" "0 < pagesize" "pagesize \<le> 2 ^ 20" "length (ranges size_b (2 ^ 21) s_prev) \<le> length passes"
  defines "rs \<equiv> ranges size_b (2 ^ 21) s_prev"
  shows "\<exists>ts. timeit pagesize size_b passes s_prev
      = Some (Some ((if \<forall>x \<in> set (zip rs passes). fast_pass pagesize x then size_b else (2 ^ 20 # rs) ! fast_passes pagesize rs passes) div 2 ^ 20), ts)
    \<and> (\<forall>(off, len) \<in> set ts. off + len \<le> size_b)
    \<and> sorted_wrt (<) rs \<and> (\<forall>r \<in> set rs. 2 ^ 21 \<le> r \<and> r \<le> size_b) \<and> (2 ^ 21 \<le> size_b \<longrightarrow> last rs = size_b)"
proof -
  have all: "fast_passes pagesize rs passes = length rs \<longleftrightarrow> (\<forall>x \<in> set (zip rs passes). fast_pass pagesize x)"
    unfolding fast_passes_def using takeWhile_full [OF assms(4) [folded rs_def]] .
  have "(2 :: nat) ^ 20 + 2 ^ 20 = 2 ^ 21" by simp
  then obtain ts where r: "timeit_loop pagesize size_b passes (2 ^ 20 + 2 ^ 20) (2 ^ 20) s_prev
      = Some (if fast_passes pagesize rs passes = length rs then size_b else (2 ^ 20 # rs) ! fast_passes pagesize rs passes, ts)"
    "\<forall>(off, len) \<in> set ts. off + len \<le> size_b"
    using timeit_loop_spec [OF assms(2), of "2 ^ 21" "2 ^ 20" size_b s_prev passes] assms(1,3,4) unfolding rs_def by auto
  have "timeit pagesize size_b passes s_prev = Some (Some ((if fast_passes pagesize rs passes = length rs then size_b
      else (2 ^ 20 # rs) ! fast_passes pagesize rs passes) div 2 ^ 20), (0, 2 ^ 20) # ts)" using assms(1) r(1) by (simp add: timeit_def)
  then show ?thesis using r(2) assms(1) ranges_sorted [of size_b "2 ^ 21" s_prev] unfolding all rs_def [symmetric] by auto
qed

text \<open>A block of 1008 kilobytes is accepted, and \<open>timeit\<close> touches a whole megabyte.\<close>

lemma timeit_overrun: "timeit 4096 (1008 * 1024) [] 0 = Some (Some 0, [(0, 2 ^ 20)])"
  by (simp add: timeit_def timeit_loop.simps)

text \<open>Once \<open>s_prev\<close> is above 8 megabytes the step is one megabyte again, however large the range is.\<close>

lemma next_incr_stale: "8 * 2 ^ 20 < s_prev \<Longrightarrow> range_b + 2 ^ 20 \<le> size_b \<Longrightarrow> next_incr size_b range_b s_prev = (2 ^ 20, s_prev)"
  by (simp add: next_incr_def grow.simps)

theorem find_size_half_witness: "\<exists>r. find_size 65 (\<lambda>k size_b. size_b \<le> 1280 * 2 ^ 20) (2 ^ 32) = Some r \<and> r \<le> 1280 * 2 ^ 20 \<and> 1280 * 2 ^ 20 \<le> 2 * r"
  using find_size_half [of "2 ^ 32" "1280 * 2 ^ 20"] by auto

lemma demo_ranges: "ranges (3 * 2 ^ 20) (2 ^ 21) 0 = [2 ^ 21, 3 * 2 ^ 20]"
  by (simp add: ranges.simps next_incr_def grow.simps)

theorem timeit_in_bounds_witness:
  "\<exists>ts. timeit 4096 (3 * 2 ^ 20) [(5000, False), (9000, False)] 0 = Some (Some 2, ts) \<and> (\<forall>(off, len) \<in> set ts. off + len \<le> 3 * 2 ^ 20)"
proof -
  let ?passes = "[(5000, False), (9000, False)]"
  have "length (ranges (3 * 2 ^ 20) (2 ^ 21) 0) \<le> length ?passes" by (simp add: demo_ranges del: power_numeral)
  from timeit_in_bounds [OF _ _ _ this, of 4096] show ?thesis
    unfolding demo_ranges by (auto simp: fast_pass_def fast_passes_def TOO_LONG_def)
qed

end
