(* ===== verification/Lat_Mem_Rd.thy ===== *)
theory Lat_Mem_Rd
  imports Chains Overhead
begin

text \<open>
  The memory read latency of \<open>src/lat_mem_rd.c\<close>: the sizes that are measured (\<open>step\<close> and the loops of \<open>main\<close>), the walk over the chain of \<open>stride_initialize\<close> (\<open>benchmark_loads\<close>), and the
  time per load (\<open>loads\<close>). What \<open>benchmp\<close> leaves in the timing library is an argument of \<open>loads\<close>. Sizes are natural numbers; up to \<open>2^62\<close> bytes nothing wraps around.
\<close>

section \<open>The sizes\<close>

definition LOWER :: nat where
  "LOWER = 512"

definition STRIDE :: nat where
  "STRIDE = 512 div ptr_size"

text \<open>\<open>for (s = 4 * 1024; s <= k; s *= 2);\<close>\<close>

function above :: "nat \<Rightarrow> nat \<Rightarrow> nat" where
  "above k s = (if 0 < s \<and> s \<le> k then above k (2 * s) else s)"
  by pat_completeness auto
termination by (relation "measure (\<lambda>(k, s). Suc k - s)") auto

declare above.simps [simp del]

definition step :: "nat \<Rightarrow> nat" where
  "step k = (if k < 1024 then k * 2 else if k < 4 * 1024 then k + 1024 else k + above k (4 * 1024) div 4)"

lemma above_ge: "s \<le> above k s"
proof (induction k s rule: above.induct)
  case (1 k s)
  then show ?case by (subst above.simps) auto
qed

lemma step_grows: "0 < k \<Longrightarrow> k < step k"
  using above_ge [of 4096 k] by (auto simp: step_def div_greater_zero_iff)

text \<open>\<open>for (range = LOWER; range <= len; range = step(range))\<close>; from 0 the loop would not end.\<close>

function ranges :: "nat \<Rightarrow> nat \<Rightarrow> nat list" where
  "ranges len r = (if 0 < r \<and> r \<le> len then r # ranges len (step r) else [])"
  by pat_completeness auto
termination by (relation "measure (\<lambda>(len, r). Suc len - r)") (use step_grows in \<open>auto intro: diff_less_mono2\<close>)

declare ranges.simps [simp del]

section \<open>The walk\<close>

definition loads_count :: "nat \<Rightarrow> nat \<Rightarrow> nat" where
  "loads_count len line = 100 * (len div (line * 100) + 1)"

definition benchmark_loads :: "nat \<Rightarrow> mem_state \<Rightarrow> mem_lib \<Rightarrow> timing \<Rightarrow> (mem_state \<times> timing) outcome" where
  "benchmark_loads iters s l tm =
     (if ms_line s = 0 \<or> ms_p s = [] then Undefined
      else let count = ms_len s div (ms_line s * 100) + 1 in
           andthen (defined (chase (ml_mem l) (iters * (count * 100)) [ms_p s ! 0])) (\<lambda>ps.
             Done (s\<lparr>ms_p := (ms_p s)[0 := hd ps]\<rparr>, use_pointer (of_nat (hd ps)) tm)))"

text \<open>\<open>loads\<close>: nothing for a range below the stride; otherwise the two numbers it prints. \<open>tm\<close> is the state after \<open>benchmp\<close>.\<close>

definition loads :: "nat \<Rightarrow> nat \<Rightarrow> timing \<Rightarrow> ((dbl \<times> dbl) option \<times> timing) option" where
  "loads r stride tm =
     (if r < stride then Some (None, tm)
      else if stride = 0 then None
      else do { let count = loads_count r stride;
                tm \<leftarrow> save_minimum tm;
                Some (Some (d_div (d_of_u64 (of_nat r)) (Fin (1024 * 1024)),
                            d_div (d_mul (Fin 1000) (d_of_u64 (gettime tm))) (d_of_u64 (of_nat count * get_n tm))), tm) })"

text \<open>The calls of \<open>loads\<close> in \<open>main\<close>, as stride and range, for the length in megabytes and the strides on the command line.\<close>

definition mem_rd_calls :: "nat \<Rightarrow> nat list \<Rightarrow> (nat \<times> nat) list" where
  "mem_rd_calls megs strides =
     (let len = megs * (1024 * 1024) in
      if strides = [] then map (Pair STRIDE) (ranges len LOWER)
      else concat (map (\<lambda>stride. map (Pair stride) (ranges len LOWER)) strides))"

section \<open>Which sizes\<close>

lemma above_power: "s \<le> 2 ^ j \<Longrightarrow> 2 ^ j \<le> k \<Longrightarrow> k < 2 ^ Suc j \<Longrightarrow> s = 2 ^ i \<Longrightarrow> above k s = 2 ^ Suc j"
proof (induction k s arbitrary: i rule: above.induct)
  case (1 k s)
  have pos: "0 < s" "s \<le> k" using 1(5) order_trans [OF 1(2,3)] by simp_all
  show ?case
  proof (cases "s = 2 ^ j")
    case True
    then show ?thesis using pos 1(3,4) by (subst above.simps, simp, subst above.simps, simp)
  next
    case False
    then have "i < j" using 1(2,5) by (metis le_neq_implies_less nat_power_less_imp_less power_increasing_iff one_less_numeral_iff semiring_norm(76) pos2)
    then have "2 * s \<le> 2 ^ j" using 1(5) by (metis Suc_leI power_Suc power_increasing one_le_numeral)
    then have "above k (2 * s) = 2 ^ Suc j" using 1(1) [of "Suc i"] 1(3-5) pos by simp
    then show ?thesis using pos by (subst above.simps) simp
  qed
qed

lemma step_octave:
  assumes "12 \<le> j"
  shows "step (2 ^ j) = 3 * 2 ^ (j - 1)" "step (3 * 2 ^ (j - 1)) = 2 ^ Suc j"
proof -
  obtain i where i: "j = Suc (Suc i)" using assms that [of "j - 2"] by simp
  have p: "(2 :: nat) ^ 12 \<le> 2 ^ j" using assms by (rule power_increasing) simp
  then have big: "\<not> 2 ^ j < (4 * 1024 :: nat)" "\<not> 3 * 2 ^ (j - 1) < (4 * 1024 :: nat)" "\<not> 3 * 2 ^ (j - 1) < (1024 :: nat)" "\<not> 2 ^ j < (1024 :: nat)" using i(1) by auto
  have "above (2 ^ j) (4 * 1024) = 2 ^ Suc j" using p by (intro above_power [of _ _ _ 12]) auto
  moreover have "above (3 * 2 ^ (j - 1)) (4 * 1024) = 2 ^ Suc j" using p i(1) by (intro above_power [of _ _ _ 12]) auto
  ultimately show "step (2 ^ j) = 3 * 2 ^ (j - 1)" "step (3 * 2 ^ (j - 1)) = 2 ^ Suc j" using big i(1) by (simp_all add: step_def)
qed

definition octaves :: "nat \<Rightarrow> nat \<Rightarrow> bool" where
  "octaves j x = (\<exists>i \<ge> j. x = 2 ^ i \<or> x = 3 * 2 ^ (i - 1))"

lemma octaves_split: "octaves j x \<longleftrightarrow> x = 2 ^ j \<or> x = 3 * 2 ^ (j - 1) \<or> octaves (Suc j) x"
proof -
  have "j \<le> i \<longleftrightarrow> i = j \<or> Suc j \<le> i" for i by auto
  then show ?thesis unfolding octaves_def by (simp only: ex_disj_distrib conj_disj_distribR conj_disj_distribL) blast
qed

lemma octaves_ge:
  assumes "octaves j x" "1 \<le> j"
  shows "2 ^ j \<le> x"
proof -
  obtain i where i: "j \<le> i" "x = 2 ^ i \<or> x = 3 * 2 ^ (i - 1)" using assms(1) by (auto simp: octaves_def)
  have "(2 :: nat) ^ j \<le> 2 ^ i" using i(1) by (rule power_increasing) simp
  moreover have "(2 :: nat) ^ i \<le> 3 * 2 ^ (i - 1)" using i(1) assms(2) by (cases i) auto
  ultimately show ?thesis using i(2) by linarith
qed

lemma ranges_octaves: "12 \<le> j \<Longrightarrow> sorted_wrt (<) (ranges len (2 ^ j)) \<and> set (ranges len (2 ^ j)) = {x. x \<le> len \<and> octaves j x}"
proof (induction "Suc len - 2 ^ j" arbitrary: j rule: less_induct)
  case less
  have p: "3 * 2 ^ (j - 1) = 2 ^ j + (2 :: nat) ^ (j - 1)" "2 ^ Suc j = 2 ^ j + 2 ^ (j - 1) + (2 :: nat) ^ (j - 1)" "0 < (2 :: nat) ^ (j - 1)"
    using less.prems by (cases j; simp)+
  show ?case
  proof (cases "2 ^ j \<le> len")
    case False
    then have "\<not> (x \<le> len \<and> octaves j x)" for x using octaves_ge [of j x] less.prems by auto
    then show ?thesis using False by (subst (1 2) ranges.simps) auto
  next
    case True
    have u: "ranges len (2 ^ j) = 2 ^ j # ranges len (3 * 2 ^ (j - 1))" using True step_octave(1) [OF less.prems] by (subst ranges.simps) simp
    show ?thesis
    proof (cases "3 * 2 ^ (j - 1) \<le> len")
      case False
      then have "\<not> (x \<le> len \<and> octaves (Suc j) x)" for x using octaves_ge [of "Suc j" x] p by linarith
      moreover have "ranges len (3 * 2 ^ (j - 1)) = []" using False by (subst ranges.simps) simp
      ultimately show ?thesis unfolding u using False True octaves_split [of j] by auto
    next
      case t: True
      have v: "ranges len (3 * 2 ^ (j - 1)) = 3 * 2 ^ (j - 1) # ranges len (2 ^ Suc j)" using t step_octave(2) [OF less.prems] by (subst ranges.simps) simp
      have "Suc len - 2 ^ Suc j < Suc len - 2 ^ j" using True p by linarith
      then have ih: "sorted_wrt (<) (ranges len (2 ^ Suc j))" "set (ranges len (2 ^ Suc j)) = {x. x \<le> len \<and> octaves (Suc j) x}"
        using less.hyps [of "Suc j"] less.prems by auto
      have "3 * 2 ^ (j - 1) < x \<and> 2 ^ j < x" if "x \<in> set (ranges len (2 ^ Suc j))" for x
      proof -
        have "2 ^ Suc j \<le> x" using that ih(2) octaves_ge [of "Suc j" x] by auto
        then show ?thesis using p by linarith
      qed
      moreover have "2 ^ j < 3 * (2 :: nat) ^ (j - 1)" using p by linarith
      ultimately show ?thesis unfolding u v using ih t True octaves_split [of j] by (auto simp del: power_Suc)
    qed
  qed
qed

section \<open>The walk covers the chain\<close>

lemma chase_visits: "linked (points_to m) x as y \<Longrightarrow> k < length as \<Longrightarrow> chase m k [x] = Some [as ! k]"
proof (induction as arbitrary: x k)
  case (Cons a as)
  from Cons.prems(1) obtain b where b: "x = a" "points_to m a b" "linked (points_to m) b as y" by auto
  then have "deref m [x] = Some [b]" by (simp add: deref_def points_to_def)
  then show ?case using Cons.IH [OF b(3)] Cons.prems(2) b(1) by (cases k) auto
qed simp

lemma loads_cover: "0 < line \<Longrightarrow> (len + line - 1) div line \<le> loads_count len line"
proof -
  assume line: "0 < line"
  define q where "q = len div (line * 100)"
  have "len < (line * 100) * (q + 1)" unfolding q_def using line by (metis dividend_less_div_times mult.commute mult_Suc_right Suc_eq_plus1 nat_0_less_mult_iff zero_less_numeral add.commute)
  then have "(len + line - 1) div line < 100 * (q + 1) + 1" using line by (intro div_less_iff_less_mult [THEN iffD2]) (auto simp: algebra_simps)
  then show ?thesis by (simp add: loads_count_def q_def)
qed

section \<open>Properties\<close>

text \<open>The sizes of \<open>lat_mem_rd\<close>: exactly 512 and 1024 to 4096 in steps of 1024 bytes, and from there every \<open>2^i\<close> and \<open>3 * 2^(i-1)\<close> up to the length, each once and in increasing order.\<close>

theorem ranges_sizes:
  "sorted_wrt (<) (ranges len LOWER)
   \<and> set (ranges len LOWER) = {x. x \<le> len \<and> (x \<in> {512, 1024, 2048, 3072} \<or> (\<exists>i \<ge> 12. x = 2 ^ i \<or> x = 3 * 2 ^ (i - 1)))}"
proof -
  have o: "sorted_wrt (<) (ranges len 4096)" "set (ranges len 4096) = {x. x \<le> len \<and> octaves 12 x}" using ranges_octaves [of 12 len] by simp_all
  have ge: "4096 \<le> x" if "octaves 12 x" for x using octaves_ge [OF that] by simp
  have st: "step 512 = 1024" "step 1024 = 2048" "step 2048 = 3072" "step 3072 = 4096" by (simp_all add: step_def)
  have "ranges len 512 = filter (\<lambda>x. x \<le> len) [512, 1024, 2048, 3072] @ ranges len 4096"
    by (subst ranges.simps, subst st, subst ranges.simps, subst st, subst ranges.simps, subst st, subst ranges.simps, subst st) (auto simp: ranges.simps [of len 4096])
  then show ?thesis using o ge unfolding LOWER_def octaves_def [symmetric] by (auto simp: sorted_wrt_append dest: ge)
qed

text \<open>C9. One iteration of the walk covers the chain: on the chain that \<open>stride_initialize\<close> builds, \<open>benchmark_loads\<close> is defined, follows \<open>count\<close> pointers per iteration, the number by which \<open>loads\<close>
  divides the time, meets every element of the chain in the first of them, and ends on the chain, from where the next call goes on.\<close>

theorem benchmark_loads_covers:
  assumes "area_ok e s" "ptr_size \<le> ms_line s" "ms_line s \<le> ms_pagesize s" "0 < length (ms_p s)"
  shows "\<exists>t l' u tm'. stride_initialize e 0 s l = Done (t, l') \<and> benchmark_loads iters t l' tm = Done (u, tm')
    \<and> chase (ml_mem l') (iters * loads_count (ms_len s) (ms_line s)) [ms_p t ! 0] = Some [ms_p u ! 0] \<and> ms_p u ! 0 \<in> set (stride_layout t)
    \<and> (\<forall>a \<in> set (stride_layout t). \<exists>k < loads_count (ms_len s) (ms_line s). chase (ml_mem l') k [ms_p t ! 0] = Some [a])"
proof -
  obtain t l' where i: "stride_initialize e 0 s l = Done (t, l')" "ring (ml_mem l') (stride_layout t)" "ms_p t ! 0 = hd (stride_layout t)"
    "length (stride_layout t) = (ms_len s + ms_line s - 1) div ms_line s" "ms_line t = ms_line s" "ms_len t = ms_len s" "length (ms_p t) = length (ms_p s)"
    using stride_initialize_builds [OF assms] by blast
  let ?as = "stride_layout t" and ?m = "ml_mem l'" and ?n = "loads_count (ms_len s) (ms_line s)"
  have line: "0 < ms_line s" using assms(2) by (simp add: ptr_size_def)
  have ring: "linked (points_to ?m) (hd ?as) ?as (hd ?as)" "hd ?as \<in> set ?as" using i(2) by (auto simp: ring_def)
  obtain b where b: "chase ?m (iters * ?n) [hd ?as] = Some [b]" "b \<in> set ?as"
    using chase_ring [OF i(2), of "[hd ?as]" "iters * ?n"] ring(2) by (auto simp: length_Suc_conv)
  have n: "ms_len t div (ms_line t * 100) + 1 = ?n div 100" "(?n div 100) * 100 = ?n" using i(5,6) by (simp_all add: loads_count_def)
  have "ms_p t \<noteq> []" using i(7) assms(4) by auto
  then have "benchmark_loads iters t l' tm = Done (t\<lparr>ms_p := (ms_p t)[0 := b]\<rparr>, use_pointer (of_nat b) tm)"
    using b(1) i(3,5) line unfolding benchmark_loads_def Let_def n by (simp add: defined_def)
  moreover have "\<exists>k < ?n. chase ?m k [hd ?as] = Some [a]" if "a \<in> set ?as" for a
  proof -
    from that obtain k where "k < length ?as" "a = ?as ! k" by (metis in_set_conv_nth)
    then show ?thesis using chase_visits [OF ring(1)] loads_cover [OF line, of "ms_len s"] i(4) by (metis order_less_le_trans)
  qed
  ultimately show ?thesis using i(1,3,7) b assms(4) by auto
qed

theorem benchmark_loads_covers_witness:
  "\<exists>t l' u tm'. stride_initialize demo_env 0 demo_state demo_lib = Done (t, l')
     \<and> benchmark_loads 3 t l' (timing_init (\<lambda>_. \<lparr>tv_sec = 0, tv_usec = 0\<rparr>)) = Done (u, tm') \<and> ms_p u ! 0 \<in> set (stride_layout t)"
proof -
  have "area_ok demo_env demo_state" "ptr_size \<le> ms_line demo_state" "ms_line demo_state \<le> ms_pagesize demo_state" "0 < length (ms_p demo_state)"
    using demo_geometry by (simp_all add: geometry_def demo_state_def ptr_size_def)
  from benchmark_loads_covers [OF this, of demo_lib 3 "timing_init (\<lambda>_. \<lparr>tv_sec = 0, tv_usec = 0\<rparr>)"] show ?thesis by blast
qed

end
