(* ===== verification/Transfers.thy ===== *)
theory Transfers
  imports Ctext Memchain
begin

text \<open>
  The transfer loops of the bandwidth benchmarks: \<open>src/bw_pipe.c\<close>, \<open>src/bw_unix.c\<close>, \<open>src/bw_tcp.c\<close>, \<open>src/bw_udp.c\<close> and \<open>src/bw_file_rd.c\<close>. What \<open>read\<close>, \<open>write\<close>, \<open>send\<close> and \<open>recv\<close> return is a list of answers; a
  loop that has used up its answers and wants more gives \<open>None\<close>. \<open>size_t\<close> and \<open>uint64\<close> are words of 64 bits.
\<close>

section \<open>The number of bytes\<close>

text \<open>\<open>bw_pipe\<close>, \<open>bw_unix\<close> and \<open>bw_udp\<close>: \<open>state.bytes += state.bytes - state.bytes % state.xfer\<close>; the remainder by zero is undefined.\<close>

definition round_bytes :: "u64 \<Rightarrow> u64 \<Rightarrow> u64 option" where
  "round_bytes n xfer = (if xfer = 0 then None else Some (if n mod xfer \<noteq> 0 then n + (n - n mod xfer) else n))"

definition pipe_bytes :: "u64 \<Rightarrow> u64 \<Rightarrow> u64 option" where
  "pipe_bytes n xfer = (if n < xfer then Some xfer else round_bytes n xfer)"

text \<open>\<open>bw_tcp\<close>: the defaults and the rounding.\<close>

definition XFERSIZE :: u64 where
  "XFERSIZE = 64 * 1024"

definition tcp_sizes :: "u64 \<Rightarrow> u64 \<Rightarrow> u64 \<times> u64" where
  "tcp_sizes msize move =
     (let (msize, move) = (if msize = 0 \<and> move = 0 then (XFERSIZE, XFERSIZE) else if msize = 0 then (move, move) else if move = 0 then (msize, msize) else (msize, move))
      in (msize, if move mod msize \<noteq> 0 then move + (msize - move mod msize) else move))"

section \<open>Pipes and sockets\<close>

text \<open>One iteration of \<open>reader\<close> of \<open>bw_pipe\<close>: \<open>for (done = 0; done < state->bytes; done += n)\<close>. A result of 0, the end of the file, is not an error.\<close>

fun pipe_pass :: "u64 \<Rightarrow> u64 \<Rightarrow> int list \<Rightarrow> int list outcome option" where
  "pipe_pass n got [] = (if n \<le> got then Some (Done []) else None)"
| "pipe_pass n got (r # rs) = (if n \<le> got then Some (Done (r # rs)) else if r < 0 then Some (Exit 1) else pipe_pass n (got + of_int r) rs)"

text \<open>One message of \<open>writer\<close> of \<open>bw_pipe\<close>.\<close>

fun pipe_write :: "u64 \<Rightarrow> u64 \<Rightarrow> int list \<Rightarrow> int list outcome option" where
  "pipe_write xfer put [] = (if xfer \<le> put then Some (Done []) else None)"
| "pipe_write xfer put (r # rs) = (if xfer \<le> put then Some (Done (r # rs)) else if r < 0 then Some (Exit 0) else pipe_write xfer (put + of_int r) rs)"

text \<open>One iteration of \<open>reader\<close> of \<open>bw_unix\<close>, where \<open>n\<close> is a \<open>size_t\<close> and \<open>n <= 0\<close> holds for 0 only.\<close>

fun unix_pass :: "u64 \<Rightarrow> u64 \<Rightarrow> int list \<Rightarrow> int list outcome option" where
  "unix_pass n got [] = (if n \<le> got then Some (Done []) else None)"
| "unix_pass n got (r # rs) =
     (if n \<le> got then Some (Done (r # rs)) else if (of_int r :: u64) \<le> 0 then Some (Exit 1) else unix_pass n (got + of_int r) rs)"

text \<open>One iteration of \<open>loop_transfer\<close> of \<open>bw_tcp\<close>; the answers are \<open>int\<close>.\<close>

fun tcp_pass :: "u64 \<Rightarrow> int list \<Rightarrow> int list outcome option" where
  "tcp_pass todo [] = (if todo = 0 then Some (Done []) else None)"
| "tcp_pass todo (c # cs) =
     (if todo = 0 then Some (Done (c # cs))
      else if c \<le> 0 then Some (Exit 1)
      else let c = (if todo < of_int c then wrap32 (uint todo) else c) in tcp_pass (todo - of_int c) cs)"

text \<open>The iterations of a benchmark over its passes.\<close>

fun transfer_passes :: "nat \<Rightarrow> (int list \<Rightarrow> int list outcome option) \<Rightarrow> int list \<Rightarrow> int list outcome option" where
  "transfer_passes 0 f rs = Some (Done rs)"
| "transfer_passes (Suc k) f rs = (case f rs of Some (Done rs) \<Rightarrow> transfer_passes k f rs | x \<Rightarrow> x)"

text \<open>The message size that a client of \<open>bw_tcp\<close> sends, with its terminating zero, and what \<open>source\<close> makes of it, for a message that arrives in one piece; \<open>scratch\<close> is 100 bytes of zero.\<close>

definition tcp_control :: "u64 \<Rightarrow> string" where
  "tcp_control msize = show_nat (unat msize) @ [CHR 0x00]"

definition source_size :: "string \<Rightarrow> u64 option" where
  "source_size msg = scan_llu (takeWhile (\<lambda>c. c \<noteq> CHR 0x00) (take 100 msg @ replicate (100 - length msg) (CHR 0x00)))"

section \<open>bw_udp\<close>

text \<open>\<open>while (nbytes > 0)\<close> of \<open>loop_transfer\<close>: the datagrams that are received, each of \<open>msize\<close> bytes or an error. With no size it would not end.\<close>

fun udp_recv :: "int \<Rightarrow> int \<Rightarrow> int list \<Rightarrow> (int \<times> int list) outcome option" where
  "udp_recv msize nbytes [] = (if nbytes \<le> 0 then Some (Done (nbytes, [])) else None)"
| "udp_recv msize nbytes (r # rs) =
     (if nbytes \<le> 0 then Some (Done (nbytes, r # rs)) else if r \<noteq> msize then Some (Exit 5) else udp_recv msize (nbytes - msize) rs)"

text \<open>\<open>loop_transfer\<close>, where every \<open>send\<close> of the control message succeeds: \<open>nbytes\<close> is set before the iterations. The result is \<open>nbytes\<close>, the answers that are left and the number of requests.\<close>

fun udp_iterations :: "nat \<Rightarrow> int \<Rightarrow> int \<Rightarrow> int list \<Rightarrow> (int \<times> int list \<times> nat) outcome option" where
  "udp_iterations 0 msize nbytes rs = Some (Done (nbytes, rs, 0))"
| "udp_iterations (Suc k) msize nbytes rs =
     (case udp_recv msize nbytes rs of
        None \<Rightarrow> None
      | Some (Done (nbytes, rs)) \<Rightarrow> map_option (\<lambda>x. andthen x (\<lambda>(nbytes, rs, n). Done (nbytes, rs, Suc n))) (udp_iterations k msize nbytes rs)
      | Some (Exit n) \<Rightarrow> Some (Exit n)
      | Some Undefined \<Rightarrow> Some Undefined)"

definition udp_transfer :: "nat \<Rightarrow> int \<Rightarrow> int \<Rightarrow> int list \<Rightarrow> (int \<times> int list \<times> nat) outcome option" where
  "udp_transfer iters move msize rs = udp_iterations iters msize move rs"

section \<open>bw_file_rd\<close>

definition MINSZ :: u64 where
  "MINSZ = 4 * 128"

text \<open>The unit of the transfers; a count below \<open>MINSZ\<close> ends the program.\<close>

definition file_xfersize :: "u64 \<Rightarrow> u64 outcome" where
  "file_xfersize n = (if n < MINSZ then Exit 1 else Done (if n < XFERSIZE then n else XFERSIZE))"

text \<open>\<open>doit\<close>: what is asked from \<open>read\<close> and handed to \<open>bread\<close>, for the answers of \<open>read\<close>; an answer that is not positive ends the loop. The number of bytes that were read is not looked at.\<close>

fun doit :: "u64 \<Rightarrow> u64 \<Rightarrow> u64 \<Rightarrow> int list \<Rightarrow> (u64 \<times> u64) list option" where
  "doit xfersize left_b chunk [] = (if left_b = 0 then Some [] else None)"
| "doit xfersize left_b chunk (r # rs) =
     (if left_b = 0 then Some []
      else let chunk = (if left_b < chunk then left_b else chunk) in
           if r \<le> 0 then Some []
           else map_option (Cons (min left_b chunk, min left_b xfersize)) (doit xfersize (left_b - chunk) chunk rs))"

section \<open>Draining\<close>

text \<open>The reference: answers are used up until \<open>goal\<close> bytes have come; the result is the answers that are left.\<close>

fun drain :: "nat \<Rightarrow> int list \<Rightarrow> int list option" where
  "drain goal [] = (if goal = 0 then Some [] else None)"
| "drain goal (r # rs) = (if goal = 0 then Some (r # rs) else drain (goal - nat r) rs)"

definition good_reads :: "nat \<Rightarrow> int list \<Rightarrow> bool" where
  "good_reads xfer rs = (\<forall>r \<in> set rs. 0 < r \<and> r \<le> int xfer)"

lemma good_reads_Cons [simp]: "good_reads xfer (r # rs) \<longleftrightarrow> 0 < r \<and> r \<le> int xfer \<and> good_reads xfer rs"
  by (auto simp: good_reads_def)

lemma drain_0 [simp]: "drain 0 rs = Some rs"
  by (cases rs) auto

lemma drain_spec:
  "good_reads xfer rs \<Longrightarrow> drain goal rs = Some rest \<longleftrightarrow>
     (\<exists>us. rs = us @ rest \<and> goal \<le> sum_list (map nat us) \<and> (us \<noteq> [] \<longrightarrow> sum_list (map nat (butlast us)) < goal))"
proof (induction goal rs rule: drain.induct)
  case (2 goal r rs)
  show ?case
  proof (cases "goal = 0")
    case True
    have "us = []" if "us \<noteq> [] \<longrightarrow> sum_list (map nat (butlast us)) < goal" for us using that True by auto
    then show ?thesis using True by auto
  next
    case False
    have IH: "drain (goal - nat r) rs = Some rest \<longleftrightarrow>
        (\<exists>us. rs = us @ rest \<and> goal - nat r \<le> sum_list (map nat us) \<and> (us \<noteq> [] \<longrightarrow> sum_list (map nat (butlast us)) < goal - nat r))"
      using 2 False by simp
    show ?thesis
    proof
      assume "drain goal (r # rs) = Some rest"
      then obtain us where us: "rs = us @ rest" "goal - nat r \<le> sum_list (map nat us)" "us \<noteq> [] \<longrightarrow> sum_list (map nat (butlast us)) < goal - nat r"
        using IH False by auto
      then show "\<exists>us. r # rs = us @ rest \<and> goal \<le> sum_list (map nat us) \<and> (us \<noteq> [] \<longrightarrow> sum_list (map nat (butlast us)) < goal)"
        using False by (intro exI [of _ "r # us"]) auto
    next
      assume "\<exists>us. r # rs = us @ rest \<and> goal \<le> sum_list (map nat us) \<and> (us \<noteq> [] \<longrightarrow> sum_list (map nat (butlast us)) < goal)"
      then obtain us where us: "r # rs = us @ rest" "goal \<le> sum_list (map nat us)" "us \<noteq> [] \<longrightarrow> sum_list (map nat (butlast us)) < goal" by blast
      then obtain vs where vs: "us = r # vs" "rs = vs @ rest" using False by (cases us) auto
      then have "drain (goal - nat r) rs = Some rest" using us IH by (auto split: if_splits)
      then show "drain goal (r # rs) = Some rest" using False by simp
    qed
  qed
qed auto

section \<open>The loops drain\<close>

lemma unat_add_int:
  assumes "0 < r" "unat got + nat r < 2 ^ 64"
  shows "unat (got + of_int r :: u64) = unat got + nat r"
proof -
  have "of_int r = (of_nat (nat r) :: u64)" using assms(1) by simp
  moreover have "unat (of_nat (nat r) :: u64) = nat r" using assms(2) by (intro unat_of_nat64) simp
  ultimately show ?thesis using assms(2) unat_add_lem [of got "of_int r"] by simp
qed

text \<open>A loop that counts what has come: it stops at \<open>n\<close> bytes, wants an answer before, and adds a positive answer.\<close>

locale draining =
  fixes pass :: "u64 \<Rightarrow> u64 \<Rightarrow> int list \<Rightarrow> int list outcome option"
  assumes pass_stop: "n \<le> got \<Longrightarrow> pass n got rs = Some (Done rs)"
    and pass_empty: "got < n \<Longrightarrow> pass n got [] = None"
    and pass_step: "got < n \<Longrightarrow> 0 < r \<Longrightarrow> r < 2 ^ 31 \<Longrightarrow> unat got + nat r < 2 ^ 64 \<Longrightarrow> pass n got (r # rs) = pass n (got + of_int r) rs"
begin

lemma drains:
  assumes "good_reads xfer rs" "xfer < 2 ^ 31" "unat n + xfer < 2 ^ 64"
  shows "pass n got rs = map_option Done (drain (unat n - unat got) rs)"
  using assms(1)
proof (induction rs arbitrary: got)
  case Nil
  then show ?case using pass_stop [of n got "[]"] pass_empty [of got n] by (cases "n \<le> got") (auto simp: word_le_nat_alt word_less_nat_alt)
next
  case (Cons r rs)
  show ?case
  proof (cases "n \<le> got")
    case True
    then show ?thesis by (simp add: pass_stop word_le_nat_alt)
  next
    case False
    then have lt: "unat got < unat n" by (simp add: word_less_nat_alt not_le)
    then have "unat got + nat r < 2 ^ 64" using Cons.prems assms(3) by auto
    then have "pass n got (r # rs) = pass n (got + of_int r) rs" "unat (got + of_int r) = unat got + nat r"
      using False Cons.prems assms(2) by (auto simp: not_le intro!: pass_step unat_add_int)
    then show ?thesis using Cons lt by simp
  qed
qed

text \<open>Every goal is met, once enough has come.\<close>

lemma meets_goal:
  assumes "good_reads xfer rs" "xfer < 2 ^ 31" "unat n + xfer < 2 ^ 64" "unat n \<le> sum_list (map nat rs)"
  shows "\<exists>us rest. rs = us @ rest \<and> pass n 0 rs = Some (Done rest) \<and> unat n \<le> sum_list (map nat us) \<and> sum_list (map nat us) \<le> unat n + (xfer - 1)"
proof -
  have "\<exists>rest. drain goal rs = Some rest" if "goal \<le> sum_list (map nat rs)" for goal
    using that by (induction goal rs rule: drain.induct) auto
  then obtain rest where d: "drain (unat n) rs = Some rest" using assms(4) by blast
  then obtain us where us: "rs = us @ rest" "unat n \<le> sum_list (map nat us)" "us \<noteq> [] \<longrightarrow> sum_list (map nat (butlast us)) < unat n"
    using drain_spec [OF assms(1)] by blast
  have "sum_list (map nat us) \<le> unat n + (xfer - 1)"
  proof (cases "us = []")
    case True
    then show ?thesis by simp
  next
    case False
    then have "sum_list (map nat us) = sum_list (map nat (butlast us)) + nat (last us)" by (subst append_butlast_last_id [symmetric]) (simp_all del: append_butlast_last_id)
    moreover have "0 < last us \<and> last us \<le> int xfer" using last_in_set [OF False] us(1) assms(1) unfolding good_reads_def by (metis UnI1 set_append)
    ultimately show ?thesis using us(3) False by linarith
  qed
  then show ?thesis using us d drains [OF assms(1-3), of 0] by auto
qed

end

interpretation pipe_reader: draining pipe_pass
proof
  show "pipe_pass n got rs = Some (Done rs)" if "n \<le> got" for n got rs using that by (cases rs) auto
qed auto

interpretation pipe_writer: draining pipe_write
proof
  show "pipe_write n got rs = Some (Done rs)" if "n \<le> got" for n got rs using that by (cases rs) auto
qed auto

lemma unat_int: "0 < r \<Longrightarrow> r < 2 ^ 31 \<Longrightarrow> unat (of_int r :: u64) = nat r"
  using unat_add_int [of r 0] by simp

lemma of_int_u64_pos: "0 < r \<Longrightarrow> r < 2 ^ 31 \<Longrightarrow> (of_int r :: u64) \<noteq> 0"
  using unat_int [of r] by auto

interpretation unix_reader: draining unix_pass
proof
  show "unix_pass n got rs = Some (Done rs)" if "n \<le> got" for n got rs using that by (cases rs) auto
qed (auto simp: of_int_u64_pos)

text \<open>\<open>bw_tcp\<close> counts down instead.\<close>

interpretation tcp_reader: draining "\<lambda>n got. tcp_pass (if n \<le> got then 0 else n - got)"
proof
  show "tcp_pass (if n \<le> got then 0 else n - got) rs = Some (Done rs)" if "n \<le> got" for n got rs using that by (cases rs) auto
  show "tcp_pass (if n \<le> got then 0 else n - got) [] = None" if "got < n" for n got using that by auto
next
  fix got n :: u64 and r :: int and rs
  assume lt: "got < n" "0 < r" "r < 2 ^ 31" "unat got + nat r < 2 ^ 64"
  show "tcp_pass (if n \<le> got then 0 else n - got) (r # rs) = tcp_pass (if n \<le> got + of_int r then 0 else n - (got + of_int r)) rs"
  proof -
    define todo where "todo = n - got"
    have un: "unat todo = unat n - unat got" using lt(1) unfolding todo_def by (simp add: unat_sub_if_size word_less_nat_alt)
    have ur: "unat (of_int r :: u64) = nat r" "unat (got + of_int r) = unat got + nat r" by (rule unat_int [OF lt(2,3)]) (rule unat_add_int [OF lt(2,4)])
    have nle: "\<not> n \<le> got" using lt(1) by simp
    have t0: "todo \<noteq> 0" using un lt(1) by (auto simp: word_less_nat_alt)
    show ?thesis
    proof (cases "todo < of_int r")
      case True
      then have "unat todo < nat r" using ur(1) by (simp add: word_less_nat_alt)
      then have "uint todo < 2 ^ 31" using lt(3) uint_nat [of todo] by linarith
      then have "wrap32 (uint todo) = uint todo" using wrap32_id [of "uint todo"] uint_nonnegative [of todo] by linarith
      moreover have "n \<le> got + of_int r" using \<open>unat todo < nat r\<close> un ur(2) by (simp add: word_le_nat_alt)
      ultimately show ?thesis using True t0 lt(2) nle by (simp add: todo_def [symmetric])
    next
      case False
      then have "nat r \<le> unat todo" using ur(1) by (simp add: word_less_nat_alt)
      moreover have "todo - of_int r = n - (got + of_int r)" by (simp add: todo_def)
      moreover have "n = got + of_int r" if "n \<le> got + of_int r"
        using that \<open>nat r \<le> unat todo\<close> un ur(2) lt(1) by (simp add: word_unat_eq_iff word_le_nat_alt word_less_nat_alt)
      ultimately have "todo - of_int r = (if n \<le> got + of_int r then 0 else n - (got + of_int r))" by (metis diff_self)
      then show ?thesis using False t0 lt(2) nle by (simp add: todo_def [symmetric])
    qed
  qed
qed

section \<open>The other loops\<close>

lemma udp_recv_all:
  "0 < msize \<Longrightarrow> move \<le> int k * msize \<Longrightarrow> (k = 0 \<or> int (k - 1) * msize < move) \<Longrightarrow>
   udp_recv msize move (replicate k msize @ rs) = Some (Done (move - int k * msize, rs))"
proof (induction k arbitrary: move)
  case 0
  then show ?case by (cases rs) auto
next
  case (Suc k)
  have "int k * msize < move" "0 \<le> int k * msize" using Suc.prems(1,3) by simp_all
  then have "0 < move" by linarith
  moreover have "udp_recv msize (move - msize) (replicate k msize @ rs) = Some (Done (move - msize - int k * msize, rs))"
    using Suc.prems by (intro Suc.IH) (cases k; simp add: algebra_simps)+
  ultimately show ?case by (simp add: algebra_simps)
qed

lemma udp_later: "nbytes \<le> 0 \<Longrightarrow> udp_iterations k msize nbytes rs = Some (Done (nbytes, rs, k))"
proof (induction k)
  case (Suc k)
  have "udp_recv msize nbytes rs = Some (Done (nbytes, rs))" using Suc.prems by (cases rs) auto
  then show ?case using Suc by simp
qed simp

lemma doit_covers:
  assumes "0 < xfersize" "\<forall>r \<in> set rs. 0 < r"
  shows "chunk \<le> xfersize \<Longrightarrow> 0 < chunk \<Longrightarrow> (chunk = xfersize \<or> left_b \<le> chunk) \<Longrightarrow> unat left_b \<le> length rs * unat chunk \<Longrightarrow>
    \<exists>qs. doit xfersize left_b chunk rs = Some qs \<and> sum_list (map (\<lambda>q. unat (fst q)) qs) = unat left_b \<and> (\<forall>(a, b) \<in> set qs. a = b \<and> b \<le> xfersize)"
  using assms(2)
proof (induction rs arbitrary: left_b chunk)
  case Nil
  then show ?case by (simp add: unat_eq_0)
next
  case (Cons r rs)
  show ?case
  proof (cases "left_b = 0")
    case False
    define c where "c = (if left_b < chunk then left_b else chunk)"
    have c: "c \<le> left_b" "c \<le> xfersize" "0 < c" "unat (left_b - c) = unat left_b - unat c"
      using False Cons.prems(1,2) by (auto simp: c_def unat_sub word_gt_0)
    have "unat (left_b - c) \<le> length rs * unat c" using Cons.prems(4) c(4) by (auto simp: c_def word_less_nat_alt not_less)
    moreover have "c = xfersize \<or> left_b - c \<le> c" using Cons.prems(3) by (auto simp: c_def word_le_nat_alt word_less_nat_alt unat_sub split: if_splits)
    ultimately obtain qs where qs: "doit xfersize (left_b - c) c rs = Some qs" "sum_list (map (\<lambda>q. unat (fst q)) qs) = unat (left_b - c)" "\<forall>(a, b) \<in> set qs. a = b \<and> b \<le> xfersize"
      using Cons.IH [of c "left_b - c"] Cons.prems(5) c(2,3) by auto
    have "doit xfersize left_b chunk (r # rs) = Some ((min left_b c, min left_b xfersize) # qs)"
      using False Cons.prems(5) qs(1) by (simp add: c_def [symmetric] Let_def)
    moreover have "min left_b c = c" using c(1) by (simp add: min_def)
    moreover have "min left_b xfersize = c" using Cons.prems(1,3) c(1,2) by (auto simp: c_def min_def split: if_splits)
    ultimately show ?thesis using qs(2,3) c by (auto simp: word_le_nat_alt)
  qed simp
qed

section \<open>Properties\<close>

text \<open>C28. The loops that move data: whenever the reads deliver between 1 and \<open>xfer\<close> bytes each, one iteration of the readers of \<open>bw_pipe\<close>, \<open>bw_unix\<close> and \<open>bw_tcp\<close> ends as soon as \<open>n\<close> bytes have come,
  with fewer than \<open>xfer\<close> bytes more than that, and leaves the later answers alone; the same holds for a message of the writer of \<open>bw_pipe\<close>.\<close>

theorem transfers_meet_goal:
  assumes "good_reads xfer rs" "xfer < 2 ^ 31" "unat n + xfer < 2 ^ 64" "unat n \<le> sum_list (map nat rs)" "0 < xfer"
  shows "\<exists>us rest. rs = us @ rest \<and> unat n \<le> sum_list (map nat us) \<and> sum_list (map nat us) < unat n + xfer
    \<and> pipe_pass n 0 rs = Some (Done rest) \<and> unix_pass n 0 rs = Some (Done rest) \<and> tcp_pass n rs = Some (Done rest) \<and> pipe_write n 0 rs = Some (Done rest)"
proof -
  obtain us rest where us: "rs = us @ rest" "pipe_pass n 0 rs = Some (Done rest)" "unat n \<le> sum_list (map nat us)" "sum_list (map nat us) \<le> unat n + (xfer - 1)"
    using pipe_reader.meets_goal [OF assms(1-4)] by blast
  moreover have "pipe_write n 0 rs = pipe_pass n 0 rs" "unix_pass n 0 rs = pipe_pass n 0 rs" "tcp_pass (if n \<le> 0 then 0 else n - 0) rs = pipe_pass n 0 rs"
    unfolding pipe_writer.drains [OF assms(1-3)] unix_reader.drains [OF assms(1-3)] pipe_reader.drains [OF assms(1-3)] tcp_reader.drains [OF assms(1-3)] by (rule refl)+
  moreover have "tcp_pass (if n \<le> 0 then 0 else n - 0) rs = tcp_pass n rs" by simp
  moreover have "sum_list (map nat us) < unat n + xfer" using us(4) assms(5) by linarith
  ultimately show ?thesis by metis
qed

text \<open>The end of the file: when the writer of \<open>bw_pipe\<close> is gone and \<open>read\<close> returns 0, the reader never returns.\<close>

theorem pipe_reader_hangs:
  assumes "got < n"
  shows "pipe_pass n got (replicate k 0) = None"
  using assms by (induction k) auto

text \<open>An error of \<open>read\<close> in \<open>bw_unix\<close> is taken for a transfer: the first error of an iteration ends it as if all bytes had come.\<close>

theorem unix_error_unseen:
  assumes "n \<noteq> 0"
  shows "unix_pass n 0 (- 1 # rs) = Some (Done rs)"
  using assms by (cases rs) (auto simp: word_gt_0 not_le)

text \<open>C36. The number of bytes: the rounding of \<open>bw_tcp\<close> gives the smallest multiple of the message size that is not below the number asked for; that of \<open>bw_pipe\<close>, \<open>bw_unix\<close> and \<open>bw_udp\<close> keeps the remainder,
  so that a number that is not a multiple never becomes one.\<close>

theorem rounding_to_messages:
  assumes "0 < msize" "0 < n" "unat n < 2 ^ 63" "unat msize < 2 ^ 63"
  shows "(\<exists>v. tcp_sizes msize n = (msize, v) \<and> unat v mod unat msize = 0 \<and> unat n \<le> unat v \<and> unat v < unat n + unat msize)
    \<and> (\<exists>v. round_bytes n msize = Some v \<and> unat v mod unat msize = unat n mod unat msize)"
proof -
  let ?a = "unat n" and ?b = "unat msize"
  have b: "0 < ?b" "n \<noteq> 0" "msize \<noteq> 0" using assms(1,2) by (auto simp: word_less_nat_alt)
  have m: "unat (n mod msize) = ?a mod ?b" by (rule unat_mod_distrib)
  have lt: "?a mod ?b < ?b" "?a mod ?b \<le> ?a" using b by simp_all
  have up: "unat (msize - n mod msize) = ?b - ?a mod ?b" "unat (n - n mod msize) = ?a - ?a mod ?b" using lt m by (simp_all add: unat_sub word_le_nat_alt)
  have v1: "unat (n + (msize - n mod msize)) = ?a + (?b - ?a mod ?b)" using up(1) lt assms(3,4) by (subst unat_add_lem [THEN iffD1]) auto
  have v2: "unat (n + (n - n mod msize)) = ?a + (?a - ?a mod ?b)" using up(2) lt assms(3,4) by (subst unat_add_lem [THEN iffD1]) auto
  have "?a + (?b - ?a mod ?b) = ?b * (?a div ?b) + ?b" using lt mult_div_mod_eq [of ?b ?a] by linarith
  then have "(?a + (?b - ?a mod ?b)) mod ?b = 0" by simp
  then have "\<exists>v. tcp_sizes msize n = (msize, v) \<and> unat v mod ?b = 0 \<and> ?a \<le> unat v \<and> unat v < ?a + ?b"
  proof (cases "n mod msize = 0")
    case True
    then show ?thesis using b m by (auto simp: tcp_sizes_def)
  next
    case False
    then have "0 < ?a mod ?b" using m by (metis gr0I unat_eq_zero)
    then have "?a + (?b - ?a mod ?b) < ?a + ?b" using lt by linarith
    then show ?thesis using False b v1 lt \<open>_ mod ?b = 0\<close> by (simp add: tcp_sizes_def)
  qed
  moreover have "?a + (?a - ?a mod ?b) = ?a + ?b * (?a div ?b)" using mult_div_mod_eq [of ?b ?a] by linarith
  then have "(?a + (?a - ?a mod ?b)) mod ?b = ?a mod ?b" by simp
  then have "\<exists>v. round_bytes n msize = Some v \<and> unat v mod ?b = ?a mod ?b"
    using b v2 by (cases "n mod msize = 0") (auto simp: round_bytes_def)
  ultimately show ?thesis by blast
qed

text \<open>The message size: the server of \<open>bw_tcp\<close> reads the size that the client has sent.\<close>

theorem control_roundtrip: "source_size (tcp_control msize) = Some msize"
proof -
  let ?d = "show_nat (unat msize)"
  have d: "\<forall>c \<in> set ?d. is_digit c" "?d \<noteq> []" "dec_val ?d = unat msize" using show_nat_digits [of "unat msize"] by (simp_all add: list_all_iff)
  have small: "unat msize < 2 ^ 64" using unsigned_less [of msize, where ?'a = nat] by simp
  then have "unat msize < 10 ^ 20" by (rule order_less_trans) simp
  then have "length ?d \<le> 20" by (rule length_show_nat) simp
  moreover have "\<forall>c \<in> set ?d. c \<noteq> CHR 0x00" using d(1) by (auto simp: is_digit_def)
  ultimately have "takeWhile (\<lambda>c. c \<noteq> CHR 0x00) (take 100 (tcp_control msize) @ replicate (100 - length (tcp_control msize)) (CHR 0x00)) = ?d"
    by (simp add: tcp_control_def takeWhile_append)
  moreover have n: "\<not> 2 ^ 64 \<le> dec_val ?d" using small d(3) by linarith
  have "scan_llu (?d @ []) = Some (of_nat (dec_val ?d))" using digits_scan [OF d(1,2), of "[]"] by (simp only: n if_False simp_thms)
  then have "scan_llu ?d = Some msize" by (simp add: d(3))
  ultimately show ?thesis by (simp add: source_size_def)
qed

text \<open>\<open>bw_udp\<close> receives in the first iteration only: with any number of iterations the bytes of one iteration are received.\<close>

theorem udp_receives_once:
  assumes "0 < msize" "int (k - 1) * msize < move" "move \<le> int k * msize"
  shows "udp_transfer (Suc iters) move msize (replicate k msize @ rs) = Some (Done (move - int k * msize, rs, Suc iters))"
  using udp_recv_all [OF assms(1,3), of rs] assms udp_later [of "move - int k * msize"] by (simp add: udp_transfer_def)

text \<open>\<open>bw_file_rd\<close>: when every read succeeds, \<open>doit\<close> asks for exactly \<open>count\<close> bytes, in pieces that fit into the buffer, and hands every piece to \<open>bread\<close>.\<close>

theorem doit_reads_all:
  assumes "file_xfersize n = Done x" "\<forall>r \<in> set rs. 0 < r" "unat n \<le> length rs * unat x"
  shows "\<exists>qs. doit x n x rs = Some qs \<and> sum_list (map (\<lambda>q. unat (fst q)) qs) = unat n \<and> (\<forall>(a, b) \<in> set qs. a = b \<and> b \<le> XFERSIZE)"
proof -
  have x: "0 < x" "x \<le> XFERSIZE" using assms(1) by (auto simp: file_xfersize_def MINSZ_def XFERSIZE_def word_gt_0 split: if_splits)
  then obtain qs where "doit x n x rs = Some qs" "sum_list (map (\<lambda>q. unat (fst q)) qs) = unat n" "\<forall>(a, b) \<in> set qs. a = b \<and> b \<le> x"
    using doit_covers [OF x(1) assms(2), of x n] assms(3) by auto
  then show ?thesis using x(2) by fastforce
qed

theorem transfers_meet_goal_witness:
  "\<exists>us rest. [3, 5, 5, 1] = us @ rest \<and> 10 \<le> sum_list (map nat us) \<and> pipe_pass 10 0 [3, 5, 5, 1] = Some (Done rest) \<and> tcp_pass 10 [3, 5, 5, 1] = Some (Done rest)"
proof -
  have g: "good_reads 5 [3, 5, 5, 1]" by (simp add: good_reads_def)
  have n: "(5 :: nat) < 2 ^ 31" "unat (10 :: u64) + 5 < 2 ^ 64" "unat (10 :: u64) \<le> sum_list (map nat [3, 5, 5, 1])" "(0 :: nat) < 5" "unat (10 :: u64) = 10" by simp_all
  from transfers_meet_goal [OF g n(1-4)] show ?thesis unfolding n(5) by blast
qed

theorem pipe_reader_hangs_witness: "pipe_pass 10 4 (replicate 5 0) = None"
  using pipe_reader_hangs [of 4 10 5] by simp

theorem unix_error_unseen_witness: "unix_pass 10 0 [- 1, 5] = Some (Done [5])"
  using unix_error_unseen [of 10 "[5]"] by (simp del: unix_pass.simps)

theorem rounding_to_messages_witness: "\<exists>v. round_bytes 10 4 = Some v \<and> unat v mod 4 = 2"
  using rounding_to_messages [of 4 10] by auto

theorem udp_receives_once_witness: "udp_transfer 5 10 4 (replicate 3 4 @ [4]) = Some (Done (- 2, [4], 5))"
  using udp_receives_once [of 4 3 10 4 "[4]"] by (simp add: numeral_eq_Suc del: udp_iterations.simps)

theorem doit_reads_all_witness: "\<exists>qs. doit XFERSIZE 100000 XFERSIZE [1, 1] = Some qs \<and> sum_list (map (\<lambda>q. unat (fst q)) qs) = 100000"
proof -
  have x: "file_xfersize 100000 = Done XFERSIZE" by (simp add: file_xfersize_def MINSZ_def XFERSIZE_def)
  have r: "\<forall>r \<in> set [1 :: int, 1]. 0 < r" "unat (100000 :: u64) \<le> length [1 :: int, 1] * unat XFERSIZE" "unat (100000 :: u64) = 100000" by (simp_all add: XFERSIZE_def)
  from doit_reads_all [OF x r(1,2)] show ?thesis unfolding r(3) by blast
qed

end
