(* ===== verification/Spec2Isabelle.thy ===== *)
theory Spec2Isabelle
  imports System Overhead Stats Memtest Getopt Sched Debug Bwmem Mhz Lmdd Msgring_Setup Ctx_Ring Cache_Report Tlb Memsize Lat_Mem_Rd Transfers
begin

text \<open>
  \<^bold>\<open>lmbench with the QNX modifications\<close>

  The program is a set of micro-benchmarks in C under \<open>src/src\<close>. Each benchmark is a function that is called with a number of iterations; a common library times the calls, chooses the number of iterations, runs
  several copies in parallel, merges their results and reports them. This development models the library and the benchmarks that have logic of their own, and proves the properties that make them correct. One theory
  models one part; the order of the definitions is that of the C code, and their names are its names.

  \<^bold>\<open>The timing library\<close> (\<open>lib_timing.c\<close>, \<open>bench.h\<close>, \<open>TIMES.c\<close>).
  \<^item> \<open>Timeval\<close>: \<open>tvsub\<close>, \<open>tvdelta\<close> and the QNX replacements of the clock functions. \<open>Results\<close>: the sorted array \<open>result_t\<close> (\<open>insertinit\<close>, \<open>insertsort\<close>, \<open>sizeof_result\<close>). \<open>insertsort\<close>
    refines insertion into a sorted list and stays inside of its allocation. The size \<open>sizeof_result\<close> returns is an \<open>int\<close>: from \<open>2 ^ 27\<close> repetitions on, for the parent of parallel runs repetitions times children, it is cut
    down and too small, so that the theorems on allocated arrays are for fewer.
  \<^item> \<open>Timing\<close>: the state of the library as a record (\<open>start_tv\<close>, \<open>stop_tv\<close>, \<open>iterations\<close>, the current results), \<open>start\<close>, \<open>stop\<close>, \<open>settime\<close>, \<open>gettime\<close>, \<open>save_minimum\<close>, \<open>save_median\<close>, \<open>set_results\<close> and
    every report; what is printed is a list of fields. \<open>Util\<close>: number formats, \<open>bytes\<close>, \<open>bread\<close>, \<open>touch\<close>, \<open>permutation\<close>, \<open>cp\<close>, \<open>seekto\<close>.
  \<^item> \<open>Interval\<close>: the child of \<open>benchmp\<close>, the state machine \<open>benchmp_interval\<close> (warm-up, timing, cool-down) as a function of the clock and of the answers of the pipes. \<open>Benchmp\<close>: the parent as a step function, the fork, error and
    clean-up paths. \<open>System\<close>: both together as an inductive step relation over all interleavings of the processes and of the bytes in the pipes; by rule induction the merged results are the union of those of the children,
    nobody is measured before all are ready, no one is asked for results before all are done, and every reachable state can finish.
  \<^item> \<open>Overhead\<close>: the macros \<open>BENCH\<close>, \<open>BENCH1\<close>, \<open>BENCHO\<close>, \<open>BENCH_INNER\<close>, the measurement of the timing and loop overheads and the search for a sufficient interval. \<open>Stats\<close> (\<open>lib_stats.c\<close>): medians, moments, bootstrap,
    regression. \<open>Debug\<close> (\<open>lib_debug.c\<close>): percentiles, the printing of results, the check of a chain.
  \<^item> \<open>Getopt\<close> (\<open>getopt.c\<close>) and \<open>Sched\<close> (\<open>lib_sched.c\<close>): the option parser and the placement of the children on processors.

  \<^bold>\<open>The memory benchmarks\<close>.
  \<^item> \<open>Memory\<close>, \<open>Bits\<close>, \<open>Memchain\<close>, \<open>Ring_Layout\<close>, \<open>Chains\<close> (\<open>lib_mem.c\<close>): an explicit store with allocated blocks, the five initialisers that write chains of pointers into it, the walkers, and the proof that
    every initialiser builds one ring; for the chains of lines it goes through exactly the first words of the lines of the chosen pages. \<open>Memtest\<close>: \<open>line_test\<close>, which leaves the chain as it was, \<open>line_find\<close>, whose answer is the one a
    reference over the measured times gives, \<open>par_mem\<close>.
  \<^item> \<open>Lat_Mem_Rd\<close> (\<open>lat_mem_rd.c\<close>): the sizes, and that one iteration walks the whole chain. \<open>Tlb\<close> (\<open>tlb.c\<close>): the search for the number of pages. \<open>Memsize\<close> (\<open>memsize.c\<close>): the search for a block and the touching of it.
  \<^item> \<open>Cache_Pages\<close>, \<open>Cache\<close>, \<open>Cache_Report\<close> (\<open>cache.c\<close>): the search for pages that collide in the cache, the refinement of the samples, the levels, and the report.
  \<^item> \<open>Bwmem\<close> (\<open>bw_mem.c\<close>): the nine unrolled loops, against what they do to the words of the buffer. \<open>Mhz\<close> (\<open>mhz.c\<close>): the analysis of the clock rate.

  \<^bold>\<open>The other programs\<close>.
  \<^item> \<open>Lmdd_Args\<close>, \<open>Lmdd\<close> (\<open>lmdd.c\<close>): the command line, the copy loop, patterns, random offsets, histograms.
  \<^item> \<open>Msgring\<close>, \<open>Msgring_Setup\<close>, \<open>Ctext\<close> (\<open>msgring.c\<close>): the ring of processes that pass a message, as a step relation, the fork chain that builds it, the file, the options, and the pipes that stand for QNX messages.
  \<^item> \<open>Transfers\<close> (\<open>bw_pipe.c\<close>, \<open>bw_unix.c\<close>, \<open>bw_tcp.c\<close>, \<open>bw_udp.c\<close>, \<open>bw_file_rd.c\<close>): the loops that move a number of bytes, the rounding of that number, and the control message of \<open>bw_tcp\<close>.
  \<^item> \<open>Ctx_Ring\<close> (\<open>lat_ctx.c\<close>, \<open>PIPE.c\<close>): the token ring over pipes, its creation and its removal.

  \<^bold>\<open>How the code is modelled\<close>. A structure is a record and an enumeration a datatype. \<open>uint64\<close> is a \<open>64 word\<close>; \<open>int\<close> is an integer with \<open>wrap32\<close> where it may overflow (C leaves a signed overflow undefined; the model has it wrap around, also for the counter of
  \<open>pagesort\<close> on no pages); \<open>size_t\<close> is a natural number, with the wrap-around written
  out where the code reaches it. \<open>double\<close> is the type \<open>dbl\<close> of \<open>CDouble\<close>: real numbers rounded to 53 bits, infinities and NaN, with comparisons that are false on NaN. An access outside of an array, a division by zero and a read of what was
  not set are \<open>None\<close> or \<open>Undefined\<close>; \<open>exit\<close> is \<open>Exit\<close> with its status. The clock, \<open>rand\<close>, the operating system and the bodies of the benchmarks are arguments: functions of the number of the call, or lists of answers.

  \<^bold>\<open>Interfaces\<close>. \<open>chain_writer\<close> (\<open>Memory\<close>) is what the walkers rely on: a list of stores that builds a ring; it is interpreted for the writes of every initialiser in \<open>Ring_Layout\<close>. \<open>chunk_body\<close> (\<open>Bwmem\<close>) is one 512-byte chunk of an unrolled loop,
  interpreted for seven of the benchmarks. \<open>comparison\<close> (\<open>Stats\<close>) is a comparison function for \<open>qsort\<close>, interpreted for the three of the library. \<open>counted_run\<close> (\<open>Countdown\<close>) is a step relation in which every state knows how
  many steps are left; it gives termination, absence of deadlock and the final state, for the message ring and for the token ring. \<open>draining\<close> (\<open>Transfers\<close>) is a loop that uses up answers until enough bytes have come, interpreted for the
  readers of \<open>bw_pipe\<close>, \<open>bw_unix\<close> and \<open>bw_tcp\<close> and the writer of \<open>bw_pipe\<close>. \<open>rounding\<close> (\<open>CDouble\<close>) holds the laws of rounding that the arithmetic on \<open>dbl\<close> needs.

  \<^bold>\<open>Bounds and fuel\<close>. Loops are structural or have a measure. Where the code may loop forever there is fuel, and a theorem says how much is enough: the depth of \<open>test_chunk\<close> is at most the size of the chunk, that of \<open>search\<close> the distance of the samples,
  the levels of \<open>cache\<close> are at most the samples, the halving of a size in \<open>memsize\<close> and in \<open>line_find\<close> takes at most 65 or 66 rounds for 64-bit sizes, the \<open>getopt\<close> loop as many calls as there are letters. A list of passes or answers that is too short gives \<open>None\<close>; the
  theorems say which length is enough.

  \<^bold>\<open>Not modelled\<close>. Benchmarks whose body is one system call in a loop (\<open>lat_syscall.c\<close>, \<open>lat_sig.c\<close>, \<open>lat_proc.c\<close> and others) and the latency benchmarks of pipes, sockets, RPC, HTTP, files and disks: they consist of calls of the operating system, and their arithmetic is that of \<open>benchmp\<close>.
  \<open>lat_ops.c\<close>, \<open>par_ops.c\<close>, \<open>stream.c\<close>: arithmetic whose values are thrown away; only its time matters. \<open>lat_ctx_qnx.c\<close> has the functions of \<open>lat_ctx.c\<close> once more, with the pipes of the system. The options of most \<open>main\<close> functions are read with \<open>getopt\<close> and assigned to variables. In the parts that are modelled, the branches for
  other operating systems, \<open>check_memory\<close> of \<open>cache.c\<close>, which is commented out, and the resource usage and asynchronous writes of \<open>lmdd.c\<close> are left out, and so is its \<open>time=\<close>, an alarm that calls \<open>done\<close> at any point. The steps of
  \<open>System\<close> are those of a run without signals and read errors; \<open>Benchmp\<close> has these paths for the parent alone.
\<close>

end
